(* ===== verification/Prelude.thy ===== *)
theory Prelude
  imports Main "HOL-Library.Word"
begin

unbundle bit_operations_syntax

text \<open>
  Shared vocabulary of the kernel model: machine integer types of
  \<^verbatim>\<open>common/defines.h\<close>, the error values a kernel routine can end with, the sequencing
  combinator of fallible routines, and general lemmas on lists and words.
\<close>

named_theorems res_simps \<open>evaluation of fallible computations\<close>

section \<open>Machine types\<close>

type_synonym u8 = "8 word"
type_synonym u16 = "16 word"
type_synonym u32 = "32 word"
type_synonym u64 = "64 word"
type_synonym ptr = "64 word"

abbreviation (input) NULL :: ptr where
  "NULL \<equiv> 0"

section \<open>Errors and fallible computations\<close>

text \<open>
  \<open>Panic\<close> is a call of \<^verbatim>\<open>PANIC\<close> or a failed \<^verbatim>\<open>assert\<close> (its message), \<open>NullDeref\<close> an
  access through a null pointer, \<open>OutOfBounds\<close> an access outside an array, \<open>Blocked\<close> a
  call of \<^verbatim>\<open>sleep\<close> that only another thread can end, \<open>OutOfFuel\<close> a loop
  that did not end within the bound given to it.
\<close>

datatype error = Panic string | NullDeref | OutOfBounds | Blocked | OutOfFuel

type_synonym 'a res = "error + 'a"

definition bindE :: "'a res \<Rightarrow> ('a \<Rightarrow> 'b res) \<Rightarrow> 'b res" where
  "bindE m f = (case m of Inl e \<Rightarrow> Inl e | Inr x \<Rightarrow> f x)"

definition assertE :: "bool \<Rightarrow> string \<Rightarrow> unit res" where
  "assertE b msg = (if b then Inr () else Inl (Panic msg))"

lemma bindE_Inr [simp, res_simps]: "bindE (Inr x) f = f x"
  by (simp add: bindE_def)

lemma bindE_Inl [simp, res_simps]: "bindE (Inl e) f = Inl e"
  by (simp add: bindE_def)

lemma bindE_eq_Inr: "bindE m f = Inr y \<longleftrightarrow> (\<exists>x. m = Inr x \<and> f x = Inr y)"
  by (cases m) auto

lemma bindE_eq_Inl: "bindE m f = Inl e \<longleftrightarrow> m = Inl e \<or> (\<exists>x. m = Inr x \<and> f x = Inl e)"
  by (cases m) auto

text \<open>\<open>ensures m Q\<close>: if \<open>m\<close> returns a value, \<open>Q\<close> holds of it.\<close>

definition ensures :: "'a res \<Rightarrow> ('a \<Rightarrow> bool) \<Rightarrow> bool" where
  "ensures m Q \<longleftrightarrow> (\<forall>x. m = Inr x \<longrightarrow> Q x)"

lemma ensuresI: "(\<And>x. m = Inr x \<Longrightarrow> Q x) \<Longrightarrow> ensures m Q"
  by (simp add: ensures_def)

lemma ensuresD: "ensures m Q \<Longrightarrow> m = Inr x \<Longrightarrow> Q x"
  by (simp add: ensures_def)

lemma ensures_Inr [simp]: "ensures (Inr x) Q \<longleftrightarrow> Q x"
  by (simp add: ensures_def)

lemma ensures_Inl [simp]: "ensures (Inl e) Q"
  by (simp add: ensures_def)

lemma ensures_bindI: "ensures m P \<Longrightarrow> (\<And>x. P x \<Longrightarrow> ensures (f x) Q) \<Longrightarrow> ensures (bindE m f) Q"
  by (auto simp: ensures_def bindE_eq_Inr)

lemma bindE_assoc: "bindE (bindE m f) g = bindE m (\<lambda>x. bindE (f x) g)"
  by (cases m) auto

lemma assertE_True [simp, res_simps]: "assertE True msg = Inr ()"
  by (simp add: assertE_def)

lemma assertE_False [simp, res_simps]: "assertE False msg = Inl (Panic msg)"
  by (simp add: assertE_def)

lemma assertE_eq_Inr [simp]: "assertE b msg = Inr u \<longleftrightarrow> b"
  by (simp add: assertE_def)

lemma assertE_eq_Inl [simp]: "assertE b msg = Inl e \<longleftrightarrow> \<not> b \<and> e = Panic msg"
  by (auto simp: assertE_def)

section \<open>Linear search\<close>

text \<open>
  The loop \<^verbatim>\<open>for (i = a; i < n; i++) if (p(i)) return i;\<close>, which the bitmap, slot and table
  searches of the kernel share.
\<close>

function find_from :: "(nat \<Rightarrow> bool) \<Rightarrow> nat \<Rightarrow> nat \<Rightarrow> nat option" where
  "find_from p i n = (if i < n then if p i then Some i else find_from p (Suc i) n else None)"
  by pat_completeness auto
termination
  by (relation "measure (\<lambda>(p, i, n). n - i)") auto

declare find_from.simps [simp del]

lemma find_from_Some:
  "find_from p i n = Some k \<longleftrightarrow> i \<le> k \<and> k < n \<and> p k \<and> (\<forall>j. i \<le> j \<and> j < k \<longrightarrow> \<not> p j)"
proof (induction p i n rule: find_from.induct)
  case (1 p i n)
  show ?case
  proof (cases "i < n \<and> \<not> p i")
    case True
    then have "find_from p i n = find_from p (Suc i) n"
      by (simp add: find_from.simps [of p i n])
    moreover have "\<And>j. i \<le> j \<longleftrightarrow> j = i \<or> Suc i \<le> j" by auto
    ultimately show ?thesis
      using True 1 by auto
  next
    case False
    then show ?thesis
      by (auto simp: find_from.simps [of p i n])
  qed
qed

lemma find_from_None: "find_from p i n = None \<longleftrightarrow> (\<forall>j. i \<le> j \<and> j < n \<longrightarrow> \<not> p j)"
proof (induction p i n rule: find_from.induct)
  case (1 p i n)
  show ?case
  proof (cases "i < n \<and> \<not> p i")
    case True
    then have "find_from p i n = find_from p (Suc i) n"
      by (simp add: find_from.simps [of p i n])
    moreover have "\<And>j. i \<le> j \<longleftrightarrow> j = i \<or> Suc i \<le> j" by auto
    ultimately show ?thesis
      using True 1 by auto
  next
    case False
    then show ?thesis
      by (auto simp: find_from.simps [of p i n])
  qed
qed

lemma find_from_empty [simp]: "find_from p n n = None"
  by (simp add: find_from.simps)

section \<open>Little-endian byte images\<close>

text \<open>
  The kernel reinterprets byte buffers as arrays of wider integers by pointer casts; the
  target is little-endian (\<^verbatim>\<open>-mlittle-endian\<close>).
\<close>

definition le_bytes :: "nat \<Rightarrow> 'a::len word \<Rightarrow> u8 list" where
  "le_bytes n w = map (\<lambda>i. ucast (drop_bit (8 * i) w)) [0..<n]"

fun le_word :: "u8 list \<Rightarrow> 'a::len word" where
  "le_word [] = 0"
| "le_word (b # bs) = ucast b OR push_bit 8 (le_word bs)"

lemma length_le_bytes [simp]: "length (le_bytes n w) = n"
  by (simp add: le_bytes_def)

lemma bit_le_word:
  "bit (le_word bs :: 'a::len word) n \<longleftrightarrow>
     n < LENGTH('a) \<and> n div 8 < length bs \<and> bit (bs ! (n div 8)) (n mod 8)"
proof (induction bs arbitrary: n)
  case Nil
  then show ?case by simp
next
  case (Cons b bs)
  show ?case
  proof (cases "n < 8")
    case True
    then show ?thesis
      by (auto simp: bit_or_iff bit_push_bit_iff bit_ucast_iff)
  next
    case False
    then obtain m where m: "n = m + 8" by (metis add.commute le_add_diff_inverse not_less)
    then have "n div 8 = Suc (m div 8)" and "n mod 8 = m mod 8" by simp_all
    moreover have "\<not> bit b n"
      using False by (auto dest: bit_imp_le_length)
    ultimately show ?thesis
      using m by (auto simp: bit_or_iff bit_push_bit_iff bit_ucast_iff Cons.IH)
  qed
qed

lemma bit_le_bytes:
  "i < n \<Longrightarrow> bit (le_bytes n w ! i) k \<longleftrightarrow> k < 8 \<and> bit w (8 * i + k)"
  by (auto simp: le_bytes_def bit_ucast_iff bit_drop_bit_eq)

lemma le_word_le_bytes:
  fixes w :: "'a::len word"
  assumes "LENGTH('a) \<le> 8 * n"
  shows "le_word (le_bytes n w) = w"
proof (rule bit_word_eqI)
  fix k assume k: "k < LENGTH('a)"
  then have "k div 8 < n" using assms by auto
  then show "bit (le_word (le_bytes n w) :: 'a word) k = bit w k"
    using k by (simp add: bit_le_word bit_le_bytes)
qed

lemma le_bytes_le_word:
  assumes "length bs = n" and "8 * n \<le> LENGTH('a::len)"
  shows "le_bytes n (le_word bs :: 'a word) = bs"
proof (rule nth_equalityI)
  show "length (le_bytes n (le_word bs :: 'a word)) = length bs"
    using assms by simp
next
  fix i assume "i < length (le_bytes n (le_word bs :: 'a word))"
  then have i: "i < n" by simp
  show "le_bytes n (le_word bs :: 'a word) ! i = bs ! i"
  proof (rule bit_word_eqI)
    fix k assume "k < LENGTH(8)"
    then have k: "k < 8" by simp
    have "8 * i + k < LENGTH('a)" using i k assms(2) by auto
    then show "bit (le_bytes n (le_word bs :: 'a word) ! i) k = bit (bs ! i) k"
      using i k assms by (simp add: bit_le_bytes bit_le_word)
  qed
qed

text \<open>Arrays of \<open>k\<close>-byte integers laid out in a byte buffer.\<close>

fun chunks :: "nat \<Rightarrow> 'a list \<Rightarrow> 'a list list" where
  "chunks k xs = (if k = 0 \<or> length xs < k then [] else take k xs # chunks k (drop k xs))"

declare chunks.simps [simp del]

lemma chunks_Cons: "length x = k \<Longrightarrow> 0 < k \<Longrightarrow> chunks k (x @ xs) = x # chunks k xs"
  by (simp add: chunks.simps [of k "x @ xs"])

lemma chunks_concat:
  "0 < k \<Longrightarrow> (\<And>x. x \<in> set xss \<Longrightarrow> length x = k) \<Longrightarrow> chunks k (concat xss) = xss"
  by (induction xss) (auto simp: chunks_Cons chunks.simps [of k "[]"])

lemma length_chunks: "0 < k \<Longrightarrow> length (chunks k xs) = length xs div k"
proof (induction k xs rule: chunks.induct)
  case (1 k xs)
  then show ?case
    by (cases "length xs < k") (auto simp: chunks.simps [of k xs] le_div_geq not_less)
qed

lemma length_chunks_member: "c \<in> set (chunks k xs) \<Longrightarrow> length c = k"
proof (induction k xs rule: chunks.induct)
  case (1 k xs)
  then show ?case
    by (auto simp: chunks.simps [of k xs] split: if_splits)
qed

lemma concat_chunks: "k dvd length xs \<Longrightarrow> 0 < k \<Longrightarrow> concat (chunks k xs) = xs"
proof (induction k xs rule: chunks.induct)
  case (1 k xs)
  show ?case
  proof (cases "length xs < k")
    case True
    with 1 have "length xs = 0" using nat_dvd_not_less by blast
    then show ?thesis using 1(3) by (simp add: chunks.simps [of k "[]"])
  next
    case False
    with 1 show ?thesis by (auto simp: chunks.simps [of k xs])
  qed
qed

lemma nth_chunks:
  "0 < k \<Longrightarrow> i < length xs div k \<Longrightarrow> chunks k xs ! i = take k (drop (k * i) xs)"
proof (induction k xs arbitrary: i rule: chunks.induct)
  case (1 k xs)
  have ge: "\<not> length xs < k"
    using "1.prems" by auto
  show ?case
  proof (cases i)
    case 0
    then show ?thesis using ge "1.prems" by (simp add: chunks.simps [of k xs])
  next
    case (Suc j)
    have "j < length (drop k xs) div k"
      using "1.prems" Suc ge by (simp add: le_div_geq not_less)
    with "1.IH" "1.prems" ge have "chunks k (drop k xs) ! j = take k (drop (k * j) (drop k xs))"
      by auto
    then show ?thesis
      using Suc ge "1.prems" by (simp add: chunks.simps [of k xs] add.commute)
  qed
qed

section \<open>Words\<close>

lemma unat_ptr_less: "unat (a :: u64) < 2 ^ 64"
  using unsigned_less [of a] by simp

lemma unat_plus_ptr: "unat a + unat b < 2 ^ 64 \<Longrightarrow> unat (a + b) = unat a + unat b" for a b :: u64
  using unat_add_lem [THEN iffD1, of a b] by simp

lemma unat_of_nat_ptr: "n < 2 ^ 64 \<Longrightarrow> unat (of_nat n :: u64) = n"
  by (simp add: unat_of_nat)

lemma sint_u64: "sint (u :: u64) = (if uint u < 2 ^ 63 then uint u else uint u - 2 ^ 64)"
proof -
  have "sint u = (uint u + 2 ^ 63) mod 2 ^ 64 - 2 ^ 63" using int_word_sint [of "uint u", where 'a = 64] by simp
  moreover have "0 \<le> uint u" "uint u < 2 ^ 64" using uint_lt2p [of u] by simp_all
  ultimately show ?thesis
    using mod_add_self2 [of "uint u - 2 ^ 63" "2 ^ 64 :: int"] by (auto simp: algebra_simps)
qed

lemma sint_neg_u64: "sint (u :: u64) < 0 \<Longrightarrow> int (unat (- u)) = - sint u"
proof -
  assume "sint u < 0"
  then have "2 ^ 63 \<le> uint u" "sint u = uint u - 2 ^ 64" "uint u < 2 ^ 64"
    using uint_lt2p [of u] by (auto simp: sint_u64 split: if_splits)
  moreover from this have "(- uint u) mod 2 ^ 64 = 2 ^ 64 - uint u"
    using mod_add_self1 [of "2 ^ 64 :: int" "- uint u"] mod_pos_pos_trivial [of "2 ^ 64 - uint u" "2 ^ 64"] by simp
  ultimately show ?thesis by (simp add: uint_word_ariths(4))
qed

lemma sint_nonneg_u64: "\<not> sint (u :: u64) < 0 \<Longrightarrow> int (unat u) = sint u"
  using uint_lt2p [of u] by (auto simp: sint_u64 split: if_splits)

end
