(* ===== verification/Common_Defs.thy ===== *)
theory Common_Defs
  imports Prelude
begin

text \<open>
  Arithmetic helpers of \<^verbatim>\<open>common/defines.h\<close> (\<^verbatim>\<open>round_down\<close>, \<^verbatim>\<open>round_up\<close>, \<^verbatim>\<open>MIN\<close>, \<^verbatim>\<open>MAX\<close>) on
  64-bit unsigned words, with their wrap-around, and the reference counters of
  \<^verbatim>\<open>common/rc.c\<close>.
\<close>

section \<open>Rounding\<close>

definition c_MIN :: "'a::linorder \<Rightarrow> 'a \<Rightarrow> 'a" where
  "c_MIN a b = (if a \<le> b then a else b)"

definition c_MAX :: "'a::linorder \<Rightarrow> 'a \<Rightarrow> 'a" where
  "c_MAX a b = (if a \<ge> b then a else b)"

definition round_down :: "u64 \<Rightarrow> u64 \<Rightarrow> u64" where
  "round_down a b = a - a mod b"

definition round_up :: "u64 \<Rightarrow> u64 \<Rightarrow> u64" where
  "round_up a b = round_down (a + b - 1) b"

section \<open>Reference counters\<close>

record RefCount =
  count :: u64

definition init_rc :: "RefCount \<Rightarrow> RefCount" where
  "init_rc rc = rc\<lparr>count := 0\<rparr>"

definition increment_rc :: "RefCount \<Rightarrow> RefCount" where
  "increment_rc rc = rc\<lparr>count := count rc + 1\<rparr>"

definition decrement_rc :: "RefCount \<Rightarrow> bool \<times> RefCount" where
  "decrement_rc rc = (sint (count rc - 1) \<le> 0, rc\<lparr>count := count rc - 1\<rparr>)"

text \<open>Dropping references one after the other, with the answers \<^verbatim>\<open>decrement_rc\<close> gives.\<close>

fun drop_refs :: "nat \<Rightarrow> RefCount \<Rightarrow> bool list \<times> RefCount" where
  "drop_refs 0 rc = ([], rc)"
| "drop_refs (Suc n) rc =
     (let (b, rc1) = decrement_rc rc; (bs, rc2) = drop_refs n rc1 in (b # bs, rc2))"

section \<open>Lemmas\<close>

lemma unat_round_down: "unat (round_down a b) = unat a - unat a mod unat b"
  by (simp add: round_down_def unat_sub unat_mod word_le_nat_alt)

lemma unat_round_down_mult: "unat (round_down a b) = unat b * (unat a div unat b)"
  unfolding unat_round_down by (metis minus_mod_eq_mult_div)

lemma round_down_le: "round_down a b \<le> a"
  by (simp add: word_le_nat_alt unat_round_down)

lemma unat_add_pred:
  fixes a b :: u64
  assumes "b \<noteq> 0" and "unat a + unat b \<le> 2 ^ 64"
  shows "unat (a + b - 1) = unat a + unat b - 1"
proof -
  have b0: "0 < unat b" using assms(1) by (simp add: unat_gt_0)
  then have b: "1 \<le> b" by (simp add: word_le_nat_alt Suc_le_eq)
  have pred: "unat (b - 1) = unat b - 1"
    using b by (simp add: unat_sub)
  have "unat a + unat (b - 1) < 2 ^ LENGTH(64)"
    using assms(2) b0 pred by simp
  then have "unat (a + (b - 1)) = unat a + unat (b - 1)"
    by (rule unat_add_lem [THEN iffD1])
  then show ?thesis
    using b0 pred by (simp add: add_diff_eq)
qed

lemma unat_round_up:
  assumes "b \<noteq> 0" and "unat a + unat b \<le> 2 ^ 64"
  shows "unat (round_up a b) = unat b * ((unat a + unat b - 1) div unat b)"
  using unat_add_pred [OF assms] by (simp add: round_up_def unat_round_down_mult)

lemma sint_of_nat_small: "n < 2 ^ 63 \<Longrightarrow> sint (of_nat n :: u64) = int n"
  by (simp add: signed_of_nat signed_take_bit_int_eq_self)

lemma drop_refs_of_nat:
  "n \<le> m \<Longrightarrow> m < 2 ^ 63 \<Longrightarrow>
   drop_refs n \<lparr>count = of_nat m\<rparr> = (map (\<lambda>i. m \<le> Suc i) [0..<n], \<lparr>count = of_nat (m - n)\<rparr>)"
proof (induction n arbitrary: m)
  case 0
  then show ?case by simp
next
  case (Suc n)
  then obtain m' where m: "m = Suc m'" by (cases m) auto
  have "sint (of_nat m' :: u64) = int m'"
    using Suc.prems m by (intro sint_of_nat_small) simp
  then have "decrement_rc \<lparr>count = of_nat m\<rparr> = (m \<le> 1, \<lparr>count = of_nat m'\<rparr>)"
    using m by (simp add: decrement_rc_def)
  moreover have "drop_refs n \<lparr>count = of_nat m'\<rparr>
      = (map (\<lambda>i. m' \<le> Suc i) [0..<n], \<lparr>count = of_nat (m' - n)\<rparr>)"
    using Suc.prems m by (intro Suc.IH) auto
  moreover have "map (\<lambda>i. m \<le> Suc i) [0..<Suc n] = (m \<le> 1) # map (\<lambda>i. m' \<le> Suc i) [0..<n]"
    unfolding upt_conv_Cons [OF zero_less_Suc] map_Suc_upt [symmetric] m by simp
  ultimately show ?case
    using m by (simp del: upt_Suc)
qed

section \<open>Properties\<close>

text \<open>
  \<^verbatim>\<open>round_down\<close> returns the largest multiple of \<open>b\<close> that is at most \<open>a\<close>, and \<^verbatim>\<open>round_up\<close> the
  smallest multiple of \<open>b\<close> that is at least \<open>a\<close>, as long as \<open>a + b\<close> does not
  exceed the 64-bit range.
\<close>

theorem round_down_up_correct:
  assumes "b \<noteq> 0" and "unat a + unat b \<le> 2 ^ 64"
  shows "unat b dvd unat (round_down a b) \<and> round_down a b \<le> a
    \<and> (\<forall>d. unat b dvd unat d \<and> d \<le> a \<longrightarrow> d \<le> round_down a b)
    \<and> unat b dvd unat (round_up a b) \<and> a \<le> round_up a b
    \<and> (\<forall>d. unat b dvd unat d \<and> a \<le> d \<longrightarrow> round_up a b \<le> d)"
proof (intro conjI allI impI)
  have b: "0 < unat b" using assms(1) by (simp add: unat_gt_0)
  show "unat b dvd unat (round_down a b)" "round_down a b \<le> a"
    by (simp_all add: unat_round_down_mult round_down_le)
  show "unat b dvd unat (round_up a b)"
    by (simp add: unat_round_up [OF assms])
  fix d
  show "d \<le> round_down a b" if "unat b dvd unat d \<and> d \<le> a"
  proof -
    from that obtain k where k: "unat d = unat b * k" and "unat d \<le> unat a"
      by (auto simp: word_le_nat_alt)
    then have "k \<le> unat a div unat b"
      using b by (simp add: less_eq_div_iff_mult_less_eq mult.commute)
    then show ?thesis
      by (simp add: word_le_nat_alt unat_round_down_mult k)
  qed
  show "round_up a b \<le> d" if "unat b dvd unat d \<and> a \<le> d"
  proof -
    from that obtain k where k: "unat d = unat b * k" and le: "unat a \<le> unat d"
      by (auto simp: word_le_nat_alt)
    have "(unat a + unat b - 1) div unat b < Suc k"
      using b le k by (simp add: div_less_iff_less_mult algebra_simps)
    then show ?thesis
      by (simp add: word_le_nat_alt unat_round_up [OF assms] k)
  qed
  have "unat a \<le> unat b * ((unat a + unat b - 1) div unat b)"
  proof -
    have "unat a + unat b - 1 < unat b * Suc ((unat a + unat b - 1) div unat b)"
      using dividend_less_times_div [OF b, of "unat a + unat b - 1"] by simp
    then show ?thesis using b by simp
  qed
  then show "a \<le> round_up a b"
    by (simp add: word_le_nat_alt unat_round_up [OF assms])
qed

text \<open>
  of \<open>k\<close> references taken on a fresh counter, exactly the last \<^verbatim>\<open>decrement_rc\<close> reports that
  the object is unused.
\<close>

theorem last_reference_reported:
  assumes "0 < k" and "k < 2 ^ 63"
  shows "fst (drop_refs k ((increment_rc ^^ k) (init_rc rc))) = replicate (k - 1) False @ [True]"
proof -
  have inc: "(increment_rc ^^ k) (init_rc rc) = rc\<lparr>count := of_nat k\<rparr>" for k
    by (induction k) (simp_all add: init_rc_def increment_rc_def)
  have rc: "rc\<lparr>count := of_nat k\<rparr> = \<lparr>count = of_nat k\<rparr>" by simp
  obtain j where k: "k = Suc j" using assms(1) by (cases k) auto
  have "map (\<lambda>i. k \<le> Suc i) [0..<k] = replicate (k - 1) False @ [True]"
    unfolding k by (auto intro!: nth_equalityI simp: nth_append less_Suc_eq)
  then show ?thesis
    using drop_refs_of_nat [of k k] assms unfolding inc rc by simp
qed

end
