(* ===== verification/Physical_Memory.thy ===== *)
theory Physical_Memory
  imports Common_Defs
begin

text \<open>
  The physical page allocator of \<^verbatim>\<open>core/physical_memory.c\<close>: a free list threaded through
  the first word of every free page.  The operations of \<^verbatim>\<open>MemmoryManagerTable\<close> are the only
  ones ever installed in it, so the calls through the table are direct calls here; the
  critical sections of the table's spinlock are single steps.  The locale \<open>page_allocator\<close> is
  the contract that the object allocator relies on.
\<close>

section \<open>Operations\<close>

definition PAGE_SIZE :: u64 where
  "PAGE_SIZE = 4096"

definition P2K :: "u64 \<Rightarrow> ptr" where
  "P2K addr = addr + 0xFFFF000000000000"

definition phystop :: u64 where
  "phystop = 0x3F000000"

text \<open>The field \<^verbatim>\<open>next\<close> of the free list and the first word of every page.\<close>

record FreeList =
  fl_next :: ptr
  page_word :: "ptr \<Rightarrow> ptr"

definition freelist_alloc :: "FreeList \<Rightarrow> ptr \<times> FreeList" where
  "freelist_alloc f =
     (let p = fl_next f
      in if p \<noteq> NULL then (p, f\<lparr>fl_next := page_word f p\<rparr>) else (p, f))"

definition freelist_free :: "ptr \<Rightarrow> FreeList \<Rightarrow> FreeList res" where
  "freelist_free v f =
     (if v = NULL then Inl NullDeref
      else Inr (f\<lparr>page_word := (page_word f)(v := fl_next f), fl_next := v\<rparr>))"

text \<open>
  The loop of \<^verbatim>\<open>init_freelist\<close> and \<^verbatim>\<open>free_range\<close>; \<^verbatim>\<open>p + PAGE_SIZE\<close> is pointer arithmetic, which
  C defines only where it does not wrap.
\<close>

function free_range :: "ptr \<Rightarrow> ptr \<Rightarrow> FreeList \<Rightarrow> FreeList res" where
  "free_range p stop f =
     (if unat p + unat PAGE_SIZE \<le> unat stop
      then bindE (freelist_free p f) (free_range (p + PAGE_SIZE) stop)
      else Inr f)"
  by pat_completeness auto
termination
proof (relation "measure (\<lambda>(p, stop, f). unat stop - unat p)")
  fix p stop :: ptr and f f'
  assume le: "unat p + unat PAGE_SIZE \<le> unat stop"
  then have "unat (p + PAGE_SIZE) = unat p + unat PAGE_SIZE"
    using unat_ptr_less [of stop] by (intro unat_plus_ptr) simp
  with le show "((p + PAGE_SIZE, stop, f'), (p, stop, f)) \<in> measure (\<lambda>(p, stop, f). unat stop - unat p)"
    by (simp add: PAGE_SIZE_def)
qed simp

declare free_range.simps [simp del]

definition init_freelist :: "ptr \<Rightarrow> ptr \<Rightarrow> FreeList \<Rightarrow> FreeList res" where
  "init_freelist start stop f = free_range start stop f"

definition init_memory_manager :: "ptr \<Rightarrow> FreeList \<Rightarrow> FreeList res" where
  "init_memory_manager stop f =
     (let roundup_end = round_up stop PAGE_SIZE
      in init_freelist roundup_end (P2K phystop) f)"

definition kalloc :: "FreeList \<Rightarrow> ptr \<times> FreeList" where
  "kalloc f = freelist_alloc f"

definition kfree :: "ptr \<Rightarrow> FreeList \<Rightarrow> FreeList res" where
  "kfree va f = freelist_free va f"

section \<open>The abstract state: a list of free pages\<close>

fun fl_chain :: "(ptr \<Rightarrow> ptr) \<Rightarrow> ptr \<Rightarrow> ptr list \<Rightarrow> bool" where
  "fl_chain w p [] \<longleftrightarrow> p = NULL"
| "fl_chain w p (q # qs) \<longleftrightarrow> p = q \<and> q \<noteq> NULL \<and> fl_chain w (w q) qs"

definition free_pages :: "FreeList \<Rightarrow> ptr list \<Rightarrow> bool" where
  "free_pages f ps \<longleftrightarrow> fl_chain (page_word f) (fl_next f) ps \<and> distinct ps"

lemma fl_chain_frame: "fl_chain w p qs \<Longrightarrow> v \<notin> set qs \<Longrightarrow> fl_chain (w(v := x)) p qs"
  by (induction qs arbitrary: p) auto

lemma fl_chain_unique: "fl_chain w p qs \<Longrightarrow> fl_chain w p rs \<Longrightarrow> qs = rs"
proof (induction qs arbitrary: p rs)
  case Nil
  then show ?case by (cases rs) auto
next
  case (Cons q qs)
  then show ?case by (cases rs) auto
qed

section \<open>The contract of a page allocator\<close>

locale page_allocator =
  fixes alloc :: "'s \<Rightarrow> ptr \<times> 's"
    and free :: "ptr \<Rightarrow> 's \<Rightarrow> 's res"
    and rep :: "'s \<Rightarrow> ptr list \<Rightarrow> bool"
  assumes alloc_Nil: "rep s [] \<Longrightarrow> alloc s = (NULL, s)"
    and alloc_Cons: "rep s (p # ps) \<Longrightarrow> \<exists>s'. alloc s = (p, s') \<and> rep s' ps"
    and free_rep: "rep s ps \<Longrightarrow> v \<noteq> NULL \<Longrightarrow> v \<notin> set ps \<Longrightarrow> \<exists>s'. free v s = Inr s' \<and> rep s' (v # ps)"
    and rep_distinct: "rep s ps \<Longrightarrow> distinct ps \<and> NULL \<notin> set ps"
begin

lemma alloc_cases:
  assumes "rep s ps"
  obtains (empty) "ps = []" "alloc s = (NULL, s)"
  | (page) p qs s' where "ps = p # qs" "alloc s = (p, s')" "rep s' qs" "p \<noteq> NULL" "p \<notin> set qs"
proof (cases ps)
  case Nil
  then show thesis using alloc_Nil assms empty by auto
next
  case (Cons p qs)
  with assms alloc_Cons obtain s' where "alloc s = (p, s')" "rep s' qs" by blast
  moreover have "distinct ps \<and> NULL \<notin> set ps" using rep_distinct assms by blast
  ultimately show thesis using Cons by (intro page) auto
qed

lemma alloc_fails_iff:
  assumes "rep s ps"
  shows "fst (alloc s) = NULL \<longleftrightarrow> ps = []"
  using assms by (rule alloc_cases) auto

lemma alloc_free:
  assumes "rep s ps" and "alloc s = (p, s')" and "p \<noteq> NULL"
  shows "\<exists>s''. free p s' = Inr s'' \<and> rep s'' ps"
  using assms(1) by (rule alloc_cases) (use assms(2,3) free_rep in auto)

end

interpretation pm: page_allocator kalloc kfree free_pages
proof
  fix s :: FreeList
  assume "free_pages s []"
  then show "kalloc s = (NULL, s)"
    by (simp add: free_pages_def kalloc_def freelist_alloc_def)
next
  fix s :: FreeList and p ps
  assume "free_pages s (p # ps)"
  then show "\<exists>s'. kalloc s = (p, s') \<and> free_pages s' ps"
    by (auto simp: free_pages_def kalloc_def freelist_alloc_def)
next
  fix s :: FreeList and ps v
  assume "free_pages s ps" "v \<noteq> NULL" "v \<notin> set ps"
  then show "\<exists>s'. kfree v s = Inr s' \<and> free_pages s' (v # ps)"
    by (auto simp: free_pages_def kfree_def freelist_free_def fl_chain_frame)
next
  fix s :: FreeList and ps
  have "fl_chain w p qs \<Longrightarrow> NULL \<notin> set qs" for w p qs
    by (induction qs arbitrary: p) auto
  then show "free_pages s ps \<Longrightarrow> distinct ps \<and> NULL \<notin> set ps"
    by (auto simp: free_pages_def)
qed

fun kalloc_n :: "nat \<Rightarrow> FreeList \<Rightarrow> ptr list \<times> FreeList" where
  "kalloc_n 0 f = ([], f)"
| "kalloc_n (Suc n) f = (let (p, f1) = kalloc f; (ps, f2) = kalloc_n n f1 in (p # ps, f2))"

lemma kalloc_n_fresh:
  "free_pages f ps \<Longrightarrow> n \<le> length ps
   \<Longrightarrow> \<exists>f'. kalloc_n n f = (take n ps, f') \<and> free_pages f' (drop n ps)"
proof (induction n arbitrary: f ps)
  case 0
  then show ?case by simp
next
  case (Suc n)
  from Suc.prems(1) show ?case
  proof (cases rule: pm.alloc_cases)
    case empty
    with Suc.prems show ?thesis by simp
  next
    case (page p qs f')
    with Suc.IH [of f' qs] Suc.prems show ?thesis by auto
  qed
qed

section \<open>Initialisation\<close>

text \<open>The whole pages of the region from \<open>p\<close> to \<open>stop\<close>.\<close>

definition pages_between :: "ptr \<Rightarrow> ptr \<Rightarrow> ptr list" where
  "pages_between p stop = map (\<lambda>i. p + of_nat i * PAGE_SIZE) [0 ..< (unat stop - unat p) div 4096]"

lemma unat_page_step:
  "unat p + 4096 \<le> unat stop \<Longrightarrow> unat (p + PAGE_SIZE) = unat p + 4096" for p stop :: ptr
proof -
  assume "unat p + 4096 \<le> unat stop"
  then show ?thesis
    using unat_ptr_less [of stop] unat_plus_ptr [of p PAGE_SIZE] by (simp add: PAGE_SIZE_def)
qed

lemma pages_between_step:
  assumes "unat p + 4096 \<le> unat stop"
  shows "pages_between p stop = p # pages_between (p + PAGE_SIZE) stop"
proof -
  define k where "k = (unat stop - unat (p + PAGE_SIZE)) div 4096"
  have "unat stop - unat p = (unat stop - unat (p + PAGE_SIZE)) + 4096"
    using assms unat_page_step [OF assms] by simp
  then have "(unat stop - unat p) div 4096 = Suc k"
    by (simp add: k_def)
  then show ?thesis
    unfolding pages_between_def k_def [symmetric]
    by (simp add: upt_conv_Cons map_Suc_upt [symmetric] comp_def algebra_simps del: upt_Suc map_Suc_upt)
qed

lemma pages_between_Nil: "\<not> unat p + 4096 \<le> unat stop \<Longrightarrow> pages_between p stop = []"
  by (simp add: pages_between_def)

lemma pages_between_induct [case_names step stop]:
  fixes stop p :: ptr
  assumes "\<And>p. unat p + 4096 \<le> unat stop \<Longrightarrow> P (p + PAGE_SIZE) \<Longrightarrow> P p"
    and "\<And>p. \<not> unat p + 4096 \<le> unat stop \<Longrightarrow> P p"
  shows "P p"
proof (induction "unat stop - unat p" arbitrary: p rule: less_induct)
  case less
  show ?case
  proof (cases "unat p + 4096 \<le> unat stop")
    case True
    then have "unat stop - unat (p + PAGE_SIZE) < unat stop - unat p"
      using unat_page_step [OF True] by simp
    from assms(1) [OF True less [OF this]] show ?thesis .
  qed (rule assms(2))
qed

lemma pages_between_bound:
  "q \<in> set (pages_between p stop)
   \<Longrightarrow> unat p \<le> unat q \<and> unat q + 4096 \<le> unat stop \<and> unat q mod 4096 = unat p mod 4096"
proof (induction p rule: pages_between_induct [of stop])
  case (step p)
  then show ?case
    using unat_page_step [OF step(1)] by (auto simp: pages_between_step)
qed (simp add: pages_between_Nil)

lemma distinct_pages_between: "distinct (pages_between p stop)"
proof (induction p rule: pages_between_induct [of stop])
  case (step p)
  moreover have "p \<notin> set (pages_between (p + PAGE_SIZE) stop)"
    using pages_between_bound [of p "p + PAGE_SIZE" stop] unat_page_step [OF step(1)] by auto
  ultimately show ?case by (simp add: pages_between_step)
qed (simp add: pages_between_Nil)

lemma free_range_rep:
  "p \<noteq> NULL \<Longrightarrow> free_pages f ps \<Longrightarrow> set ps \<inter> set (pages_between p stop) = {}
   \<Longrightarrow> \<exists>f'. free_range p stop f = Inr f' \<and> free_pages f' (rev (pages_between p stop) @ ps)"
proof (induction p arbitrary: f ps rule: pages_between_induct [of stop])
  case (step p)
  from step have "p \<notin> set ps" by (auto simp: pages_between_step)
  with step.prems obtain f1 where f1: "kfree p f = Inr f1" "free_pages f1 (p # ps)"
    using pm.free_rep by blast
  have "p + PAGE_SIZE \<noteq> NULL"
    using unat_page_step [OF step(1)] by auto
  moreover have "set (p # ps) \<inter> set (pages_between (p + PAGE_SIZE) stop) = {}"
    using step.prems distinct_pages_between [of p stop] by (auto simp: pages_between_step [OF step(1)])
  ultimately obtain f' where "free_range (p + PAGE_SIZE) stop f1 = Inr f'"
      "free_pages f' (rev (pages_between (p + PAGE_SIZE) stop) @ p # ps)"
    using step(2) f1 by blast
  with f1 step(1) show ?case
    by (simp add: free_range.simps [of p] kfree_def PAGE_SIZE_def pages_between_step [OF step(1)])
next
  case (stop p)
  then show ?case
    by (simp add: pages_between_Nil free_range.simps [of p] PAGE_SIZE_def)
qed

lemma round_up_page:
  assumes "0 < unat a" and "unat a + 4096 \<le> 2 ^ 64"
  shows "unat a \<le> unat (round_up a PAGE_SIZE) \<and> unat (round_up a PAGE_SIZE) mod 4096 = 0
    \<and> round_up a PAGE_SIZE \<noteq> NULL"
proof -
  have "unat (round_up a PAGE_SIZE) = 4096 * ((unat a + 4095) div 4096)"
    using assms(2) unat_round_up [of PAGE_SIZE a] by (simp add: PAGE_SIZE_def)
  moreover have "unat a \<le> 4096 * ((unat a + 4095) div 4096)"
    using mod_less_divisor [of 4096 "unat a + 4095"] minus_mod_eq_mult_div [of "unat a + 4095" 4096]
    by linarith
  ultimately show ?thesis
    using assms(1) by (auto dest: arg_cong [where f = unat])
qed

section \<open>Properties\<close>

text \<open>
  \<^verbatim>\<open>init_memory_manager\<close> puts every whole page between the end of the kernel image and
  the top of physical memory on the free list exactly once, each page aligned, inside the
  region and not null; afterwards \<^verbatim>\<open>kalloc\<close> hands out each of them once and then returns null.
\<close>

theorem init_memory_manager_correct:
  assumes "0 < unat kernel_end" and "unat kernel_end + 4096 \<le> unat (P2K phystop)" and "fl_next f = NULL"
  shows "\<exists>f' ps. init_memory_manager kernel_end f = Inr f' \<and> free_pages f' ps
    \<and> length ps = (unat (P2K phystop) - unat (round_up kernel_end PAGE_SIZE)) div 4096
    \<and> (\<forall>p \<in> set ps. unat p mod 4096 = 0 \<and> kernel_end \<le> p \<and> unat p + 4096 \<le> unat (P2K phystop))"
proof -
  let ?e = "round_up kernel_end PAGE_SIZE" and ?stop = "P2K phystop"
  have stop: "unat ?stop = 0xFFFF00003F000000" by (simp add: P2K_def phystop_def)
  have e: "unat kernel_end \<le> unat ?e" "unat ?e mod 4096 = 0" "?e \<noteq> NULL"
    by (use round_up_page [OF assms(1)] assms(2) stop in auto)
  have "free_pages f []" using assms(3) by (simp add: free_pages_def)
  with e obtain f' where f': "free_range ?e ?stop f = Inr f'" "free_pages f' (rev (pages_between ?e ?stop))"
    using free_range_rep [of ?e f "[]" ?stop] by auto
  have "unat p mod 4096 = 0 \<and> kernel_end \<le> p \<and> unat p + 4096 \<le> unat ?stop"
    if "p \<in> set (rev (pages_between ?e ?stop))" for p
    using pages_between_bound [of p ?e ?stop] that e by (auto simp: word_le_nat_alt)
  moreover have "length (rev (pages_between ?e ?stop)) = (unat ?stop - unat ?e) div 4096"
    by (simp add: pages_between_def)
  ultimately show ?thesis
    using f' unfolding init_memory_manager_def init_freelist_def Let_def by blast
qed

text \<open>
  C39: pages never alias: as long as the free list is not empty, consecutive calls of \<^verbatim>\<open>kalloc\<close>
  return distinct non-null pages, a page given back by \<^verbatim>\<open>kfree\<close> is the next one returned,
  and the allocator returns null exactly when no page is left.
\<close>

theorem kalloc_kfree_correct:
  assumes "free_pages f ps" and "v \<noteq> NULL" and "v \<notin> set ps"
  shows "(fst (kalloc f) = NULL \<longleftrightarrow> ps = [])
    \<and> (n \<le> length ps \<longrightarrow> fst (kalloc_n n f) = take n ps \<and> distinct (take n ps) \<and> NULL \<notin> set (take n ps))
    \<and> (\<exists>f'. kfree v f = Inr f' \<and> fst (kalloc f') = v \<and> free_pages (snd (kalloc f')) ps)"
proof (intro conjI impI)
  show "fst (kalloc f) = NULL \<longleftrightarrow> ps = []"
    using pm.alloc_fails_iff [OF assms(1)] .
  assume n: "n \<le> length ps"
  show "fst (kalloc_n n f) = take n ps"
    using kalloc_n_fresh [OF assms(1) n] by auto
  show "distinct (take n ps)" "NULL \<notin> set (take n ps)"
    using pm.rep_distinct [OF assms(1)] by (auto dest: in_set_takeD)
next
  obtain f' where f': "kfree v f = Inr f'" "free_pages f' (v # ps)"
    using pm.free_rep [OF assms] by blast
  with pm.alloc_Cons [OF f'(2)]
  show "\<exists>f'. kfree v f = Inr f' \<and> fst (kalloc f') = v \<and> free_pages (snd (kalloc f')) ps"
    by auto
qed

theorem kalloc_kfree_correct_witness:
  "\<exists>f'. kfree 0x3000 \<lparr>fl_next = 0x2000, page_word = (\<lambda>_. 0)(0x2000 := 0x1000)\<rparr> = Inr f'
     \<and> fst (kalloc f') = 0x3000"
  using kalloc_kfree_correct [of "\<lparr>fl_next = 0x2000, page_word = (\<lambda>_. 0)(0x2000 := 0x1000)\<rparr>"
      "[0x2000, 0x1000]" "0x3000" 2]
  by (auto simp: free_pages_def)

end
