(* ===== verification/Virtual_Memory.thy ===== *)
theory Virtual_Memory
  imports Physical_Memory
begin

text \<open>
  User address spaces, \<^verbatim>\<open>core/virtual_memory.c\<close>: page tables of four levels in pages of the page allocator.  The
  state is the allocator's, with the memory of 64-bit words, so a page is reused as a table,
  as data or as a link of the free list the way the kernel reuses it.  The function table \<^verbatim>\<open>vmt\<close> holds
  one implementation of each operation, so calls through it are direct.  Shown: mapping and looking
  up obey the laws of a map on pages, and releasing an address space returns each of its pages once.
\<close>

section \<open>Words and bytes of memory\<close>

definition KSPACE_MASK :: u64 where
  "KSPACE_MASK = 0xFFFF000000000000"

definition K2P :: "ptr \<Rightarrow> u64" where
  "K2P addr = addr - KSPACE_MASK"

definition USPACE_TOP :: u64 where
  "USPACE_TOP = 0x0001000000000000"

definition PTE_VALID :: u64 where
  "PTE_VALID = 1"

definition PTE_TABLE :: u64 where
  "PTE_TABLE = 3"

definition PTE_USER_DATA :: u64 where
  "PTE_USER_DATA = 0x647"

text \<open>The constant \<^verbatim>\<open>~0xFFFu\<close> has 32 bits, so bits 32 and above of an entry are dropped too.\<close>

definition PTE_ADDRESS :: "u64 \<Rightarrow> u64" where
  "PTE_ADDRESS pte = and pte 0xFFFFF000"

definition PTE_FLAGS :: "u64 \<Rightarrow> u64" where
  "PTE_FLAGS pte = and pte 0xFFF"

definition word_addr :: "ptr \<Rightarrow> nat \<Rightarrow> ptr" where
  "word_addr p i = p + of_nat (8 * i)"

definition load_word :: "ptr \<Rightarrow> nat \<Rightarrow> FreeList \<Rightarrow> u64" where
  "load_word p i f = page_word f (word_addr p i)"

definition store_at :: "ptr \<Rightarrow> u64 \<Rightarrow> FreeList \<Rightarrow> FreeList" where
  "store_at a x f = f\<lparr>page_word := (page_word f)(a := x)\<rparr>"

definition store_word :: "ptr \<Rightarrow> nat \<Rightarrow> u64 \<Rightarrow> FreeList \<Rightarrow> FreeList" where
  "store_word p i x f = store_at (word_addr p i) x f"

definition zero_page :: "ptr \<Rightarrow> FreeList \<Rightarrow> FreeList" where
  "zero_page p f = fold (\<lambda>i. store_word p i 0) [0 ..< 512] f"

definition copy_page :: "ptr \<Rightarrow> ptr \<Rightarrow> FreeList \<Rightarrow> FreeList" where
  "copy_page dst src f = fold (\<lambda>i f. store_word dst i (load_word src i f) f) [0 ..< 512] f"

text \<open>Bytes, lowest first in their word.\<close>

definition load_byte :: "ptr \<Rightarrow> FreeList \<Rightarrow> u8" where
  "load_byte a f = ucast (drop_bit (8 * (unat a mod 8)) (page_word f (a - of_nat (unat a mod 8))))"

definition store_byte :: "ptr \<Rightarrow> u8 \<Rightarrow> FreeList \<Rightarrow> FreeList" where
  "store_byte a x f =
     (let k = unat a mod 8; w = a - of_nat k; old = page_word f w
      in store_at w (or (and old (not (push_bit (8 * k) 0xFF))) (push_bit (8 * k) (ucast x))) f)"

fun store_bytes :: "ptr \<Rightarrow> u8 list \<Rightarrow> FreeList \<Rightarrow> FreeList" where
  "store_bytes a [] f = f"
| "store_bytes a (x # xs) f = store_bytes (a + 1) xs (store_byte a x f)"

section \<open>Page tables\<close>

definition pgdir_init :: "FreeList \<Rightarrow> ptr \<times> FreeList" where
  "pgdir_init f =
     (let (pgdir, f) = kalloc f
      in if pgdir \<noteq> NULL then (pgdir, zero_page pgdir f) else (pgdir, f))"

definition entry_valid :: "u64 \<Rightarrow> bool" where
  "entry_valid e \<longleftrightarrow> and e PTE_VALID \<noteq> 0"

definition next_table :: "u64 \<Rightarrow> ptr" where
  "next_table e = P2K (PTE_ADDRESS e)"

text \<open>
  One round of \<^verbatim>\<open>my_pgdir_walk\<close>.  When no table is allocated the entry stays as it is and the walk goes on from
  the table it names, valid or not.
\<close>

definition walk_round :: "bool \<Rightarrow> nat \<Rightarrow> ptr \<Rightarrow> FreeList \<Rightarrow> ptr \<times> FreeList" where
  "walk_round alloc page_index pagetable f =
     (let f = (if \<not> entry_valid (load_word pagetable page_index f) \<and> alloc
               then let (p, f) = kalloc f
                    in if p \<noteq> NULL then store_word pagetable page_index (or (K2P p) PTE_TABLE) (zero_page p f) else f
               else f)
      in (next_table (load_word pagetable page_index f), f))"

fun walk_tables :: "bool \<Rightarrow> nat list \<Rightarrow> ptr \<Rightarrow> FreeList \<Rightarrow> ptr \<times> FreeList" where
  "walk_tables alloc [] pagetable f = (pagetable, f)"
| "walk_tables alloc (i # is) pagetable f =
     (let (pagetable, f) = walk_round alloc i pagetable f in walk_tables alloc is pagetable f)"

definition level_index :: "u64 \<Rightarrow> nat \<Rightarrow> nat" where
  "level_index va i = unat (and (drop_bit ((3 - i) * 9) (drop_bit 12 va)) 0x1FF)"

definition pgdir_walk :: "ptr \<Rightarrow> u64 \<Rightarrow> bool \<Rightarrow> FreeList \<Rightarrow> ptr \<times> FreeList" where
  "pgdir_walk pgdir va alloc f =
     (let (pagetable, f) = walk_tables alloc (map (level_index va) [0, 1, 2]) pgdir f
      in (word_addr pagetable (level_index va 3), f))"

text \<open>The addresses of the pages from \<open>lo\<close> in steps of a page up to \<open>hi\<close>, which the loops of this file visit.\<close>

definition page_steps :: "u64 \<Rightarrow> u64 \<Rightarrow> u64 list" where
  "page_steps lo hi = map (\<lambda>k. lo + of_nat (4096 * k)) [0 ..< (unat hi - unat lo + 4095) div 4096]"

fun uvm_map_loop :: "ptr \<Rightarrow> u64 list \<Rightarrow> u64 \<Rightarrow> FreeList \<Rightarrow> FreeList res" where
  "uvm_map_loop pgdir [] pa f = Inr f"
| "uvm_map_loop pgdir (va # vas) pa f =
     (let (pte, f) = pgdir_walk pgdir va True f
      in if pte = NULL then Inl (Panic ''uvm_map: pgdir_walk failed.'')
         else uvm_map_loop pgdir vas (pa + PAGE_SIZE) (store_at pte (or pa PTE_USER_DATA) f))"

definition uvm_map :: "ptr \<Rightarrow> u64 \<Rightarrow> u64 \<Rightarrow> u64 \<Rightarrow> FreeList \<Rightarrow> FreeList res" where
  "uvm_map pgdir va sz pa f =
     uvm_map_loop pgdir (page_steps (round_down va PAGE_SIZE) (va + sz)) (round_down pa PAGE_SIZE) f"

section \<open>Growing and shrinking\<close>

definition int_of :: "u64 \<Rightarrow> u32" where
  "int_of x = ucast x"

fun uvm_dealloc_loop :: "ptr \<Rightarrow> u64 list \<Rightarrow> FreeList \<Rightarrow> FreeList res" where
  "uvm_dealloc_loop pgdir [] f = Inr f"
| "uvm_dealloc_loop pgdir (a # as) f =
     (let (pte, f) = pgdir_walk pgdir a False f
      in bindE (if pte \<noteq> NULL \<and> entry_valid (page_word f pte)
                then bindE (kfree (P2K (PTE_ADDRESS (page_word f pte))) f) (\<lambda>f. Inr (store_at pte 0 f))
                else Inr f) (uvm_dealloc_loop pgdir as))"

definition uvm_dealloc :: "ptr \<Rightarrow> u64 \<Rightarrow> u64 \<Rightarrow> u64 \<Rightarrow> FreeList \<Rightarrow> (u32 \<times> FreeList) res" where
  "uvm_dealloc pgdir base oldsz newsz f =
     (if newsz \<ge> oldsz \<or> newsz < base then Inr (int_of oldsz, f)
      else bindE (uvm_dealloc_loop pgdir (page_steps (round_up newsz PAGE_SIZE) oldsz) f) (\<lambda>f. Inr (int_of newsz, f)))"

text \<open>The result \<open>False\<close> is the return of 0 after the pages mapped so far were given back.\<close>

fun uvm_alloc_loop :: "ptr \<Rightarrow> u64 \<Rightarrow> u64 \<Rightarrow> u64 list \<Rightarrow> FreeList \<Rightarrow> (bool \<times> FreeList) res" where
  "uvm_alloc_loop pgdir base oldsz [] f = Inr (True, f)"
| "uvm_alloc_loop pgdir base oldsz (a # as) f =
     (let (page, f) = kalloc f
      in if page = NULL
         then bindE (uvm_dealloc pgdir base (a - PAGE_SIZE) oldsz f) (\<lambda>(_, f). Inr (False, f))
         else bindE (uvm_map pgdir a PAGE_SIZE (K2P page) f) (uvm_alloc_loop pgdir base oldsz as))"

definition uvm_alloc :: "ptr \<Rightarrow> u64 \<Rightarrow> u64 \<Rightarrow> u64 \<Rightarrow> u64 \<Rightarrow> FreeList \<Rightarrow> (u32 \<times> FreeList) res" where
  "uvm_alloc pgdir base stksz oldsz newsz f =
     bindE (assertE (stksz < USPACE_TOP \<and> base \<le> oldsz \<and> oldsz \<le> newsz \<and> newsz < USPACE_TOP - stksz)
              ''my_uvm_alloc: invalid arguments.'') (\<lambda>_.
     bindE (uvm_alloc_loop pgdir base oldsz (page_steps (round_up oldsz PAGE_SIZE) newsz) f) (\<lambda>(ok, f).
     Inr (if ok then int_of newsz else 0, f)))"

section \<open>Copying and releasing\<close>

text \<open>
  The recursion counts the levels below the table, 3 for the page directory.  Storing into a table that could not be allocated is a
  null dereference, and so is copying a page to a page that could not be allocated.
\<close>

definition copy_leaf :: "ptr \<Rightarrow> FreeList \<Rightarrow> (ptr \<times> FreeList) res" where
  "copy_leaf page f =
     (let (page_copy, f) = kalloc f
      in if page_copy = NULL then Inl NullDeref else Inr (page_copy, copy_page page_copy page f))"

fun copy_entries :: "(ptr \<Rightarrow> FreeList \<Rightarrow> (ptr \<times> FreeList) res) \<Rightarrow> ptr \<Rightarrow> ptr \<Rightarrow> nat list \<Rightarrow> FreeList \<Rightarrow> FreeList res" where
  "copy_entries below pgdir newpgdir [] f = Inr f"
| "copy_entries below pgdir newpgdir (i # is) f =
     (let e = load_word pgdir i f
      in bindE (if entry_valid e
                then bindE (below (next_table e) f) (\<lambda>(page_copy, f).
                     if newpgdir = NULL then Inl NullDeref
                     else Inr (store_word newpgdir i (or (K2P page_copy) (PTE_FLAGS e)) f))
                else Inr f) (copy_entries below pgdir newpgdir is))"

definition copy_table :: "(ptr \<Rightarrow> FreeList \<Rightarrow> (ptr \<times> FreeList) res) \<Rightarrow> ptr \<Rightarrow> FreeList \<Rightarrow> (ptr \<times> FreeList) res" where
  "copy_table below pgdir f =
     (let (newpgdir, f) = pgdir_init f
      in bindE (copy_entries below pgdir newpgdir [0 ..< 512] f) (\<lambda>f. Inr (newpgdir, f)))"

primrec recur_uvm_copy :: "nat \<Rightarrow> ptr \<Rightarrow> FreeList \<Rightarrow> (ptr \<times> FreeList) res" where
  "recur_uvm_copy 0 = copy_table copy_leaf"
| "recur_uvm_copy (Suc n) = copy_table (recur_uvm_copy n)"

definition uvm_copy :: "ptr \<Rightarrow> FreeList \<Rightarrow> (ptr \<times> FreeList) res" where
  "uvm_copy pgdir f = recur_uvm_copy 3 pgdir f"

fun free_entries :: "(ptr \<Rightarrow> FreeList \<Rightarrow> FreeList res) \<Rightarrow> ptr \<Rightarrow> nat list \<Rightarrow> FreeList \<Rightarrow> FreeList res" where
  "free_entries below pgdir [] f = Inr f"
| "free_entries below pgdir (i # is) f =
     (let e = load_word pgdir i f
      in bindE (if entry_valid e then below (next_table e) f else Inr f) (free_entries below pgdir is))"

definition free_table :: "(ptr \<Rightarrow> FreeList \<Rightarrow> FreeList res) \<Rightarrow> ptr \<Rightarrow> FreeList \<Rightarrow> FreeList res" where
  "free_table below pgdir f = bindE (free_entries below pgdir [0 ..< 512] f) (kfree pgdir)"

primrec recur_vm_free :: "nat \<Rightarrow> ptr \<Rightarrow> FreeList \<Rightarrow> FreeList res" where
  "recur_vm_free 0 = free_table kfree"
| "recur_vm_free (Suc n) = free_table (recur_vm_free n)"

definition vm_free :: "ptr \<Rightarrow> FreeList \<Rightarrow> FreeList res" where
  "vm_free pgdir f = recur_vm_free 3 pgdir f"

text \<open>
  \<^verbatim>\<open>my_copyout\<close>; the source is a list of bytes, zeros when the source pointer is null.  A page is taken only where none is mapped.
\<close>

definition copyout_chunk :: "u64 \<Rightarrow> nat \<Rightarrow> nat" where
  "copyout_chunk va len = min (4096 - unat va mod 4096) len"

function copyout_loop :: "ptr \<Rightarrow> u64 \<Rightarrow> u8 list \<Rightarrow> FreeList \<Rightarrow> (bool \<times> FreeList) res" where
  "copyout_loop pgdir va src f =
     (if src = [] then Inr (True, f)
      else let (pte, f) = pgdir_walk pgdir va True f
           in if pte = NULL then Inr (False, f)
              else let (page, f) =
                         (if entry_valid (page_word f pte) then (P2K (PTE_ADDRESS (page_word f pte)), f)
                          else let (page, f) = kalloc f
                               in if page = NULL then (page, f) else (page, store_at pte (or (K2P page) PTE_USER_DATA) f))
                   in if page = NULL then Inr (False, f)
                      else let n = copyout_chunk va (length src)
                           in copyout_loop pgdir (va + of_nat n) (drop n src)
                                (store_bytes (page + of_nat (unat va mod 4096)) (take n src) f))"
  by pat_completeness auto
termination
  by (relation "measure (\<lambda>(pgdir, va, src, f). length src)") (auto simp: copyout_chunk_def)

declare copyout_loop.simps [simp del]

definition copyout :: "ptr \<Rightarrow> u64 \<Rightarrow> u8 list \<Rightarrow> FreeList \<Rightarrow> (bool \<times> FreeList) res" where
  "copyout pgdir va src f =
     (if va + of_nat (length src) > USPACE_TOP then Inr (False, f) else copyout_loop pgdir va src f)"

section \<open>Addresses of pages and words\<close>

definition page_ok :: "ptr \<Rightarrow> bool" where
  "page_ok p \<longleftrightarrow> P2K (PTE_ADDRESS (K2P p)) = p"

lemma address_mask: "(0xFFFFF000 :: u64) = push_bit 12 (mask 20)"
  by (simp add: mask_eq_exp_minus_1 push_bit_eq_mult)

lemma bit_PTE_ADDRESS: "bit (PTE_ADDRESS e) k \<longleftrightarrow> bit e k \<and> 12 \<le> k \<and> k < 32"
  unfolding PTE_ADDRESS_def address_mask by (auto simp: bit_simps)

lemma PTE_ADDRESS_or: "take_bit 12 x = x \<Longrightarrow> PTE_ADDRESS (or a x) = PTE_ADDRESS a"
proof (rule bit_word_eqI)
  fix k assume x: "take_bit 12 x = x"
  have "\<not> bit x k" if "12 \<le> k" using x that by (metis bit_take_bit_iff not_le)
  then show "bit (PTE_ADDRESS (or a x)) k \<longleftrightarrow> bit (PTE_ADDRESS a) k" by (auto simp: bit_PTE_ADDRESS bit_simps)
qed

lemma next_table_or: "page_ok p \<Longrightarrow> take_bit 12 x = x \<Longrightarrow> next_table (or (K2P p) x) = p"
  by (simp add: next_table_def PTE_ADDRESS_or page_ok_def)

lemma entry_valid_bit: "entry_valid e \<longleftrightarrow> bit e 0"
  by (simp add: entry_valid_def PTE_VALID_def and_one_eq bit_0 odd_iff_mod_2_eq_one mod2_eq_if)

lemma entry_valid_or: "bit x 0 \<Longrightarrow> entry_valid (or a x)"
  by (simp add: entry_valid_bit bit_simps)

lemma entry_valid_zero [simp]: "\<not> entry_valid 0"
  by (simp add: entry_valid_bit)

lemma table_flags: "take_bit 12 PTE_TABLE = PTE_TABLE" "bit PTE_TABLE 0"
  by (simp_all add: PTE_TABLE_def)

lemma user_flags: "take_bit 12 PTE_USER_DATA = PTE_USER_DATA" "bit PTE_USER_DATA 0"
  by (simp_all add: PTE_USER_DATA_def)

lemma page_aligned: "page_ok p \<Longrightarrow> unat p mod 4096 = 0"
proof -
  assume p: "page_ok p"
  let ?x = "PTE_ADDRESS (K2P p)"
  have "take_bit 12 ?x = 0" "take_bit 32 ?x = ?x"
    by (rule bit_word_eqI; auto simp: bit_PTE_ADDRESS bit_take_bit_iff)+
  then have "unat (take_bit 12 ?x) = 0" "unat (take_bit 32 ?x) = unat ?x" by simp_all
  then have m: "unat ?x mod 4096 = 0" "unat ?x mod 4294967296 = unat ?x" by (simp_all add: take_bit_eq_mod unat_mod)
  have x: "unat ?x mod 4096 = 0" "unat ?x < 4294967296" using m(1) by simp (use m(2) mod_less_divisor [of 4294967296 "unat ?x"] in linarith)
  have "unat (P2K ?x) = unat ?x + 18446462598732840960" unfolding P2K_def using x(2) by (subst unat_plus_ptr) simp_all
  then show ?thesis using p x(1) by (simp add: page_ok_def mod_add_eq [symmetric])
qed

lemma page_ok_not_null: "page_ok p \<Longrightarrow> p \<noteq> NULL"
proof
  assume "page_ok p" "p = NULL"
  moreover have "PTE_ADDRESS (K2P NULL) = 0" by (simp add: PTE_ADDRESS_def K2P_def KSPACE_MASK_def)
  ultimately show False by (simp add: page_ok_def P2K_def)
qed

lemma unat_word_addr: "page_ok p \<Longrightarrow> i < 512 \<Longrightarrow> unat (word_addr p i) = unat p + 8 * i"
proof -
  assume p: "page_ok p" and i: "i < 512"
  have "unat p mod 4096 = 0" "unat p < 2 ^ 64" using page_aligned [OF p] unat_ptr_less by auto
  then have "unat p + 8 * i < 2 ^ 64" using i by (auto simp: mod_eq_0_iff_dvd dvd_def)
  moreover have "unat (of_nat (8 * i) :: u64) = 8 * i" using i by (intro unat_of_nat_ptr) simp
  ultimately show ?thesis unfolding word_addr_def by (subst unat_plus_ptr) simp_all
qed

lemma word_addr_eq_iff:
  assumes "page_ok p" and "page_ok q" and "i < 512" and "j < 512"
  shows "word_addr p i = word_addr q j \<longleftrightarrow> p = q \<and> i = j"
proof -
  obtain a b where a: "unat p = 4096 * a" "unat q = 4096 * b"
    using page_aligned [OF assms(1)] page_aligned [OF assms(2)] by (auto simp: mod_eq_0_iff_dvd dvd_def)
  have "(4096 * a + 8 * i) div 4096 = a" "(4096 * b + 8 * j) div 4096 = b" using assms(3,4) by (simp_all add: div_nat_eqI)
  then have iff: "4096 * a + 8 * i = 4096 * b + 8 * j \<longleftrightarrow> a = b \<and> i = j" by (metis add_left_cancel mult_cancel1 zero_neq_numeral)
  have "word_addr p i = word_addr q j \<longleftrightarrow> unat p + 8 * i = unat q + 8 * j"
    using unat_word_addr [OF assms(1,3)] unat_word_addr [OF assms(2,4)] by (metis unsigned_word_eqI)
  also have "\<dots> \<longleftrightarrow> unat p = unat q \<and> i = j" unfolding a using iff by simp
  finally show ?thesis by (metis unsigned_word_eqI)
qed

lemma word_addr_0 [simp]: "word_addr p 0 = p"
  by (simp add: word_addr_def)

lemma load_store_word [simp]:
  assumes "page_ok p" and "page_ok q" and "i < 512" and "j < 512"
  shows "load_word q j (store_word p i x f) = (if q = p \<and> j = i then x else load_word q j f)"
  using word_addr_eq_iff [OF assms(2,1,4,3)] by (simp add: load_word_def store_word_def store_at_def)

lemma load_zero_page [simp]:
  assumes "page_ok p" and "page_ok q" and "j < 512"
  shows "load_word q j (zero_page p f) = (if q = p then 0 else load_word q j f)"
proof -
  have "load_word q j (fold (\<lambda>i. store_word p i 0) is f) = (if q = p \<and> j \<in> set is then 0 else load_word q j f)"
    if "\<forall>i \<in> set is. i < 512" for "is"
    using that assms by (induction "is" arbitrary: f) auto
  from this [of "[0 ..< 512]"] show ?thesis using assms(3) by (simp add: zero_page_def)
qed

section \<open>Trees of tables\<close>

definition child :: "ptr \<Rightarrow> nat \<Rightarrow> FreeList \<Rightarrow> ptr" where
  "child p i f = next_table (load_word p i f)"

definition has_child :: "ptr \<Rightarrow> nat \<Rightarrow> FreeList \<Rightarrow> bool" where
  "has_child p i f \<longleftrightarrow> entry_valid (load_word p i f)"

text \<open>The pages of a tree with \<open>n\<close> levels below \<open>p\<close>.\<close>

primrec pages_of :: "nat \<Rightarrow> ptr \<Rightarrow> FreeList \<Rightarrow> ptr list" where
  "pages_of 0 p f = [p]"
| "pages_of (Suc n) p f = p # concat (map (\<lambda>i. if has_child p i f then pages_of n (child p i f) f else []) [0 ..< 512])"

text \<open>The word that a path of table indices and a last index select, 0 when a table is missing on the way.\<close>

fun lookup :: "nat list \<Rightarrow> nat \<Rightarrow> ptr \<Rightarrow> FreeList \<Rightarrow> u64" where
  "lookup [] j p f = load_word p j f"
| "lookup (i # is) j p f = (if has_child p i f then lookup is j (child p i f) f else 0)"

fun table_at :: "nat list \<Rightarrow> ptr \<Rightarrow> FreeList \<Rightarrow> ptr option" where
  "table_at [] p f = Some p"
| "table_at (i # is) p f = (if has_child p i f then table_at is (child p i f) f else None)"

definition indices :: "nat \<Rightarrow> nat list \<Rightarrow> bool" where
  "indices n is \<longleftrightarrow> length is = n \<and> (\<forall>i \<in> set is. i < 512)"

lemma indices_simps [simp]: "indices 0 is \<longleftrightarrow> is = []" "indices (Suc n) [] = False" "indices (Suc n) (i # is) \<longleftrightarrow> i < 512 \<and> indices n is"
  by (auto simp: indices_def)

lemma root_page [simp]: "p \<in> set (pages_of n p f)"
  by (cases n) simp_all

text \<open>A tree and the free pages, all different.\<close>

definition vm_inv :: "nat \<Rightarrow> ptr \<Rightarrow> FreeList \<Rightarrow> ptr list \<Rightarrow> bool" where
  "vm_inv n p f ps \<longleftrightarrow> free_pages f ps \<and> distinct (pages_of n p f @ ps) \<and> (\<forall>q \<in> set (pages_of n p f @ ps). page_ok q)"

lemma distinct_concat_map:
  assumes "distinct (concat (map g xs))" and "x \<in> set xs" and "distinct xs"
  shows "distinct (g x)" and "y \<in> set xs \<Longrightarrow> y \<noteq> x \<Longrightarrow> set (g x) \<inter> set (g y) = {}"
  using assms by (induction xs) auto

lemma distinct_concat_update:
  assumes "distinct (concat (map g xs))" and "distinct xs" and "\<And>x. x \<in> set xs \<Longrightarrow> x \<noteq> i \<Longrightarrow> g' x = g x"
    and "distinct (g' i)" and "set (g' i) \<subseteq> set (g i) \<union> N" and "N \<inter> set (concat (map g xs)) = {}"
  shows "distinct (concat (map g' xs)) \<and> set (concat (map g' xs)) \<subseteq> set (concat (map g xs)) \<union> N"
  using assms(1-3,6)
proof (induction xs)
  case (Cons x xs)
  have IH: "distinct (concat (map g' xs))" "set (concat (map g' xs)) \<subseteq> set (concat (map g xs)) \<union> N"
    using Cons by auto
  show ?case
  proof (cases "x = i")
    case True
    then have m: "map g' xs = map g xs" using Cons.prems(2,3) by auto
    have eq: "concat (map g' (x # xs)) = g' i @ concat (map g xs)" "concat (map g (x # xs)) = g i @ concat (map g xs)" by (simp_all only: True list.map concat.simps m)
    show ?thesis using Cons.prems(1,4) assms(4,5) unfolding eq distinct_append set_append by blast
  next
    case False
    then have "g' x = g x" using Cons.prems(3) by simp
    then show ?thesis using IH Cons.prems(1,4) by auto
  qed
qed simp

lemma vm_inv_child:
  assumes inv: "vm_inv (Suc n) p f ps" and i: "i < 512" and c: "has_child p i f"
  shows "vm_inv n (child p i f) f ps" "p \<notin> set (pages_of n (child p i f) f)"
    "set (pages_of n (child p i f) f) \<subseteq> set (pages_of (Suc n) p f)"
    "j < 512 \<Longrightarrow> j \<noteq> i \<Longrightarrow> has_child p j f \<Longrightarrow> set (pages_of n (child p i f) f) \<inter> set (pages_of n (child p j f) f) = {}"
proof -
  let ?g = "\<lambda>i. if has_child p i f then pages_of n (child p i f) f else []"
  have d: "distinct (concat (map ?g [0 ..< 512]))" "p \<notin> set (concat (map ?g [0 ..< 512]))"
    using inv by (simp_all add: vm_inv_def)
  have m: "i \<in> set [0 ..< 512]" using i by simp
  show sub: "set (pages_of n (child p i f) f) \<subseteq> set (pages_of (Suc n) p f)" using i c by auto
  show "p \<notin> set (pages_of n (child p i f) f)" using d(2) i c by auto
  have "distinct (pages_of n (child p i f) f)" using distinct_concat_map(1) [OF d(1) m] c by simp
  then show "vm_inv n (child p i f) f ps" using inv sub unfolding vm_inv_def distinct_append set_append by blast
  show "set (pages_of n (child p i f) f) \<inter> set (pages_of n (child p j f) f) = {}" if "j < 512" "j \<noteq> i" "has_child p j f"
    using distinct_concat_map(2) [OF d(1) m, of j] that c by simp
qed

text \<open>A tree depends only on the words of its pages.\<close>

definition agree :: "ptr set \<Rightarrow> FreeList \<Rightarrow> FreeList \<Rightarrow> bool" where
  "agree S f f' \<longleftrightarrow> (\<forall>q \<in> S. \<forall>i < 512. load_word q i f' = load_word q i f)"

lemma agree_mono: "agree S f f' \<Longrightarrow> T \<subseteq> S \<Longrightarrow> agree T f f'"
  by (auto simp: agree_def)

lemma tree_frame:
  assumes "agree (set (pages_of n p f)) f f'"
  shows "pages_of n p f' = pages_of n p f" and "indices n is \<Longrightarrow> j < 512 \<Longrightarrow> lookup is j p f' = lookup is j p f"
proof -
  have "pages_of n p f' = pages_of n p f \<and> (\<forall>is j. indices n is \<longrightarrow> j < 512 \<longrightarrow> lookup is j p f' = lookup is j p f)"
    using assms
  proof (induction n arbitrary: p)
    case 0
    then show ?case by (auto simp: agree_def)
  next
    case (Suc n)
    have w: "load_word p i f' = load_word p i f" if "i < 512" for i using Suc.prems that by (simp add: agree_def)
    then have same: "has_child p i f' = has_child p i f" "child p i f' = child p i f" if "i < 512" for i
      using that by (simp_all add: has_child_def child_def)
    have below: "agree (set (pages_of n (child p i f) f)) f f'" if "i < 512" "has_child p i f" for i
      using that by (intro agree_mono [OF Suc.prems]) auto
    have "pages_of (Suc n) p f' = pages_of (Suc n) p f"
      using Suc.IH [OF below] same by (auto intro!: arg_cong [where f = concat])
    moreover have "lookup is j p f' = lookup is j p f" if "indices (Suc n) is" "j < 512" for "is" j
      using that Suc.IH [OF below] same by (cases "is") auto
    ultimately show ?case by blast
  qed
  then show "pages_of n p f' = pages_of n p f" and "indices n is \<Longrightarrow> j < 512 \<Longrightarrow> lookup is j p f' = lookup is j p f"
    by blast+
qed

lemma free_pages_store:
  assumes "free_pages f ps" and "page_ok p" and "p \<notin> set ps" and "\<forall>q \<in> set ps. page_ok q" and "i < 512"
  shows "free_pages (store_word p i x f) ps"
proof -
  have "word_addr p i \<notin> set ps"
  proof
    assume a: "word_addr p i \<in> set ps"
    then have "page_ok (word_addr p i)" using assms(4) by blast
    then have "word_addr p i = p" using word_addr_eq_iff [OF assms(2) _ assms(5), of "word_addr p i" 0] by simp
    then show False using a assms(3) by simp
  qed
  then show ?thesis
    using assms(1) fl_chain_frame by (simp add: free_pages_def store_word_def store_at_def)
qed

lemma free_pages_zero:
  assumes "free_pages f ps" and "page_ok p" and "p \<notin> set ps" and "\<forall>q \<in> set ps. page_ok q"
  shows "free_pages (zero_page p f) ps"
proof -
  have "free_pages (fold (\<lambda>i. store_word p i 0) is f) ps" if "\<forall>i \<in> set is. i < 512" "free_pages f ps" for "is" f
    using that assms(2-4) by (induction "is" arbitrary: f) (auto intro: free_pages_store)
  then show ?thesis using assms(1) by (simp add: zero_page_def)
qed

section \<open>Walking\<close>

text \<open>What a walk may do to a tree: take free pages for new tables, without changing what any path selects.\<close>

definition evolves :: "nat \<Rightarrow> ptr \<Rightarrow> FreeList \<Rightarrow> ptr list \<Rightarrow> FreeList \<Rightarrow> ptr list \<Rightarrow> bool" where
  "evolves n p f ps f' ps' \<longleftrightarrow> vm_inv n p f' ps' \<and> set ps' \<subseteq> set ps
     \<and> set (pages_of n p f') \<subseteq> set (pages_of n p f) \<union> (set ps - set ps')
     \<and> agree {q. page_ok q \<and> q \<notin> set (pages_of n p f) \<and> q \<notin> set ps} f f'
     \<and> (\<forall>is j. indices n is \<longrightarrow> j < 512 \<longrightarrow> lookup is j p f' = lookup is j p f)"

lemma evolves_refl: "vm_inv n p f ps \<Longrightarrow> evolves n p f ps f ps"
  by (simp add: evolves_def agree_def)

lemma evolves_trans:
  assumes "evolves n p f ps f' ps'" and "evolves n p f' ps' f'' ps''"
  shows "evolves n p f ps f'' ps''"
proof -
  have "agree {q. page_ok q \<and> q \<notin> set (pages_of n p f) \<and> q \<notin> set ps} f f''"
    unfolding agree_def
  proof (intro ballI allI impI)
    fix q i assume q: "q \<in> {q. page_ok q \<and> q \<notin> set (pages_of n p f) \<and> q \<notin> set ps}" and i: "i < (512 :: nat)"
    have "q \<notin> set (pages_of n p f')" "q \<notin> set ps'" using assms(1) q unfolding evolves_def by blast+
    then have "load_word q i f'' = load_word q i f'" using assms(2) q i unfolding evolves_def agree_def by blast
    also have "\<dots> = load_word q i f" using assms(1) q i unfolding evolves_def agree_def by blast
    finally show "load_word q i f'' = load_word q i f" .
  qed
  moreover have "set (pages_of n p f'') \<subseteq> set (pages_of n p f) \<union> (set ps - set ps'')" "set ps'' \<subseteq> set ps"
    using assms unfolding evolves_def by blast+
  ultimately show ?thesis using assms unfolding evolves_def by simp
qed

lemma evolves_child:
  assumes inv: "vm_inv (Suc n) p f ps" and i: "i < 512" and c: "has_child p i f"
    and ev: "evolves n (child p i f) f ps f' ps'"
  shows "evolves (Suc n) p f ps f' ps'" "has_child p i f'" "child p i f' = child p i f"
proof -
  let ?c = "child p i f"
  note ch = vm_inv_child [OF inv i c]
  have e: "vm_inv n ?c f' ps'" "set ps' \<subseteq> set ps" "set (pages_of n ?c f') \<subseteq> set (pages_of n ?c f) \<union> (set ps - set ps')"
    "agree {q. page_ok q \<and> q \<notin> set (pages_of n ?c f) \<and> q \<notin> set ps} f f'"
    using ev by (simp_all add: evolves_def)
  have d: "set (pages_of (Suc n) p f) \<inter> set ps = {}" "\<forall>q \<in> set (pages_of (Suc n) p f). page_ok q"
    using inv unfolding vm_inv_def distinct_append set_append by blast+
  have p: "page_ok p" "p \<notin> set ps" using d root_page [of p "Suc n" f] by blast+
  have w: "load_word p j f' = load_word p j f" if "j < 512" for j
    using e(4) p ch(2) that by (simp add: agree_def)
  then have same: "has_child p j f' = has_child p j f" "child p j f' = child p j f" if "j < 512" for j
    using that by (simp_all add: has_child_def child_def)
  then show "has_child p i f'" "child p i f' = ?c" using i c by simp_all
  have others: "agree (set (pages_of n (child p j f) f)) f f'" if j: "j < 512" "j \<noteq> i" "has_child p j f" for j
  proof (rule agree_mono [OF e(4)])
    have "set (pages_of n (child p j f) f) \<subseteq> set (pages_of (Suc n) p f)" using vm_inv_child(3) [OF inv j(1,3)] .
    then show "set (pages_of n (child p j f) f) \<subseteq> {q. page_ok q \<and> q \<notin> set (pages_of n ?c f) \<and> q \<notin> set ps}"
      using ch(4) [OF j] d by blast
  qed
  let ?g = "\<lambda>j. if has_child p j f then pages_of n (child p j f) f else []"
    and ?g' = "\<lambda>j. if has_child p j f' then pages_of n (child p j f') f' else []"
  have g: "?g' j = ?g j" if "j < 512" "j \<noteq> i" for j using that same tree_frame(1) [OF others] by simp
  have gi: "?g i = pages_of n ?c f" "?g' i = pages_of n ?c f'" using same i c by simp_all
  have u: "distinct (concat (map ?g' [0 ..< 512])) \<and> set (concat (map ?g' [0 ..< 512])) \<subseteq> set (concat (map ?g [0 ..< 512])) \<union> (set ps - set ps')"
  proof (rule distinct_concat_update [where i = i])
    show "distinct (concat (map ?g [0 ..< 512]))" using inv by (simp add: vm_inv_def)
    show "distinct (?g' i)" "set (?g' i) \<subseteq> set (?g i) \<union> (set ps - set ps')" unfolding gi using e(1,3) by (simp_all add: vm_inv_def)
    show "(set ps - set ps') \<inter> set (concat (map ?g [0 ..< 512])) = {}" using d(1) by auto
  qed (use g in auto)
  have pages: "pages_of (Suc n) p f' = p # concat (map ?g' [0 ..< 512])" "pages_of (Suc n) p f = p # concat (map ?g [0 ..< 512])" by simp_all
  have root: "p \<notin> set (concat (map ?g [0 ..< 512]))" using inv by (simp add: vm_inv_def)
  have sub: "set (pages_of (Suc n) p f') \<subseteq> set (pages_of (Suc n) p f) \<union> (set ps - set ps')" unfolding pages using u by auto
  have inv': "vm_inv (Suc n) p f' ps'"
  proof -
    have "distinct (pages_of (Suc n) p f')" unfolding pages(1) using u root p(2) by auto
    moreover have "set (pages_of (Suc n) p f') \<inter> set ps' = {}" using sub d(1) e(2) by blast
    moreover have "\<forall>q \<in> set (pages_of (Suc n) p f'). page_ok q" using sub d(2) inv unfolding vm_inv_def set_append by blast
    ultimately show ?thesis using e(1) unfolding vm_inv_def distinct_append set_append by blast
  qed
  have "lookup is j p f' = lookup is j p f" if "indices (Suc n) is" "j < 512" for "is" j
  proof (cases "is")
    case (Cons k ks)
    have "lookup ks j ?c f' = lookup ks j ?c f" using ev that Cons by (simp add: evolves_def)
    then show ?thesis using that Cons same tree_frame(2) [OF others, of k ks j] c by (cases "k = i") auto
  qed (use that in simp)
  moreover have "agree {q. page_ok q \<and> q \<notin> set (pages_of (Suc n) p f) \<and> q \<notin> set ps} f f'"
    using ch(3) by (intro agree_mono [OF e(4)]) blast
  ultimately show "evolves (Suc n) p f ps f' ps'" using inv' e(2) sub unfolding evolves_def by blast
qed

lemma empty_table:
  assumes "\<And>j. j < 512 \<Longrightarrow> load_word q j f = 0"
  shows "pages_of n q f = [q]" and "indices n is \<Longrightarrow> j < 512 \<Longrightarrow> lookup is j q f = 0"
proof -
  have none: "\<not> has_child q j f" if "j < 512" for j using assms [OF that] by (simp add: has_child_def)
  show "pages_of n q f = [q]" using none by (cases n) simp_all
  show "lookup is j q f = 0" if "indices n is" "j < 512" using that none assms by (cases "is"; cases n) auto
qed

text \<open>A new table, as \<open>walk_round\<close> enters it.\<close>

lemma new_table_words:
  assumes inv: "vm_inv (Suc n) p f (q # qs)" and i: "i < 512" and k: "kalloc f = (q, f1)"
    and f2: "f2 = store_word p i (or (K2P q) PTE_TABLE) (zero_page q f1)"
  shows "page_ok r \<Longrightarrow> j < 512 \<Longrightarrow> load_word r j f2 = (if r = p \<and> j = i then or (K2P q) PTE_TABLE else if r = q then 0 else load_word r j f)"
    "free_pages f2 qs" "has_child p i f2" "child p i f2 = q" "page_ok q" "q \<notin> set (pages_of (Suc n) p f)"
proof -
  have d: "set (pages_of (Suc n) p f) \<inter> set (q # qs) = {}" "\<forall>r \<in> set (pages_of (Suc n) p f) \<union> set (q # qs). page_ok r" "free_pages f (q # qs)"
    using inv unfolding vm_inv_def distinct_append set_append by blast+
  have ok: "page_ok p" "page_ok q" "p \<noteq> q" "p \<notin> set qs" "q \<notin> set qs" "\<forall>r \<in> set qs. page_ok r"
    using d root_page [of p "Suc n" f] by (auto simp: free_pages_def)
  have f1: "load_word r j f1 = load_word r j f" for r j
    using k by (auto simp: kalloc_def freelist_alloc_def load_word_def Let_def split: if_splits)
  show l: "load_word r j f2 = (if r = p \<and> j = i then or (K2P q) PTE_TABLE else if r = q then 0 else load_word r j f)" if "page_ok r" "j < 512" for r j
    unfolding f2 using that ok(1-3) i f1 by auto
  have "free_pages f1 qs" using pm.alloc_Cons [OF d(3)] k by auto
  then show "free_pages f2 qs" unfolding f2 using ok i by (intro free_pages_store free_pages_zero) auto
  show "has_child p i f2" using l [OF ok(1) i] table_flags(2) by (simp add: has_child_def entry_valid_or)
  show "child p i f2 = q" using l [OF ok(1) i] next_table_or [OF ok(2) table_flags(1)] by (simp add: child_def)
  show "page_ok q" "q \<notin> set (pages_of (Suc n) p f)" using ok(2) d(1) by auto
qed

lemma evolves_new_table:
  assumes inv: "vm_inv (Suc n) p f (q # qs)" and i: "i < 512" and c: "\<not> has_child p i f" and k: "kalloc f = (q, f1)"
    and f2: "f2 = store_word p i (or (K2P q) PTE_TABLE) (zero_page q f1)"
  shows "evolves (Suc n) p f (q # qs) f2 qs"
proof -
  note t = new_table_words [OF inv i k f2]
  have d: "set (pages_of (Suc n) p f) \<inter> set (q # qs) = {}" "\<forall>r \<in> set (pages_of (Suc n) p f). page_ok r" "distinct (q # qs)" "\<forall>r \<in> set qs. page_ok r"
    using inv unfolding vm_inv_def distinct_append set_append by auto
  have p: "page_ok p" "p \<noteq> q" using d root_page [of p "Suc n" f] by auto
  have same: "has_child p j f2 = has_child p j f" "child p j f2 = child p j f" if "j < 512" "j \<noteq> i" for j
    using t(1) [OF p(1) that(1)] that p(2) by (simp_all add: has_child_def child_def)
  have zero: "load_word q j f2 = 0" if "j < 512" for j using t(1) [OF t(5) that] p(2) by auto
  have others: "agree (set (pages_of n (child p j f) f)) f f2" if j: "j < 512" "has_child p j f" for j
  proof -
    have s: "set (pages_of n (child p j f) f) \<subseteq> set (pages_of (Suc n) p f)" "p \<notin> set (pages_of n (child p j f) f)"
      using vm_inv_child(2,3) [OF inv j] by auto
    have "r \<noteq> p" "r \<noteq> q" "page_ok r" if "r \<in> set (pages_of n (child p j f) f)" for r using that s t(6) d(2) by auto
    then show ?thesis unfolding agree_def using t(1) by auto
  qed
  let ?g = "\<lambda>j. if has_child p j f then pages_of n (child p j f) f else []"
    and ?g' = "\<lambda>j. if has_child p j f2 then pages_of n (child p j f2) f2 else []"
  have pages: "pages_of (Suc n) p f2 = p # concat (map ?g' [0 ..< 512])" "pages_of (Suc n) p f = p # concat (map ?g [0 ..< 512])" by simp_all
  have gi: "?g' i = [q]" using t(3,4) empty_table(1) [OF zero] by simp
  have u: "distinct (concat (map ?g' [0 ..< 512])) \<and> set (concat (map ?g' [0 ..< 512])) \<subseteq> set (concat (map ?g [0 ..< 512])) \<union> {q}"
  proof (rule distinct_concat_update [where i = i])
    show "distinct (concat (map ?g [0 ..< 512]))" using inv by (simp add: vm_inv_def)
    show "?g' x = ?g x" if "x \<in> set [0 ..< 512]" "x \<noteq> i" for x using that same tree_frame(1) [OF others] by simp
    show "distinct (?g' i)" "set (?g' i) \<subseteq> set (?g i) \<union> {q}" unfolding gi by simp_all
    show "{q} \<inter> set (concat (map ?g [0 ..< 512])) = {}" using t(6) pages(2) by auto
  qed simp
  have root: "p \<notin> set (concat (map ?g [0 ..< 512]))" using inv by (simp add: vm_inv_def)
  have sub: "set (pages_of (Suc n) p f2) \<subseteq> set (pages_of (Suc n) p f) \<union> (set (q # qs) - set qs)" unfolding pages using u d(3) by auto
  have "vm_inv (Suc n) p f2 qs"
  proof -
    have "distinct (pages_of (Suc n) p f2)" unfolding pages(1) using u root p(2) by auto
    moreover have "set (pages_of (Suc n) p f2) \<inter> set qs = {}" using sub d(1) by auto
    moreover have "\<forall>r \<in> set (pages_of (Suc n) p f2). page_ok r" using sub d(2) t(5) by auto
    ultimately show ?thesis using t(2) d(3,4) unfolding vm_inv_def distinct_append set_append by auto
  qed
  moreover have "lookup is j p f2 = lookup is j p f" if "indices (Suc n) is" "j < 512" for "is" j
  proof (cases "is")
    case (Cons k ks)
    then show ?thesis
      using that same [of k] tree_frame(2) [OF others, of k ks j] c t(3,4) empty_table(2) [OF zero, of n ks j] by (cases "k = i") auto
  qed (use that in simp)
  moreover have "agree {r. page_ok r \<and> r \<notin> set (pages_of (Suc n) p f) \<and> r \<notin> set (q # qs)} f f2"
    unfolding agree_def using t(1) by auto
  ultimately show ?thesis using sub unfolding evolves_def by auto
qed

lemma walk_tables_ok:
  assumes "vm_inv (length is) p f ps" and "\<forall>i \<in> set is. i < 512" and "length is \<le> length ps"
  obtains t f' ps' where "walk_tables True is p f = (t, f')" "evolves (length is) p f ps f' ps'" "table_at is p f' = Some t"
    "length ps \<le> length ps' + length is"
  using assms
proof (induction "is" arbitrary: p f ps thesis)
  case Nil
  then show ?case using Nil.prems(1) [of p f ps] evolves_refl [of 0 p f ps] by simp
next
  case (Cons i "is")
  obtain f2 ps2 where r: "walk_round True i p f = (child p i f2, f2)" "evolves (Suc (length is)) p f ps f2 ps2" "has_child p i f2"
    "length ps \<le> Suc (length ps2)"
  proof (cases "has_child p i f")
    case True
    then show ?thesis
      using that [of f ps] evolves_refl Cons.prems(2) by (simp add: walk_round_def has_child_def child_def)
  next
    case False
    obtain q qs where ps: "ps = q # qs" using Cons.prems(4) by (cases ps) auto
    have inv: "vm_inv (Suc (length is)) p f (q # qs)" using Cons.prems(2) ps by simp
    then obtain f1 where k: "kalloc f = (q, f1)" using pm.alloc_Cons [of f q qs] unfolding vm_inv_def by blast
    define f2 where "f2 = store_word p i (or (K2P q) PTE_TABLE) (zero_page q f1)"
    have i: "i < 512" using Cons.prems(3) by simp
    note t = new_table_words [OF inv i k f2_def] and e = evolves_new_table [OF inv i False k f2_def]
    have "walk_round True i p f = (child p i f2, f2)"
      using False k page_ok_not_null [OF t(5)] by (simp add: walk_round_def has_child_def child_def f2_def Let_def)
    then show ?thesis using that [of f2 qs] e t(3) ps by simp
  qed
  have inv2: "vm_inv (Suc (length is)) p f2 ps2" using r(2) by (simp add: evolves_def)
  have i: "i < 512" "\<forall>i \<in> set is. i < 512" using Cons.prems(3) by simp_all
  obtain t f' ps' where s: "walk_tables True is (child p i f2) f2 = (t, f')" "evolves (length is) (child p i f2) f2 ps2 f' ps'"
    "table_at is (child p i f2) f' = Some t" "length ps2 \<le> length ps' + length is"
    using Cons.IH [OF _ vm_inv_child(1) [OF inv2 i(1) r(3)] i(2)] Cons.prems(4) r(4) by auto
  note lift = evolves_child [OF inv2 i(1) r(3) s(2)]
  show ?case
    using Cons.prems(1) [of t f' ps'] r s evolves_trans [OF r(2) lift(1)] lift(2,3) by simp
qed

text \<open>Storing in a table at the end of a path changes what that path selects and nothing else.\<close>

lemma table_at_page: "indices n is \<Longrightarrow> table_at is p f = Some t \<Longrightarrow> t \<in> set (pages_of n p f)"
proof (induction n arbitrary: "is" p)
  case (Suc n)
  then obtain i ks where c: "is = i # ks" "i < 512" "indices n ks" by (cases "is") auto
  then have h: "has_child p i f" "table_at ks (child p i f) f = Some t" using Suc.prems(2) by (auto split: if_splits)
  then have "t \<in> set (pages_of n (child p i f) f)" using Suc.IH c(3) by blast
  then show ?case using h(1) c(2) by auto
qed simp

lemma store_lookup:
  assumes "vm_inv n p f ps" and "indices n is" and "j < 512" and "table_at is p f = Some t"
  shows "pages_of n p (store_word t j x f) = pages_of n p f
    \<and> (\<forall>ks k. indices n ks \<longrightarrow> k < 512 \<longrightarrow> lookup ks k p (store_word t j x f) = (if ks = is \<and> k = j then x else lookup ks k p f))"
  using assms
proof (induction n arbitrary: "is" p)
  case 0
  then have "page_ok p" "t = p" by (simp_all add: vm_inv_def)
  then show ?case using 0 by auto
next
  case (Suc n)
  then obtain i is' where c: "is = i # is'" "i < 512" "indices n is'" by (cases "is") auto
  have h: "has_child p i f" "table_at is' (child p i f) f = Some t" using Suc.prems(4) c(1) by (auto split: if_splits)
  let ?f = "store_word t j x f"
  note ch = vm_inv_child [OF Suc.prems(1) c(2) h(1)]
  have t: "t \<in> set (pages_of n (child p i f) f)" by (rule table_at_page [OF c(3) h(2)])
  have ok: "\<forall>q \<in> set (pages_of (Suc n) p f). page_ok q" using Suc.prems(1) unfolding vm_inv_def set_append by blast
  have pt: "page_ok p" "page_ok t" "t \<noteq> p" using ok t ch(2,3) root_page [of p "Suc n" f] by blast+
  have w: "load_word q k ?f = load_word q k f" if "page_ok q" "q \<noteq> t" "k < 512" for q k using that pt(2) Suc.prems(3) by simp
  have same: "has_child p k ?f = has_child p k f" "child p k ?f = child p k f" if "k < 512" for k
    using w [OF pt(1) pt(3) [symmetric] that] by (simp_all add: has_child_def child_def)
  have others: "agree (set (pages_of n (child p k f) f)) f ?f" if k: "k < 512" "k \<noteq> i" "has_child p k f" for k
  proof -
    have "q \<noteq> t" "page_ok q" if "q \<in> set (pages_of n (child p k f) f)" for q
      using that t ch(4) [OF k] vm_inv_child(3) [OF Suc.prems(1) k(1,3)] ok by blast+
    then show ?thesis unfolding agree_def using w by blast
  qed
  note IH = Suc.IH [OF ch(1) c(3) Suc.prems(3) h(2)]
  have "(if has_child p k ?f then pages_of n (child p k ?f) ?f else []) = (if has_child p k f then pages_of n (child p k f) f else [])"
    if "k < 512" for k
    using that same IH tree_frame(1) [OF others] by (cases "k = i") auto
  then have "pages_of (Suc n) p ?f = pages_of (Suc n) p f" by (auto intro!: arg_cong [where f = concat])
  moreover have "lookup ks k p ?f = (if ks = is \<and> k = j then x else lookup ks k p f)" if "indices (Suc n) ks" "k < 512" for ks k
  proof (cases ks)
    case (Cons l ls)
    show ?thesis
    proof (cases "l = i")
      case True
      then show ?thesis using Cons that same IH h(1) c(1,2) by auto
    next
      case False
      then show ?thesis using Cons that same tree_frame(2) [OF others, of l ls k] c(1) by auto
    qed
  qed (use that in simp)
  ultimately show ?case by blast
qed

lemma vm_inv_store:
  assumes "vm_inv n p f ps" and "indices n is" and "j < 512" and "table_at is p f = Some t"
  shows "vm_inv n p (store_word t j x f) ps"
proof -
  have "t \<in> set (pages_of n p f)" by (rule table_at_page [OF assms(2,4)])
  then have "page_ok t" "t \<notin> set ps" using assms(1) unfolding vm_inv_def distinct_append set_append by blast+
  then have "free_pages (store_word t j x f) ps" using assms(1,3) unfolding vm_inv_def set_append by (intro free_pages_store) blast+
  then show ?thesis using store_lookup [OF assms, of x] assms(1) by (simp add: vm_inv_def)
qed

section \<open>Addresses and paths\<close>

lemma level_index_nat: "i \<le> 3 \<Longrightarrow> level_index va i = unat va div 4096 div 512 ^ (3 - i) mod 512"
proof -
  have "(0x1FF :: u64) = mask 9" by (simp add: mask_eq_exp_minus_1)
  then have "level_index va i = unat (take_bit 9 (drop_bit ((3 - i) * 9) (drop_bit 12 va)))"
    by (simp add: level_index_def take_bit_eq_mask)
  also have "\<dots> = unat va div 2 ^ 12 div 2 ^ ((3 - i) * 9) mod 2 ^ 9"
    unfolding unsigned_take_bit_eq unsigned_drop_bit_eq using unat_ptr_less [of va] by (simp add: take_bit_eq_mod drop_bit_eq_div)
  finally show ?thesis by (simp add: power_mult mult.commute [of _ 9])
qed

definition va_path :: "u64 \<Rightarrow> nat list" where
  "va_path va = map (level_index va) [0, 1, 2]"

definition pte :: "ptr \<Rightarrow> u64 \<Rightarrow> FreeList \<Rightarrow> u64" where
  "pte pgdir va f = lookup (va_path va) (level_index va 3) pgdir f"

lemma va_path_indices: "indices 3 (va_path va)" "level_index va 3 < 512"
  by (simp_all add: va_path_def indices_def level_index_nat)

lemma path_inj:
  assumes "unat v < 2 ^ 48" and "unat w < 2 ^ 48"
  shows "va_path v = va_path w \<and> level_index v 3 = level_index w 3 \<longleftrightarrow> unat v div 4096 = unat w div 4096"
proof -
  define a b where "a = unat v div 4096" and "b = unat w div 4096"
  have lt: "a < 512 ^ 4" "b < 512 ^ 4" using assms by (simp_all add: a_def b_def less_mult_imp_div_less)
  have split: "x = 512 * (512 * (512 * (x div 512 ^ 3 mod 512) + x div 512 ^ 2 mod 512) + x div 512 mod 512) + x mod 512" if "x < 512 ^ 4" for x :: nat
  proof -
    have "x div 512 ^ 3 mod 512 = x div 512 ^ 3" using that by (simp add: less_mult_imp_div_less)
    moreover have "x div 512 ^ 2 = 512 * (x div 512 ^ 3) + x div 512 ^ 2 mod 512"
      using mult_div_mod_eq [of 512 "x div 512 ^ 2"] by (simp add: div_mult2_eq [symmetric])
    moreover have "x div 512 = 512 * (x div 512 ^ 2) + x div 512 mod 512"
      using mult_div_mod_eq [of 512 "x div 512"] by (simp add: div_mult2_eq [symmetric])
    ultimately show ?thesis using mult_div_mod_eq [of 512 x] by simp
  qed
  have "va_path v = va_path w \<and> level_index v 3 = level_index w 3 \<longleftrightarrow>
      a div 512 ^ 3 mod 512 = b div 512 ^ 3 mod 512 \<and> a div 512 ^ 2 mod 512 = b div 512 ^ 2 mod 512 \<and> a div 512 mod 512 = b div 512 mod 512 \<and> a mod 512 = b mod 512"
    by (auto simp: va_path_def level_index_nat a_def b_def numeral_3_eq_3 numeral_2_eq_2)
  also have "\<dots> \<longleftrightarrow> a = b" using split [OF lt(1)] split [OF lt(2)] by metis
  finally show ?thesis by (simp add: a_def b_def)
qed

lemma pgdir_walk_ok:
  assumes "vm_inv 3 pgdir f ps" and "3 \<le> length ps"
  obtains t f' ps' where "pgdir_walk pgdir va True f = (word_addr t (level_index va 3), f')" "evolves 3 pgdir f ps f' ps'"
    "table_at (va_path va) pgdir f' = Some t" "length ps \<le> length ps' + 3" "page_ok t"
proof -
  have l: "length (va_path va) = 3" "\<forall>i \<in> set (va_path va). i < 512" using va_path_indices(1) [of va] by (simp_all add: indices_def)
  obtain t f' ps' where w: "walk_tables True (va_path va) pgdir f = (t, f')" "evolves 3 pgdir f ps f' ps'"
    "table_at (va_path va) pgdir f' = Some t" "length ps \<le> length ps' + 3"
    using walk_tables_ok [of "va_path va" pgdir f ps] assms l by auto
  have "t \<in> set (pages_of 3 pgdir f')" by (rule table_at_page [OF va_path_indices(1) w(3)])
  then have "page_ok t" using w(2) unfolding evolves_def vm_inv_def set_append by blast
  moreover have "pgdir_walk pgdir va True f = (word_addr t (level_index va 3), f')"
    by (simp only: pgdir_walk_def va_path_def [symmetric] w(1) prod.case Let_def)
  ultimately show thesis using w(2-4) by (intro that [of t f' ps']) simp_all
qed

lemma pte_store:
  assumes "vm_inv 3 pgdir f ps" and "table_at (va_path va) pgdir f = Some t" and "unat va < 2 ^ 48" and "unat v < 2 ^ 48"
  shows "pte pgdir v (store_word t (level_index va 3) x f) = (if unat v div 4096 = unat va div 4096 then x else pte pgdir v f)"
proof -
  have "pte pgdir v (store_word t (level_index va 3) x f)
      = (if va_path v = va_path va \<and> level_index v 3 = level_index va 3 then x else pte pgdir v f)"
    unfolding pte_def
    using store_lookup [OF assms(1) va_path_indices(1) va_path_indices(2) [of va] assms(2), of x] va_path_indices [of v] by blast
  then show ?thesis unfolding path_inj [OF assms(4,3)] .
qed

lemma evolves_pte: "evolves 3 pgdir f ps f' ps' \<Longrightarrow> pte pgdir v f' = pte pgdir v f"
  using va_path_indices [of v] by (simp add: evolves_def pte_def)

definition page_va :: "nat \<Rightarrow> u64" where
  "page_va g = of_nat (4096 * g)"

lemma unat_page_va: "g < 2 ^ 36 \<Longrightarrow> unat (page_va g) = 4096 * g"
  unfolding page_va_def by (rule unat_of_nat_ptr) simp

lemma uvm_map_loop_ok:
  assumes "vm_inv 3 pgdir f ps" and "3 * m \<le> length ps" and "a + m \<le> 2 ^ 36"
  shows "\<exists>f' ps'. uvm_map_loop pgdir (map (\<lambda>k. page_va (a + k)) [0 ..< m]) pa f = Inr f' \<and> vm_inv 3 pgdir f' ps'
    \<and> length ps \<le> length ps' + 3 * m
    \<and> (\<forall>v. unat v < 2 ^ 48 \<longrightarrow> pte pgdir v f'
        = (let g = unat v div 4096 in if a \<le> g \<and> g < a + m then or (pa + of_nat (4096 * (g - a))) PTE_USER_DATA else pte pgdir v f))"
  using assms
proof (induction m arbitrary: a pa f ps)
  case 0
  then show ?case by (intro exI [of _ f] exI [of _ ps]) (auto simp: Let_def)
next
  case (Suc m)
  let ?va = "page_va a"
  have a: "unat ?va = 4096 * a" "unat ?va < 2 ^ 48" "unat ?va div 4096 = a" using unat_page_va [of a] Suc.prems(3) by simp_all
  have three: "3 \<le> length ps" using Suc.prems(2) by simp
  from Suc.prems(1) three obtain t f1 ps1 where w: "pgdir_walk pgdir ?va True f = (word_addr t (level_index ?va 3), f1)"
    "evolves 3 pgdir f ps f1 ps1" "table_at (va_path ?va) pgdir f1 = Some t" "length ps \<le> length ps1 + 3" "page_ok t"
    by (rule pgdir_walk_ok)
  let ?f2 = "store_word t (level_index ?va 3) (or pa PTE_USER_DATA) f1"
  have inv1: "vm_inv 3 pgdir f1 ps1" using w(2) by (simp add: evolves_def)
  have inv2: "vm_inv 3 pgdir ?f2 ps1" by (rule vm_inv_store [OF inv1 va_path_indices(1) va_path_indices(2) w(3)])
  have "0 < unat t" using page_ok_not_null [OF w(5)] by (simp add: unat_gt_0)
  then have "unat (word_addr t (level_index ?va 3)) \<noteq> 0" using unat_word_addr [OF w(5) va_path_indices(2)] by simp
  then have nn: "word_addr t (level_index ?va 3) \<noteq> NULL" by auto
  have upt: "map (\<lambda>k. page_va (a + k)) [0 ..< Suc m] = ?va # map (\<lambda>k. page_va (Suc a + k)) [0 ..< m]"
    by (simp add: upt_conv_Cons map_Suc_upt [symmetric] del: upt_Suc)
  have step: "uvm_map_loop pgdir (map (\<lambda>k. page_va (a + k)) [0 ..< Suc m]) pa f
      = uvm_map_loop pgdir (map (\<lambda>k. page_va (Suc a + k)) [0 ..< m]) (pa + PAGE_SIZE) ?f2"
    unfolding upt using w(1) nn by (simp add: store_word_def)
  obtain f' ps' where r: "uvm_map_loop pgdir (map (\<lambda>k. page_va (Suc a + k)) [0 ..< m]) (pa + PAGE_SIZE) ?f2 = Inr f'" "vm_inv 3 pgdir f' ps'"
    "length ps1 \<le> length ps' + 3 * m"
    "\<And>v. unat v < 2 ^ 48 \<Longrightarrow> pte pgdir v f' = (let g = unat v div 4096 in
        if Suc a \<le> g \<and> g < Suc a + m then or (pa + PAGE_SIZE + of_nat (4096 * (g - Suc a))) PTE_USER_DATA else pte pgdir v ?f2)"
    using Suc.IH [OF inv2, of "Suc a" "pa + PAGE_SIZE"] Suc.prems(2,3) w(4) by auto
  have "pte pgdir v f' = (let g = unat v div 4096 in if a \<le> g \<and> g < a + Suc m then or (pa + of_nat (4096 * (g - a))) PTE_USER_DATA else pte pgdir v f)"
    if v: "unat v < 2 ^ 48" for v
  proof -
    define g where "g = unat v div 4096"
    have p2: "pte pgdir v ?f2 = (if g = a then or pa PTE_USER_DATA else pte pgdir v f)"
      using pte_store [OF inv1 w(3) a(2) v] evolves_pte [OF w(2)] a(3) by (simp add: g_def)
    have eq: "pa + PAGE_SIZE + of_nat (4096 * (g - Suc a)) = pa + of_nat (4096 * (g - a))" if "Suc a \<le> g"
    proof -
      have "4096 * (g - a) = 4096 + 4096 * (g - Suc a)" using that by simp
      then show ?thesis by (simp add: PAGE_SIZE_def)
    qed
    consider "g = a" | "Suc a \<le> g" "g < Suc a + m" | "g < a \<or> Suc a + m \<le> g" by linarith
    then show ?thesis unfolding r(4) [OF v] Let_def g_def [symmetric] p2 by cases (simp_all add: eq del: of_nat_mult of_nat_diff)
  qed
  then show ?case unfolding step using r(1-3) w(4) by (intro exI [of _ f'] exI [of _ ps']) auto
qed

lemma page_steps_pages:
  assumes "unat lo = 4096 * a" and "unat hi \<le> 2 ^ 48"
  shows "page_steps lo hi = map (\<lambda>k. page_va (a + k)) [0 ..< (unat hi + 4095) div 4096 - a]"
proof -
  have lo: "lo = of_nat (4096 * a)" 
    using assms(1) unat_ptr_less [of lo] unat_of_nat_ptr [of "4096 * a"] by (simp add: word_unat_eq_iff)
  have "(unat hi - unat lo + 4095) div 4096 = (unat hi + 4095) div 4096 - a"
  proof (cases "4096 * a \<le> unat hi")
    case True
    then obtain d where "unat hi = 4096 * a + d" using le_Suc_ex by blast
    then show ?thesis using assms(1) by simp
  next
    case False
    then have "unat hi + 4095 < Suc a * 4096" by simp
    then have "(unat hi + 4095) div 4096 < Suc a" by (rule less_mult_imp_div_less)
    then show ?thesis using False assms(1) by simp
  qed
  moreover have "lo + of_nat (4096 * k) = page_va (a + k)" for k unfolding lo page_va_def by (simp add: distrib_left)
  ultimately show ?thesis unfolding page_steps_def by simp
qed

section \<open>Releasing trees\<close>

text \<open>What releasing a tree does: its pages come to the front of the free list, and only they are written.\<close>

definition releases :: "nat \<Rightarrow> (ptr \<Rightarrow> FreeList \<Rightarrow> FreeList res) \<Rightarrow> bool" where
  "releases n r \<longleftrightarrow> (\<forall>p f ps. vm_inv n p f ps \<longrightarrow> (\<exists>f' qs. r p f = Inr f' \<and> free_pages f' (qs @ ps)
     \<and> set qs = set (pages_of n p f) \<and> agree {q. page_ok q \<and> q \<notin> set (pages_of n p f)} f f'))"

lemma kfree_page:
  assumes "free_pages f ps" and "page_ok p" and "p \<notin> set ps"
  obtains f' where "kfree p f = Inr f'" "free_pages f' (p # ps)" "agree {q. page_ok q \<and> q \<noteq> p} f f'"
proof -
  obtain f' where f': "kfree p f = Inr f'" "free_pages f' (p # ps)"
    using pm.free_rep [OF assms(1) page_ok_not_null [OF assms(2)] assms(3)] by blast
  have "f' = f\<lparr>page_word := (page_word f)(word_addr p 0 := fl_next f), fl_next := p\<rparr>"
    using f'(1) page_ok_not_null [OF assms(2)] by (simp add: kfree_def freelist_free_def)
  then have "load_word q i f' = load_word q i f" if "page_ok q" "q \<noteq> p" "i < 512" for q i
    using word_addr_eq_iff [OF that(1) assms(2) that(3), of 0] that(2) by (simp add: load_word_def)
  then have "agree {q. page_ok q \<and> q \<noteq> p} f f'" by (simp add: agree_def)
  then show thesis using f' by (intro that)
qed

lemma kfree_releases: "releases 0 kfree"
  unfolding releases_def
proof (intro allI impI)
  fix p f ps
  assume "vm_inv 0 p f ps"
  then have "free_pages f ps" "page_ok p" "p \<notin> set ps" by (simp_all add: vm_inv_def)
  then obtain f' where "kfree p f = Inr f'" "free_pages f' (p # ps)" "agree {q. page_ok q \<and> q \<noteq> p} f f'" by (rule kfree_page)
  then show "\<exists>f' qs. kfree p f = Inr f' \<and> free_pages f' (qs @ ps) \<and> set qs = set (pages_of 0 p f)
      \<and> agree {q. page_ok q \<and> q \<notin> set (pages_of 0 p f)} f f'"
    by (intro exI [of _ f'] exI [of _ "[p]"]) simp
qed

lemma vm_inv_agree: "vm_inv n p f ps \<Longrightarrow> agree (set (pages_of n p f)) f f' \<Longrightarrow> free_pages f' (qs @ ps) \<Longrightarrow>
    set qs \<inter> set (pages_of n p f) = {} \<Longrightarrow> \<forall>q \<in> set qs. page_ok q \<Longrightarrow> vm_inv n p f' (qs @ ps)"
  unfolding vm_inv_def using tree_frame(1) [of n p f f'] by (auto simp: free_pages_def)

definition subtrees :: "nat \<Rightarrow> ptr \<Rightarrow> nat list \<Rightarrow> FreeList \<Rightarrow> ptr set" where
  "subtrees n p is f = (\<Union>i \<in> {i \<in> set is. has_child p i f}. set (pages_of n (child p i f) f))"

lemma free_entries_release:
  assumes below: "releases n r" and p: "page_ok p"
    and "distinct is" and "\<forall>i \<in> set is. i < 512" and "free_pages f ps" and "p \<notin> subtrees n p is f"
    and "\<And>i. i \<in> set is \<Longrightarrow> has_child p i f \<Longrightarrow> vm_inv n (child p i f) f ps"
    and "\<And>i j. i \<in> set is \<Longrightarrow> j \<in> set is \<Longrightarrow> i \<noteq> j \<Longrightarrow> has_child p i f \<Longrightarrow> has_child p j f \<Longrightarrow>
      set (pages_of n (child p i f) f) \<inter> set (pages_of n (child p j f) f) = {}"
  shows "\<exists>f' qs. free_entries r p is f = Inr f' \<and> free_pages f' (qs @ ps) \<and> set qs = subtrees n p is f
    \<and> agree {q. page_ok q \<and> q \<notin> subtrees n p is f} f f'"
  using assms(3-)
proof (induction "is" arbitrary: f ps)
  case Nil
  then show ?case by (intro exI [of _ f] exI [of _ "[]"]) (simp add: subtrees_def agree_def)
next
  case (Cons i "is")
  have i: "i < 512" "i \<notin> set is" using Cons.prems(1,2) by simp_all
  show ?case
  proof (cases "has_child p i f")
    case False
    then have "subtrees n p (i # is) f = subtrees n p is f" unfolding subtrees_def by auto
    moreover have "free_entries r p (i # is) f = free_entries r p is f" using False by (simp add: has_child_def)
    moreover have "\<exists>f' qs. free_entries r p is f = Inr f' \<and> free_pages f' (qs @ ps) \<and> set qs = subtrees n p is f
        \<and> agree {q. page_ok q \<and> q \<notin> subtrees n p is f} f f'"
      using Cons.prems False by (intro Cons.IH) (auto simp: subtrees_def)
    ultimately show ?thesis by simp
  next
    case True
    let ?c = "child p i f" let ?S = "set (pages_of n ?c f)"
    have inv: "vm_inv n ?c f ps" using Cons.prems(5) True by simp
    then obtain f1 qs1 where r: "r ?c f = Inr f1" "free_pages f1 (qs1 @ ps)" "set qs1 = ?S" "agree {q. page_ok q \<and> q \<notin> ?S} f f1"
      using below unfolding releases_def by blast
    have split: "subtrees n p (i # is) f = ?S \<union> subtrees n p is f" using True unfolding subtrees_def by auto
    have ok: "\<forall>q \<in> ?S. page_ok q" using inv unfolding vm_inv_def set_append by blast
    have w: "load_word p k f1 = load_word p k f" if "k < 512" for k
      using r(4) p Cons.prems(4) that unfolding split agree_def by simp
    have same: "has_child p k f1 = has_child p k f" "child p k f1 = child p k f" if "k \<in> set is" for k
      using w [of k] Cons.prems(2) that by (simp_all add: has_child_def child_def)
    have keep: "agree (set (pages_of n (child p k f) f)) f f1" if k: "k \<in> set is" "has_child p k f" for k
    proof (rule agree_mono [OF r(4)])
      have "set (pages_of n (child p k f) f) \<inter> ?S = {}" using Cons.prems(6) [of k i] k True i(2) by auto
      moreover have "vm_inv n (child p k f) f ps" using Cons.prems(5) k by simp
      ultimately show "set (pages_of n (child p k f) f) \<subseteq> {q. page_ok q \<and> q \<notin> ?S}" unfolding vm_inv_def set_append by blast
    qed
    have trees: "pages_of n (child p k f1) f1 = pages_of n (child p k f) f" if "k \<in> set is" "has_child p k f" for k
      using tree_frame(1) [OF keep [OF that]] same [OF that(1)] by simp
    have st: "subtrees n p is f1 = subtrees n p is f" unfolding subtrees_def using same trees by auto
    have "\<exists>f' qs. free_entries r p is f1 = Inr f' \<and> free_pages f' (qs @ (qs1 @ ps)) \<and> set qs = subtrees n p is f1
        \<and> agree {q. page_ok q \<and> q \<notin> subtrees n p is f1} f1 f'"
    proof (rule Cons.IH)
      show "p \<notin> subtrees n p is f1" using Cons.prems(4) unfolding split st by simp
      show "vm_inv n (child p k f1) f1 (qs1 @ ps)" if k: "k \<in> set is" "has_child p k f1" for k
      proof -
        have k': "has_child p k f" "child p k f1 = child p k f" using same k by simp_all
        have "vm_inv n (child p k f) f ps" "set (pages_of n (child p k f) f) \<inter> ?S = {}"
          using Cons.prems(5,6) [of k] Cons.prems(6) [of k i] k(1) k'(1) True i(2) by auto
        then show ?thesis using vm_inv_agree [OF _ keep [OF k(1) k'(1)] r(2)] r(3) ok k'(2) by auto
      qed
      show "set (pages_of n (child p k f1) f1) \<inter> set (pages_of n (child p l f1) f1) = {}"
        if "k \<in> set is" "l \<in> set is" "k \<noteq> l" "has_child p k f1" "has_child p l f1" for k l
        using that Cons.prems(6) [of k l] same trees by simp
    qed (use Cons.prems r in auto)
    then obtain f' qs where s: "free_entries r p is f1 = Inr f'" "free_pages f' (qs @ (qs1 @ ps))" "set qs = subtrees n p is f"
      "agree {q. page_ok q \<and> q \<notin> subtrees n p is f} f1 f'" unfolding st by blast
    have "free_entries r p (i # is) f = Inr f'" using True r(1) s(1) by (simp add: has_child_def child_def Let_def)
    moreover have "agree {q. page_ok q \<and> q \<notin> subtrees n p (i # is) f} f f'"
      using r(4) s(4) unfolding split agree_def by auto
    ultimately show ?thesis using s(2,3) r(3) split by (intro exI [of _ f'] exI [of _ "qs @ qs1"]) auto
  qed
qed

lemma free_table_releases:
  assumes "releases n r"
  shows "releases (Suc n) (free_table r)"
  unfolding releases_def
proof (intro allI impI)
  fix p f ps
  assume inv: "vm_inv (Suc n) p f ps"
  have d: "free_pages f ps" "\<forall>q \<in> set (pages_of (Suc n) p f). page_ok q" "set (pages_of (Suc n) p f) \<inter> set ps = {}"
    using inv unfolding vm_inv_def distinct_append set_append by blast+
  have p: "page_ok p" "p \<notin> set ps" using d(2,3) root_page [of p "Suc n" f] by blast+
  let ?T = "subtrees n p [0 ..< 512] f"
  have pages: "set (pages_of (Suc n) p f) = insert p ?T" unfolding subtrees_def by auto
  have pT: "p \<notin> ?T" unfolding subtrees_def using vm_inv_child(2) [OF inv] by auto
  have "\<exists>f' qs. free_entries r p [0 ..< 512] f = Inr f' \<and> free_pages f' (qs @ ps) \<and> set qs = ?T \<and> agree {q. page_ok q \<and> q \<notin> ?T} f f'"
  proof (rule free_entries_release [OF assms p(1)])
    show "vm_inv n (child p i f) f ps" if "i \<in> set [0 ..< 512]" "has_child p i f" for i
      using vm_inv_child(1) [OF inv, of i] that by simp
    show "set (pages_of n (child p i f) f) \<inter> set (pages_of n (child p j f) f) = {}"
      if "i \<in> set [0 ..< 512]" "j \<in> set [0 ..< 512]" "i \<noteq> j" "has_child p i f" "has_child p j f" for i j
      using vm_inv_child(4) [OF inv, of i j] that by simp
  qed (use d(1) pT in simp_all)
  then obtain f1 qs where e: "free_entries r p [0 ..< 512] f = Inr f1" "free_pages f1 (qs @ ps)" "set qs = ?T" "agree {q. page_ok q \<and> q \<notin> ?T} f f1"
    by blast
  have "p \<notin> set (qs @ ps)" using e(3) pT p(2) by simp
  from e(2) p(1) this obtain f' where k: "kfree p f1 = Inr f'" "free_pages f' (p # qs @ ps)" "agree {q. page_ok q \<and> q \<noteq> p} f1 f'"
    by (rule kfree_page)
  have "free_table r p f = Inr f'" using e(1) k(1) by (simp add: free_table_def)
  moreover have "agree {q. page_ok q \<and> q \<notin> set (pages_of (Suc n) p f)} f f'" using e(4) k(3) unfolding pages agree_def by auto
  ultimately show "\<exists>f' qs. free_table r p f = Inr f' \<and> free_pages f' (qs @ ps) \<and> set qs = set (pages_of (Suc n) p f)
      \<and> agree {q. page_ok q \<and> q \<notin> set (pages_of (Suc n) p f)} f f'"
    using k(2) e(3) by (intro exI [of _ f'] exI [of _ "p # qs"]) (simp add: pages del: pages_of.simps)
qed

lemma recur_vm_free_releases: "releases (Suc n) (recur_vm_free n)"
  by (induction n) (simp_all add: free_table_releases kfree_releases)

section \<open>Properties\<close>

text \<open>A page directory without entries, and free pages.\<close>

definition sample_vm :: FreeList where
  "sample_vm = \<lparr>fl_next = 0xFFFF000000101000, page_word = (\<lambda>_. 0)(0xFFFF000000101000 := 0xFFFF000000102000,
     0xFFFF000000102000 := 0xFFFF000000103000)\<rparr>"

lemma sample_vm_inv: "vm_inv n 0xFFFF000000100000 sample_vm [0xFFFF000000101000, 0xFFFF000000102000, 0xFFFF000000103000]"
proof -
  have ok: "page_ok 0xFFFF000000100000" "page_ok 0xFFFF000000101000" "page_ok 0xFFFF000000102000" "page_ok 0xFFFF000000103000"
    by (simp_all add: page_ok_def P2K_def K2P_def PTE_ADDRESS_def KSPACE_MASK_def)
  have "load_word 0xFFFF000000100000 j sample_vm = 0" if "j < 512" for j
    using word_addr_eq_iff [OF ok(1) _ that, of _ 0] ok(2,3) by (auto simp: load_word_def sample_vm_def)
  then have "pages_of n 0xFFFF000000100000 sample_vm = [0xFFFF000000100000]" by (rule empty_table(1))
  moreover have "free_pages sample_vm [0xFFFF000000101000, 0xFFFF000000102000, 0xFFFF000000103000]"
    by (simp add: free_pages_def sample_vm_def)
  ultimately show ?thesis using ok by (simp add: vm_inv_def)
qed

text \<open>
  C20: mapping the pages of a range of user addresses, with pages enough for the tables it may need, succeeds and keeps
  the tables and the free pages apart; afterwards the entry of every page that the range meets names
  the corresponding physical page with the user flags, and the entry of every other page is what it was.
\<close>

theorem uvm_map_correct:
  assumes "vm_inv 3 pgdir f ps" and "unat va + unat sz \<le> 2 ^ 48"
    and "3 * ((unat va + unat sz + 4095) div 4096 - unat va div 4096) \<le> length ps"
  shows "\<exists>f' ps'. uvm_map pgdir va sz pa f = Inr f' \<and> vm_inv 3 pgdir f' ps'
    \<and> (\<forall>v. unat v < 2 ^ 48 \<longrightarrow> pte pgdir v f' =
        (if unat va div 4096 \<le> unat v div 4096 \<and> 4096 * (unat v div 4096) < unat va + unat sz
         then or (round_down pa PAGE_SIZE + of_nat (4096 * (unat v div 4096 - unat va div 4096))) PTE_USER_DATA
         else pte pgdir v f))"
proof -
  define a m where "a = unat va div 4096" and "m = (unat va + unat sz + 4095) div 4096 - unat va div 4096"
  have hi: "unat (va + sz) = unat va + unat sz" using assms(2) by (intro unat_plus_ptr) simp
  have lo: "unat (round_down va PAGE_SIZE) = 4096 * a" by (simp add: unat_round_down_mult PAGE_SIZE_def a_def)
  have steps: "page_steps (round_down va PAGE_SIZE) (va + sz) = map (\<lambda>k. page_va (a + k)) [0 ..< m]"
    using page_steps_pages [OF lo, of "va + sz"] assms(2) unfolding hi m_def a_def by simp
  have "(unat va + unat sz + 4095) div 4096 < Suc (2 ^ 36)" using assms(2) by (intro less_mult_imp_div_less) simp
  moreover have "a \<le> 2 ^ 36" unfolding a_def using assms(2) div_le_mono [of "unat va" "2 ^ 48" 4096] by simp
  ultimately have "a + m \<le> 2 ^ 36" by (simp add: m_def a_def)
  moreover have "3 * m \<le> length ps" using assms(3) by (simp add: m_def)
  ultimately obtain f' ps' where r: "uvm_map_loop pgdir (map (\<lambda>k. page_va (a + k)) [0 ..< m]) (round_down pa PAGE_SIZE) f = Inr f'"
    "vm_inv 3 pgdir f' ps'"
    "\<And>v. unat v < 2 ^ 48 \<Longrightarrow> pte pgdir v f' = (let g = unat v div 4096 in
        if a \<le> g \<and> g < a + m then or (round_down pa PAGE_SIZE + of_nat (4096 * (g - a))) PTE_USER_DATA else pte pgdir v f)"
    using uvm_map_loop_ok [OF assms(1), of m a "round_down pa PAGE_SIZE"] by blast
  have "g < a + m \<longleftrightarrow> 4096 * g < unat va + unat sz" if "a \<le> g" for g
  proof -
    have "g < (unat va + unat sz + 4095) div 4096 \<longleftrightarrow> Suc g * 4096 \<le> unat va + unat sz + 4095"
      by (simp add: Suc_le_eq [symmetric] less_eq_div_iff_mult_less_eq)
    also have "\<dots> \<longleftrightarrow> 4096 * g < unat va + unat sz" by auto
    finally show ?thesis using that by (auto simp: m_def a_def)
  qed
  then show ?thesis
    using r(1,2) by (intro exI [of _ f'] exI [of _ ps']) (auto simp: uvm_map_def steps r(3) Let_def a_def [symmetric])
qed

theorem uvm_map_correct_witness:
  "\<exists>f'. uvm_map 0xFFFF000000100000 0x5000 0x1000 0x80000 sample_vm = Inr f' \<and> pte 0xFFFF000000100000 0x5123 f' = 0x80647"
proof -
  have "(0x80000 OR 0x647 :: u64) = 0x80647" by simp
  then show ?thesis
    using uvm_map_correct [OF sample_vm_inv, of "0x5000" "0x1000" "0x80000"]
    by (auto simp: round_down_def PAGE_SIZE_def PTE_USER_DATA_def dest: spec [of _ "0x5123"])
qed

text \<open>
  C21: releasing an address space in which no page is used twice puts every page of its tables and every page mapped in them
  on the free list exactly once, in front of the pages that were free, and fails nowhere.
\<close>

theorem vm_free_correct:
  assumes "vm_inv 4 pgdir f ps"
  shows "\<exists>f' qs. vm_free pgdir f = Inr f' \<and> free_pages f' (qs @ ps) \<and> distinct (qs @ ps) \<and> set qs = set (pages_of 4 pgdir f)"
proof -
  have "releases 4 (recur_vm_free 3)" using recur_vm_free_releases [of 3] by simp
  then obtain f' qs where "vm_free pgdir f = Inr f'" "free_pages f' (qs @ ps)" "set qs = set (pages_of 4 pgdir f)"
    using assms unfolding releases_def vm_free_def by blast
  then show ?thesis by (auto simp: free_pages_def)
qed

theorem vm_free_correct_witness:
  "\<exists>f' qs. vm_free 0xFFFF000000100000 sample_vm = Inr f' \<and> free_pages f' (qs @ [0xFFFF000000101000, 0xFFFF000000102000, 0xFFFF000000103000])"
  using vm_free_correct [OF sample_vm_inv] by blast

end
