(* ===== verification/Address_Space.thy ===== *)
theory Address_Space
  imports Virtual_Memory "HOL-Library.Multiset"
begin

text \<open>
  Copying an address space, \<^verbatim>\<open>my_uvm_copy\<close> of \<^verbatim>\<open>core/virtual_memory.c\<close>: the copy maps the same addresses with the same
  flags to pages of its own with the same words, and the original is not written.
\<close>

section \<open>Equal trees\<close>

primrec same_tree :: "nat \<Rightarrow> ptr \<Rightarrow> ptr \<Rightarrow> FreeList \<Rightarrow> FreeList \<Rightarrow> bool" where
  "same_tree 0 p q f f' \<longleftrightarrow> (\<forall>i < 512. load_word q i f' = load_word p i f)"
| "same_tree (Suc n) p q f f' \<longleftrightarrow> (\<forall>i < 512. has_child q i f' = has_child p i f \<and> (has_child p i f \<longrightarrow>
     PTE_FLAGS (load_word q i f') = PTE_FLAGS (load_word p i f) \<and> same_tree n (child p i f) (child q i f') f f'))"

lemma agree_words:
  assumes "agree (set (pages_of n p f)) f f'" and "i < 512"
  shows "load_word p i f' = load_word p i f" "has_child p i f' = has_child p i f" "child p i f' = child p i f"
  using assms by (simp_all add: agree_def has_child_def child_def)

lemma agree_child:
  assumes "agree (set (pages_of (Suc n) p f)) f f'" and "i < 512" and "has_child p i f"
  shows "agree (set (pages_of n (child p i f) f)) f f'"
  using assms(2,3) by (intro agree_mono [OF assms(1)]) auto

lemma same_tree_source:
  "agree (set (pages_of n p f)) f f1 \<Longrightarrow> same_tree n p q f1 f' = same_tree n p q f f'"
proof (induction n arbitrary: p q)
  case 0
  then show ?case by (simp add: agree_def)
next
  case (Suc n)
  have "(has_child p i f1 \<longrightarrow> same_tree n (child p i f1) (child q i f') f1 f') = (has_child p i f \<longrightarrow> same_tree n (child p i f) (child q i f') f f')"
    if "i < 512" for i
    using Suc.IH [OF agree_child [OF Suc.prems that]] agree_words [OF Suc.prems that] by auto
  then show ?case
    using agree_words [OF Suc.prems] by auto
qed

lemma same_tree_target:
  "agree (set (pages_of n q f')) f' f1 \<Longrightarrow> same_tree n p q f f1 = same_tree n p q f f'"
proof (induction n arbitrary: p q)
  case 0
  then show ?case by (simp add: agree_def)
next
  case (Suc n)
  have "same_tree n (child p i f) (child q i f1) f f1 = same_tree n (child p i f) (child q i f') f f'"
    if "i < 512" "has_child q i f'" for i
    using Suc.IH [OF agree_child [OF Suc.prems that]] agree_words(3) [OF Suc.prems that(1)] by simp
  then show ?case
    using agree_words [OF Suc.prems] by auto
qed

text \<open>The same paths select entries that are both valid with the same flags, or both not valid.\<close>

lemma same_tree_lookup:
  assumes "same_tree (Suc (length is)) p q f f'" and "\<forall>i \<in> set is. i < 512" and "j < 512"
  defines "a \<equiv> lookup is j p f" and "b \<equiv> lookup is j q f'"
  shows "entry_valid b = entry_valid a \<and> (entry_valid a \<longrightarrow> PTE_FLAGS b = PTE_FLAGS a \<and> same_tree 0 (next_table a) (next_table b) f f')"
  using assms(1-3) unfolding a_def b_def
proof (induction "is" arbitrary: p q)
  case Nil
  then show ?case by (simp add: has_child_def child_def)
next
  case (Cons i "is")
  then have "i < 512" by simp
  then have s: "has_child q i f' = has_child p i f" "has_child p i f \<Longrightarrow> same_tree (Suc (length is)) (child p i f) (child q i f') f f'"
    using Cons.prems(1) by (simp_all only: list.size add_Suc_right add_0_right same_tree.simps(2) [of "Suc (length is)"])
  show ?case
  proof (cases "has_child p i f")
    case True
    then show ?thesis
      using Cons.IH [OF s(2) [OF True]] Cons.prems(2,3) s(1) by (simp del: same_tree.simps)
  qed (use s(1) in simp)
qed

section \<open>Copying pages and tables\<close>

lemma load_copy_page:
  assumes "page_ok d" "page_ok s" "page_ok r" "d \<noteq> s" "j < 512"
  shows "load_word r j (copy_page d s f) = (if r = d then load_word s j f else load_word r j f)"
proof -
  have "load_word r j (fold (\<lambda>i f. store_word d i (load_word s i f) f) is f)
      = (if r = d \<and> j \<in> set is then load_word s j f else load_word r j f)" if "\<forall>i \<in> set is. i < 512" for "is"
    using that assms by (induction "is" arbitrary: f) auto
  from this [of "[0 ..< 512]"] show ?thesis
    using assms(5) by (simp add: copy_page_def)
qed

lemma free_pages_copy:
  assumes "free_pages f ps" and "page_ok d" and "d \<notin> set ps" and "\<forall>q \<in> set ps. page_ok q"
  shows "free_pages (copy_page d s f) ps"
proof -
  have "free_pages (fold (\<lambda>i f. store_word d i (load_word s i f) f) is f) ps" if "\<forall>i \<in> set is. i < 512" "free_pages f ps" for "is" f
    using that assms(2-4) by (induction "is" arbitrary: f) (auto intro: free_pages_store)
  then show ?thesis using assms(1) by (simp add: copy_page_def)
qed

text \<open>What copying a tree does: it takes its pages off the front of the free list and writes only these.\<close>

definition copied_tree :: "nat \<Rightarrow> ptr \<Rightarrow> FreeList \<Rightarrow> ptr list \<Rightarrow> ptr \<Rightarrow> FreeList \<Rightarrow> ptr list \<Rightarrow> ptr list \<Rightarrow> bool" where
  "copied_tree n p f ps q f' us ps' \<longleftrightarrow> ps = us @ ps' \<and> free_pages f' ps' \<and> mset (pages_of n q f') = mset us
     \<and> length us = length (pages_of n p f) \<and> agree {r. page_ok r \<and> r \<notin> set us} f f' \<and> same_tree n p q f f'"

definition copies :: "nat \<Rightarrow> (ptr \<Rightarrow> FreeList \<Rightarrow> (ptr \<times> FreeList) res) \<Rightarrow> bool" where
  "copies n c \<longleftrightarrow> (\<forall>p f ps. vm_inv n p f ps \<and> length (pages_of n p f) \<le> length ps \<longrightarrow>
     (\<exists>q f' us ps'. c p f = Inr (q, f') \<and> copied_tree n p f ps q f' us ps'))"

lemma kalloc_words: "kalloc f = (q, f1) \<Longrightarrow> load_word r j f1 = load_word r j f"
  by (auto simp: kalloc_def freelist_alloc_def load_word_def Let_def split: if_splits)

lemma copy_leaf_copies: "copies 0 copy_leaf"
  unfolding copies_def
proof (intro allI impI)
  fix p f ps
  assume a: "vm_inv 0 p f ps \<and> length (pages_of 0 p f) \<le> length ps"
  then obtain q qs where ps: "ps = q # qs" by (cases ps) auto
  have i: "free_pages f (q # qs)" "page_ok p" "page_ok q" "p \<noteq> q" "q \<notin> set qs" "\<forall>r \<in> set qs. page_ok r"
    using a ps by (auto simp: vm_inv_def)
  obtain f1 where k: "kalloc f = (q, f1)" "free_pages f1 qs" using pm.alloc_Cons [OF i(1)] by blast
  let ?f = "copy_page q p f1"
  have w: "load_word r j ?f = (if r = q then load_word p j f else load_word r j f)" if "page_ok r" "j < 512" for r j
    using load_copy_page [OF i(3,2) that(1) _ that(2)] i(4) kalloc_words [OF k(1)] by simp
  have "copy_leaf p f = Inr (q, ?f)"
    using k(1) page_ok_not_null [OF i(3)] by (simp add: copy_leaf_def)
  moreover have "copied_tree 0 p f ps q ?f [q] qs"
    using ps w i(3) free_pages_copy [OF k(2) i(3,5,6)] by (auto simp: copied_tree_def agree_def)
  ultimately show "\<exists>q f' us ps'. copy_leaf p f = Inr (q, f') \<and> copied_tree 0 p f ps q f' us ps'" by blast
qed

lemma page_low_bits: "page_ok p \<Longrightarrow> PTE_ADDRESS (K2P p) = K2P p"
  unfolding page_ok_def P2K_def K2P_def KSPACE_MASK_def by (simp only: eq_diff_eq)

lemma copied_entry:
  assumes "page_ok d" and "entry_valid e"
  defines "e' \<equiv> or (K2P d) (PTE_FLAGS e)"
  shows "entry_valid e'" "next_table e' = d" "PTE_FLAGS e' = PTE_FLAGS e"
proof -
  have m: "(0xFFF :: u64) = mask 12" by (simp add: mask_eq_exp_minus_1)
  then have flags: "PTE_FLAGS x = take_bit 12 x" for x by (simp add: PTE_FLAGS_def take_bit_eq_mask)
  show "entry_valid e'" using assms(2) by (simp add: e'_def entry_valid_bit flags bit_simps)
  show "next_table e' = d" unfolding e'_def by (rule next_table_or [OF assms(1)]) (simp add: flags)
  have "12 \<le> k" if "bit (K2P d) k" for k
    using that bit_PTE_ADDRESS [of "K2P d" k] page_low_bits [OF assms(1)] by simp
  then have "take_bit 12 (K2P d) = 0"
    by (intro bit_word_eqI) (auto simp: bit_take_bit_iff dest: leD)
  then show "PTE_FLAGS e' = PTE_FLAGS e" by (simp add: e'_def flags)
qed

text \<open>The pages below some entries of a table.\<close>

definition kids :: "nat \<Rightarrow> ptr \<Rightarrow> nat list \<Rightarrow> FreeList \<Rightarrow> ptr list" where
  "kids n p is f = concat (map (\<lambda>i. if has_child p i f then pages_of n (child p i f) f else []) is)"

lemma kids_simps [simp]:
  "kids n p [] f = []"
  "kids n p (i # is) f = (if has_child p i f then pages_of n (child p i f) f else []) @ kids n p is f"
  by (simp_all add: kids_def)

lemma pages_of_kids: "pages_of (Suc n) p f = p # kids n p [0 ..< 512] f"
  by (simp add: kids_def)

lemma kids_frame:
  assumes "\<And>i. i \<in> set is \<Longrightarrow> load_word p i f' = load_word p i f"
    and "\<And>i. i \<in> set is \<Longrightarrow> has_child p i f \<Longrightarrow> agree (set (pages_of n (child p i f) f)) f f'"
  shows "kids n p is f' = kids n p is f"
proof -
  have "(if has_child p i f' then pages_of n (child p i f') f' else []) = (if has_child p i f then pages_of n (child p i f) f else [])" if "i \<in> set is" for i
    using assms(1) [OF that] tree_frame(1) [OF assms(2) [OF that]] by (auto simp: has_child_def child_def)
  then show ?thesis
    unfolding kids_def by (intro arg_cong [where f = concat] map_cong refl)
qed

text \<open>The state of the loop before the entries \<open>is\<close> of table \<open>p\<close> are copied to table \<open>q\<close>.\<close>

definition copy_ready :: "nat \<Rightarrow> ptr \<Rightarrow> ptr \<Rightarrow> nat list \<Rightarrow> FreeList \<Rightarrow> ptr list \<Rightarrow> bool" where
  "copy_ready n p q is f ps \<longleftrightarrow> page_ok p \<and> page_ok q \<and> p \<noteq> q \<and> p \<notin> set ps \<and> q \<notin> set ps \<and> free_pages f ps \<and> (\<forall>r \<in> set ps. page_ok r)
     \<and> distinct is \<and> (\<forall>i \<in> set is. i < 512 \<and> \<not> has_child q i f)
     \<and> (\<forall>i \<in> set is. has_child p i f \<longrightarrow> vm_inv n (child p i f) f ps \<and> q \<notin> set (pages_of n (child p i f) f))
     \<and> length (kids n p is f) \<le> length ps"

definition copied_entries :: "nat \<Rightarrow> ptr \<Rightarrow> ptr \<Rightarrow> nat list \<Rightarrow> FreeList \<Rightarrow> ptr list \<Rightarrow> FreeList \<Rightarrow> ptr list \<Rightarrow> ptr list \<Rightarrow> bool" where
  "copied_entries n p q is f ps f' us ps' \<longleftrightarrow> ps = us @ ps' \<and> free_pages f' ps' \<and> mset (kids n q is f') = mset us
     \<and> length us = length (kids n p is f) \<and> agree {r. page_ok r \<and> r \<noteq> q \<and> r \<notin> set us} f f'
     \<and> (\<forall>j < 512. j \<notin> set is \<longrightarrow> load_word q j f' = load_word q j f)
     \<and> (\<forall>i \<in> set is. has_child q i f' = has_child p i f \<and> (has_child p i f \<longrightarrow>
          PTE_FLAGS (load_word q i f') = PTE_FLAGS (load_word p i f) \<and> same_tree n (child p i f) (child q i f') f f'))"

lemma copied_pages: "copied_tree n p f ps q f' us ps' \<Longrightarrow> set (pages_of n q f') = set us"
  unfolding copied_tree_def by (metis set_mset_mset)

text \<open>After one entry has been copied the loop is ready for the others.\<close>

lemma copy_ready_step:
  assumes ready: "copy_ready n p q (i # is) f ps" and c: "has_child p i f"
    and below: "copied_tree n (child p i f) f ps d f1 us ps1"
    and f2: "f2 = store_word q i (or (K2P d) (PTE_FLAGS (load_word p i f))) f1"
  shows "copy_ready n p q is f2 ps1" "kids n p is f2 = kids n p is f" "agree {r. page_ok r \<and> r \<noteq> q \<and> r \<notin> set us} f f2"
    "agree (set us) f1 f2"
    "load_word q i f2 = or (K2P d) (PTE_FLAGS (load_word p i f))" "j < 512 \<Longrightarrow> j \<noteq> i \<Longrightarrow> load_word q j f2 = load_word q j f"
    "k \<in> set is \<Longrightarrow> has_child p k f \<Longrightarrow> agree (set (pages_of n (child p k f) f)) f f2" "page_ok d"
proof -
  have r: "page_ok p" "page_ok q" "p \<noteq> q" "p \<notin> set ps" "q \<notin> set ps" "\<forall>r \<in> set ps. page_ok r" "distinct ps" "i < 512" "i \<notin> set is" "distinct is"
      "\<And>k. k \<in> set is \<Longrightarrow> k < 512" "\<And>k. k \<in> set is \<Longrightarrow> \<not> has_child q k f"
      "\<And>k. k \<in> set is \<Longrightarrow> has_child p k f \<Longrightarrow> vm_inv n (child p k f) f ps \<and> q \<notin> set (pages_of n (child p k f) f)"
    using ready by (auto simp: copy_ready_def free_pages_def)
  have b: "ps = us @ ps1" "free_pages f1 ps1" "length us = length (pages_of n (child p i f) f)" "agree {r. page_ok r \<and> r \<notin> set us} f f1"
      "set (pages_of n d f1) = set us"
    using below copied_pages [OF below] by (simp_all add: copied_tree_def)
  have us: "set us \<subseteq> set ps" "set us \<inter> set ps1 = {}" "set ps1 \<subseteq> set ps"
    using b(1) r(7) by auto
  show "page_ok d"
    using b(5) us(1) r(6) root_page [of d n f1] by blast
  have w: "load_word x j f2 = load_word x j f1" if "page_ok x" "j < 512" "x \<noteq> q \<or> j \<noteq> i" for x j
    using that r(2,8) by (auto simp: f2)
  show "load_word q i f2 = or (K2P d) (PTE_FLAGS (load_word p i f))"
    using r(2,8) by (simp add: f2)
  have q1: "load_word q j f1 = load_word q j f" "load_word p j f1 = load_word p j f" if "j < 512" for j
    using b(4) that r(1,2,4,5) us(1) by (auto simp: agree_def)
  then show q2: "load_word q j f2 = load_word q j f" if "j < 512" "j \<noteq> i" for j
    using w [OF r(2), of j] that by simp
  have p2: "load_word p j f2 = load_word p j f" if "j < 512" for j
    using w [OF r(1), of j] q1(2) that r(3) by simp
  show a: "agree {r. page_ok r \<and> r \<noteq> q \<and> r \<notin> set us} f f2"
    using b(4) w by (auto simp: agree_def)
  show "agree (set us) f1 f2"
    using w r(5,6) us(1) by (auto simp: agree_def)
  show keep: "agree (set (pages_of n (child p k f) f)) f f2" if "k \<in> set is" "has_child p k f" for k
  proof (rule agree_mono [OF a])
    have "vm_inv n (child p k f) f ps" "q \<notin> set (pages_of n (child p k f) f)"
      using r(13) [OF that] by auto
    then show "set (pages_of n (child p k f) f) \<subseteq> {r. page_ok r \<and> r \<noteq> q \<and> r \<notin> set us}"
      using us(1) unfolding vm_inv_def distinct_append set_append by blast
  qed
  show kids: "kids n p is f2 = kids n p is f"
    by (rule kids_frame) (use p2 r(11) keep in auto)
  have free: "free_pages f2 ps1"
    unfolding f2 using b(2) r(2,5,6,8) us(3) by (intro free_pages_store) auto
  have "vm_inv n (child p k f2) f2 ps1 \<and> q \<notin> set (pages_of n (child p k f2) f2)" if "k \<in> set is" "has_child p k f2" for k
  proof -
    have h: "has_child p k f" "child p k f2 = child p k f"
      using that p2 r(11) by (simp_all add: has_child_def child_def)
    then show ?thesis
      using r(13) [OF that(1) h(1)] tree_frame(1) [OF keep [OF that(1) h(1)]] free us(3) b(1) by (auto simp: vm_inv_def)
  qed
  moreover have "\<not> has_child q k f2" if "k \<in> set is" for k
    using r(12) [OF that] q2 [OF r(11) [OF that]] r(9) that by (metis has_child_def)
  moreover have "length (kids n p is f) \<le> length ps1"
    using ready c b(1,3) by (simp add: copy_ready_def)
  ultimately show "copy_ready n p q is f2 ps1"
    using r free us(3) kids by (auto simp: copy_ready_def)
qed

lemma copied_entries_step:
  assumes ready: "copy_ready n p q (i # is) f ps" and c: "has_child p i f"
    and below: "copied_tree n (child p i f) f ps d f1 us ps1"
    and f2: "f2 = store_word q i (or (K2P d) (PTE_FLAGS (load_word p i f))) f1"
    and rest: "copied_entries n p q is f2 ps1 f' vs ps'"
  shows "copied_entries n p q (i # is) f ps f' (us @ vs) ps'"
proof -
  note s = copy_ready_step [OF ready c below f2]
  have i: "i < 512" "i \<notin> set is" "\<And>k. k \<in> set is \<Longrightarrow> k < 512" "page_ok p" "p \<noteq> q" "p \<notin> set ps" "q \<notin> set ps" "distinct ps" "\<forall>r \<in> set ps. page_ok r"
    using ready by (auto simp: copy_ready_def free_pages_def)
  have b: "ps = us @ ps1" "set (pages_of n d f1) = set us" "same_tree n (child p i f) d f f1" "mset (pages_of n d f1) = mset us"
      "length us = length (pages_of n (child p i f) f)"
    using below copied_pages [OF below] by (simp_all add: copied_tree_def)
  have r: "ps1 = vs @ ps'" "mset (kids n q is f') = mset vs" "length vs = length (kids n p is f)" "agree {r. page_ok r \<and> r \<noteq> q \<and> r \<notin> set vs} f2 f'"
      "\<And>j. j < 512 \<Longrightarrow> j \<notin> set is \<Longrightarrow> load_word q j f' = load_word q j f2"
    using rest s(2) by (simp_all add: copied_entries_def)
  have p2: "load_word p k f2 = load_word p k f" if "k < 512" for k
    using s(3) i(4-6) b(1) that by (auto simp: agree_def)
  have "agree (set us) f2 f'"
    using r(1,4) b(1) i(7-9) by (auto simp: agree_def)
  then have "agree (set (pages_of n d f1)) f1 f'"
    using s(4) b(2) by (simp add: agree_def)
  then have t: "pages_of n d f' = pages_of n d f1" "same_tree n (child p i f) d f f'"
    using tree_frame(1) same_tree_target b(3) by blast+
  have e: "has_child q i f'" "child q i f' = d" "PTE_FLAGS (load_word q i f') = PTE_FLAGS (load_word p i f)"
    using copied_entry [OF s(8)] c r(5) [OF i(1,2)] s(5) by (simp_all add: has_child_def child_def)
  have others: "has_child q k f' = has_child p k f \<and> (has_child p k f \<longrightarrow>
          PTE_FLAGS (load_word q k f') = PTE_FLAGS (load_word p k f) \<and> same_tree n (child p k f) (child q k f') f f')" if k: "k \<in> set is" for k
  proof -
    have "has_child p k f2 = has_child p k f" "child p k f2 = child p k f" "load_word p k f2 = load_word p k f"
      using p2 [OF i(3) [OF k]] by (simp_all add: has_child_def child_def)
    then show ?thesis
      using rest k same_tree_source [OF s(7) [OF k]] by (auto simp: copied_entries_def)
  qed
  have "agree {r. page_ok r \<and> r \<noteq> q \<and> r \<notin> set (us @ vs)} f f'"
    using s(3) r(4) by (simp add: agree_def)
  then show ?thesis
    using e t b c others r s(6) rest i(2) unfolding copied_entries_def by auto
qed

lemma copy_entries_ok:
  assumes "copies n below" and "copy_ready n p q is f ps"
  shows "\<exists>f' us ps'. copy_entries below p q is f = Inr f' \<and> copied_entries n p q is f ps f' us ps'"
  using assms(2)
proof (induction "is" arbitrary: f ps)
  case Nil
  then show ?case
    by (intro exI [of _ f] exI [of _ "[]"] exI [of _ ps]) (simp add: copied_entries_def copy_ready_def agree_def)
next
  case (Cons i "is")
  show ?case
  proof (cases "has_child p i f")
    case False
    then have "copy_ready n p q is f ps"
      using Cons.prems by (simp add: copy_ready_def)
    from Cons.IH [OF this] obtain f' us ps' where r: "copy_entries below p q is f = Inr f'" "copied_entries n p q is f ps f' us ps'" by blast
    have "i < 512" "i \<notin> set is" "\<not> has_child q i f"
      using Cons.prems by (simp_all add: copy_ready_def)
    then have "\<not> has_child q i f'" "\<forall>j < 512. j \<notin> set (i # is) \<longrightarrow> load_word q j f' = load_word q j f"
      using r(2) by (auto simp: copied_entries_def has_child_def)
    then have "copied_entries n p q (i # is) f ps f' us ps'"
      using r(2) False by (simp add: copied_entries_def)
    then show ?thesis
      using r(1) False by (auto simp: has_child_def)
  next
    case True
    then have "vm_inv n (child p i f) f ps" "length (pages_of n (child p i f) f) \<le> length ps" "page_ok q"
      using Cons.prems by (simp_all add: copy_ready_def)
    then obtain d f1 us ps1 where c: "below (child p i f) f = Inr (d, f1)" "copied_tree n (child p i f) f ps d f1 us ps1"
      using assms(1) unfolding copies_def by blast
    define f2 where "f2 = store_word q i (or (K2P d) (PTE_FLAGS (load_word p i f))) f1"
    obtain f' vs ps' where r: "copy_entries below p q is f2 = Inr f'" "copied_entries n p q is f2 ps1 f' vs ps'"
      using Cons.IH [OF copy_ready_step(1) [OF Cons.prems True c(2) f2_def]] by blast
    have "copy_entries below p q (i # is) f = Inr f'"
      using True c(1) r(1) page_ok_not_null [OF \<open>page_ok q\<close>] by (simp add: has_child_def child_def f2_def Let_def)
    then show ?thesis
      using copied_entries_step [OF Cons.prems True c(2) f2_def r(2)] by blast
  qed
qed

lemma copy_table_copies:
  assumes "copies n below"
  shows "copies (Suc n) (copy_table below)"
  unfolding copies_def
proof (intro allI impI)
  fix p f ps
  assume a: "vm_inv (Suc n) p f ps \<and> length (pages_of (Suc n) p f) \<le> length ps"
  then obtain q qs where ps: "ps = q # qs" by (cases ps) auto
  have i: "free_pages f (q # qs)" "\<forall>r \<in> set (pages_of (Suc n) p f). page_ok r" "set (pages_of (Suc n) p f) \<inter> set (q # qs) = {}"
      "page_ok q" "q \<notin> set qs" "\<forall>r \<in> set qs. page_ok r"
    using a unfolding ps vm_inv_def distinct_append set_append by auto
  have p: "page_ok p" "p \<noteq> q" "p \<notin> set qs"
    using i(2,3) root_page [of p "Suc n" f] unfolding list.set(2) by blast+
  obtain f1 where k: "kalloc f = (q, f1)" "free_pages f1 qs" using pm.alloc_Cons [OF i(1)] by blast
  let ?f = "zero_page q f1"
  have w: "load_word r j ?f = (if r = q then 0 else load_word r j f)" if "page_ok r" "j < 512" for r j
    using that i(4) kalloc_words [OF k(1)] by simp
  have a1: "agree {r. page_ok r \<and> r \<noteq> q} f ?f"
    using w by (simp add: agree_def)
  then have keep: "agree (set (pages_of (Suc n) p f)) f ?f"
    using i(2,3) by (elim agree_mono) (auto simp del: pages_of.simps)
  have free: "free_pages ?f qs"
    by (rule free_pages_zero [OF k(2) i(4,5,6)])
  then have inv: "vm_inv (Suc n) p ?f qs"
    using a tree_frame(1) [OF keep] unfolding ps vm_inv_def by auto
  have kids: "kids n p [0 ..< 512] ?f = kids n p [0 ..< 512] f"
    using tree_frame(1) [OF keep] unfolding pages_of_kids by simp
  have "vm_inv n (child p j ?f) ?f qs \<and> q \<notin> set (pages_of n (child p j ?f) ?f)" if "j < 512" "has_child p j ?f" for j
    using vm_inv_child(1,3) [OF inv that] i(3) unfolding tree_frame(1) [OF keep] list.set(2) by blast
  moreover have "\<not> has_child q j ?f" if "j < 512" for j
    using w [OF i(4) that] by (simp add: has_child_def)
  moreover have "length (kids n p [0 ..< 512] ?f) \<le> length qs"
    using a unfolding kids pages_of_kids ps by simp
  ultimately have "copy_ready n p q [0 ..< 512] ?f qs"
    using p i(4,5,6) free unfolding copy_ready_def by auto
  from copy_entries_ok [OF assms this] obtain f' us ps' where
    r: "copy_entries below p q [0 ..< 512] ?f = Inr f'" "copied_entries n p q [0 ..< 512] ?f qs f' us ps'" by blast
  have "copy_table below p f = Inr (q, f')"
    using k(1) page_ok_not_null [OF i(4)] r(1) by (simp add: copy_table_def pgdir_init_def)
  moreover have "same_tree (Suc n) p q f f'"
    using r(2) same_tree_source [OF keep, of q f'] by (simp add: copied_entries_def)
  moreover have "agree {r. page_ok r \<and> r \<notin> set (q # us)} f f'"
    using r(2) a1 by (auto simp: copied_entries_def agree_def)
  ultimately show "\<exists>q f' us ps'. copy_table below p f = Inr (q, f') \<and> copied_tree (Suc n) p f ps q f' us ps'"
    using r(2) ps kids unfolding copied_tree_def pages_of_kids copied_entries_def
    by (intro exI [of _ q] exI [of _ f'] exI [of _ "q # us"] exI [of _ ps']) simp
qed

lemma recur_uvm_copy_copies: "copies (Suc n) (recur_uvm_copy n)"
  by (induction n) (simp_all add: copy_table_copies copy_leaf_copies)

lemma uvm_copy_copies:
  assumes "vm_inv 4 pgdir f ps" and "length (pages_of 4 pgdir f) \<le> length ps"
  obtains q f' us ps' where "uvm_copy pgdir f = Inr (q, f')" "copied_tree 4 pgdir f ps q f' us ps'" "vm_inv 4 q f' ps'" "vm_inv 4 pgdir f' ps'"
    "set (pages_of 4 q f') \<inter> set (pages_of 4 pgdir f') = {}" "pages_of 4 pgdir f' = pages_of 4 pgdir f"
    "agree (set (pages_of 4 pgdir f)) f f'"
proof -
  have "copies 4 (recur_uvm_copy 3)"
    using recur_uvm_copy_copies [of 3] by simp
  then obtain q f' us ps' where c: "uvm_copy pgdir f = Inr (q, f')" "copied_tree 4 pgdir f ps q f' us ps'"
    using assms unfolding copies_def uvm_copy_def by blast
  have m: "ps = us @ ps'" "free_pages f' ps'" "mset (pages_of 4 q f') = mset us" "agree {r. page_ok r \<and> r \<notin> set us} f f'"
    using c(2) by (simp_all add: copied_tree_def)
  have u: "set (pages_of 4 q f') = set us" "distinct (pages_of 4 q f') = distinct us"
    using m(3) by (metis set_mset_mset, metis mset_eq_imp_distinct_iff)
  have d: "distinct (us @ ps')" "\<forall>r \<in> set (us @ ps'). page_ok r" "set (pages_of 4 pgdir f) \<inter> set (us @ ps') = {}"
      "\<forall>r \<in> set (pages_of 4 pgdir f). page_ok r" "distinct (pages_of 4 pgdir f)"
    using assms(1) unfolding m(1) vm_inv_def distinct_append set_append by blast+
  then have keep: "agree (set (pages_of 4 pgdir f)) f f'"
    by (intro agree_mono [OF m(4)]) auto
  note old = tree_frame(1) [OF keep]
  have "vm_inv 4 q f' ps'" "vm_inv 4 pgdir f' ps'" "set (pages_of 4 q f') \<inter> set (pages_of 4 pgdir f') = {}"
    using d m(2) u unfolding vm_inv_def distinct_append set_append old by blast+
  then show thesis
    using that c old keep by blast
qed

section \<open>Properties\<close>

text \<open>An address space with one page, mapped at address 0x5000, and seven free pages.\<close>

definition pg :: "nat \<Rightarrow> ptr" where
  "pg k = 0xFFFF000000100000 + of_nat (4096 * k)"

definition sample_space :: FreeList where
  "sample_space = \<lparr>fl_next = pg 5, page_word = (\<lambda>_. 0)(word_addr (pg 0) 0 := 0x101003, word_addr (pg 1) 0 := 0x102003, word_addr (pg 2) 0 := 0x103003,
     word_addr (pg 3) 5 := 0x104647, word_addr (pg 4) 7 := 42, word_addr (pg 5) 0 := pg 6, word_addr (pg 6) 0 := pg 7, word_addr (pg 7) 0 := pg 8,
     word_addr (pg 8) 0 := pg 9, word_addr (pg 9) 0 := pg 10, word_addr (pg 10) 0 := pg 11)\<rparr>"

lemma unat_pg: "k < 16 \<Longrightarrow> unat (pg k) = 0xFFFF000000100000 + 4096 * k"
  unfolding pg_def by (subst unat_plus_ptr) (simp_all add: unat_of_nat_ptr del: of_nat_mult)

lemma page_ok_pg: "k < 12 \<Longrightarrow> page_ok (pg k)"
proof -
  assume "k < 12"
  then have "k \<in> {0, 1, 2, 3, 4, 5, 6, 7, 8, 9, 10, 11}" unfolding insert_iff empty_iff by presburger
  then show ?thesis by (auto simp: page_ok_def pg_def P2K_def K2P_def PTE_ADDRESS_def KSPACE_MASK_def)
qed

lemma pg_eq_iff: "j < 12 \<Longrightarrow> k < 12 \<Longrightarrow> pg j = pg k \<longleftrightarrow> j = k"
  unfolding word_unat_eq_iff by (simp add: unat_pg)

lemma sample_words:
  "j < 12 \<Longrightarrow> i < 512 \<Longrightarrow> load_word (pg j) i sample_space = (if i = 0 \<and> j = 0 then 0x101003 else if i = 0 \<and> j = 1 then 0x102003
     else if i = 0 \<and> j = 2 then 0x103003 else if i = 5 \<and> j = 3 then 0x104647 else if i = 7 \<and> j = 4 then 42
     else if i = 0 \<and> 5 \<le> j \<and> j < 11 then pg (Suc j) else 0)"
proof -
  assume "j < 12" and i: "i < 512"
  then have "j \<in> {0, 1, 2, 3, 4, 5, 6, 7, 8, 9, 10, 11}" unfolding insert_iff empty_iff by presburger
  then show ?thesis
    using i by (elim insertE emptyE) (simp_all add: load_word_def sample_space_def word_addr_eq_iff page_ok_pg pg_eq_iff del: word_addr_0)
qed

lemma kids_append: "kids n p (is @ js) f = kids n p is f @ kids n p js f"
  by (simp add: kids_def)

lemma kids_none: "(\<And>j. j \<in> set js \<Longrightarrow> \<not> has_child p j f) \<Longrightarrow> kids n p js f = []"
  by (induction js) auto

lemma single_child:
  assumes "\<And>j. j < 512 \<Longrightarrow> has_child p j f \<longleftrightarrow> j = i" and "i < 512"
  shows "pages_of (Suc n) p f = p # pages_of n (child p i f) f"
proof -
  have "[0 ..< 512] = [0 ..< i] @ i # [Suc i ..< 512]"
    using assms(2) upt_add_eq_append [of 0 i "512 - i"] upt_conv_Cons [of i 512] by simp
  moreover have "kids n p [0 ..< i] f = []" "kids n p [Suc i ..< 512] f = []"
    using assms by (auto intro!: kids_none)
  ultimately show ?thesis
    unfolding pages_of_kids using assms by (simp add: kids_append)
qed

lemma sample_space_pages: "pages_of 4 (pg 0) sample_space = [pg 0, pg 1, pg 2, pg 3, pg 4]"
proof -
  have next_pg: "next_table 0x101003 = pg 1" "next_table 0x102003 = pg 2" "next_table 0x103003 = pg 3" "next_table 0x104647 = pg 4"
    by (simp_all add: next_table_def P2K_def PTE_ADDRESS_def pg_def)
  have v: "entry_valid 0x101003" "entry_valid 0x102003" "entry_valid 0x103003" "entry_valid 0x104647"
    by (simp_all add: entry_valid_def PTE_VALID_def)
  have "pages_of (Suc n) (pg 0) sample_space = pg 0 # pages_of n (pg 1) sample_space" "pages_of (Suc n) (pg 1) sample_space = pg 1 # pages_of n (pg 2) sample_space"
      "pages_of (Suc n) (pg 2) sample_space = pg 2 # pages_of n (pg 3) sample_space" "pages_of (Suc n) (pg 3) sample_space = pg 3 # pages_of n (pg 4) sample_space" for n
    using single_child [of "pg 0" sample_space 0 n] single_child [of "pg 1" sample_space 0 n] single_child [of "pg 2" sample_space 0 n]
      single_child [of "pg 3" sample_space 5 n]
    by (simp_all add: has_child_def child_def sample_words next_pg v del: pages_of.simps)
  then show ?thesis
    by (simp add: numeral_eq_Suc del: pages_of.simps(2))
qed

lemma sample_space_inv: "vm_inv 4 (pg 0) sample_space [pg 5, pg 6, pg 7, pg 8, pg 9, pg 10, pg 11]"
proof -
  have "page_word sample_space (pg j) = load_word (pg j) 0 sample_space" for j
    by (simp add: load_word_def)
  then have "free_pages sample_space [pg 5, pg 6, pg 7, pg 8, pg 9, pg 10, pg 11]"
    using sample_words [of _ 0] page_ok_not_null [OF page_ok_pg] by (simp add: free_pages_def pg_eq_iff) (simp add: sample_space_def)
  then show ?thesis
    by (simp add: vm_inv_def sample_space_pages pg_eq_iff page_ok_pg)
qed

text \<open>
  C17: copying an address space, with as many free pages as it has pages, succeeds.  The copy and the original share no page, both
  are well formed, the original is unchanged, and at every address the copy has a valid entry exactly when the original has one, with
  the same flags and a page of the same words.
\<close>

theorem uvm_copy_correct:
  assumes "vm_inv 4 pgdir f ps" and "length (pages_of 4 pgdir f) \<le> length ps"
  shows "\<exists>q f' ps'. uvm_copy pgdir f = Inr (q, f') \<and> vm_inv 4 q f' ps' \<and> vm_inv 4 pgdir f' ps'
    \<and> set (pages_of 4 q f') \<inter> set (pages_of 4 pgdir f') = {} \<and> length ps' + length (pages_of 4 pgdir f) = length ps
    \<and> agree (set (pages_of 4 pgdir f)) f f'
    \<and> (\<forall>va. entry_valid (pte q va f') = entry_valid (pte pgdir va f) \<and> (entry_valid (pte pgdir va f) \<longrightarrow>
         PTE_FLAGS (pte q va f') = PTE_FLAGS (pte pgdir va f)
         \<and> (\<forall>i < 512. load_word (next_table (pte q va f')) i f' = load_word (next_table (pte pgdir va f)) i f)))"
proof -
  from assms obtain q f' us ps' where c: "uvm_copy pgdir f = Inr (q, f')" "copied_tree 4 pgdir f ps q f' us ps'" "vm_inv 4 q f' ps'" "vm_inv 4 pgdir f' ps'"
      "set (pages_of 4 q f') \<inter> set (pages_of 4 pgdir f') = {}" "pages_of 4 pgdir f' = pages_of 4 pgdir f" "agree (set (pages_of 4 pgdir f)) f f'"
    by (rule uvm_copy_copies)
  have p: "length (va_path va) = 3" "\<forall>i \<in> set (va_path va). i < 512" for va
    using va_path_indices(1) [of va] by (simp_all add: indices_def)
  then have "same_tree (Suc (length (va_path va))) pgdir q f f'" for va
    using c(2) by (simp add: copied_tree_def)
  note e = same_tree_lookup [OF this p(2) va_path_indices(2), folded pte_def]
  have "length ps' + length (pages_of 4 pgdir f) = length ps"
    using c(2) by (simp add: copied_tree_def)
  then show ?thesis
    using c(1,3,4,5,7) e by (intro exI [of _ q] exI [of _ f'] exI [of _ ps']) (simp add: pte_def del: pages_of.simps)
qed

theorem uvm_copy_correct_witness:
  "\<exists>q f'. uvm_copy (pg 0) sample_space = Inr (q, f') \<and> PTE_FLAGS (pte q 0x5000 f') = 0x647 \<and> load_word (next_table (pte q 0x5000 f')) 7 f' = 42
     \<and> set (pages_of 4 q f') \<inter> set (pages_of 4 (pg 0) f') = {}"
proof -
  have i: "level_index 0x5000 0 = 0" "level_index 0x5000 1 = 0" "level_index 0x5000 2 = 0" "level_index 0x5000 3 = 5"
    by (simp_all add: level_index_nat)
  have e: "next_table 0x101003 = pg 1" "next_table 0x102003 = pg 2" "next_table 0x103003 = pg 3" "next_table 0x104647 = pg 4"
      "entry_valid 0x101003" "entry_valid 0x102003" "entry_valid 0x103003" "entry_valid 0x104647" "PTE_FLAGS 0x104647 = 0x647"
    by (simp_all add: next_table_def P2K_def PTE_ADDRESS_def PTE_FLAGS_def pg_def entry_valid_def PTE_VALID_def)
  have "pte (pg 0) 0x5000 sample_space = 0x104647"
    by (simp add: pte_def va_path_def i has_child_def child_def sample_words e del: One_nat_def)
  moreover have "load_word (pg 4) 7 sample_space = 42"
    by (simp add: sample_words)
  moreover have "length (pages_of 4 (pg 0) sample_space) \<le> length [pg 5, pg 6, pg 7, pg 8, pg 9, pg 10, pg 11]"
    by (simp add: sample_space_pages)
  ultimately show ?thesis
    using uvm_copy_correct [OF sample_space_inv] e by (force dest: spec [of _ "0x5000"])
qed

end
