(* ===== verification/Kernel_Tables.thy ===== *)
theory Kernel_Tables
  imports Address_Space
begin

text \<open>
  The page table with which the kernel runs, \<^verbatim>\<open>aarch64/kernel_pt.c\<close>, and what the memory management unit makes of it: the first part of the
  kernel's address space is an image of physical memory, ordinary below the devices and device memory from there on.
\<close>

section \<open>The tables\<close>

definition MT_DEVICE_nGnRnE :: u64 where
  "MT_DEVICE_nGnRnE = 0"

definition MT_NORMAL :: u64 where
  "MT_NORMAL = 1"

definition SH_OUTER :: u64 where
  "SH_OUTER = push_bit 8 2"

definition AF_USED :: u64 where
  "AF_USED = push_bit 10 1"

definition PTE_NORMAL :: u64 where
  "PTE_NORMAL = or (or (push_bit 2 MT_NORMAL) AF_USED) SH_OUTER"

definition PTE_DEVICE :: u64 where
  "PTE_DEVICE = or (push_bit 2 MT_DEVICE_nGnRnE) AF_USED"

definition PTE_BLOCK :: u64 where
  "PTE_BLOCK = 1"

definition PTE_KERNEL :: u64 where
  "PTE_KERNEL = 0"

definition PTE_KERNEL_DATA :: u64 where
  "PTE_KERNEL_DATA = or (or PTE_KERNEL PTE_NORMAL) PTE_BLOCK"

definition PTE_KERNEL_DEVICE :: u64 where
  "PTE_KERNEL_DEVICE = or (or PTE_KERNEL PTE_DEVICE) PTE_BLOCK"

definition kernel_pt_level3 :: "u64 list" where
  "kernel_pt_level3 = [
     or 0x0 PTE_KERNEL_DATA, or 0x200000 PTE_KERNEL_DATA, or 0x400000 PTE_KERNEL_DATA, or 0x600000 PTE_KERNEL_DATA,
     or 0x800000 PTE_KERNEL_DATA, or 0xa00000 PTE_KERNEL_DATA, or 0xc00000 PTE_KERNEL_DATA, or 0xe00000 PTE_KERNEL_DATA,
     or 0x1000000 PTE_KERNEL_DATA, or 0x1200000 PTE_KERNEL_DATA, or 0x1400000 PTE_KERNEL_DATA, or 0x1600000 PTE_KERNEL_DATA,
     or 0x1800000 PTE_KERNEL_DATA, or 0x1a00000 PTE_KERNEL_DATA, or 0x1c00000 PTE_KERNEL_DATA, or 0x1e00000 PTE_KERNEL_DATA,
     or 0x2000000 PTE_KERNEL_DATA, or 0x2200000 PTE_KERNEL_DATA, or 0x2400000 PTE_KERNEL_DATA, or 0x2600000 PTE_KERNEL_DATA,
     or 0x2800000 PTE_KERNEL_DATA, or 0x2a00000 PTE_KERNEL_DATA, or 0x2c00000 PTE_KERNEL_DATA, or 0x2e00000 PTE_KERNEL_DATA,
     or 0x3000000 PTE_KERNEL_DATA, or 0x3200000 PTE_KERNEL_DATA, or 0x3400000 PTE_KERNEL_DATA, or 0x3600000 PTE_KERNEL_DATA,
     or 0x3800000 PTE_KERNEL_DATA, or 0x3a00000 PTE_KERNEL_DATA, or 0x3c00000 PTE_KERNEL_DATA, or 0x3e00000 PTE_KERNEL_DATA,
     or 0x4000000 PTE_KERNEL_DATA, or 0x4200000 PTE_KERNEL_DATA, or 0x4400000 PTE_KERNEL_DATA, or 0x4600000 PTE_KERNEL_DATA,
     or 0x4800000 PTE_KERNEL_DATA, or 0x4a00000 PTE_KERNEL_DATA, or 0x4c00000 PTE_KERNEL_DATA, or 0x4e00000 PTE_KERNEL_DATA,
     or 0x5000000 PTE_KERNEL_DATA, or 0x5200000 PTE_KERNEL_DATA, or 0x5400000 PTE_KERNEL_DATA, or 0x5600000 PTE_KERNEL_DATA,
     or 0x5800000 PTE_KERNEL_DATA, or 0x5a00000 PTE_KERNEL_DATA, or 0x5c00000 PTE_KERNEL_DATA, or 0x5e00000 PTE_KERNEL_DATA,
     or 0x6000000 PTE_KERNEL_DATA, or 0x6200000 PTE_KERNEL_DATA, or 0x6400000 PTE_KERNEL_DATA, or 0x6600000 PTE_KERNEL_DATA,
     or 0x6800000 PTE_KERNEL_DATA, or 0x6a00000 PTE_KERNEL_DATA, or 0x6c00000 PTE_KERNEL_DATA, or 0x6e00000 PTE_KERNEL_DATA,
     or 0x7000000 PTE_KERNEL_DATA, or 0x7200000 PTE_KERNEL_DATA, or 0x7400000 PTE_KERNEL_DATA, or 0x7600000 PTE_KERNEL_DATA,
     or 0x7800000 PTE_KERNEL_DATA, or 0x7a00000 PTE_KERNEL_DATA, or 0x7c00000 PTE_KERNEL_DATA, or 0x7e00000 PTE_KERNEL_DATA,
     or 0x8000000 PTE_KERNEL_DATA, or 0x8200000 PTE_KERNEL_DATA, or 0x8400000 PTE_KERNEL_DATA, or 0x8600000 PTE_KERNEL_DATA,
     or 0x8800000 PTE_KERNEL_DATA, or 0x8a00000 PTE_KERNEL_DATA, or 0x8c00000 PTE_KERNEL_DATA, or 0x8e00000 PTE_KERNEL_DATA,
     or 0x9000000 PTE_KERNEL_DATA, or 0x9200000 PTE_KERNEL_DATA, or 0x9400000 PTE_KERNEL_DATA, or 0x9600000 PTE_KERNEL_DATA,
     or 0x9800000 PTE_KERNEL_DATA, or 0x9a00000 PTE_KERNEL_DATA, or 0x9c00000 PTE_KERNEL_DATA, or 0x9e00000 PTE_KERNEL_DATA,
     or 0xa000000 PTE_KERNEL_DATA, or 0xa200000 PTE_KERNEL_DATA, or 0xa400000 PTE_KERNEL_DATA, or 0xa600000 PTE_KERNEL_DATA,
     or 0xa800000 PTE_KERNEL_DATA, or 0xaa00000 PTE_KERNEL_DATA, or 0xac00000 PTE_KERNEL_DATA, or 0xae00000 PTE_KERNEL_DATA,
     or 0xb000000 PTE_KERNEL_DATA, or 0xb200000 PTE_KERNEL_DATA, or 0xb400000 PTE_KERNEL_DATA, or 0xb600000 PTE_KERNEL_DATA,
     or 0xb800000 PTE_KERNEL_DATA, or 0xba00000 PTE_KERNEL_DATA, or 0xbc00000 PTE_KERNEL_DATA, or 0xbe00000 PTE_KERNEL_DATA,
     or 0xc000000 PTE_KERNEL_DATA, or 0xc200000 PTE_KERNEL_DATA, or 0xc400000 PTE_KERNEL_DATA, or 0xc600000 PTE_KERNEL_DATA,
     or 0xc800000 PTE_KERNEL_DATA, or 0xca00000 PTE_KERNEL_DATA, or 0xcc00000 PTE_KERNEL_DATA, or 0xce00000 PTE_KERNEL_DATA,
     or 0xd000000 PTE_KERNEL_DATA, or 0xd200000 PTE_KERNEL_DATA, or 0xd400000 PTE_KERNEL_DATA, or 0xd600000 PTE_KERNEL_DATA,
     or 0xd800000 PTE_KERNEL_DATA, or 0xda00000 PTE_KERNEL_DATA, or 0xdc00000 PTE_KERNEL_DATA, or 0xde00000 PTE_KERNEL_DATA,
     or 0xe000000 PTE_KERNEL_DATA, or 0xe200000 PTE_KERNEL_DATA, or 0xe400000 PTE_KERNEL_DATA, or 0xe600000 PTE_KERNEL_DATA,
     or 0xe800000 PTE_KERNEL_DATA, or 0xea00000 PTE_KERNEL_DATA, or 0xec00000 PTE_KERNEL_DATA, or 0xee00000 PTE_KERNEL_DATA,
     or 0xf000000 PTE_KERNEL_DATA, or 0xf200000 PTE_KERNEL_DATA, or 0xf400000 PTE_KERNEL_DATA, or 0xf600000 PTE_KERNEL_DATA,
     or 0xf800000 PTE_KERNEL_DATA, or 0xfa00000 PTE_KERNEL_DATA, or 0xfc00000 PTE_KERNEL_DATA, or 0xfe00000 PTE_KERNEL_DATA,
     or 0x10000000 PTE_KERNEL_DATA, or 0x10200000 PTE_KERNEL_DATA, or 0x10400000 PTE_KERNEL_DATA, or 0x10600000 PTE_KERNEL_DATA,
     or 0x10800000 PTE_KERNEL_DATA, or 0x10a00000 PTE_KERNEL_DATA, or 0x10c00000 PTE_KERNEL_DATA, or 0x10e00000 PTE_KERNEL_DATA,
     or 0x11000000 PTE_KERNEL_DATA, or 0x11200000 PTE_KERNEL_DATA, or 0x11400000 PTE_KERNEL_DATA, or 0x11600000 PTE_KERNEL_DATA,
     or 0x11800000 PTE_KERNEL_DATA, or 0x11a00000 PTE_KERNEL_DATA, or 0x11c00000 PTE_KERNEL_DATA, or 0x11e00000 PTE_KERNEL_DATA,
     or 0x12000000 PTE_KERNEL_DATA, or 0x12200000 PTE_KERNEL_DATA, or 0x12400000 PTE_KERNEL_DATA, or 0x12600000 PTE_KERNEL_DATA,
     or 0x12800000 PTE_KERNEL_DATA, or 0x12a00000 PTE_KERNEL_DATA, or 0x12c00000 PTE_KERNEL_DATA, or 0x12e00000 PTE_KERNEL_DATA,
     or 0x13000000 PTE_KERNEL_DATA, or 0x13200000 PTE_KERNEL_DATA, or 0x13400000 PTE_KERNEL_DATA, or 0x13600000 PTE_KERNEL_DATA,
     or 0x13800000 PTE_KERNEL_DATA, or 0x13a00000 PTE_KERNEL_DATA, or 0x13c00000 PTE_KERNEL_DATA, or 0x13e00000 PTE_KERNEL_DATA,
     or 0x14000000 PTE_KERNEL_DATA, or 0x14200000 PTE_KERNEL_DATA, or 0x14400000 PTE_KERNEL_DATA, or 0x14600000 PTE_KERNEL_DATA,
     or 0x14800000 PTE_KERNEL_DATA, or 0x14a00000 PTE_KERNEL_DATA, or 0x14c00000 PTE_KERNEL_DATA, or 0x14e00000 PTE_KERNEL_DATA,
     or 0x15000000 PTE_KERNEL_DATA, or 0x15200000 PTE_KERNEL_DATA, or 0x15400000 PTE_KERNEL_DATA, or 0x15600000 PTE_KERNEL_DATA,
     or 0x15800000 PTE_KERNEL_DATA, or 0x15a00000 PTE_KERNEL_DATA, or 0x15c00000 PTE_KERNEL_DATA, or 0x15e00000 PTE_KERNEL_DATA,
     or 0x16000000 PTE_KERNEL_DATA, or 0x16200000 PTE_KERNEL_DATA, or 0x16400000 PTE_KERNEL_DATA, or 0x16600000 PTE_KERNEL_DATA,
     or 0x16800000 PTE_KERNEL_DATA, or 0x16a00000 PTE_KERNEL_DATA, or 0x16c00000 PTE_KERNEL_DATA, or 0x16e00000 PTE_KERNEL_DATA,
     or 0x17000000 PTE_KERNEL_DATA, or 0x17200000 PTE_KERNEL_DATA, or 0x17400000 PTE_KERNEL_DATA, or 0x17600000 PTE_KERNEL_DATA,
     or 0x17800000 PTE_KERNEL_DATA, or 0x17a00000 PTE_KERNEL_DATA, or 0x17c00000 PTE_KERNEL_DATA, or 0x17e00000 PTE_KERNEL_DATA,
     or 0x18000000 PTE_KERNEL_DATA, or 0x18200000 PTE_KERNEL_DATA, or 0x18400000 PTE_KERNEL_DATA, or 0x18600000 PTE_KERNEL_DATA,
     or 0x18800000 PTE_KERNEL_DATA, or 0x18a00000 PTE_KERNEL_DATA, or 0x18c00000 PTE_KERNEL_DATA, or 0x18e00000 PTE_KERNEL_DATA,
     or 0x19000000 PTE_KERNEL_DATA, or 0x19200000 PTE_KERNEL_DATA, or 0x19400000 PTE_KERNEL_DATA, or 0x19600000 PTE_KERNEL_DATA,
     or 0x19800000 PTE_KERNEL_DATA, or 0x19a00000 PTE_KERNEL_DATA, or 0x19c00000 PTE_KERNEL_DATA, or 0x19e00000 PTE_KERNEL_DATA,
     or 0x1a000000 PTE_KERNEL_DATA, or 0x1a200000 PTE_KERNEL_DATA, or 0x1a400000 PTE_KERNEL_DATA, or 0x1a600000 PTE_KERNEL_DATA,
     or 0x1a800000 PTE_KERNEL_DATA, or 0x1aa00000 PTE_KERNEL_DATA, or 0x1ac00000 PTE_KERNEL_DATA, or 0x1ae00000 PTE_KERNEL_DATA,
     or 0x1b000000 PTE_KERNEL_DATA, or 0x1b200000 PTE_KERNEL_DATA, or 0x1b400000 PTE_KERNEL_DATA, or 0x1b600000 PTE_KERNEL_DATA,
     or 0x1b800000 PTE_KERNEL_DATA, or 0x1ba00000 PTE_KERNEL_DATA, or 0x1bc00000 PTE_KERNEL_DATA, or 0x1be00000 PTE_KERNEL_DATA,
     or 0x1c000000 PTE_KERNEL_DATA, or 0x1c200000 PTE_KERNEL_DATA, or 0x1c400000 PTE_KERNEL_DATA, or 0x1c600000 PTE_KERNEL_DATA,
     or 0x1c800000 PTE_KERNEL_DATA, or 0x1ca00000 PTE_KERNEL_DATA, or 0x1cc00000 PTE_KERNEL_DATA, or 0x1ce00000 PTE_KERNEL_DATA,
     or 0x1d000000 PTE_KERNEL_DATA, or 0x1d200000 PTE_KERNEL_DATA, or 0x1d400000 PTE_KERNEL_DATA, or 0x1d600000 PTE_KERNEL_DATA,
     or 0x1d800000 PTE_KERNEL_DATA, or 0x1da00000 PTE_KERNEL_DATA, or 0x1dc00000 PTE_KERNEL_DATA, or 0x1de00000 PTE_KERNEL_DATA,
     or 0x1e000000 PTE_KERNEL_DATA, or 0x1e200000 PTE_KERNEL_DATA, or 0x1e400000 PTE_KERNEL_DATA, or 0x1e600000 PTE_KERNEL_DATA,
     or 0x1e800000 PTE_KERNEL_DATA, or 0x1ea00000 PTE_KERNEL_DATA, or 0x1ec00000 PTE_KERNEL_DATA, or 0x1ee00000 PTE_KERNEL_DATA,
     or 0x1f000000 PTE_KERNEL_DATA, or 0x1f200000 PTE_KERNEL_DATA, or 0x1f400000 PTE_KERNEL_DATA, or 0x1f600000 PTE_KERNEL_DATA,
     or 0x1f800000 PTE_KERNEL_DATA, or 0x1fa00000 PTE_KERNEL_DATA, or 0x1fc00000 PTE_KERNEL_DATA, or 0x1fe00000 PTE_KERNEL_DATA,
     or 0x20000000 PTE_KERNEL_DATA, or 0x20200000 PTE_KERNEL_DATA, or 0x20400000 PTE_KERNEL_DATA, or 0x20600000 PTE_KERNEL_DATA,
     or 0x20800000 PTE_KERNEL_DATA, or 0x20a00000 PTE_KERNEL_DATA, or 0x20c00000 PTE_KERNEL_DATA, or 0x20e00000 PTE_KERNEL_DATA,
     or 0x21000000 PTE_KERNEL_DATA, or 0x21200000 PTE_KERNEL_DATA, or 0x21400000 PTE_KERNEL_DATA, or 0x21600000 PTE_KERNEL_DATA,
     or 0x21800000 PTE_KERNEL_DATA, or 0x21a00000 PTE_KERNEL_DATA, or 0x21c00000 PTE_KERNEL_DATA, or 0x21e00000 PTE_KERNEL_DATA,
     or 0x22000000 PTE_KERNEL_DATA, or 0x22200000 PTE_KERNEL_DATA, or 0x22400000 PTE_KERNEL_DATA, or 0x22600000 PTE_KERNEL_DATA,
     or 0x22800000 PTE_KERNEL_DATA, or 0x22a00000 PTE_KERNEL_DATA, or 0x22c00000 PTE_KERNEL_DATA, or 0x22e00000 PTE_KERNEL_DATA,
     or 0x23000000 PTE_KERNEL_DATA, or 0x23200000 PTE_KERNEL_DATA, or 0x23400000 PTE_KERNEL_DATA, or 0x23600000 PTE_KERNEL_DATA,
     or 0x23800000 PTE_KERNEL_DATA, or 0x23a00000 PTE_KERNEL_DATA, or 0x23c00000 PTE_KERNEL_DATA, or 0x23e00000 PTE_KERNEL_DATA,
     or 0x24000000 PTE_KERNEL_DATA, or 0x24200000 PTE_KERNEL_DATA, or 0x24400000 PTE_KERNEL_DATA, or 0x24600000 PTE_KERNEL_DATA,
     or 0x24800000 PTE_KERNEL_DATA, or 0x24a00000 PTE_KERNEL_DATA, or 0x24c00000 PTE_KERNEL_DATA, or 0x24e00000 PTE_KERNEL_DATA,
     or 0x25000000 PTE_KERNEL_DATA, or 0x25200000 PTE_KERNEL_DATA, or 0x25400000 PTE_KERNEL_DATA, or 0x25600000 PTE_KERNEL_DATA,
     or 0x25800000 PTE_KERNEL_DATA, or 0x25a00000 PTE_KERNEL_DATA, or 0x25c00000 PTE_KERNEL_DATA, or 0x25e00000 PTE_KERNEL_DATA,
     or 0x26000000 PTE_KERNEL_DATA, or 0x26200000 PTE_KERNEL_DATA, or 0x26400000 PTE_KERNEL_DATA, or 0x26600000 PTE_KERNEL_DATA,
     or 0x26800000 PTE_KERNEL_DATA, or 0x26a00000 PTE_KERNEL_DATA, or 0x26c00000 PTE_KERNEL_DATA, or 0x26e00000 PTE_KERNEL_DATA,
     or 0x27000000 PTE_KERNEL_DATA, or 0x27200000 PTE_KERNEL_DATA, or 0x27400000 PTE_KERNEL_DATA, or 0x27600000 PTE_KERNEL_DATA,
     or 0x27800000 PTE_KERNEL_DATA, or 0x27a00000 PTE_KERNEL_DATA, or 0x27c00000 PTE_KERNEL_DATA, or 0x27e00000 PTE_KERNEL_DATA,
     or 0x28000000 PTE_KERNEL_DATA, or 0x28200000 PTE_KERNEL_DATA, or 0x28400000 PTE_KERNEL_DATA, or 0x28600000 PTE_KERNEL_DATA,
     or 0x28800000 PTE_KERNEL_DATA, or 0x28a00000 PTE_KERNEL_DATA, or 0x28c00000 PTE_KERNEL_DATA, or 0x28e00000 PTE_KERNEL_DATA,
     or 0x29000000 PTE_KERNEL_DATA, or 0x29200000 PTE_KERNEL_DATA, or 0x29400000 PTE_KERNEL_DATA, or 0x29600000 PTE_KERNEL_DATA,
     or 0x29800000 PTE_KERNEL_DATA, or 0x29a00000 PTE_KERNEL_DATA, or 0x29c00000 PTE_KERNEL_DATA, or 0x29e00000 PTE_KERNEL_DATA,
     or 0x2a000000 PTE_KERNEL_DATA, or 0x2a200000 PTE_KERNEL_DATA, or 0x2a400000 PTE_KERNEL_DATA, or 0x2a600000 PTE_KERNEL_DATA,
     or 0x2a800000 PTE_KERNEL_DATA, or 0x2aa00000 PTE_KERNEL_DATA, or 0x2ac00000 PTE_KERNEL_DATA, or 0x2ae00000 PTE_KERNEL_DATA,
     or 0x2b000000 PTE_KERNEL_DATA, or 0x2b200000 PTE_KERNEL_DATA, or 0x2b400000 PTE_KERNEL_DATA, or 0x2b600000 PTE_KERNEL_DATA,
     or 0x2b800000 PTE_KERNEL_DATA, or 0x2ba00000 PTE_KERNEL_DATA, or 0x2bc00000 PTE_KERNEL_DATA, or 0x2be00000 PTE_KERNEL_DATA,
     or 0x2c000000 PTE_KERNEL_DATA, or 0x2c200000 PTE_KERNEL_DATA, or 0x2c400000 PTE_KERNEL_DATA, or 0x2c600000 PTE_KERNEL_DATA,
     or 0x2c800000 PTE_KERNEL_DATA, or 0x2ca00000 PTE_KERNEL_DATA, or 0x2cc00000 PTE_KERNEL_DATA, or 0x2ce00000 PTE_KERNEL_DATA,
     or 0x2d000000 PTE_KERNEL_DATA, or 0x2d200000 PTE_KERNEL_DATA, or 0x2d400000 PTE_KERNEL_DATA, or 0x2d600000 PTE_KERNEL_DATA,
     or 0x2d800000 PTE_KERNEL_DATA, or 0x2da00000 PTE_KERNEL_DATA, or 0x2dc00000 PTE_KERNEL_DATA, or 0x2de00000 PTE_KERNEL_DATA,
     or 0x2e000000 PTE_KERNEL_DATA, or 0x2e200000 PTE_KERNEL_DATA, or 0x2e400000 PTE_KERNEL_DATA, or 0x2e600000 PTE_KERNEL_DATA,
     or 0x2e800000 PTE_KERNEL_DATA, or 0x2ea00000 PTE_KERNEL_DATA, or 0x2ec00000 PTE_KERNEL_DATA, or 0x2ee00000 PTE_KERNEL_DATA,
     or 0x2f000000 PTE_KERNEL_DATA, or 0x2f200000 PTE_KERNEL_DATA, or 0x2f400000 PTE_KERNEL_DATA, or 0x2f600000 PTE_KERNEL_DATA,
     or 0x2f800000 PTE_KERNEL_DATA, or 0x2fa00000 PTE_KERNEL_DATA, or 0x2fc00000 PTE_KERNEL_DATA, or 0x2fe00000 PTE_KERNEL_DATA,
     or 0x30000000 PTE_KERNEL_DATA, or 0x30200000 PTE_KERNEL_DATA, or 0x30400000 PTE_KERNEL_DATA, or 0x30600000 PTE_KERNEL_DATA,
     or 0x30800000 PTE_KERNEL_DATA, or 0x30a00000 PTE_KERNEL_DATA, or 0x30c00000 PTE_KERNEL_DATA, or 0x30e00000 PTE_KERNEL_DATA,
     or 0x31000000 PTE_KERNEL_DATA, or 0x31200000 PTE_KERNEL_DATA, or 0x31400000 PTE_KERNEL_DATA, or 0x31600000 PTE_KERNEL_DATA,
     or 0x31800000 PTE_KERNEL_DATA, or 0x31a00000 PTE_KERNEL_DATA, or 0x31c00000 PTE_KERNEL_DATA, or 0x31e00000 PTE_KERNEL_DATA,
     or 0x32000000 PTE_KERNEL_DATA, or 0x32200000 PTE_KERNEL_DATA, or 0x32400000 PTE_KERNEL_DATA, or 0x32600000 PTE_KERNEL_DATA,
     or 0x32800000 PTE_KERNEL_DATA, or 0x32a00000 PTE_KERNEL_DATA, or 0x32c00000 PTE_KERNEL_DATA, or 0x32e00000 PTE_KERNEL_DATA,
     or 0x33000000 PTE_KERNEL_DATA, or 0x33200000 PTE_KERNEL_DATA, or 0x33400000 PTE_KERNEL_DATA, or 0x33600000 PTE_KERNEL_DATA,
     or 0x33800000 PTE_KERNEL_DATA, or 0x33a00000 PTE_KERNEL_DATA, or 0x33c00000 PTE_KERNEL_DATA, or 0x33e00000 PTE_KERNEL_DATA,
     or 0x34000000 PTE_KERNEL_DATA, or 0x34200000 PTE_KERNEL_DATA, or 0x34400000 PTE_KERNEL_DATA, or 0x34600000 PTE_KERNEL_DATA,
     or 0x34800000 PTE_KERNEL_DATA, or 0x34a00000 PTE_KERNEL_DATA, or 0x34c00000 PTE_KERNEL_DATA, or 0x34e00000 PTE_KERNEL_DATA,
     or 0x35000000 PTE_KERNEL_DATA, or 0x35200000 PTE_KERNEL_DATA, or 0x35400000 PTE_KERNEL_DATA, or 0x35600000 PTE_KERNEL_DATA,
     or 0x35800000 PTE_KERNEL_DATA, or 0x35a00000 PTE_KERNEL_DATA, or 0x35c00000 PTE_KERNEL_DATA, or 0x35e00000 PTE_KERNEL_DATA,
     or 0x36000000 PTE_KERNEL_DATA, or 0x36200000 PTE_KERNEL_DATA, or 0x36400000 PTE_KERNEL_DATA, or 0x36600000 PTE_KERNEL_DATA,
     or 0x36800000 PTE_KERNEL_DATA, or 0x36a00000 PTE_KERNEL_DATA, or 0x36c00000 PTE_KERNEL_DATA, or 0x36e00000 PTE_KERNEL_DATA,
     or 0x37000000 PTE_KERNEL_DATA, or 0x37200000 PTE_KERNEL_DATA, or 0x37400000 PTE_KERNEL_DATA, or 0x37600000 PTE_KERNEL_DATA,
     or 0x37800000 PTE_KERNEL_DATA, or 0x37a00000 PTE_KERNEL_DATA, or 0x37c00000 PTE_KERNEL_DATA, or 0x37e00000 PTE_KERNEL_DATA,
     or 0x38000000 PTE_KERNEL_DATA, or 0x38200000 PTE_KERNEL_DATA, or 0x38400000 PTE_KERNEL_DATA, or 0x38600000 PTE_KERNEL_DATA,
     or 0x38800000 PTE_KERNEL_DATA, or 0x38a00000 PTE_KERNEL_DATA, or 0x38c00000 PTE_KERNEL_DATA, or 0x38e00000 PTE_KERNEL_DATA,
     or 0x39000000 PTE_KERNEL_DATA, or 0x39200000 PTE_KERNEL_DATA, or 0x39400000 PTE_KERNEL_DATA, or 0x39600000 PTE_KERNEL_DATA,
     or 0x39800000 PTE_KERNEL_DATA, or 0x39a00000 PTE_KERNEL_DATA, or 0x39c00000 PTE_KERNEL_DATA, or 0x39e00000 PTE_KERNEL_DATA,
     or 0x3a000000 PTE_KERNEL_DATA, or 0x3a200000 PTE_KERNEL_DATA, or 0x3a400000 PTE_KERNEL_DATA, or 0x3a600000 PTE_KERNEL_DATA,
     or 0x3a800000 PTE_KERNEL_DATA, or 0x3aa00000 PTE_KERNEL_DATA, or 0x3ac00000 PTE_KERNEL_DATA, or 0x3ae00000 PTE_KERNEL_DATA,
     or 0x3b000000 PTE_KERNEL_DATA, or 0x3b200000 PTE_KERNEL_DATA, or 0x3b400000 PTE_KERNEL_DATA, or 0x3b600000 PTE_KERNEL_DATA,
     or 0x3b800000 PTE_KERNEL_DATA, or 0x3ba00000 PTE_KERNEL_DATA, or 0x3bc00000 PTE_KERNEL_DATA, or 0x3be00000 PTE_KERNEL_DATA,
     or 0x3c000000 PTE_KERNEL_DATA, or 0x3c200000 PTE_KERNEL_DATA, or 0x3c400000 PTE_KERNEL_DATA, or 0x3c600000 PTE_KERNEL_DATA,
     or 0x3c800000 PTE_KERNEL_DATA, or 0x3ca00000 PTE_KERNEL_DATA, or 0x3cc00000 PTE_KERNEL_DATA, or 0x3ce00000 PTE_KERNEL_DATA,
     or 0x3d000000 PTE_KERNEL_DATA, or 0x3d200000 PTE_KERNEL_DATA, or 0x3d400000 PTE_KERNEL_DATA, or 0x3d600000 PTE_KERNEL_DATA,
     or 0x3d800000 PTE_KERNEL_DATA, or 0x3da00000 PTE_KERNEL_DATA, or 0x3dc00000 PTE_KERNEL_DATA, or 0x3de00000 PTE_KERNEL_DATA,
     or 0x3e000000 PTE_KERNEL_DATA, or 0x3e200000 PTE_KERNEL_DATA, or 0x3e400000 PTE_KERNEL_DATA, or 0x3e600000 PTE_KERNEL_DATA,
     or 0x3e800000 PTE_KERNEL_DATA, or 0x3ea00000 PTE_KERNEL_DATA, or 0x3ec00000 PTE_KERNEL_DATA, or 0x3ee00000 PTE_KERNEL_DATA,
     or 0x3f000000 PTE_KERNEL_DEVICE, or 0x3f200000 PTE_KERNEL_DEVICE, or 0x3f400000 PTE_KERNEL_DEVICE, or 0x3f600000 PTE_KERNEL_DEVICE,
     or 0x3f800000 PTE_KERNEL_DEVICE, or 0x3fa00000 PTE_KERNEL_DEVICE, or 0x3fc00000 PTE_KERNEL_DEVICE, or 0x3fe00000 PTE_KERNEL_DEVICE]"

text \<open>The rest of an array with too few initialisers is 0.  The addresses of the lower tables are those the linker gives them.\<close>

definition kernel_pt_level2 :: "ptr \<Rightarrow> u64 list" where
  "kernel_pt_level2 level3 = [K2P level3 + PTE_TABLE, or 0x40000000 PTE_KERNEL_DEVICE, 0, or 0xC0000000 PTE_KERNEL_DEVICE] @ replicate 508 0"

definition kernel_pt :: "ptr \<Rightarrow> u64 list" where
  "kernel_pt level2 = [K2P level2 + PTE_TABLE] @ replicate 511 0"

lemma kernel_flags: "PTE_KERNEL_DATA = 0x605" "PTE_KERNEL_DEVICE = 0x401"
  by (simp_all add: PTE_KERNEL_DATA_def PTE_KERNEL_DEVICE_def PTE_KERNEL_def PTE_NORMAL_def PTE_DEVICE_def PTE_BLOCK_def MT_NORMAL_def
      MT_DEVICE_nGnRnE_def SH_OUTER_def AF_USED_def)

text \<open>Blocks of 2 MiB from \<open>a\<close> on.\<close>

primrec blocks :: "nat \<Rightarrow> u64 \<Rightarrow> u64 \<Rightarrow> u64 list" where
  "blocks 0 a flags = []"
| "blocks (Suc n) a flags = or a flags # blocks n (a + 0x200000) flags"

lemma blocks_numeral: "blocks (numeral v) a flags = or a flags # blocks (pred_numeral v) (a + 0x200000) flags"
  by (simp add: numeral_eq_Suc)

lemma kernel_pt_level3_blocks: "kernel_pt_level3 = blocks 504 0 PTE_KERNEL_DATA @ blocks 8 0x3F000000 PTE_KERNEL_DEVICE"
  by (simp add: kernel_pt_level3_def blocks_numeral)

section \<open>The walk of the memory management unit\<close>

text \<open>
  Translation as the architecture defines it for pages of 4 KiB and addresses of 48 bits, with \<open>n\<close> levels below the table \<open>t\<close>: an entry
  with bit 0 clear is a fault; one with bit 1 set names the table of the next level, or at the last level the page; another one maps a block.
  \<open>tables\<close> gives the table at a physical address.  The result is a physical address and the low bits of the entry.
\<close>

definition walk_index :: "nat \<Rightarrow> u64 \<Rightarrow> nat" where
  "walk_index n va = unat va div 2 ^ (12 + 9 * n) mod 512"

definition out_address :: "nat \<Rightarrow> u64 \<Rightarrow> nat" where
  "out_address k e = 2 ^ k * (unat e div 2 ^ k mod 2 ^ (48 - k))"

primrec mmu_walk :: "nat \<Rightarrow> (nat \<Rightarrow> u64 list) \<Rightarrow> u64 list \<Rightarrow> u64 \<Rightarrow> (nat \<times> u64) option" where
  "mmu_walk 0 tables t va =
     (let e = t ! walk_index 0 va in if bit e 0 \<and> bit e 1 then Some (out_address 12 e + unat va mod 2 ^ 12, take_bit 12 e) else None)"
| "mmu_walk (Suc n) tables t va =
     (let e = t ! walk_index (Suc n) va; k = 12 + 9 * Suc n
      in if \<not> bit e 0 then None
         else if bit e 1 then mmu_walk n tables (tables (out_address 12 e)) va
         else Some (out_address k e + unat va mod 2 ^ k, take_bit 12 e))"

definition kernel_tables :: "ptr \<Rightarrow> ptr \<Rightarrow> nat \<Rightarrow> u64 list" where
  "kernel_tables level2 level3 a =
     (if a = unat (K2P level2) then kernel_pt_level2 level3 else if a = unat (K2P level3) then kernel_pt_level3 else [])"

definition kernel_walk :: "ptr \<Rightarrow> ptr \<Rightarrow> u64 \<Rightarrow> (nat \<times> u64) option" where
  "kernel_walk level2 level3 va = mmu_walk 3 (kernel_tables level2 level3) (kernel_pt level2) va"

lemma or_flags: "take_bit 12 a = 0 \<Longrightarrow> take_bit 12 x = x \<Longrightarrow> or a x = a + (x :: u64)"
proof -
  assume a: "take_bit 12 a = 0" "take_bit 12 x = x"
  have "\<not> bit a k \<or> \<not> bit x k" for k
  proof (cases "k < 12")
    case True
    then show ?thesis using a(1) by (metis bit_0_eq bit_take_bit_iff bot_apply bot_bool_def)
  next
    case False
    then show ?thesis using a(2) by (metis bit_take_bit_iff)
  qed
  then show ?thesis by (simp add: disjunctive_add)
qed

lemma table_entry:
  assumes "Virtual_Memory.page_ok p"
  shows "bit (K2P p + PTE_TABLE) 0" "bit (K2P p + PTE_TABLE) 1" "out_address 12 (K2P p + PTE_TABLE) = unat (K2P p)"
proof -
  let ?x = "K2P p"
  have b: "bit ?x k \<Longrightarrow> 12 \<le> k \<and> k < 32" for k
    using bit_PTE_ADDRESS [of ?x k] page_low_bits [OF assms] by simp
  then have low: "take_bit 12 ?x = 0" "take_bit 32 ?x = ?x"
    by (intro bit_word_eqI; fastforce simp: bit_take_bit_iff)+
  have t: "take_bit 12 PTE_TABLE = PTE_TABLE" "PTE_TABLE = 3"
    by (simp_all add: PTE_TABLE_def)
  have e: "?x + PTE_TABLE = or ?x PTE_TABLE"
    using or_flags [OF low(1) t(1)] by simp
  show "bit (?x + PTE_TABLE) 0" "bit (?x + PTE_TABLE) 1"
    unfolding e by (simp_all add: PTE_TABLE_def bit_simps)
  have "unat (take_bit 12 ?x) = 0" "unat (take_bit 32 ?x) = unat ?x"
    using low by simp_all
  then have m: "unat ?x mod 4096 = 0" "unat ?x < 2 ^ 32"
    by (simp_all add: take_bit_eq_mod unat_mod)
  then obtain q where q: "unat ?x = 4096 * q" "q < 2 ^ 20"
    by auto
  have "unat (?x + PTE_TABLE) = 4096 * q + 3"
    unfolding t(2) using m(2) q(1) by (subst unat_plus_ptr) simp_all
  then show "out_address 12 (?x + PTE_TABLE) = unat ?x"
    using q by (simp add: out_address_def)
qed

lemma nth_blocks: "i < n \<Longrightarrow> blocks n a flags ! i = or (a + of_nat i * 0x200000) flags"
proof (induction n arbitrary: a i)
  case (Suc n)
  then show ?case by (cases i) (simp_all add: algebra_simps)
qed simp

lemma length_blocks [simp]: "length (blocks n a flags) = n"
  by (induction n arbitrary: a) auto

lemma nth_level3:
  assumes "i < 512"
  defines "flags \<equiv> if i < 504 then PTE_KERNEL_DATA else PTE_KERNEL_DEVICE"
  shows "unat (kernel_pt_level3 ! i) = i * 2 ^ 21 + unat flags" "take_bit 12 (kernel_pt_level3 ! i) = flags" "bit flags 0" "\<not> bit flags 1" "unat flags < 4096"
proof -
  have fl: "flags = 0x605 \<or> flags = 0x401"
    by (simp add: flags_def kernel_flags)
  then show "bit flags 0" "\<not> bit flags 1" "unat flags < 4096"
    by (auto simp: bit_numeral_rec)
  have e: "kernel_pt_level3 ! i = or (of_nat i * 0x200000) flags"
  proof (cases "i < 504")
    case False
    have "(0x3F000000 :: u64) + of_nat (i - 504) * 0x200000 = of_nat i * 0x200000"
      using False by (simp add: of_nat_diff algebra_simps)
    then show ?thesis
      using False assms(1) by (simp add: kernel_pt_level3_blocks nth_append nth_blocks flags_def)
  qed (simp add: kernel_pt_level3_blocks nth_append nth_blocks flags_def)
  have a: "unat (of_nat i * 0x200000 :: u64) = i * 2 ^ 21"
    using assms(1) unat_of_nat_ptr [of "i * 2 ^ 21"] by simp
  then have "unat (take_bit 12 (of_nat i * 0x200000 :: u64)) = 0"
    by (simp add: take_bit_eq_mod unat_mod)
  then have z: "take_bit 12 (of_nat i * 0x200000 :: u64) = 0"
    by (simp add: unat_eq_0)
  moreover have f: "take_bit 12 flags = flags"
    using fl by auto
  ultimately have s: "or (of_nat i * 0x200000) flags = of_nat i * 0x200000 + flags"
    by (rule or_flags)
  show "take_bit 12 (kernel_pt_level3 ! i) = flags"
    unfolding e using z f by simp
  show "unat (kernel_pt_level3 ! i) = i * 2 ^ 21 + unat flags"
    unfolding e s using a assms(1) fl by (subst unat_plus_ptr) auto
qed

lemma walk_index_kernel:
  assumes "unat pa < 2 ^ 32" and "n \<le> 3"
  shows "walk_index n (P2K pa) = unat pa div 2 ^ (12 + 9 * n) mod 512" "unat (P2K pa) mod 2 ^ (12 + 9 * n) = unat pa mod 2 ^ (12 + 9 * n)"
proof -
  let ?k = "12 + 9 * n"
  have "unat (P2K pa) = unat pa + 0xFFFF000000000000"
    unfolding P2K_def using assms(1) by (subst unat_plus_ptr) simp_all
  also have "(0xFFFF000000000000 :: nat) = 2 ^ ?k * (512 * (2 ^ (39 - ?k) * 65535))"
  proof -
    have "n = 0 \<or> n = 1 \<or> n = 2 \<or> n = 3"
      using assms(2) by arith
    then show ?thesis
      by (elim disjE) simp_all
  qed
  finally have e: "unat (P2K pa) = unat pa + 2 ^ ?k * (512 * (2 ^ (39 - ?k) * 65535))" .
  then obtain m where m: "unat (P2K pa) = unat pa + 2 ^ ?k * (512 * m)" by blast
  show "walk_index n (P2K pa) = unat pa div 2 ^ ?k mod 512" "unat (P2K pa) mod 2 ^ ?k = unat pa mod 2 ^ ?k"
    unfolding walk_index_def m by simp_all
qed

lemma mmu_walk_step:
  assumes "t ! walk_index (Suc n) va = e" "bit e 0" "bit e 1" "tables (out_address 12 e) = t'"
  shows "mmu_walk (Suc n) tables t va = mmu_walk n tables t' va"
  using assms by simp

lemma mmu_walk_block:
  assumes "t ! walk_index (Suc n) va = e" "bit e 0" "\<not> bit e 1"
  shows "mmu_walk (Suc n) tables t va = Some (out_address (12 + 9 * Suc n) e + unat va mod 2 ^ (12 + 9 * Suc n), take_bit 12 e)"
  using assms by (simp add: Let_def)

section \<open>The three parts of the map\<close>

lemma kernel_indices:
  assumes "unat pa < 2 ^ 32"
  shows "walk_index 3 (P2K pa) = 0" "walk_index 2 (P2K pa) = unat pa div 2 ^ 30" "walk_index 1 (P2K pa) = unat pa div 2 ^ 21 mod 512"
    "unat (P2K pa) mod 2 ^ 30 = unat pa mod 2 ^ 30" "unat (P2K pa) mod 2 ^ 21 = unat pa mod 2 ^ 21"
  using walk_index_kernel [OF assms, of 3] walk_index_kernel [OF assms, of 2] walk_index_kernel [OF assms, of 1] assms by simp_all

lemma kernel_tables_at:
  assumes "level2 \<noteq> level3"
  shows "kernel_tables level2 level3 (unat (K2P level2)) = kernel_pt_level2 level3" "kernel_tables level2 level3 (unat (K2P level3)) = kernel_pt_level3"
proof -
  have "K2P level2 \<noteq> K2P level3"
    using assms by (simp add: K2P_def)
  then show "kernel_tables level2 level3 (unat (K2P level2)) = kernel_pt_level2 level3" "kernel_tables level2 level3 (unat (K2P level3)) = kernel_pt_level3"
    by (auto simp: kernel_tables_def word_unat_eq_iff)
qed

lemma kernel_walk_top:
  assumes "Virtual_Memory.page_ok level2" and "level2 \<noteq> level3" and "unat pa < 2 ^ 32"
  shows "kernel_walk level2 level3 (P2K pa) = mmu_walk 2 (kernel_tables level2 level3) (kernel_pt_level2 level3) (P2K pa)"
  using mmu_walk_step [of "kernel_pt level2" 2 "P2K pa", OF _ table_entry(1,2) [OF assms(1)], of "kernel_tables level2 level3"]
    kernel_indices(1) [OF assms(3)] kernel_tables_at(1) [OF assms(2)] table_entry(3) [OF assms(1)] by (simp add: kernel_walk_def kernel_pt_def)

lemma kernel_walk_low:
  assumes "Virtual_Memory.page_ok level3" and "level2 \<noteq> level3" and pa: "unat pa < 2 ^ 30"
  shows "mmu_walk 2 (kernel_tables level2 level3) (kernel_pt_level2 level3) (P2K pa)
    = Some (unat pa, if pa < phystop then PTE_KERNEL_DATA else PTE_KERNEL_DEVICE)"
proof -
  have "unat pa < 2 ^ 32" using pa by simp
  note i = kernel_indices [OF this]
  define j where "j = unat pa div 2 ^ 21"
  have j: "j < 512" "walk_index (Suc 0) (P2K pa) = j" "j * 2 ^ 21 + unat pa mod 2 ^ 21 = unat pa"
    using pa i(3) by (simp_all add: j_def less_mult_imp_div_less)
  have "j < 504 \<longleftrightarrow> pa < phystop"
    by (simp add: j_def div_less_iff_less_mult word_less_nat_alt phystop_def)
  moreover have "out_address 21 (kernel_pt_level3 ! j) = j * 2 ^ 21"
    using nth_level3(1,5) [OF j(1)] j(1) by (simp add: out_address_def div_nat_eqI)
  moreover have "bit (kernel_pt_level3 ! j) 0" "\<not> bit (kernel_pt_level3 ! j) 1"
    using nth_level3(3,4) [OF j(1)] unfolding nth_level3(2) [OF j(1), symmetric] by (simp_all add: bit_take_bit_iff)
  ultimately have "mmu_walk 1 (kernel_tables level2 level3) kernel_pt_level3 (P2K pa)
      = Some (unat pa, if pa < phystop then PTE_KERNEL_DATA else PTE_KERNEL_DEVICE)"
    using mmu_walk_block [of kernel_pt_level3 0 "P2K pa" "kernel_pt_level3 ! j" "kernel_tables level2 level3"] i(5) j nth_level3(2) [OF j(1)] by simp
  then show ?thesis
    using mmu_walk_step [of "kernel_pt_level2 level3" 1 "P2K pa", OF _ table_entry(1,2) [OF assms(1)], of "kernel_tables level2 level3"]
      i(2) kernel_tables_at(2) [OF assms(2)] table_entry(3) [OF assms(1)] pa by (simp add: kernel_pt_level2_def numeral_2_eq_2)
qed

lemma kernel_pt_level2_high:
  "kernel_pt_level2 level3 ! 1 = 0x40000401" "kernel_pt_level2 level3 ! 2 = 0" "kernel_pt_level2 level3 ! 3 = 0xC0000401"
  by (simp_all add: kernel_pt_level2_def kernel_flags)

lemma kernel_walk_device:
  assumes "q = 1 \<or> q = 3" and "unat pa < 2 ^ 32" and q: "unat pa div 2 ^ 30 = q"
  shows "mmu_walk 2 (kernel_tables level2 level3) (kernel_pt_level2 level3) (P2K pa) = Some (unat pa, PTE_KERNEL_DEVICE)"
proof -
  note i = kernel_indices [OF assms(2)]
  define e where "e = kernel_pt_level2 level3 ! q"
  have e: "e = 0x40000401 \<and> q = 1 \<or> e = 0xC0000401 \<and> q = 3"
    using assms(1) kernel_pt_level2_high by (auto simp: e_def)
  then have "kernel_pt_level2 level3 ! walk_index (Suc 1) (P2K pa) = e" "bit e 0" "\<not> bit e 1"
    using i(2) q by (auto simp: numeral_2_eq_2 e_def [symmetric] bit_numeral_rec)
  note b = mmu_walk_block [OF this, of "kernel_tables level2 level3"]
  have "out_address 30 e = 2 ^ 30 * q" "take_bit 12 e = PTE_KERNEL_DEVICE"
    using e by (auto simp: out_address_def kernel_flags)
  moreover have "unat pa = 2 ^ 30 * q + unat pa mod 2 ^ 30"
    by (simp flip: q)
  ultimately show ?thesis
    using b i(4) by (simp add: numeral_2_eq_2)
qed

lemma kernel_walk_hole:
  assumes "unat pa < 2 ^ 32" and "unat pa div 2 ^ 30 = 2"
  shows "mmu_walk 2 (kernel_tables level2 level3) (kernel_pt_level2 level3) (P2K pa) = None"
  using mmu_walk.simps(2) [of 1 "kernel_tables level2 level3" "kernel_pt_level2 level3" "P2K pa"] kernel_indices(2) [OF assms(1)] assms(2)
    kernel_pt_level2_high(2) by (simp add: numeral_2_eq_2 Let_def)

section \<open>Properties\<close>

text \<open>
  C18: the kernel runs on an image of physical memory.  Wherever the linker puts the lower tables, the kernel address of a physical
  address below 4 GiB translates to it: as ordinary memory below \<^verbatim>\<open>PHYSTOP\<close>, as device memory from there to 2 GiB and from 3 GiB to 4 GiB, and not
  at all between 2 GiB and 3 GiB.
\<close>

theorem kernel_map_correct:
  assumes "Virtual_Memory.page_ok level2" and "Virtual_Memory.page_ok level3" and "level2 \<noteq> level3" and "unat pa < 2 ^ 32"
  shows "kernel_walk level2 level3 (P2K pa) =
    (if pa < phystop then Some (unat pa, PTE_KERNEL_DATA)
     else if unat pa < 2 ^ 31 \<or> 3 * 2 ^ 30 \<le> unat pa then Some (unat pa, PTE_KERNEL_DEVICE)
     else None)"
proof -
  define q where "q = unat pa div 2 ^ 30"
  have q: "q < 4" "2 ^ 30 * q \<le> unat pa" "unat pa < 2 ^ 30 * q + 2 ^ 30"
    using assms(4) by (simp_all add: q_def less_mult_imp_div_less dividend_less_times_div)
  have big: "\<not> pa < phystop" if "2 ^ 30 \<le> unat pa"
    using that by (simp add: word_less_nat_alt phystop_def)
  note w = kernel_walk_top [OF assms(1,3,4)]
  consider "q = 0" | "q = 1 \<or> q = 3" | "q = 2"
    using q(1) by linarith
  then show ?thesis
  proof cases
    case 1
    then show ?thesis
      using kernel_walk_low [OF assms(2,3)] q w by simp
  next
    case 2
    then have "2 ^ 30 \<le> unat pa" "unat pa < 2 ^ 31 \<or> 3 * 2 ^ 30 \<le> unat pa"
      using q by auto
    then show ?thesis
      using kernel_walk_device [OF 2 assms(4)] big w by (simp add: q_def)
  next
    case 3
    then have "2 ^ 30 \<le> unat pa" "\<not> (unat pa < 2 ^ 31 \<or> 3 * 2 ^ 30 \<le> unat pa)"
      using q by auto
    then show ?thesis
      using kernel_walk_hole [OF assms(4)] 3 big w by (simp add: q_def)
  qed
qed

theorem kernel_map_correct_witness:
  "kernel_walk (pg 0) (pg 1) (P2K 0x3F201000) = Some (0x3F201000, PTE_KERNEL_DEVICE)
    \<and> kernel_walk (pg 0) (pg 1) (P2K 0x80000) = Some (0x80000, PTE_KERNEL_DATA)
    \<and> kernel_walk (pg 0) (pg 1) (P2K 0x80000000) = None"
proof -
  have "pg 0 \<noteq> pg 1"
    by (simp add: pg_def)
  note k = kernel_map_correct [OF page_ok_pg page_ok_pg this]
  show ?thesis
    using k [of "0x3F201000"] k [of "0x80000"] k [of "0x80000000"] by (simp add: phystop_def word_less_nat_alt)
qed

end
