(* ===== verification/Bitmap.thy ===== *)
theory Bitmap
  imports Prelude
begin

unbundle bit_operations_syntax

text \<open>
  The bitmaps of \<^verbatim>\<open>common/bitmap.h\<close> and \<^verbatim>\<open>common/bitmap.c\<close>: an array of 64-bit cells, one bit
  per index.  The locale \<open>bit_array\<close> is the contract its clients (the arena and the block
  cache) use; \<open>cells_of_bytes\<close> is the view of a disk block as a bitmap that the block
  cache takes by casting \<^verbatim>\<open>block->data\<close>.
\<close>

section \<open>Operations\<close>

type_synonym BitmapCell = u64

definition BITMAP_BITS_PER_CELL :: nat where
  "BITMAP_BITS_PER_CELL = 64"

definition BITMAP_TO_NUM_CELLS :: "nat \<Rightarrow> nat" where
  "BITMAP_TO_NUM_CELLS sz = (sz + BITMAP_BITS_PER_CELL - 1) div BITMAP_BITS_PER_CELL"

definition BITMAP_PARSE_INDEX :: "nat \<Rightarrow> nat \<times> nat" where
  "BITMAP_PARSE_INDEX index = (index div BITMAP_BITS_PER_CELL, index mod BITMAP_BITS_PER_CELL)"

definition BIT :: "nat \<Rightarrow> u64" where
  "BIT i = push_bit i 1"

definition init_bitmap :: "BitmapCell list \<Rightarrow> nat \<Rightarrow> BitmapCell list" where
  "init_bitmap bitmap sz =
     replicate (BITMAP_TO_NUM_CELLS sz) 0 @ drop (BITMAP_TO_NUM_CELLS sz) bitmap"

definition bitmap_get :: "BitmapCell list \<Rightarrow> nat \<Rightarrow> bool" where
  "bitmap_get bitmap index =
     (let (idx, offset) = BITMAP_PARSE_INDEX index
      in drop_bit offset (bitmap ! idx) AND 1 \<noteq> 0)"

definition bitmap_set :: "BitmapCell list \<Rightarrow> nat \<Rightarrow> BitmapCell list" where
  "bitmap_set bitmap index =
     (let (idx, offset) = BITMAP_PARSE_INDEX index
      in bitmap[idx := bitmap ! idx OR BIT offset])"

definition bitmap_clear :: "BitmapCell list \<Rightarrow> nat \<Rightarrow> BitmapCell list" where
  "bitmap_clear bitmap index =
     (let (idx, offset) = BITMAP_PARSE_INDEX index
      in bitmap[idx := bitmap ! idx AND NOT (BIT offset)])"

definition bitmap_bits :: "BitmapCell list \<Rightarrow> nat" where
  "bitmap_bits bitmap = BITMAP_BITS_PER_CELL * length bitmap"

text \<open>A byte buffer seen through a \<^verbatim>\<open>BitmapCell *\<close>.\<close>

definition cells_of_bytes :: "u8 list \<Rightarrow> BitmapCell list" where
  "cells_of_bytes bs = map le_word (chunks 8 bs)"

definition bytes_of_cells :: "BitmapCell list \<Rightarrow> u8 list" where
  "bytes_of_cells cs = concat (map (le_bytes 8) cs)"

section \<open>The contract of a bit array\<close>

locale bit_array =
  fixes get :: "'b \<Rightarrow> nat \<Rightarrow> bool"
    and set_bit :: "'b \<Rightarrow> nat \<Rightarrow> 'b"
    and clear :: "'b \<Rightarrow> nat \<Rightarrow> 'b"
    and nbits :: "'b \<Rightarrow> nat"
  assumes get_set: "i < nbits b \<Longrightarrow> j < nbits b \<Longrightarrow> get (set_bit b i) j \<longleftrightarrow> j = i \<or> get b j"
    and get_clear: "i < nbits b \<Longrightarrow> j < nbits b \<Longrightarrow> get (clear b i) j \<longleftrightarrow> j \<noteq> i \<and> get b j"
    and nbits_set: "nbits (set_bit b i) = nbits b"
    and nbits_clear: "nbits (clear b i) = nbits b"
begin

lemma used_set:
  assumes "i < n" and "n \<le> nbits b"
  shows "{j. j < n \<and> get (set_bit b i) j} = insert i {j. j < n \<and> get b j}"
  using assms by (auto simp: get_set)

lemma used_clear:
  assumes "i < n" and "n \<le> nbits b"
  shows "{j. j < n \<and> get (clear b i) j} = {j. j < n \<and> get b j} - {i}"
  using assms by (auto simp: get_clear)

lemma card_used_set:
  assumes "i < n" and "n \<le> nbits b" and "\<not> get b i"
  shows "card {j. j < n \<and> get (set_bit b i) j} = Suc (card {j. j < n \<and> get b j})"
  using assms by (simp add: used_set)

lemma card_used_clear:
  assumes "i < n" and "n \<le> nbits b" and "get b i"
  shows "Suc (card {j. j < n \<and> get (clear b i) j}) = card {j. j < n \<and> get b j}"
proof -
  have "card {j. j < n \<and> get b j} = Suc (card ({j. j < n \<and> get b j} - {i}))"
    using assms by (intro card.remove) auto
  then show ?thesis
    using assms by (simp add: used_clear)
qed

lemma card_used_le: "card {j. j < n \<and> get b j} \<le> n"
proof -
  have "card {j. j < n \<and> get b j} \<le> card {j. j < n}"
    by (intro card_mono) auto
  then show ?thesis by simp
qed

lemma card_used_full: "card {j. j < n \<and> get b j} = n \<longleftrightarrow> (\<forall>j < n. get b j)"
proof
  assume "card {j. j < n \<and> get b j} = n"
  then have "{j. j < n \<and> get b j} = {j. j < n}"
    by (intro card_subset_eq) auto
  then show "\<forall>j < n. get b j" by blast
next
  assume "\<forall>j < n. get b j"
  then have "{j. j < n \<and> get b j} = {j. j < n}" by auto
  then show "card {j. j < n \<and> get b j} = n" by simp
qed

lemma search_free:
  assumes "card {j. j < n \<and> get b j} < n"
  shows "\<exists>i. find_from (\<lambda>i. \<not> get b i) 0 n = Some i \<and> i < n \<and> \<not> get b i"
proof (cases "find_from (\<lambda>i. \<not> get b i) 0 n")
  case None
  then have "\<forall>j < n. get b j"
    by (simp add: find_from_None)
  then have "card {j. j < n \<and> get b j} = n"
    by (simp add: card_used_full)
  with assms show ?thesis by simp
next
  case (Some i)
  then show ?thesis by (auto simp: find_from_Some)
qed

lemma clear_set_get:
  assumes "i < nbits b" and "\<not> get b i" and "j < nbits b"
  shows "get (clear (set_bit b i) i) j = get b j"
  using assms by (auto simp: get_set get_clear nbits_set)

end

section \<open>The bitmap is a bit array\<close>

lemma bitmap_get_bit: "bitmap_get bm i \<longleftrightarrow> bit (bm ! (i div 64)) (i mod 64)"
  by (simp add: bitmap_get_def BITMAP_PARSE_INDEX_def BITMAP_BITS_PER_CELL_def
      bit_iff_odd_drop_bit and_one_eq odd_iff_mod_2_eq_one)

lemma bitmap_set_eq:
  "bitmap_set bm i = bm[i div 64 := bm ! (i div 64) OR push_bit (i mod 64) 1]"
  by (simp add: bitmap_set_def BITMAP_PARSE_INDEX_def BITMAP_BITS_PER_CELL_def BIT_def)

lemma bitmap_clear_eq:
  "bitmap_clear bm i = bm[i div 64 := bm ! (i div 64) AND NOT (push_bit (i mod 64) 1)]"
  by (simp add: bitmap_clear_def BITMAP_PARSE_INDEX_def BITMAP_BITS_PER_CELL_def BIT_def)

lemma div_mod_64_eq: "(i::nat) div 64 = j div 64 \<Longrightarrow> i mod 64 = j mod 64 \<Longrightarrow> i = j"
  by (metis div_mult_mod_eq)

lemma bit_two_power_u64: "bit ((2::u64) ^ k) n \<longleftrightarrow> n = k \<and> k < 64"
  by (auto simp: bit_exp_iff)

interpretation bm: bit_array bitmap_get bitmap_set bitmap_clear bitmap_bits
proof
  fix i j :: nat and b :: "BitmapCell list"
  assume "i < bitmap_bits b" and j: "j < bitmap_bits b"
  then have i: "i div 64 < length b" and j: "j div 64 < length b"
    by (auto simp: bitmap_bits_def BITMAP_BITS_PER_CELL_def)
  show "bitmap_get (bitmap_set b i) j \<longleftrightarrow> j = i \<or> bitmap_get b j"
    using i j by (cases "i div 64 = j div 64")
      (auto simp: bitmap_get_bit bitmap_set_eq bit_or_iff bit_two_power_u64 dest: div_mod_64_eq)
  show "bitmap_get (bitmap_clear b i) j \<longleftrightarrow> j \<noteq> i \<and> bitmap_get b j"
    using i j by (cases "i div 64 = j div 64")
      (auto simp: bitmap_get_bit bitmap_clear_eq bit_and_iff bit_not_iff bit_two_power_u64
        dest: div_mod_64_eq)
next
  fix i :: nat and b :: "BitmapCell list"
  show "bitmap_bits (bitmap_set b i) = bitmap_bits b"
    and "bitmap_bits (bitmap_clear b i) = bitmap_bits b"
    by (simp_all add: bitmap_bits_def bitmap_set_eq bitmap_clear_eq)
qed

lemma length_bitmap_set [simp]: "length (bitmap_set bm i) = length bm"
  by (simp add: bitmap_set_eq)

lemma length_bitmap_clear [simp]: "length (bitmap_clear bm i) = length bm"
  by (simp add: bitmap_clear_eq)

lemma length_init_bitmap:
  "BITMAP_TO_NUM_CELLS n \<le> length bm \<Longrightarrow> length (init_bitmap bm n) = length bm"
  by (simp add: init_bitmap_def)

lemma init_bitmap_get:
  assumes "i < n"
  shows "\<not> bitmap_get (init_bitmap bm n) i"
proof -
  have "i div 64 < BITMAP_TO_NUM_CELLS n"
    using assms by (auto simp: BITMAP_TO_NUM_CELLS_def BITMAP_BITS_PER_CELL_def)
  then show ?thesis
    by (simp add: bitmap_get_bit init_bitmap_def nth_append)
qed

section \<open>Byte views\<close>

lemma length_cells_of_bytes [simp]: "length (cells_of_bytes bs) = length bs div 8"
  by (simp add: cells_of_bytes_def length_chunks)

lemma length_bytes_of_cells [simp]: "length (bytes_of_cells cs) = 8 * length cs"
  by (induction cs) (auto simp: bytes_of_cells_def)

lemma bytes_of_cells_of_bytes: "8 dvd length bs \<Longrightarrow> bytes_of_cells (cells_of_bytes bs) = bs"
proof -
  assume d: "8 dvd length bs"
  have "map (\<lambda>c. le_bytes 8 (le_word c :: u64)) (chunks 8 bs) = chunks 8 bs"
    by (rule map_idI) (simp add: le_bytes_le_word length_chunks_member)
  then show ?thesis
    using d by (simp add: bytes_of_cells_def cells_of_bytes_def concat_chunks comp_def)
qed

lemma cells_of_bytes_of_cells: "cells_of_bytes (bytes_of_cells cs) = cs"
proof -
  have "chunks 8 (concat (map (le_bytes 8) cs)) = map (le_bytes 8) cs"
    by (rule chunks_concat) auto
  then show ?thesis
    by (simp add: cells_of_bytes_def bytes_of_cells_def comp_def le_word_le_bytes)
qed

lemma bitmap_get_bytes:
  assumes "8 dvd length bs" and "i < 8 * length bs"
  shows "bitmap_get (cells_of_bytes bs) i \<longleftrightarrow> bit (bs ! (i div 8)) (i mod 8)"
proof -
  define q where "q = i div 64"
  have q: "q < length bs div 8"
    using assms by (auto simp: q_def elim!: dvdE)
  have i: "64 * q + i mod 64 = i" by (simp add: q_def)
  have "i div 8 = (8 * (8 * q) + i mod 64) div 8"
    using i by simp
  then have d: "i div 8 = 8 * q + (i mod 64) div 8"
    by simp
  have m: "(i mod 64) mod 8 = i mod 8" by (simp add: mod_mod_cancel)
  have lt: "(i mod 64) div 8 < 8" by auto
  have "8 * q + 8 \<le> length bs" using q assms(1) by (auto elim!: dvdE)
  then have len: "length (take 8 (drop (8 * q) bs)) = 8" by simp
  have cell: "cells_of_bytes bs ! q = le_word (take 8 (drop (8 * q) bs))"
    using q by (simp add: cells_of_bytes_def length_chunks nth_chunks)
  have nth: "take 8 (drop (8 * q) bs) ! (i mod 64 div 8) = bs ! (i div 8)"
    unfolding d using lt \<open>8 * q + 8 \<le> length bs\<close> by simp
  show ?thesis
    unfolding bitmap_get_bit q_def [symmetric] cell bit_le_word len nth m using lt by simp
qed

section \<open>Properties\<close>

text \<open>
  setting or clearing one bit of a bitmap changes that bit and no other, whatever cell the
  bits live in, and allocating then freeing an index restores every bit.
\<close>

theorem bitmap_update_exact:
  assumes "i < 64 * length bm" and "j < 64 * length bm"
  shows "(bitmap_get (bitmap_set bm i) j \<longleftrightarrow> j = i \<or> bitmap_get bm j)
    \<and> (bitmap_get (bitmap_clear bm i) j \<longleftrightarrow> j \<noteq> i \<and> bitmap_get bm j)
    \<and> (\<not> bitmap_get bm i \<longrightarrow>
         bitmap_get (bitmap_clear (bitmap_set bm i) i) j = bitmap_get bm j)"
  using assms bm.get_set [of i bm j] bm.get_clear [of i bm j] bm.clear_set_get [of i bm j]
  by (simp add: bitmap_bits_def BITMAP_BITS_PER_CELL_def)

text \<open>
  C40: reading a byte buffer through 64-bit cells numbers its bits consecutively: index \<open>i\<close>
  is bit \<open>i mod 8\<close> of byte \<open>i div 8\<close>, so a bitmap written bytewise and one written in cells
  agree, and the cell view of a buffer loses nothing.
\<close>

theorem bitmap_byte_view:
  assumes "8 dvd length bs" and "i < 8 * length bs"
  shows "bitmap_get (cells_of_bytes bs) i = bit (bs ! (i div 8)) (i mod 8)
    \<and> bytes_of_cells (cells_of_bytes bs) = bs"
  using bitmap_get_bytes [OF assms] bytes_of_cells_of_bytes [OF assms(1)] by simp

theorem bitmap_byte_view_witness:
  "bitmap_get (cells_of_bytes [0, 2, 0, 0, 0, 0, 0, 0]) 9"
proof -
  have "8 dvd length [0, 2, 0, 0, 0, 0, 0, 0 :: u8]"
    by (simp add: numeral_eq_Suc)
  from bitmap_byte_view [OF this, of 9] show ?thesis by simp
qed

end
