(* ===== verification/Circular_List.thy ===== *)
theory Circular_List
  imports Prelude
begin

text \<open>
  The intrusive circular doubly linked list of \<^verbatim>\<open>common/list.h\<close> and \<^verbatim>\<open>common/list.c\<close>.
  The heap of \<^verbatim>\<open>ListNode\<close>s is a record of the two pointer fields, each a function from
  nodes to nodes; a nullable pointer is an option.  The abstraction \<open>cyc h xs\<close> says that
  the nodes \<open>xs\<close>, in this order, form one circular list of the heap \<open>h\<close>.  The locale
  \<open>front_list\<close> is the interface the block cache and the inode layer rely on: a list behind
  a sentinel \<^verbatim>\<open>head\<close> that grows at the front and loses arbitrary members.
\<close>

section \<open>The list operations\<close>

record 'n list_heap =
  prev :: "'n \<Rightarrow> 'n"
  "next" :: "'n \<Rightarrow> 'n"

definition set_prev :: "'n \<Rightarrow> 'n \<Rightarrow> 'n list_heap \<Rightarrow> 'n list_heap" where
  "set_prev n v h = h\<lparr>prev := (prev h)(n := v)\<rparr>"

definition set_next :: "'n \<Rightarrow> 'n \<Rightarrow> 'n list_heap \<Rightarrow> 'n list_heap" where
  "set_next n v h = h\<lparr>next := (next h)(n := v)\<rparr>"

definition init_list_node :: "'n \<Rightarrow> 'n list_heap \<Rightarrow> 'n list_heap" where
  "init_list_node node h = set_next node node (set_prev node node h)"

definition merge_list ::
  "'n option \<Rightarrow> 'n option \<Rightarrow> 'n list_heap \<Rightarrow> 'n option \<times> 'n list_heap" where
  "merge_list node1 node2 h =
     (case node1 of
        None \<Rightarrow> (node2, h)
      | Some n1 \<Rightarrow>
          (case node2 of
             None \<Rightarrow> (node1, h)
           | Some n2 \<Rightarrow>
               (let n3 = next h n1;
                    n4 = prev h n2;
                    h = set_next n1 n2 h;
                    h = set_prev n2 n1 h;
                    h = set_next n4 n3 h;
                    h = set_prev n3 n4 h
                in (node1, h))))"

definition detach_from_list :: "'n \<Rightarrow> 'n list_heap \<Rightarrow> 'n option \<times> 'n list_heap" where
  "detach_from_list node h =
     (let p = prev h node;
          h = set_next (prev h node) (next h node) h;
          h = set_prev (next h node) (prev h node) h;
          h = init_list_node node h
      in (if p = node then None else Some p, h))"

text \<open>
  The loop \<^verbatim>\<open>for (cur = head.next; cur != &head; cur = cur->next)\<close> that every client of the
  list runs, collecting the nodes it visits; the fuel bounds the number of rounds.
\<close>

fun walk :: "nat \<Rightarrow> 'n list_heap \<Rightarrow> 'n \<Rightarrow> 'n \<Rightarrow> 'n list option" where
  "walk 0 h head cur = None"
| "walk (Suc fuel) h head cur =
     (if cur = head then Some []
      else map_option (Cons cur) (walk fuel h head (next h cur)))"

section \<open>Abstraction to lists\<close>

definition link :: "'n list_heap \<Rightarrow> 'n \<Rightarrow> 'n \<Rightarrow> bool" where
  "link h a b \<longleftrightarrow> next h a = b \<and> prev h b = a"

fun chain :: "'n list_heap \<Rightarrow> 'n list \<Rightarrow> bool" where
  "chain h (x # y # zs) \<longleftrightarrow> link h x y \<and> chain h (y # zs)"
| "chain h _ \<longleftrightarrow> True"

definition cyc :: "'n list_heap \<Rightarrow> 'n list \<Rightarrow> bool" where
  "cyc h xs \<longleftrightarrow> xs \<noteq> [] \<and> distinct xs \<and> chain h xs \<and> link h (last xs) (hd xs)"

section \<open>Lemmas on chains\<close>

lemma set_prev_next_simps [simp]:
  "prev (set_prev n v h) = (prev h)(n := v)"
  "next (set_prev n v h) = next h"
  "prev (set_next n v h) = prev h"
  "next (set_next n v h) = (next h)(n := v)"
  by (simp_all add: set_prev_def set_next_def)

lemma chain_Cons: "chain h (x # xs) \<longleftrightarrow> (xs = [] \<or> link h x (hd xs) \<and> chain h xs)"
  by (cases xs) auto

lemma chain_append:
  "chain h (xs @ ys) \<longleftrightarrow>
     chain h xs \<and> chain h ys \<and> (xs = [] \<or> ys = [] \<or> link h (last xs) (hd ys))"
  by (induction xs) (auto simp: chain_Cons)

lemma chain_frame:
  assumes "chain h xs"
    and "\<And>x. x \<in> set (butlast xs) \<Longrightarrow> next h' x = next h x"
    and "\<And>x. x \<in> set (tl xs) \<Longrightarrow> prev h' x = prev h x"
  shows "chain h' xs"
  using assms
proof (induction h xs rule: chain.induct)
  case (1 h x y zs)
  from 1(2,3,4) have "link h' x y"
    by (simp add: link_def)
  moreover have "chain h' (y # zs)"
    using 1 by (cases zs) auto
  ultimately show ?case by simp
qed auto

lemma cyc_rotate: "cyc h (xs @ ys) \<longleftrightarrow> cyc h (ys @ xs)"
proof (cases "xs = [] \<or> ys = []")
  case True
  then show ?thesis by auto
next
  case False
  then show ?thesis
    by (auto simp: cyc_def chain_append)
qed

lemma cyc_frame:
  assumes "cyc h xs"
    and "\<And>x. x \<in> set xs \<Longrightarrow> next h' x = next h x \<and> prev h' x = prev h x"
  shows "cyc h' xs"
proof -
  have "chain h' xs"
    using assms by (auto simp: cyc_def intro!: chain_frame [of h xs] dest: in_set_butlastD list.set_sel(2))
  with assms show ?thesis
    by (auto simp: cyc_def link_def)
qed

lemma cyc_distinct: "cyc h xs \<Longrightarrow> distinct xs"
  by (simp add: cyc_def)

lemma cyc_next_hd: "cyc h (x # xs) \<Longrightarrow> next h x = hd (xs @ [x])"
  by (cases xs) (auto simp: cyc_def link_def)

lemma cyc_prev_hd: "cyc h (x # xs) \<Longrightarrow> prev h x = last (x # xs)"
  by (auto simp: cyc_def link_def)

lemma cyc_singleton: "cyc h [x] \<longleftrightarrow> next h x = x \<and> prev h x = x"
  by (auto simp: cyc_def link_def)

section \<open>The operations on the abstract lists\<close>

lemma init_list_node_cyc [simp]: "cyc (init_list_node n h) [n]"
  by (simp add: cyc_singleton init_list_node_def)

lemma init_list_node_frame:
  "x \<noteq> n \<Longrightarrow> next (init_list_node n h) x = next h x \<and> prev (init_list_node n h) x = prev h x"
  by (simp add: init_list_node_def)

lemma merge_list_cyc:
  assumes 1: "cyc h (n1 # xs)" and 2: "cyc h (n2 # ys)"
    and dj: "set (n1 # xs) \<inter> set (n2 # ys) = {}"
  shows "cyc (snd (merge_list (Some n1) (Some n2) h)) (n1 # n2 # ys @ xs)"
proof -
  define n3 where "n3 = hd (xs @ [n1])"
  define n4 where "n4 = last (n2 # ys)"
  define h' where "h' = snd (merge_list (Some n1) (Some n2) h)"
  have n3: "next h n1 = n3" and n4: "prev h n2 = n4"
    using 1 2 by (simp_all only: cyc_next_hd cyc_prev_hd n3_def n4_def)
  have nxt: "next h' = (next h)(n1 := n2, n4 := n3)"
    and prv: "prev h' = (prev h)(n2 := n1, n3 := n4)"
    by (simp_all add: h'_def merge_list_def Let_def n3 n4)
  have n4_in: "n4 \<in> set (n2 # ys)" and n3_in: "n3 \<in> set (n1 # xs)"
    by (auto simp: n4_def n3_def hd_append)
  have c2: "chain h' (n2 # ys)"
  proof (rule chain_frame [of h])
    show "chain h (n2 # ys)" using 2 by (simp add: cyc_def)
  next
    fix x assume x: "x \<in> set (butlast (n2 # ys))"
    have "distinct (butlast (n2 # ys) @ [n4])"
      using 2 unfolding n4_def by (simp only: append_butlast_last_id list.distinct not_False_eq_True cyc_def)
    then have "x \<noteq> n4" using x by auto
    moreover have "x \<noteq> n1" using x dj in_set_butlastD by fastforce
    ultimately show "next h' x = next h x" by (simp add: nxt)
  next
    fix x assume "x \<in> set (tl (n2 # ys))"
    then show "prev h' x = prev h x"
      using 2 dj n3_in by (auto simp: prv cyc_def)
  qed
  have c1: "chain h' xs"
  proof (rule chain_frame [of h])
    show "chain h xs" using 1 by (auto simp: cyc_def chain_Cons)
  next
    fix x assume "x \<in> set (butlast xs)"
    then have "x \<in> set xs" by (rule in_set_butlastD)
    then show "next h' x = next h x"
      using 1 dj n4_in by (auto simp: nxt cyc_def)
  next
    fix x assume x: "x \<in> set (tl xs)"
    then have "x \<noteq> n3" using 1 by (cases xs) (auto simp: n3_def cyc_def)
    then show "prev h' x = prev h x"
      using x dj by (cases xs) (auto simp: prv)
  qed
  have l12: "link h' n1 n2"
    using dj n4_in n3_in by (auto simp: link_def nxt prv)
  have l43: "link h' n4 n3"
    using dj n4_in n3_in by (auto simp: link_def nxt prv)
  have close: "link h' (last (n4 # xs)) n1"
  proof (cases xs)
    case Nil
    then show ?thesis using l43 by (simp add: n3_def)
  next
    case (Cons x xs')
    have "last xs \<in> set xs" using Cons by (simp add: last_in_set)
    then show ?thesis
      using 1 dj n4_in Cons by (auto simp: link_def nxt prv cyc_def n3_def)
  qed
  have lst: "last (n1 # n2 # ys @ xs) = last (n4 # xs)"
    by (simp add: n4_def)
  have ch: "chain h' ((n2 # ys) @ xs)"
    unfolding chain_append using c1 c2 l43 by (cases xs) (auto simp: n3_def n4_def)
  have "chain h' (n1 # n2 # ys @ xs)"
    using l12 ch by simp
  moreover have "distinct (n1 # n2 # ys @ xs)"
    using 1 2 dj by (auto simp: cyc_def)
  moreover have "link h' (last (n1 # n2 # ys @ xs)) (hd (n1 # n2 # ys @ xs))"
    using close lst by simp
  ultimately show ?thesis
    unfolding cyc_def h'_def [symmetric] by blast
qed

lemma merge_list_frame:
  assumes 1: "cyc h (n1 # xs)" and 2: "cyc h (n2 # ys)"
    and "x \<notin> set (n1 # xs)" and "x \<notin> set (n2 # ys)"
  shows "next (snd (merge_list (Some n1) (Some n2) h)) x = next h x
       \<and> prev (snd (merge_list (Some n1) (Some n2) h)) x = prev h x"
proof -
  have "next h n1 \<in> set (n1 # xs)" "prev h n2 \<in> set (n2 # ys)"
    using 1 2 cyc_next_hd [OF 1] cyc_prev_hd [OF 2] by (auto simp: hd_append)
  then show ?thesis
    using assms(3,4) by (auto simp: merge_list_def Let_def)
qed

lemma detach_cyc:
  assumes c: "cyc h (n # xs)" and "xs \<noteq> []"
  shows "cyc (snd (detach_from_list n h)) xs"
proof -
  define h' where "h' = snd (detach_from_list n h)"
  have n3: "next h n = hd xs" and n4: "prev h n = last xs"
    using assms cyc_next_hd [OF c] cyc_prev_hd [OF c] by simp_all
  have ne: "n \<noteq> hd xs" "n \<noteq> last xs"
    using assms by (auto simp: cyc_def)
  have nxt: "next h' = (next h)(last xs := hd xs, n := n)"
    and prv: "prev h' = (prev h)(hd xs := last xs, n := n)"
    using ne by (simp_all add: h'_def detach_from_list_def init_list_node_def Let_def n3 n4)
  have "chain h' xs"
  proof (rule chain_frame [of h])
    show "chain h xs" using c by (auto simp: cyc_def chain_Cons)
  next
    fix x assume x: "x \<in> set (butlast xs)"
    have "distinct (butlast xs @ [last xs])"
      using assms by (simp add: cyc_def)
    then show "next h' x = next h x"
      using x c by (auto simp: nxt cyc_def dest: in_set_butlastD)
  next
    fix x assume "x \<in> set (tl xs)"
    then show "prev h' x = prev h x"
      using c by (cases xs) (auto simp: prv cyc_def)
  qed
  then show ?thesis
    using assms ne by (auto simp: cyc_def link_def nxt prv h'_def [symmetric])
qed

lemma detach_singleton: "cyc (snd (detach_from_list n h)) [n]"
  by (simp add: detach_from_list_def Let_def)

lemma detach_result:
  "cyc h (n # xs) \<Longrightarrow> fst (detach_from_list n h) = (if xs = [] then None else Some (last xs))"
  using cyc_prev_hd [of h n xs] last_in_set [of xs] cyc_distinct [of h "n # xs"]
  by (cases "xs = []") (auto simp: detach_from_list_def Let_def)

lemma detach_frame:
  assumes "cyc h (n # xs)" and "x \<notin> set (n # xs)"
  shows "next (snd (detach_from_list n h)) x = next h x
       \<and> prev (snd (detach_from_list n h)) x = prev h x"
proof -
  have "next h n \<in> set (n # xs)" "prev h n \<in> set (n # xs)"
    using cyc_next_hd [OF assms(1)] cyc_prev_hd [OF assms(1)] by (auto simp: hd_append)
  then show ?thesis
    using assms(2) by (auto simp: detach_from_list_def init_list_node_def Let_def)
qed

lemma walk_chain:
  "chain h (x # xs) \<Longrightarrow> next h (last (x # xs)) = head \<Longrightarrow> head \<notin> set (x # xs)
   \<Longrightarrow> length xs + 1 < fuel \<Longrightarrow> walk fuel h head x = Some (x # xs)"
proof (induction xs arbitrary: x fuel)
  case Nil
  then obtain f' f'' where "fuel = Suc f'" "f' = Suc f''"
    by (cases fuel; cases "fuel - 1") auto
  with Nil show ?case by simp
next
  case (Cons y ys)
  then obtain f' where f: "fuel = Suc f'" by (cases fuel) auto
  have "walk f' h head y = Some (y # ys)"
    using Cons f by (intro Cons.IH) auto
  with Cons.prems f show ?case by (auto simp: link_def)
qed

lemma walk_cyc:
  assumes "cyc h (head # xs)" and "length xs < fuel"
  shows "walk fuel h head (next h head) = Some xs"
proof (cases xs)
  case Nil
  then show ?thesis
    using assms by (cases fuel) (auto simp: cyc_singleton)
next
  case (Cons y ys)
  then have "walk fuel h head y = Some (y # ys)"
    using assms by (intro walk_chain) (auto simp: cyc_def link_def)
  moreover have "next h head = y"
    using assms Cons by (auto simp: cyc_def link_def)
  ultimately show ?thesis using Cons by simp
qed

section \<open>A list behind a sentinel\<close>

text \<open>
  What the clients of the list rely on.  \<open>rep h xs\<close>: the sentinel's list is \<open>xs\<close>, front first;
  \<open>single h n\<close>: the node \<open>n\<close> is initialised and on no list.
\<close>

locale front_list =
  fixes rep :: "'h \<Rightarrow> 'n list \<Rightarrow> bool"
    and single :: "'h \<Rightarrow> 'n \<Rightarrow> bool"
    and push :: "'n \<Rightarrow> 'h \<Rightarrow> 'h"
    and remove :: "'n \<Rightarrow> 'h \<Rightarrow> 'h"
  assumes rep_distinct: "rep h xs \<Longrightarrow> distinct xs"
    and rep_push: "rep h xs \<Longrightarrow> single h n \<Longrightarrow> n \<notin> set xs \<Longrightarrow> rep (push n h) (n # xs)"
    and rep_remove: "rep h (xs @ n # ys) \<Longrightarrow> rep (remove n h) (xs @ ys)"
    and single_remove: "rep h (xs @ n # ys) \<Longrightarrow> single (remove n h) n"
    and remove_single: "rep h xs \<Longrightarrow> single h n \<Longrightarrow> n \<notin> set xs
      \<Longrightarrow> rep (remove n h) xs \<and> single (remove n h) n"
begin

lemma rep_to_front:
  assumes "rep h xs" and "n \<in> set xs"
  shows "rep (push n (remove n h)) (n # remove1 n xs)"
proof -
  from assms(2) obtain as bs where xs: "xs = as @ n # bs" "n \<notin> set as"
    using split_list_first by fastforce
  have d: "distinct (as @ n # bs)"
    using rep_distinct [OF assms(1)] xs(1) by simp
  have "rep (push n (remove n h)) (n # as @ bs)"
    using assms(1) xs d by (intro rep_push rep_remove single_remove) auto
  then show ?thesis
    using xs by (simp add: remove1_append)
qed

lemma rep_front_new:
  assumes "rep h xs" and "single h n" and "n \<notin> set xs"
  shows "rep (push n (remove n h)) (n # xs)"
  using remove_single [OF assms] assms(3) by (intro rep_push) auto

lemma rep_length_push: "rep h xs \<Longrightarrow> single h n \<Longrightarrow> n \<notin> set xs
    \<Longrightarrow> rep (push n h) (n # xs) \<and> distinct (n # xs)"
  using rep_push rep_distinct by blast

end

definition push_front :: "'n \<Rightarrow> 'n \<Rightarrow> 'n list_heap \<Rightarrow> 'n list_heap" where
  "push_front head node h = snd (merge_list (Some head) (Some node) h)"

definition move_to_front :: "'n \<Rightarrow> 'n \<Rightarrow> 'n list_heap \<Rightarrow> 'n list_heap" where
  "move_to_front head node h = push_front head node (snd (detach_from_list node h))"

lemma cyc_detach_member:
  assumes "cyc h (head # xs @ n # ys)"
  shows "cyc (snd (detach_from_list n h)) (head # xs @ ys)"
proof -
  have "cyc h (n # ys @ head # xs)"
    using assms cyc_rotate [of h "head # xs" "n # ys"] by simp
  then have "cyc (snd (detach_from_list n h)) (ys @ head # xs)"
    by (rule detach_cyc) simp
  then show ?thesis
    using cyc_rotate [of _ ys "head # xs"] by simp
qed

lemma detach_single_frame:
  assumes "cyc h (head # xs)" and "cyc h [n]" and "n \<notin> set (head # xs)"
  shows "cyc (snd (detach_from_list n h)) (head # xs)"
proof (rule cyc_frame [OF assms(1)])
  fix x assume "x \<in> set (head # xs)"
  then have "x \<notin> set [n]" using assms(3) by auto
  then show "next (snd (detach_from_list n h)) x = next h x
      \<and> prev (snd (detach_from_list n h)) x = prev h x"
    using assms(2) by (intro detach_frame [of h n "[]"]) auto
qed

interpretation cl: front_list
  "\<lambda>h xs. cyc h (head # xs)" "\<lambda>h n. n \<noteq> head \<and> cyc h [n]"
  "push_front head" "\<lambda>n h. snd (detach_from_list n h)"
  for head :: 'n
proof
  fix h :: "'n list_heap" and xs
  assume "cyc h (head # xs)"
  then show "distinct xs" by (simp add: cyc_def)
next
  fix h :: "'n list_heap" and xs n
  assume a: "cyc h (head # xs)" "n \<noteq> head \<and> cyc h [n]" "n \<notin> set xs"
  then show "cyc (push_front head n h) (head # n # xs)"
    using merge_list_cyc [of h head xs n "[]"] by (simp add: push_front_def)
next
  fix h :: "'n list_heap" and xs n ys
  assume a: "cyc h (head # xs @ n # ys)"
  then show "cyc (snd (detach_from_list n h)) (head # xs @ ys)"
    by (rule cyc_detach_member)
  show "n \<noteq> head \<and> cyc (snd (detach_from_list n h)) [n]"
    using detach_singleton [of n h] cyc_distinct [OF a] by auto
next
  fix h :: "'n list_heap" and xs n
  assume "cyc h (head # xs)" "n \<noteq> head \<and> cyc h [n]" "n \<notin> set xs"
  then show "cyc (snd (detach_from_list n h)) (head # xs)
      \<and> n \<noteq> head \<and> cyc (snd (detach_from_list n h)) [n]"
    by (auto intro!: detach_single_frame simp: detach_singleton)
qed

section \<open>Properties\<close>

text \<open>
  \<^verbatim>\<open>merge_list\<close> joins two disjoint circular lists into one in which \<^verbatim>\<open>node2\<close> and the rest of
  its list follow \<^verbatim>\<open>node1\<close>, returns \<^verbatim>\<open>node1\<close>, and leaves every other list of the heap alone.
\<close>

theorem merge_list_joins:
  assumes "cyc h (n1 # xs)" and "cyc h (n2 # ys)" and "set (n1 # xs) \<inter> set (n2 # ys) = {}"
    and "cyc h zs" and "set zs \<inter> (set (n1 # xs) \<union> set (n2 # ys)) = {}"
    and "merge_list (Some n1) (Some n2) h = (r, h')"
  shows "r = Some n1 \<and> cyc h' (n1 # n2 # ys @ xs) \<and> cyc h' zs"
proof -
  have "r = Some n1"
    using assms(6) by (auto simp: merge_list_def Let_def)
  moreover have "cyc h' (n1 # n2 # ys @ xs)"
    using merge_list_cyc [OF assms(1-3)] assms(6) by simp
  moreover have "cyc h' zs"
  proof (rule cyc_frame [OF assms(4)])
    fix x assume "x \<in> set zs"
    then have "x \<notin> set (n1 # xs)" "x \<notin> set (n2 # ys)"
      using assms(5) by auto
    then show "next h' x = next h x \<and> prev h' x = prev h x"
      using merge_list_frame [OF assms(1,2)] assms(6) by auto
  qed
  ultimately show ?thesis by simp
qed

text \<open>
  moving a node to the front, as \<^verbatim>\<open>cache_acquire\<close> does with \<^verbatim>\<open>detach_from_list\<close> followed by
  \<^verbatim>\<open>merge_list(&head, node)\<close>: a member of the list behind \<^verbatim>\<open>head\<close> becomes its first element and
  the others keep their order, a fresh node is added in front, and walking the list
  from \<^verbatim>\<open>head.next\<close> visits exactly its members.
\<close>

theorem move_to_front_correct:
  assumes "cyc h (head # xs)" and "n \<noteq> head" and "n \<notin> set xs \<longrightarrow> cyc h [n]"
    and "length xs < k"
  shows "cyc (move_to_front head n h) (head # n # remove1 n xs)
    \<and> walk (Suc k) (move_to_front head n h) head (next (move_to_front head n h) head)
        = Some (n # remove1 n xs)"
proof -
  have c: "cyc (move_to_front head n h) (head # n # remove1 n xs)"
  proof (cases "n \<in> set xs")
    case True
    then show ?thesis
      using cl.rep_to_front assms(1) unfolding move_to_front_def by fastforce
  next
    case False
    then show ?thesis
      using cl.rep_front_new [of h head xs n] assms unfolding move_to_front_def
      by (simp add: remove1_idem)
  qed
  have "length (n # remove1 n xs) < Suc k"
    using assms(4) by (auto simp: length_remove1)
  from walk_cyc [OF c this] c show ?thesis by simp
qed

text \<open>
  \<^verbatim>\<open>detach_from_list\<close> leaves the node alone on its own list, closes the rest of the list behind
  it in the same order, and returns the former predecessor, or null when the node was the
  only one.
\<close>

theorem detach_from_list_correct:
  assumes "cyc h (n # xs)" and "detach_from_list n h = (r, h')"
  shows "cyc h' [n] \<and> (xs = [] \<longrightarrow> r = None)
    \<and> (xs \<noteq> [] \<longrightarrow> r = Some (last xs) \<and> cyc h' xs)"
  using detach_result [OF assms(1)] detach_cyc [OF assms(1)] detach_singleton [of n h] assms(2)
  by auto

end
