(* ===== verification/Arena.thy ===== *)
theory Arena
  imports Bitmap Circular_List Physical_Memory
begin

text \<open>
  The slab allocator of \<^verbatim>\<open>core/arena.c\<close>: an arena owns a circular list of pages, each with a
  bitmap of used slots.  The state holds the page allocator, the list nodes of the pages (keyed by
  the page they are embedded in, so that \<^verbatim>\<open>container_of\<close> is the identity), the page headers and
  the arenas.  Every arena of the kernel is built with \<^verbatim>\<open>{.allocate = kalloc, .free = kfree}\<close>, so
  calls through \<^verbatim>\<open>arena->allocator\<close> are calls of \<open>kalloc\<close> and \<open>kfree\<close>.  The locale
  \<open>object_arena\<close> is the contract for the clients, the block cache and the inode table.
\<close>

section \<open>State\<close>

definition ARENA_PAGE_SIZE :: u64 where
  "ARENA_PAGE_SIZE = PAGE_SIZE"

definition ARENA_MIN_OBJECT_SIZE :: u64 where
  "ARENA_MIN_OBJECT_SIZE = 16"

definition ARENA_BITMAP_SIZE :: nat where
  "ARENA_BITMAP_SIZE = 256"

text \<open>\<^verbatim>\<open>sizeof(ArenaPage)\<close>: the owner, two list pointers, four bitmap cells and the count.\<close>

definition sizeof_ArenaPage :: u64 where
  "sizeof_ArenaPage = 64"

definition ARENA_PAGE_CAPACITY :: u64 where
  "ARENA_PAGE_CAPACITY = ARENA_PAGE_SIZE - sizeof_ArenaPage"

lemmas arena_consts = ARENA_PAGE_SIZE_def PAGE_SIZE_def ARENA_MIN_OBJECT_SIZE_def
  ARENA_BITMAP_SIZE_def sizeof_ArenaPage_def ARENA_PAGE_CAPACITY_def

record ArenaPage =
  page_arena :: ptr
  page_used :: "BitmapCell list"
  page_count :: u64

record Arena =
  object_size :: u64
  max_count :: u64
  pages :: ptr
  num_objects :: u64
  num_pages :: u64

record kheap =
  phys :: FreeList
  nodes :: "ptr list_heap"
  apage :: "ptr \<Rightarrow> ArenaPage"
  arena_at :: "ptr \<Rightarrow> Arena"

definition upd_page :: "ptr \<Rightarrow> (ArenaPage \<Rightarrow> ArenaPage) \<Rightarrow> kheap \<Rightarrow> kheap" where
  "upd_page p f h = h\<lparr>apage := (apage h)(p := f (apage h p))\<rparr>"

definition upd_arena :: "ptr \<Rightarrow> (Arena \<Rightarrow> Arena) \<Rightarrow> kheap \<Rightarrow> kheap" where
  "upd_arena a f h = h\<lparr>arena_at := (arena_at h)(a := f (arena_at h a))\<rparr>"

section \<open>Operations\<close>

definition init_arena :: "ptr \<Rightarrow> u64 \<Rightarrow> kheap \<Rightarrow> kheap res" where
  "init_arena arena sz h =
     bindE (assertE (sz \<ge> ARENA_MIN_OBJECT_SIZE) ''object_size is too small'') (\<lambda>_.
     bindE (assertE (sz \<le> ARENA_PAGE_CAPACITY) ''object_size is too large'') (\<lambda>_.
     Inr (upd_arena arena (\<lambda>_.
       \<lparr>object_size = sz, max_count = ARENA_PAGE_CAPACITY div sz, pages = NULL,
        num_objects = 0, num_pages = 0\<rparr>) h)))"

text \<open>The \<^verbatim>\<open>do ... while\<close> loop of \<^verbatim>\<open>clear_arena\<close>, with a bound on its iterations.\<close>

fun clear_pages :: "nat \<Rightarrow> ptr \<Rightarrow> ptr \<Rightarrow> kheap \<Rightarrow> kheap res" where
  "clear_pages 0 head current h = Inl OutOfFuel"
| "clear_pages (Suc fuel) head current h =
     (let next = next (nodes h) current
      in bindE (kfree current (phys h)) (\<lambda>f.
         let h = h\<lparr>phys := f\<rparr>
         in if next \<noteq> head then clear_pages fuel head next h else Inr h))"

definition clear_arena :: "nat \<Rightarrow> ptr \<Rightarrow> kheap \<Rightarrow> kheap res" where
  "clear_arena fuel arena h =
     (let head = pages (arena_at h arena)
      in if head \<noteq> NULL
         then bindE (clear_pages fuel head head h) (\<lambda>h.
           Inr (upd_arena arena (\<lambda>a. a\<lparr>pages := NULL, num_objects := 0, num_pages := 0\<rparr>) h))
         else Inr h)"

definition init_arena_page :: "ptr \<Rightarrow> ptr \<Rightarrow> kheap \<Rightarrow> kheap" where
  "init_arena_page arena page h =
     (let h = upd_page page (\<lambda>p. p\<lparr>page_arena := arena\<rparr>) h;
          h = h\<lparr>nodes := init_list_node page (nodes h)\<rparr>;
          h = upd_page page (\<lambda>p. p\<lparr>page_used := init_bitmap (page_used p) ARENA_BITMAP_SIZE\<rparr>) h
      in upd_page page (\<lambda>p. p\<lparr>page_count := 0\<rparr>) h)"

definition insert_page :: "ptr \<Rightarrow> ptr \<Rightarrow> kheap \<Rightarrow> kheap" where
  "insert_page arena page h =
     (if pages (arena_at h arena) \<noteq> NULL
      then let (head, n) = merge_list (Some page) (Some (pages (arena_at h arena))) (nodes h)
           in upd_arena arena (\<lambda>a. a\<lparr>pages := the head\<rparr>) (h\<lparr>nodes := n\<rparr>)
      else upd_arena arena (\<lambda>a. a\<lparr>pages := page\<rparr>) h)"

definition add_page :: "ptr \<Rightarrow> kheap \<Rightarrow> (ptr \<times> kheap) res" where
  "add_page arena h =
     (let (page, f) = kalloc (phys h); h = h\<lparr>phys := f\<rparr>
      in bindE (assertE (page mod ARENA_PAGE_SIZE = 0)
           ''page address must be aligned on ARENA_PAGE_SIZE'') (\<lambda>_.
         if page \<noteq> NULL
         then let h = init_arena_page arena page h;
                  h = insert_page arena page h
              in Inr (page, upd_arena arena (\<lambda>a. a\<lparr>num_pages := num_pages a + 1\<rparr>) h)
         else Inr (page, h)))"

text \<open>Address of a slot: \<^verbatim>\<open>page->data + index * arena->object_size\<close>.\<close>

definition slot_addr :: "ptr \<Rightarrow> u64 \<Rightarrow> nat \<Rightarrow> ptr" where
  "slot_addr page sz index = page + sizeof_ArenaPage + of_nat index * sz"

text \<open>The body of the search loop of \<^verbatim>\<open>alloc_object\<close> at the slot it stops at.\<close>

definition claim_slot :: "ptr \<Rightarrow> ptr \<Rightarrow> nat \<Rightarrow> kheap \<Rightarrow> kheap" where
  "claim_slot arena page index h =
     (let h = upd_page page (\<lambda>p. p\<lparr>page_used := bitmap_set (page_used p) index\<rparr>) h;
          h = upd_page page (\<lambda>p. p\<lparr>page_count := page_count p + 1\<rparr>) h
      in upd_arena arena (\<lambda>a. a\<lparr>num_objects := num_objects a + 1\<rparr>) h)"

text \<open>\<^verbatim>\<open>alloc_object\<close> from the search for an empty slot on.\<close>

definition alloc_slot :: "ptr \<Rightarrow> kheap \<Rightarrow> (ptr \<times> kheap) res" where
  "alloc_slot arena h =
     (let a = arena_at h arena; page = pages a
      in if page = NULL \<and> 0 < max_count a then Inl NullDeref
         else case find_from (\<lambda>index. bitmap_get (page_used (apage h page)) index = False)
                0 (unat (max_count a)) of
           None \<Rightarrow> Inl (Panic ''arena failed to allocate object'')
         | Some index \<Rightarrow>
             let object = slot_addr page (object_size a) index;
                 h = claim_slot arena page index h
             in bindE (assertE (object \<noteq> NULL) ''arena failed to allocate object'') (\<lambda>_.
                let h = (if page_count (apage h page) \<ge> max_count (arena_at h arena)
                         then upd_arena arena (\<lambda>a. a\<lparr>pages := next (nodes h) page\<rparr>) h
                         else h)
                in Inr (object, h)))"

definition alloc_object :: "ptr \<Rightarrow> kheap \<Rightarrow> (ptr \<times> kheap) res" where
  "alloc_object arena h =
     bindE (if pages (arena_at h arena) = NULL
              \<or> page_count (apage h (pages (arena_at h arena))) \<ge> max_count (arena_at h arena)
            then bindE (add_page arena h) (\<lambda>(page, h). Inr h)
            else Inr h) (alloc_slot arena)"

definition get_container_page :: "ptr \<Rightarrow> ptr" where
  "get_container_page object = round_down object ARENA_PAGE_SIZE"

definition move_page_to_head :: "ptr \<Rightarrow> ptr \<Rightarrow> kheap \<Rightarrow> kheap" where
  "move_page_to_head arena page h =
     (if pages (arena_at h arena) \<noteq> page
      then insert_page arena page (h\<lparr>nodes := snd (detach_from_list page (nodes h))\<rparr>)
      else h)"

definition release_slot :: "ptr \<Rightarrow> ptr \<Rightarrow> nat \<Rightarrow> kheap \<Rightarrow> kheap" where
  "release_slot arena page index h =
     (let h = upd_page page (\<lambda>p. p\<lparr>page_used := bitmap_clear (page_used p) index\<rparr>) h;
          h = upd_page page (\<lambda>p. p\<lparr>page_count := page_count p - 1\<rparr>) h
      in upd_arena arena (\<lambda>a. a\<lparr>num_objects := num_objects a - 1\<rparr>) h)"

definition free_object :: "ptr \<Rightarrow> kheap \<Rightarrow> kheap res" where
  "free_object object h =
     (let page = get_container_page object;
          arena = page_arena (apage h page);
          offset = object - (page + sizeof_ArenaPage);
          sz = object_size (arena_at h arena)
      in bindE (assertE (offset mod sz = 0) ''unexpected object offset'') (\<lambda>_.
         let index = unat (offset div sz)
         in bindE (assertE (bitmap_get (page_used (apage h page)) index = True) ''double free object'') (\<lambda>_.
            Inr (move_page_to_head arena page (release_slot arena page index h)))))"

section \<open>Invariant\<close>

definition slots :: "kheap \<Rightarrow> ptr \<Rightarrow> nat" where
  "slots h ar = unat (max_count (arena_at h ar))"

definition used_slots :: "kheap \<Rightarrow> ptr \<Rightarrow> ptr \<Rightarrow> nat set" where
  "used_slots h ar p = {i. i < slots h ar \<and> bitmap_get (page_used (apage h p)) i}"

definition full :: "kheap \<Rightarrow> ptr \<Rightarrow> ptr \<Rightarrow> bool" where
  "full h ar p \<longleftrightarrow> card (used_slots h ar p) = slots h ar"

definition page_ok :: "kheap \<Rightarrow> ptr \<Rightarrow> ptr \<Rightarrow> bool" where
  "page_ok h ar p \<longleftrightarrow> p \<noteq> NULL \<and> unat p mod 4096 = 0 \<and> page_arena (apage h p) = ar
     \<and> page_count (apage h p) = of_nat (card (used_slots h ar p))"

definition arena_shape :: "Arena \<Rightarrow> bool" where
  "arena_shape a \<longleftrightarrow> 16 \<le> unat (object_size a) \<and> unat (object_size a) \<le> 4032
     \<and> unat (max_count a) = 4032 div unat (object_size a)"

definition arena_core :: "kheap \<Rightarrow> ptr \<Rightarrow> ptr list \<Rightarrow> bool" where
  "arena_core h ar ps \<longleftrightarrow> arena_shape (arena_at h ar)
     \<and> pages (arena_at h ar) = (if ps = [] then NULL else hd ps)
     \<and> (ps \<noteq> [] \<longrightarrow> cyc (nodes h) ps)
     \<and> (\<forall>p \<in> set ps. page_ok h ar p)
     \<and> num_objects (arena_at h ar) = of_nat (\<Sum>p \<leftarrow> ps. card (used_slots h ar p))
     \<and> num_pages (arena_at h ar) = of_nat (length ps)"

text \<open>
  The pages with a free slot come before the full ones, so that looking at the head is enough
  to know whether the arena has room.
\<close>

definition arena_rep :: "kheap \<Rightarrow> ptr \<Rightarrow> ptr list \<Rightarrow> bool" where
  "arena_rep h ar ps \<longleftrightarrow> arena_core h ar ps
     \<and> sorted_wrt (\<lambda>p q. full h ar p \<longrightarrow> full h ar q) ps"

definition kheap_rep :: "kheap \<Rightarrow> ptr list \<Rightarrow> ptr set \<Rightarrow> (ptr \<Rightarrow> ptr list) \<Rightarrow> bool" where
  "kheap_rep h fs A pl \<longleftrightarrow> free_pages (phys h) fs
     \<and> (\<forall>p. length (page_used (apage h p)) = 4)
     \<and> (\<forall>p \<in> set fs. unat p mod 4096 = 0)
     \<and> (\<forall>a \<in> A. arena_rep h a (pl a) \<and> set (pl a) \<inter> set fs = {})
     \<and> (\<forall>a \<in> A. \<forall>b \<in> A. a \<noteq> b \<longrightarrow> set (pl a) \<inter> set (pl b) = {})"

definition live :: "kheap \<Rightarrow> ptr \<Rightarrow> ptr list \<Rightarrow> ptr set" where
  "live h ar ps = (\<Union>p \<in> set ps. slot_addr p (object_size (arena_at h ar)) ` used_slots h ar p)"

definition avail :: "kheap \<Rightarrow> ptr \<Rightarrow> ptr list \<Rightarrow> ptr list \<Rightarrow> nat" where
  "avail h ar fs ps = length fs * slots h ar + (\<Sum>p \<leftarrow> ps. slots h ar - card (used_slots h ar p))"

section \<open>Slot addresses\<close>

lemma aligned_room: "unat p mod 4096 = 0 \<Longrightarrow> unat p + 4096 \<le> 2 ^ 64" for p :: ptr
proof -
  assume "unat p mod 4096 = 0"
  then obtain k where k: "unat p = 4096 * k" by (auto simp: mod_eq_0_iff_dvd)
  then have "k < 4503599627370496" using unat_ptr_less [of p] by simp
  with k show ?thesis by simp
qed

lemma slot_bound:
  assumes "i < 4032 div s"
  shows "i * s + s \<le> (4032::nat)"
proof -
  have "Suc i * s \<le> 4032"
    using assms by (metis Suc_leI div_times_less_eq_dividend le_trans mult_le_mono1)
  then show ?thesis by simp
qed

lemma unat_slot_offset:
  fixes sz :: u64
  assumes "i < 4032 div unat sz"
  shows "unat (of_nat i * sz) = i * unat sz"
proof -
  have "i * unat sz < 2 ^ 64" using slot_bound [OF assms] by simp
  then show ?thesis
    using unat_of_nat_ptr [of "i * unat sz"] by simp
qed

lemma unat_slot_addr:
  assumes "unat p mod 4096 = 0" and "i < 4032 div unat sz"
  shows "unat (slot_addr p sz i) = unat p + 64 + i * unat sz"
proof -
  have "i * unat sz \<le> 4032" using slot_bound [OF assms(2)] by simp
  then have "unat p + 64 + i * unat sz < 2 ^ 64" "unat sizeof_ArenaPage = 64"
    using aligned_room [OF assms(1)] slot_bound [OF assms(2)] assms(2)
    by (cases "unat sz", simp_all add: sizeof_ArenaPage_def)
  moreover from this have "unat (p + sizeof_ArenaPage) = unat p + 64"
    by (simp add: unat_plus_ptr)
  ultimately show ?thesis
    unfolding slot_addr_def by (simp add: unat_plus_ptr unat_slot_offset [OF assms(2)])
qed

lemma slot_container:
  assumes "unat p mod 4096 = 0" and "i < 4032 div unat sz"
  shows "get_container_page (slot_addr p sz i) = p"
proof -
  have r: "64 + i * unat sz < 4096"
    using slot_bound [OF assms(2)] assms(2) by (cases "unat sz = 0") auto
  have "(unat p + (64 + i * unat sz)) mod 4096 = 64 + i * unat sz"
    using assms(1) r by (simp add: mod_add_left_eq [symmetric, of "unat p"])
  then have "unat (get_container_page (slot_addr p sz i)) = unat p"
    by (simp add: get_container_page_def unat_round_down arena_consts unat_slot_addr [OF assms] add.assoc)
  then show ?thesis by (simp add: word_unat_eq_iff)
qed

lemma slot_index:
  assumes "i < 4032 div unat sz"
  shows "(slot_addr p sz i - (p + sizeof_ArenaPage)) mod sz = 0"
    and "unat ((slot_addr p sz i - (p + sizeof_ArenaPage)) div sz) = i"
proof -
  have off: "slot_addr p sz i - (p + sizeof_ArenaPage) = of_nat i * sz"
    by (simp add: slot_addr_def)
  have "0 < unat sz" using assms by (cases "unat sz") auto
  then show "(slot_addr p sz i - (p + sizeof_ArenaPage)) mod sz = 0"
    and "unat ((slot_addr p sz i - (p + sizeof_ArenaPage)) div sz) = i"
    unfolding off by (simp_all add: word_unat_eq_iff unat_mod unat_div unat_slot_offset [OF assms])
qed

lemma slot_addr_inj:
  assumes "unat p mod 4096 = 0" "i < 4032 div unat sz" "unat q mod 4096 = 0" "j < 4032 div unat sz"
  shows "slot_addr p sz i = slot_addr q sz j \<longleftrightarrow> p = q \<and> i = j"
  using slot_container [OF assms(1,2)] slot_container [OF assms(3,4)]
    slot_index(2) [OF assms(2), of p] slot_index(2) [OF assms(4), of q] by auto

section \<open>Frame lemmas\<close>

lemma upd_page_simps [simp]:
  "phys (upd_page p f h) = phys h"
  "nodes (upd_page p f h) = nodes h"
  "arena_at (upd_page p f h) = arena_at h"
  "apage (upd_page p f h) = (apage h)(p := f (apage h p))"
  by (simp_all add: upd_page_def)

lemma upd_arena_simps [simp]:
  "phys (upd_arena a f h) = phys h"
  "nodes (upd_arena a f h) = nodes h"
  "apage (upd_arena a f h) = apage h"
  "arena_at (upd_arena a f h) = (arena_at h)(a := f (arena_at h a))"
  by (simp_all add: upd_arena_def)

lemma used_slots_cong:
  "max_count (arena_at h' ar) = max_count (arena_at h ar) \<Longrightarrow> apage h' p = apage h p
   \<Longrightarrow> used_slots h' ar p = used_slots h ar p"
  by (simp add: used_slots_def slots_def)

lemma finite_used_slots [simp]: "finite (used_slots h ar p)"
  by (simp add: used_slots_def)

lemma card_used_slots_le: "card (used_slots h ar p) \<le> slots h ar"
  unfolding used_slots_def by (rule bm.card_used_le)

lemma arena_rep_cong:
  assumes rep: "arena_rep h ar ps" and "arena_at h' ar = arena_at h ar"
    and "\<And>p. p \<in> set ps \<Longrightarrow> apage h' p = apage h p
      \<and> next (nodes h') p = next (nodes h) p \<and> prev (nodes h') p = prev (nodes h) p"
  shows "arena_rep h' ar ps"
proof -
  have us: "used_slots h' ar p = used_slots h ar p" if "p \<in> set ps" for p
    using assms(2,3) that by (intro used_slots_cong) auto
  have ok: "\<forall>p \<in> set ps. page_ok h' ar p"
    using assms us by (auto simp: arena_rep_def arena_core_def page_ok_def)
  have cyc: "ps \<noteq> [] \<longrightarrow> cyc (nodes h') ps"
    using assms by (auto simp: arena_rep_def arena_core_def intro: cyc_frame)
  have sum: "(\<Sum>p \<leftarrow> ps. card (used_slots h' ar p)) = (\<Sum>p \<leftarrow> ps. card (used_slots h ar p))"
    using us by (intro arg_cong [of _ _ sum_list] map_cong) auto
  have "sorted_wrt (\<lambda>p q. full h' ar p \<longrightarrow> full h' ar q) ps"
    using assms(1,2) us by (auto simp: arena_rep_def full_def slots_def elim!: sorted_wrt_mono_rel [rotated])
  with assms(1,2) ok cyc sum show ?thesis
    by (simp add: arena_rep_def arena_core_def)
qed

lemma live_cong:
  assumes "arena_at h' ar = arena_at h ar" and "\<And>p. p \<in> set ps \<Longrightarrow> apage h' p = apage h p"
  shows "live h' ar ps = live h ar ps"
  using assms by (auto simp: live_def used_slots_def slots_def)

lemma arena_core_slots:
  assumes "arena_core h ar ps"
  shows "0 < slots h ar" "slots h ar \<le> 252"
    "slots h ar = 4032 div unat (object_size (arena_at h ar))"
proof -
  let ?s = "unat (object_size (arena_at h ar))"
  have s: "16 \<le> ?s" "?s \<le> 4032" and eq: "slots h ar = 4032 div ?s"
    using assms by (auto simp: arena_core_def arena_shape_def slots_def)
  show "slots h ar = 4032 div ?s" by (rule eq)
  show "0 < slots h ar" using s by (simp add: eq div_greater_zero_iff)
  have "4032 div ?s \<le> 4032 div 16" using s by (intro div_le_mono2) auto
  then show "slots h ar \<le> 252" by (simp add: eq)
qed

lemma full_iff_count:
  assumes "arena_core h ar ps" and "page_ok h ar p"
  shows "max_count (arena_at h ar) \<le> page_count (apage h p) \<longleftrightarrow> full h ar p"
proof -
  have "card (used_slots h ar p) < 2 ^ 64"
    using card_used_slots_le [of h ar p] arena_core_slots(2) [OF assms(1)] by simp
  then show ?thesis
    using assms(2) card_used_slots_le [of h ar p]
    by (auto simp: page_ok_def word_le_nat_alt unat_of_nat_ptr full_def slots_def)
qed

lemma kheap_rep_update:
  assumes rep: "kheap_rep h fs A pl" and ar: "ar \<in> A" "arena_rep h' ar ps'"
    and fs: "free_pages (phys h') fs'" "set ps' \<union> set fs' \<subseteq> set (pl ar) \<union> set fs" "set ps' \<inter> set fs' = {}"
    and arenas: "\<And>a. a \<noteq> ar \<Longrightarrow> arena_at h' a = arena_at h a"
    and frame: "\<And>q. q \<notin> set (pl ar) \<union> set fs \<Longrightarrow> apage h' q = apage h q
      \<and> next (nodes h') q = next (nodes h) q \<and> prev (nodes h') q = prev (nodes h) q"
    and typed: "\<And>q. length (page_used (apage h' q)) = 4"
  shows "kheap_rep h' fs' A (pl(ar := ps'))"
proof -
  have al: "unat p mod 4096 = 0" if "p \<in> set (pl ar) \<union> set fs" for p
    using rep ar(1) that by (auto simp: kheap_rep_def arena_rep_def arena_core_def page_ok_def)
  have dj: "set (pl a) \<inter> (set (pl ar) \<union> set fs) = {}" if "a \<in> A" "a \<noteq> ar" for a
    using rep ar(1) that unfolding kheap_rep_def by blast
  have other: "arena_rep h' a (pl a)" if "a \<in> A" "a \<noteq> ar" for a
  proof (rule arena_rep_cong)
    show "arena_rep h a (pl a)" using rep that by (simp add: kheap_rep_def)
    show "arena_at h' a = arena_at h a" using that arenas by simp
    show "apage h' q = apage h q \<and> next (nodes h') q = next (nodes h) q \<and> prev (nodes h') q = prev (nodes h) q"
      if "q \<in> set (pl a)" for q
      using that dj [OF \<open>a \<in> A\<close> \<open>a \<noteq> ar\<close>] by (intro frame) auto
  qed
  have 1: "\<forall>a \<in> A. arena_rep h' a ((pl(ar := ps')) a) \<and> set ((pl(ar := ps')) a) \<inter> set fs' = {}"
  proof
    fix a assume "a \<in> A"
    show "arena_rep h' a ((pl(ar := ps')) a) \<and> set ((pl(ar := ps')) a) \<inter> set fs' = {}"
      using other [OF \<open>a \<in> A\<close>] ar(2) fs(2,3) dj [OF \<open>a \<in> A\<close>] by (cases "a = ar") auto
  qed
  have 2: "\<forall>a \<in> A. \<forall>b \<in> A. a \<noteq> b \<longrightarrow> set ((pl(ar := ps')) a) \<inter> set ((pl(ar := ps')) b) = {}"
  proof (intro ballI impI)
    fix a b assume ab: "a \<in> A" "b \<in> A" "a \<noteq> b"
    then have "set (pl a) \<inter> set (pl b) = {}" using rep unfolding kheap_rep_def by blast
    then show "set ((pl(ar := ps')) a) \<inter> set ((pl(ar := ps')) b) = {}"
      using fs(2) dj [OF ab(1)] dj [OF ab(2)] ab(3) by auto
  qed
  have "\<forall>p \<in> set fs'. unat p mod 4096 = 0" using al fs by blast
  with 1 2 fs(1) typed show ?thesis by (simp add: kheap_rep_def)
qed

section \<open>Adding a page\<close>

lemma insert_page_list:
  assumes "cyc (nodes h) [page]" and "page \<notin> set ps" and "NULL \<notin> set ps"
    and "pages (arena_at h ar) = (if ps = [] then NULL else hd ps)"
    and "ps \<noteq> [] \<longrightarrow> cyc (nodes h) ps"
  shows "cyc (nodes (insert_page ar page h)) (page # ps)"
    and "arena_at (insert_page ar page h) = (arena_at h)(ar := (arena_at h ar)\<lparr>pages := page\<rparr>)"
    and "apage (insert_page ar page h) = apage h" and "phys (insert_page ar page h) = phys h"
    and "x \<notin> set (page # ps) \<Longrightarrow> next (nodes (insert_page ar page h)) x = next (nodes h) x
      \<and> prev (nodes (insert_page ar page h)) x = prev (nodes h) x"
proof -
  have hd: "ps \<noteq> [] \<Longrightarrow> hd ps \<noteq> NULL" using assms(3) by (metis hd_in_set)
  have ml: "fst (merge_list (Some a) (Some b) n) = Some a" for a b and n :: "ptr list_heap"
    by (simp add: merge_list_def Let_def)
  have c: "cyc (nodes h) (hd ps # tl ps)" if "ps \<noteq> []" using that assms(5) by simp
  show "cyc (nodes (insert_page ar page h)) (page # ps)"
  proof (cases ps)
    case Nil
    with assms show ?thesis by (simp add: insert_page_def)
  next
    case (Cons q qs)
    then have "cyc (snd (merge_list (Some page) (Some q) (nodes h))) (page # q # qs @ [])"
      using assms by (intro merge_list_cyc) auto
    with Cons hd assms(4) show ?thesis
      by (auto simp: insert_page_def split: prod.splits)
  qed
  show "arena_at (insert_page ar page h) = (arena_at h)(ar := (arena_at h ar)\<lparr>pages := page\<rparr>)"
    using ml [of page "hd ps" "nodes h"] assms(4) by (auto simp: insert_page_def split: prod.splits)
  show "apage (insert_page ar page h) = apage h" "phys (insert_page ar page h) = phys h"
    by (auto simp: insert_page_def split: prod.splits)
  show "next (nodes (insert_page ar page h)) x = next (nodes h) x
      \<and> prev (nodes (insert_page ar page h)) x = prev (nodes h) x" if "x \<notin> set (page # ps)"
    using merge_list_frame [OF assms(1) c, of x] that assms(4)
    by (cases ps) (auto simp: insert_page_def split: prod.splits)
qed

lemma init_arena_page_simps:
  "phys (init_arena_page ar p h) = phys h"
  "arena_at (init_arena_page ar p h) = arena_at h"
  "nodes (init_arena_page ar p h) = init_list_node p (nodes h)"
  "q \<noteq> p \<Longrightarrow> apage (init_arena_page ar p h) q = apage h q"
  "page_arena (apage (init_arena_page ar p h) p) = ar"
  "page_count (apage (init_arena_page ar p h) p) = 0"
  "page_used (apage (init_arena_page ar p h) p) = init_bitmap (page_used (apage h p)) 256"
  by (simp_all add: init_arena_page_def Let_def ARENA_BITMAP_SIZE_def)

lemma add_page_state:
  assumes core: "arena_core h ar ps" and p: "p \<noteq> NULL" "unat p mod 4096 = 0" "p \<notin> set ps"
    and f: "kalloc (phys h) = (p, f)" and typed: "length (page_used (apage h p)) = 4"
  obtains h1 where "add_page ar h = Inr (p, h1)" "phys h1 = f" "cyc (nodes h1) (p # ps)"
    "arena_at h1 = (arena_at h)(ar := (arena_at h ar)\<lparr>pages := p, num_pages := num_pages (arena_at h ar) + 1\<rparr>)"
    "\<And>q. q \<noteq> p \<Longrightarrow> apage h1 q = apage h q" "page_arena (apage h1 p) = ar" "page_count (apage h1 p) = 0"
    "length (page_used (apage h1 p)) = 4" "\<And>i. i < 256 \<Longrightarrow> \<not> bitmap_get (page_used (apage h1 p)) i"
    "\<And>x. x \<notin> set (p # ps) \<Longrightarrow> next (nodes h1) x = next (nodes h) x \<and> prev (nodes h1) x = prev (nodes h) x"
proof -
  define h0 where "h0 = init_arena_page ar p (h\<lparr>phys := f\<rparr>)"
  define h1 where "h1 = upd_arena ar (\<lambda>a. a\<lparr>num_pages := num_pages a + 1\<rparr>) (insert_page ar p h0)"
  have h0: "phys h0 = f" "arena_at h0 = arena_at h" "nodes h0 = init_list_node p (nodes h)"
    "\<And>q. q \<noteq> p \<Longrightarrow> apage h0 q = apage h q" "page_arena (apage h0 p) = ar" "page_count (apage h0 p) = 0"
    "page_used (apage h0 p) = init_bitmap (page_used (apage h p)) 256"
    by (simp_all add: h0_def init_arena_page_simps)
  have "next (nodes h0) x = next (nodes h) x \<and> prev (nodes h0) x = prev (nodes h) x" if "x \<in> set ps" for x
    using that p(3) init_list_node_frame [of x p "nodes h"] by (auto simp: h0)
  then have old: "ps \<noteq> [] \<longrightarrow> cyc (nodes h0) ps"
    using core by (auto simp: arena_core_def intro: cyc_frame)
  have hd: "pages (arena_at h0 ar) = (if ps = [] then NULL else hd ps)" and nn: "NULL \<notin> set ps"
    using core by (auto simp: h0 arena_core_def page_ok_def)
  note ins = insert_page_list [of h0 p ps ar, OF _ p(3) nn hd old]
  have cp: "cyc (nodes h0) [p]" by (simp add: h0)
  have "add_page ar h = Inr (p, h1)"
    using p f unat_mod [of p 4096]
    by (simp add: add_page_def h1_def h0_def arena_consts word_unat_eq_iff [of "p mod 4096"])
  moreover have "arena_at h1 = (arena_at h)(ar := (arena_at h ar)\<lparr>pages := p, num_pages := num_pages (arena_at h ar) + 1\<rparr>)"
    by (simp add: h1_def ins(2) [OF cp] h0)
  moreover have "next (nodes h1) x = next (nodes h) x \<and> prev (nodes h1) x = prev (nodes h) x"
    if "x \<notin> set (p # ps)" for x
    using ins(5) [OF cp that] that init_list_node_frame [of x p "nodes h"] by (simp add: h1_def h0)
  ultimately show thesis
    using ins(1,3,4) [OF cp] typed
    by (intro that [of h1]) (simp_all add: h1_def h0 init_bitmap_get length_init_bitmap
        BITMAP_TO_NUM_CELLS_def BITMAP_BITS_PER_CELL_def)
qed

lemma sorted_wrt_all: "(\<And>x y. x \<in> set xs \<Longrightarrow> y \<in> set xs \<Longrightarrow> P x y) \<Longrightarrow> sorted_wrt P xs"
  by (induction xs) auto

lemma add_page_rep:
  assumes rep: "kheap_rep h (p # fs) A pl" and ar: "ar \<in> A" and full: "\<forall>q \<in> set (pl ar). full h ar q"
  obtains h1 where "add_page ar h = Inr (p, h1)" "kheap_rep h1 fs A (pl(ar := p # pl ar))"
    "used_slots h1 ar p = {}" "\<And>q. q \<noteq> p \<Longrightarrow> apage h1 q = apage h q"
    "\<And>a. a \<noteq> ar \<Longrightarrow> arena_at h1 a = arena_at h a"
    "object_size (arena_at h1 ar) = object_size (arena_at h ar)" "slots h1 ar = slots h ar"
proof -
  let ?ps = "pl ar"
  have core: "arena_core h ar ?ps" and p: "p \<noteq> NULL" "unat p mod 4096 = 0" "p \<notin> set ?ps"
    and typed: "\<And>q. length (page_used (apage h q)) = 4"
    and dj: "set ?ps \<inter> set (p # fs) = {}" "p \<notin> set fs"
    using rep ar pm.rep_distinct [of "phys h" "p # fs"] by (auto simp: kheap_rep_def arena_rep_def)
  obtain f where f: "kalloc (phys h) = (p, f)" "free_pages f fs"
    using rep pm.alloc_Cons [of "phys h" p fs] by (auto simp: kheap_rep_def)
  obtain h1 where h1: "add_page ar h = Inr (p, h1)" "phys h1 = f" "cyc (nodes h1) (p # ?ps)"
    "arena_at h1 = (arena_at h)(ar := (arena_at h ar)\<lparr>pages := p, num_pages := num_pages (arena_at h ar) + 1\<rparr>)"
    "\<And>q. q \<noteq> p \<Longrightarrow> apage h1 q = apage h q" "page_arena (apage h1 p) = ar" "page_count (apage h1 p) = 0"
    "length (page_used (apage h1 p)) = 4" "\<And>i. i < 256 \<Longrightarrow> \<not> bitmap_get (page_used (apage h1 p)) i"
    "\<And>x. x \<notin> set (p # ?ps) \<Longrightarrow> next (nodes h1) x = next (nodes h) x \<and> prev (nodes h1) x = prev (nodes h) x"
    using add_page_state [OF core p f(1) typed] by blast
  have sl: "slots h1 ar = slots h ar" by (simp add: slots_def h1)
  have us: "used_slots h1 ar q = used_slots h ar q" if "q \<noteq> p" for q
    using that by (simp add: used_slots_def sl h1)
  have usp: "used_slots h1 ar q = used_slots h ar q" if "q \<in> set ?ps" for q
    using that p(3) by (intro us) auto
  have us0: "used_slots h1 ar p = {}"
    using h1(9) arena_core_slots(2) [OF core] by (auto simp: used_slots_def sl)
  have ok: "page_ok h1 ar q" if "q \<in> set (p # ?ps)" for q
  proof (cases "q = p")
    case True
    then show ?thesis using p us0 by (simp add: page_ok_def h1)
  next
    case False
    moreover have "page_ok h ar q" using False that core by (simp add: arena_core_def)
    ultimately show ?thesis by (simp add: page_ok_def us h1)
  qed
  have sum: "(\<Sum>q \<leftarrow> ?ps. card (used_slots h1 ar q)) = (\<Sum>q \<leftarrow> ?ps. card (used_slots h ar q))"
    using usp by (intro arg_cong [of _ _ sum_list] map_cong) auto
  have fl: "full h1 ar q" if "q \<in> set ?ps" for q
    using full that by (simp add: full_def sl usp)
  have "\<not> full h1 ar p"
    using us0 arena_core_slots(1) [OF core] by (simp add: full_def sl)
  then have "sorted_wrt (\<lambda>q r. full h1 ar q \<longrightarrow> full h1 ar r) (p # ?ps)"
    using fl by (auto intro: sorted_wrt_all)
  moreover have "arena_core h1 ar (p # ?ps)"
    using core h1(3) ok sum us0 by (simp add: arena_core_def arena_shape_def h1(4) add.commute)
  ultimately have "arena_rep h1 ar (p # ?ps)" by (simp add: arena_rep_def)
  then have "kheap_rep h1 fs A (pl(ar := p # ?ps))"
  proof (rule kheap_rep_update [OF rep ar])
    show "length (page_used (apage h1 q)) = 4" for q
      using typed h1(5,8) by (cases "q = p") auto
    show "apage h1 q = apage h q \<and> next (nodes h1) q = next (nodes h) q \<and> prev (nodes h1) q = prev (nodes h) q"
      if "q \<notin> set ?ps \<union> set (p # fs)" for q
      using that h1(5,10) by simp
  qed (use f(2) dj in \<open>auto simp: h1(2,4)\<close>)
  with us0 sl h1(1) show thesis
    by (intro that [of h1]) (simp_all add: h1(4,5))
qed

section \<open>Claiming and releasing slots\<close>

lemma sum_list_bump:
  fixes f g :: "'a \<Rightarrow> nat"
  assumes "distinct xs" "x \<in> set xs" "g x = Suc (f x)" "\<And>y. y \<in> set xs \<Longrightarrow> y \<noteq> x \<Longrightarrow> g y = f y"
  shows "sum_list (map g xs) = Suc (sum_list (map f xs))"
proof -
  have "sum g (set xs) = g x + sum g (set xs - {x})" using assms by (intro sum.remove) auto
  also have "sum g (set xs - {x}) = sum f (set xs - {x})" using assms by (intro sum.cong) auto
  also have "g x + \<dots> = Suc (sum f (set xs))" using assms by (simp add: sum.remove [of "set xs" x])
  finally show ?thesis using assms(1) by (simp add: sum_list_distinct_conv_sum_set)
qed

text \<open>\<open>one_slot h ar p i h'\<close>: the states differ in the slot \<open>i\<close> of page \<open>p\<close>, used in \<open>h'\<close> only.\<close>

definition one_slot :: "kheap \<Rightarrow> ptr \<Rightarrow> ptr \<Rightarrow> nat \<Rightarrow> kheap \<Rightarrow> bool" where
  "one_slot h ar p i h' \<longleftrightarrow> i \<notin> used_slots h ar p \<and> used_slots h' ar p = insert i (used_slots h ar p)
     \<and> (\<forall>q. q \<noteq> p \<longrightarrow> apage h' q = apage h q) \<and> (\<forall>a. a \<noteq> ar \<longrightarrow> arena_at h' a = arena_at h a)
     \<and> object_size (arena_at h' ar) = object_size (arena_at h ar)
     \<and> max_count (arena_at h' ar) = max_count (arena_at h ar)"

lemma one_slot_facts:
  assumes "one_slot h ar p i h'"
  shows "slots h' ar = slots h ar" "q \<noteq> p \<Longrightarrow> used_slots h' ar q = used_slots h ar q"
    "card (used_slots h' ar p) = Suc (card (used_slots h ar p))"
    "distinct ps \<Longrightarrow> p \<in> set ps \<Longrightarrow>
       (\<Sum>q \<leftarrow> ps. card (used_slots h' ar q)) = Suc (\<Sum>q \<leftarrow> ps. card (used_slots h ar q))"
    "q \<noteq> p \<Longrightarrow> full h' ar q = full h ar q" "\<not> full h ar p"
proof -
  show sl: "slots h' ar = slots h ar" using assms by (simp add: one_slot_def slots_def)
  show us: "used_slots h' ar q = used_slots h ar q" if "q \<noteq> p" for q
    using assms that by (intro used_slots_cong) (auto simp: one_slot_def)
  show c: "card (used_slots h' ar p) = Suc (card (used_slots h ar p))"
    using assms by (simp add: one_slot_def)
  show "distinct ps \<Longrightarrow> p \<in> set ps \<Longrightarrow>
       (\<Sum>q \<leftarrow> ps. card (used_slots h' ar q)) = Suc (\<Sum>q \<leftarrow> ps. card (used_slots h ar q))"
    using us c by (intro sum_list_bump [of ps p]) auto
  show "q \<noteq> p \<Longrightarrow> full h' ar q = full h ar q" by (simp add: full_def sl us)
  show "\<not> full h ar p" using c card_used_slots_le [of h' ar p] by (simp add: full_def sl)
qed

lemma live_iff:
  "x \<in> live h ar ps \<longleftrightarrow> (\<exists>p \<in> set ps. \<exists>i \<in> used_slots h ar p. x = slot_addr p (object_size (arena_at h ar)) i)"
  by (auto simp: live_def)

lemma one_slot_live:
  assumes os: "one_slot h ar p i h'" and core: "arena_core h ar ps" "arena_core h' ar ps'"
    and set: "set ps' = set ps" and p: "p \<in> set ps"
  shows "live h' ar ps' = insert (slot_addr p (object_size (arena_at h ar)) i) (live h ar ps)"
    and "slot_addr p (object_size (arena_at h ar)) i \<notin> live h ar ps"
proof -
  let ?sz = "object_size (arena_at h ar)"
  have sz: "object_size (arena_at h' ar) = ?sz" using os by (simp add: one_slot_def)
  have "used_slots h' ar p = insert i (used_slots h ar p)" using os by (simp add: one_slot_def)
  with one_slot_facts(2) [OF os] p show "live h' ar ps' = insert (slot_addr p ?sz i) (live h ar ps)"
    by (intro set_eqI) (unfold insert_iff live_iff set sz, metis insert_iff)
  have al: "unat q mod 4096 = 0" if "q \<in> set ps" for q
    using core that by (auto simp: arena_core_def page_ok_def)
  have "i < slots h ar"
    using os one_slot_facts(1) [OF os] by (auto simp: one_slot_def used_slots_def)
  moreover have sl: "slots h ar = 4032 div unat ?sz" by (rule arena_core_slots(3) [OF core(1)])
  ultimately show "slot_addr p ?sz i \<notin> live h ar ps"
    using os al p by (auto simp: live_def slot_addr_inj used_slots_def [of _ _ q for q] one_slot_def)
qed

lemma one_slot_avail:
  assumes os: "one_slot h ar p i h'" and "distinct ps" "p \<in> set ps"
  shows "avail h ar fs ps = Suc (avail h' ar fs ps)"
proof -
  have "(\<Sum>q \<leftarrow> ps. slots h ar - card (used_slots h ar q))
      = Suc (\<Sum>q \<leftarrow> ps. slots h' ar - card (used_slots h' ar q))"
    using assms(2,3) one_slot_facts [OF os] card_used_slots_le [of h' ar p]
    by (intro sum_list_bump [of ps p]) auto
  then show ?thesis using one_slot_facts(1) [OF os] by (simp add: avail_def)
qed

lemma claim_slot_state:
  assumes core: "arena_core h ar ps" and p: "p \<in> set ps" and i: "i < slots h ar"
    and free: "\<not> bitmap_get (page_used (apage h p)) i" and typed: "length (page_used (apage h p)) = 4"
  shows "one_slot h ar p i (claim_slot ar p i h)" and "arena_core (claim_slot ar p i h) ar ps"
proof -
  let ?h = "claim_slot ar p i h"
  have h': "nodes ?h = nodes h" "arena_at ?h = (arena_at h)(ar := (arena_at h ar)\<lparr>num_objects := num_objects (arena_at h ar) + 1\<rparr>)"
    "apage ?h = (apage h)(p := (apage h p)\<lparr>page_used := bitmap_set (page_used (apage h p)) i,
       page_count := page_count (apage h p) + 1\<rparr>)"
    by (simp_all add: claim_slot_def Let_def)
  have bits: "slots h ar \<le> bitmap_bits (page_used (apage h p))"
    using typed arena_core_slots(2) [OF core] by (simp add: bitmap_bits_def BITMAP_BITS_PER_CELL_def)
  have "slots ?h ar = slots h ar" by (simp add: slots_def h')
  then have "used_slots ?h ar p = insert i (used_slots h ar p)"
    using bm.used_set [OF i bits] by (simp add: used_slots_def h')
  then show os: "one_slot h ar p i ?h"
    using free by (simp add: one_slot_def h' used_slots_def)
  have d: "distinct ps" using core p by (auto simp: arena_core_def dest: cyc_distinct)
  have "page_ok ?h ar q" if "q \<in> set ps" for q
    using core that one_slot_facts(2,3) [OF os]
    by (cases "q = p") (auto simp: arena_core_def page_ok_def h' add.commute)
  then show "arena_core ?h ar ps"
    using core one_slot_facts(4) [OF os d p]
    by (simp add: arena_core_def h' arena_shape_def add.commute)
qed

lemma release_slot_state:
  assumes core: "arena_core h ar ps" and p: "p \<in> set ps" and i: "i \<in> used_slots h ar p"
    and typed: "length (page_used (apage h p)) = 4"
  shows "one_slot (release_slot ar p i h) ar p i h" and "arena_core (release_slot ar p i h) ar ps"
proof -
  let ?h = "release_slot ar p i h"
  have h': "nodes ?h = nodes h" "arena_at ?h = (arena_at h)(ar := (arena_at h ar)\<lparr>num_objects := num_objects (arena_at h ar) - 1\<rparr>)"
    "apage ?h = (apage h)(p := (apage h p)\<lparr>page_used := bitmap_clear (page_used (apage h p)) i,
       page_count := page_count (apage h p) - 1\<rparr>)"
    by (simp_all add: release_slot_def Let_def)
  have bits: "slots h ar \<le> bitmap_bits (page_used (apage h p))" and "i < slots h ar"
    using typed i arena_core_slots(2) [OF core]
    by (simp_all add: bitmap_bits_def BITMAP_BITS_PER_CELL_def used_slots_def)
  moreover have "slots ?h ar = slots h ar" by (simp add: slots_def h')
  ultimately have "used_slots ?h ar p = used_slots h ar p - {i}"
    using bm.used_clear [of i "slots h ar" "page_used (apage h p)"] by (simp add: used_slots_def h')
  then show os: "one_slot ?h ar p i h"
    using i by (auto simp: one_slot_def h')
  have d: "distinct ps" using core p by (auto simp: arena_core_def dest: cyc_distinct)
  have "page_ok ?h ar q" if "q \<in> set ps" for q
    using core that one_slot_facts(2,3) [OF os]
    by (cases "q = p") (auto simp: arena_core_def page_ok_def h')
  then show "arena_core ?h ar ps"
    using core one_slot_facts(4) [OF os d p]
    by (simp add: arena_core_def h' arena_shape_def)
qed

section \<open>Allocation\<close>

lemma rotate_core:
  assumes "arena_core h ar (p # ps)"
  shows "arena_core (upd_arena ar (\<lambda>a. a\<lparr>pages := next (nodes h) p\<rparr>) h) ar (ps @ [p])"
proof -
  let ?h = "upd_arena ar (\<lambda>a. a\<lparr>pages := next (nodes h) p\<rparr>) h"
  have us: "used_slots ?h ar q = used_slots h ar q" for q by (intro used_slots_cong) auto
  have "cyc (nodes h) (p # ps)" using assms by (simp add: arena_core_def)
  then have "cyc (nodes h) (ps @ [p])" "next (nodes h) p = hd (ps @ [p])"
    using cyc_rotate [of "nodes h" "[p]" ps] cyc_next_hd by auto
  moreover have "(\<Sum>q \<leftarrow> ps @ [p]. card (used_slots ?h ar q)) = (\<Sum>q \<leftarrow> p # ps. card (used_slots h ar q))"
    by (simp add: us)
  moreover have "page_ok ?h ar q = page_ok h ar q" for q by (simp add: page_ok_def us)
  ultimately show ?thesis
    using assms by (simp add: arena_core_def arena_shape_def del: sum_list.Cons sum_list_append)
qed

lemma alloc_slot_rep:
  assumes rep: "kheap_rep h fs A pl" and ar: "ar \<in> A" and pl: "pl ar = p # ps" and nf: "\<not> full h ar p"
  obtains i h' ps' where
    "alloc_slot ar h = Inr (slot_addr p (object_size (arena_at h ar)) i, h')"
    "slot_addr p (object_size (arena_at h ar)) i \<noteq> NULL"
    "one_slot h ar p i h'" "set ps' = set (p # ps)" "kheap_rep h' fs A (pl(ar := ps'))"
proof -
  have arep: "arena_rep h ar (p # ps)" and core: "arena_core h ar (p # ps)"
    and typed: "\<And>q. length (page_used (apage h q)) = 4"
    using rep ar pl by (auto simp: kheap_rep_def arena_rep_def)
  have p: "p \<noteq> NULL" "unat p mod 4096 = 0" "pages (arena_at h ar) = p" "page_ok h ar p"
    using core by (auto simp: arena_core_def page_ok_def)
  have "card (used_slots h ar p) < slots h ar"
    using nf card_used_slots_le [of h ar p] by (simp add: full_def)
  then obtain i where i: "find_from (\<lambda>i. \<not> bitmap_get (page_used (apage h p)) i) 0 (slots h ar) = Some i"
      "i < slots h ar" "\<not> bitmap_get (page_used (apage h p)) i"
    unfolding used_slots_def by (blast dest: bm.search_free)
  let ?o = "slot_addr p (object_size (arena_at h ar)) i"
  define h1 where "h1 = claim_slot ar p i h"
  have os: "one_slot h ar p i h1" and core1: "arena_core h1 ar (p # ps)"
    using claim_slot_state [OF core _ i(2,3) typed] by (simp_all add: h1_def)
  have "unat ?o = unat p + 64 + i * unat (object_size (arena_at h ar))"
    using i(2) arena_core_slots(3) [OF core] by (intro unat_slot_addr p) simp
  then have o: "?o \<noteq> NULL" by auto
  have eq: "alloc_slot ar h = Inr (?o, if full h1 ar p
      then upd_arena ar (\<lambda>a. a\<lparr>pages := next (nodes h1) p\<rparr>) h1 else h1)"
    using i(1) o p(1,3) full_iff_count [OF core1, of p] core1
    by (simp add: alloc_slot_def slots_def h1_def Let_def arena_core_def)
  define h2 where "h2 = (if full h1 ar p then upd_arena ar (\<lambda>a. a\<lparr>pages := next (nodes h1) p\<rparr>) h1 else h1)"
  define ps2 where "ps2 = (if full h1 ar p then ps @ [p] else p # ps)"
  have fr: "phys h2 = phys h" "nodes h2 = nodes h" "\<And>q. q \<noteq> p \<Longrightarrow> apage h2 q = apage h q"
      "\<And>a. a \<noteq> ar \<Longrightarrow> arena_at h2 a = arena_at h a" "\<And>q. length (page_used (apage h2 q)) = 4"
    using typed by (auto simp: h2_def h1_def claim_slot_def Let_def)
  have us2: "used_slots h2 ar q = used_slots h1 ar q" "slots h2 ar = slots h1 ar"
      "full h2 ar q = full h1 ar q" for q
    by (auto simp: h2_def used_slots_def slots_def full_def)
  have "p \<notin> set ps" using core by (auto simp: arena_core_def dest: cyc_distinct)
  then have fl: "full h1 ar q = full h ar q" if "q \<in> set ps" for q
    using that by (intro one_slot_facts(5) [OF os]) auto
  have "sorted_wrt (\<lambda>q r. full h ar q \<longrightarrow> full h ar r) ps" using arep by (simp add: arena_rep_def)
  then have "sorted_wrt (\<lambda>q r. full h1 ar q \<longrightarrow> full h1 ar r) ps"
    using fl by (auto elim!: sorted_wrt_mono_rel [rotated])
  then have "sorted_wrt (\<lambda>q r. full h2 ar q \<longrightarrow> full h2 ar r) ps2"
    by (auto simp: us2 ps2_def sorted_wrt_append)
  moreover have "arena_core h2 ar ps2"
    using core1 rotate_core [OF core1] by (simp add: h2_def ps2_def)
  ultimately have "arena_rep h2 ar ps2" by (simp add: arena_rep_def)
  moreover have "set (p # ps) \<inter> set fs = {}" "free_pages (phys h) fs"
    using rep ar pl [symmetric] by (simp_all only: kheap_rep_def)
  ultimately have "kheap_rep h2 fs A (pl(ar := ps2))"
    using pl fr by (intro kheap_rep_update [OF rep ar]) (auto simp: ps2_def)
  moreover have "one_slot h ar p i h2"
    using os us2 by (simp add: one_slot_def h2_def)
  moreover have "set ps2 = set (p # ps)" by (auto simp: ps2_def)
  ultimately show thesis
    using eq o unfolding h2_def [symmetric] by (intro that [of i h2 ps2]) assumption+
qed

lemma kheap_rep_arena:
  assumes "kheap_rep h fs A pl" and "ar \<in> A"
  shows "arena_rep h ar (pl ar)" "arena_core h ar (pl ar)" "distinct (pl ar)"
    "\<And>q. length (page_used (apage h q)) = 4"
proof -
  show "arena_rep h ar (pl ar)" "\<And>q. length (page_used (apage h q)) = 4"
    using assms by (auto simp: kheap_rep_def)
  then show c: "arena_core h ar (pl ar)" by (simp add: arena_rep_def)
  then show "distinct (pl ar)"
    by (cases "pl ar") (auto simp: arena_core_def dest: cyc_distinct)
qed

lemma head_full_iff:
  assumes "arena_rep h ar ps"
  shows "pages (arena_at h ar) = NULL
      \<or> page_count (apage h (pages (arena_at h ar))) \<ge> max_count (arena_at h ar)
    \<longleftrightarrow> (\<forall>q \<in> set ps. full h ar q)"
proof (cases ps)
  case Nil
  with assms show ?thesis by (simp add: arena_rep_def arena_core_def)
next
  case (Cons p qs)
  then have "pages (arena_at h ar) = p" "p \<noteq> NULL" "page_ok h ar p" and core: "arena_core h ar ps"
    and s: "\<forall>q \<in> set qs. full h ar p \<longrightarrow> full h ar q"
    using assms by (auto simp: arena_rep_def arena_core_def page_ok_def)
  with full_iff_count [OF core] Cons show ?thesis by auto
qed

lemma sum_list_same_set:
  fixes f :: "'a \<Rightarrow> nat"
  shows "distinct xs \<Longrightarrow> distinct ys \<Longrightarrow> set xs = set ys \<Longrightarrow> sum_list (map f xs) = sum_list (map f ys)"
  by (simp add: sum_list_distinct_conv_sum_set)

lemma avail_zero_iff:
  assumes "arena_core h ar ps"
  shows "avail h ar fs ps = 0 \<longleftrightarrow> fs = [] \<and> (\<forall>q \<in> set ps. full h ar q)"
  using arena_core_slots(1) [OF assms] card_used_slots_le [of h ar]
  by (auto simp: avail_def full_def sum_list_eq_0_iff le_antisym)

text \<open>What a successful allocation does: the object is new, and nothing else changes.\<close>

definition alloc_spec ::
  "ptr set \<Rightarrow> ptr \<Rightarrow> kheap \<Rightarrow> ptr list \<Rightarrow> (ptr \<Rightarrow> ptr list) \<Rightarrow> ptr \<Rightarrow> kheap \<Rightarrow> ptr list \<Rightarrow> ptr list \<Rightarrow> bool" where
  "alloc_spec A ar h fs pl obj h' fs' ps' \<longleftrightarrow> obj \<noteq> NULL \<and> obj \<notin> live h ar (pl ar)
     \<and> kheap_rep h' fs' A (pl(ar := ps')) \<and> live h' ar ps' = insert obj (live h ar (pl ar))
     \<and> avail h ar fs (pl ar) = Suc (avail h' ar fs' ps')
     \<and> (\<forall>a \<in> A - {ar}. live h' a (pl a) = live h a (pl a))"

lemma alloc_room:
  assumes rep: "kheap_rep h fs A pl" and ar: "ar \<in> A" and nf: "\<not> (\<forall>q \<in> set (pl ar). full h ar q)"
  obtains obj h' ps' where "alloc_slot ar h = Inr (obj, h')" "alloc_spec A ar h fs pl obj h' fs ps'"
    "length ps' = length (pl ar)"
proof -
  note kr = kheap_rep_arena [OF rep ar]
  obtain p ps where pl: "pl ar = p # ps" using nf by (cases "pl ar") auto
  have "\<not> full h ar p"
    using kr(1) nf pl by (auto simp: arena_rep_def)
  from rep ar pl this obtain i h' ps' where *:
    "alloc_slot ar h = Inr (slot_addr p (object_size (arena_at h ar)) i, h')"
    "slot_addr p (object_size (arena_at h ar)) i \<noteq> NULL"
    "one_slot h ar p i h'" "set ps' = set (p # ps)" "kheap_rep h' fs A (pl(ar := ps'))"
    by (rule alloc_slot_rep)
  have kr': "arena_core h' ar ps'" "distinct ps'"
    using kheap_rep_arena(2,3) [OF *(5) ar] by simp_all
  have "avail h ar fs (pl ar) = Suc (avail h' ar fs (pl ar))"
    using one_slot_avail [OF *(3) kr(3)] pl by simp
  moreover have "avail h' ar fs (pl ar) = avail h' ar fs ps'"
    using sum_list_same_set [OF kr(3) kr'(2)] *(4) pl by (simp add: avail_def)
  moreover have "live h' a (pl a) = live h a (pl a)" if "a \<in> A - {ar}" for a
  proof (rule live_cong)
    have "set (pl a) \<inter> set (pl ar) = {}" using rep ar that unfolding kheap_rep_def by blast
    then show "apage h' q = apage h q" if "q \<in> set (pl a)" for q
      using that *(3) pl by (auto simp: one_slot_def)
  qed (use that *(3) in \<open>simp add: one_slot_def\<close>)
  ultimately show thesis
    using pl one_slot_live [OF *(3) kr(2) kr'(1)] * distinct_card [OF kr(3)] distinct_card [OF kr'(2)]
    by (intro that [OF *(1)]) (simp_all add: alloc_spec_def)
qed

lemma alloc_spec_new_page:
  assumes rep: "kheap_rep h (p # fs) A pl" and ar: "ar \<in> A"
    and h1: "used_slots h1 ar p = {}" "\<And>q. q \<noteq> p \<Longrightarrow> apage h1 q = apage h q"
      "\<And>a. a \<noteq> ar \<Longrightarrow> arena_at h1 a = arena_at h a"
      "object_size (arena_at h1 ar) = object_size (arena_at h ar)" "slots h1 ar = slots h ar"
    and spec: "alloc_spec A ar h1 fs (pl(ar := p # pl ar)) obj h' fs ps'"
  shows "alloc_spec A ar h (p # fs) pl obj h' fs ps'"
proof -
  have np: "p \<notin> set (pl a)" if "a \<in> A" for a
    using rep that by (auto simp: kheap_rep_def)
  have us: "used_slots h1 ar q = used_slots h ar q" if "q \<in> set (pl ar)" for q
  proof -
    have "apage h1 q = apage h q" using that np [OF ar] by (intro h1(2)) auto
    then show ?thesis by (simp add: used_slots_def h1(5))
  qed
  have live: "live h1 ar (p # pl ar) = live h ar (pl ar)"
    using us h1(1,4) by (simp add: live_def)
  have "(\<Sum>q \<leftarrow> pl ar. slots h ar - card (used_slots h1 ar q)) = (\<Sum>q \<leftarrow> pl ar. slots h ar - card (used_slots h ar q))"
    using us by (intro arg_cong [of _ _ sum_list] map_cong) auto
  then have av: "avail h1 ar fs (p # pl ar) = avail h ar (p # fs) (pl ar)"
    by (simp add: avail_def h1(1,5))
  have other: "live h1 a (pl a) = live h a (pl a)" if "a \<in> A - {ar}" for a
  proof (rule live_cong)
    show "apage h1 q = apage h q" if "q \<in> set (pl a)" for q
      using that np [of a] \<open>a \<in> A - {ar}\<close> by (intro h1(2)) auto
  qed (use that h1(3) in simp)
  show ?thesis using spec live av other by (simp add: alloc_spec_def)
qed

lemma alloc_object_rep:
  assumes rep: "kheap_rep h fs A pl" and ar: "ar \<in> A" and room: "0 < avail h ar fs (pl ar)"
  obtains obj h' fs' ps' where "alloc_object ar h = Inr (obj, h')" "alloc_spec A ar h fs pl obj h' fs' ps'"
    "length ps' = (if \<forall>q \<in> set (pl ar). full h ar q then 1 else 0) + length (pl ar)"
proof (cases "\<forall>q \<in> set (pl ar). full h ar q")
  case False
  note kr = kheap_rep_arena [OF rep ar]
  have eq: "alloc_object ar h = alloc_slot ar h"
    using head_full_iff [OF kr(1)] False by (simp add: alloc_object_def)
  from rep ar False obtain obj h' ps' where "alloc_slot ar h = Inr (obj, h')"
      "alloc_spec A ar h fs pl obj h' fs ps'" "length ps' = length (pl ar)"
    by (rule alloc_room)
  with eq False show thesis by (intro that [of obj h' fs ps']) auto
next
  case True
  note kr = kheap_rep_arena [OF rep ar]
  obtain p fs1 where fs: "fs = p # fs1"
    using room True avail_zero_iff [OF kr(2), of fs] by (cases fs) auto
  from rep [unfolded fs] ar True obtain h1 where h1: "add_page ar h = Inr (p, h1)"
    "kheap_rep h1 fs1 A (pl(ar := p # pl ar))" "used_slots h1 ar p = {}"
    "\<And>q. q \<noteq> p \<Longrightarrow> apage h1 q = apage h q" "\<And>a. a \<noteq> ar \<Longrightarrow> arena_at h1 a = arena_at h a"
    "object_size (arena_at h1 ar) = object_size (arena_at h ar)" "slots h1 ar = slots h ar"
    by (rule add_page_rep) blast
  have eq: "alloc_object ar h = alloc_slot ar h1"
    using head_full_iff [OF kr(1)] True h1(1) by (simp add: alloc_object_def)
  have "\<not> full h1 ar p"
    using h1(3,7) arena_core_slots(1) [OF kr(2)] by (simp add: full_def)
  then have "\<not> (\<forall>q \<in> set ((pl(ar := p # pl ar)) ar). full h1 ar q)" by simp
  from h1(2) ar this obtain obj h' ps' where *: "alloc_slot ar h1 = Inr (obj, h')"
    "alloc_spec A ar h1 fs1 (pl(ar := p # pl ar)) obj h' fs1 ps'" "length ps' = length ((pl(ar := p # pl ar)) ar)"
    by (rule alloc_room)
  have "alloc_spec A ar h fs pl obj h' fs1 ps'"
    using alloc_spec_new_page [OF rep [unfolded fs] ar h1(3-7) *(2)] by (simp add: fs)
  with * eq True show thesis by (intro that [of obj h' fs1 ps']) auto
qed

lemma alloc_object_fails:
  assumes rep: "kheap_rep h fs A pl" and ar: "ar \<in> A" and none: "avail h ar fs (pl ar) = 0"
  shows "alloc_object ar h =
    Inl (if pl ar = [] then NullDeref else Panic ''arena failed to allocate object'')"
proof -
  note kr = kheap_rep_arena [OF rep ar]
  have fs: "fs = []" and full: "\<forall>q \<in> set (pl ar). full h ar q"
    using none avail_zero_iff [OF kr(2)] by auto
  have "kalloc (phys h) = (NULL, phys h)"
    using rep fs by (intro pm.alloc_Nil) (simp add: kheap_rep_def)
  then have "add_page ar h = Inr (NULL, h)"
    by (simp add: add_page_def)
  then have eq: "alloc_object ar h = alloc_slot ar h"
    using head_full_iff [OF kr(1)] full by (simp add: alloc_object_def)
  show ?thesis
  proof (cases "pl ar")
    case Nil
    then have "pages (arena_at h ar) = NULL" "0 < max_count (arena_at h ar)"
      using kr(2) arena_core_slots(1) [OF kr(2)] by (auto simp: arena_core_def slots_def word_less_nat_alt)
    then show ?thesis by (simp add: eq alloc_slot_def Nil)
  next
    case (Cons p ps)
    then have p: "pages (arena_at h ar) = p" "p \<noteq> NULL" "full h ar p"
      using kr(2) full by (auto simp: arena_core_def page_ok_def)
    then have "\<forall>i < slots h ar. bitmap_get (page_used (apage h p)) i"
      using bm.card_used_full by (simp add: full_def used_slots_def)
    then have "find_from (\<lambda>i. \<not> bitmap_get (page_used (apage h p)) i) 0 (slots h ar) = None"
      by (simp add: find_from_None)
    then show ?thesis by (simp add: eq alloc_slot_def Cons p slots_def)
  qed
qed

section \<open>Freeing\<close>

lemma move_page_list:
  assumes c: "cyc (nodes h) ps" and hd: "pages (arena_at h ar) = hd ps" and p: "p \<in> set ps" and nn: "NULL \<notin> set ps"
  shows "cyc (nodes (move_page_to_head ar p h)) (p # remove1 p ps)"
    and "arena_at (move_page_to_head ar p h) = (arena_at h)(ar := (arena_at h ar)\<lparr>pages := p\<rparr>)"
    and "apage (move_page_to_head ar p h) = apage h" and "phys (move_page_to_head ar p h) = phys h"
    and "x \<notin> set ps \<Longrightarrow> next (nodes (move_page_to_head ar p h)) x = next (nodes h) x
      \<and> prev (nodes (move_page_to_head ar p h)) x = prev (nodes h) x"
proof -
  let ?h = "move_page_to_head ar p h"
  have "cyc (nodes ?h) (p # remove1 p ps)
    \<and> arena_at ?h = (arena_at h)(ar := (arena_at h ar)\<lparr>pages := p\<rparr>) \<and> apage ?h = apage h \<and> phys ?h = phys h
    \<and> (\<forall>x. x \<notin> set ps \<longrightarrow> next (nodes ?h) x = next (nodes h) x \<and> prev (nodes ?h) x = prev (nodes h) x)"
  proof (cases "hd ps = p")
    case True
    with p have "p # remove1 p ps = ps" by (cases ps) auto
    with True c hd show ?thesis by (auto simp: move_page_to_head_def)
  next
    case False
    obtain as bs where ps: "ps = as @ p # bs" "p \<notin> set as"
      using p by (meson split_list_first)
    with False have as: "as \<noteq> []" by auto
    define h1 where "h1 = h\<lparr>nodes := snd (detach_from_list p (nodes h))\<rparr>"
    have c1: "cyc (nodes h) (p # bs @ as)"
      using c cyc_rotate [of "nodes h" as "p # bs"] ps by simp
    have "cyc (nodes h1) (bs @ as)"
      using detach_cyc [OF c1] as by (simp add: h1_def)
    then have old: "as @ bs \<noteq> [] \<longrightarrow> cyc (nodes h1) (as @ bs)" using cyc_rotate by blast
    have cp: "cyc (nodes h1) [p]" by (simp add: h1_def detach_singleton)
    have np: "p \<notin> set (as @ bs)" using cyc_distinct [OF c] ps by auto
    have hd1: "pages (arena_at h1 ar) = (if as @ bs = [] then NULL else hd (as @ bs))"
      using hd as ps by (simp add: h1_def)
    note ins = insert_page_list [OF cp np _ hd1 old]
    have nn1: "NULL \<notin> set (as @ bs)" using nn ps by auto
    have eq: "?h = insert_page ar p h1"
      using False hd by (simp add: move_page_to_head_def h1_def)
    have "next (nodes ?h) x = next (nodes h) x \<and> prev (nodes ?h) x = prev (nodes h) x" if "x \<notin> set ps" for x
      using ins(5) [OF nn1, of x] detach_frame [OF c1, of x] that ps unfolding eq by (simp add: h1_def)
    then show ?thesis
      using ins(1-4) [OF nn1] ps unfolding eq by (simp add: h1_def remove1_append)
  qed
  then show "cyc (nodes ?h) (p # remove1 p ps)"
    and "arena_at ?h = (arena_at h)(ar := (arena_at h ar)\<lparr>pages := p\<rparr>)"
    and "apage ?h = apage h" and "phys ?h = phys h"
    and "x \<notin> set ps \<Longrightarrow> next (nodes ?h) x = next (nodes h) x \<and> prev (nodes ?h) x = prev (nodes h) x"
    by auto
qed

lemma move_page_core:
  assumes core: "arena_core h ar ps" and p: "p \<in> set ps"
  shows "arena_core (move_page_to_head ar p h) ar (p # remove1 p ps)"
    and "used_slots (move_page_to_head ar p h) ar q = used_slots h ar q"
proof -
  let ?h = "move_page_to_head ar p h"
  have nn: "NULL \<notin> set ps" using core by (auto simp: arena_core_def page_ok_def)
  have c: "cyc (nodes h) ps" "pages (arena_at h ar) = hd ps"
    using core p by (auto simp: arena_core_def)
  note mv = move_page_list [OF c p nn]
  show us: "used_slots ?h ar q = used_slots h ar q" for q
    by (intro used_slots_cong) (simp_all add: mv(2,3))
  have d: "distinct ps" using c(1) by (rule cyc_distinct)
  then have "distinct (p # remove1 p ps)" "set (p # remove1 p ps) = set ps"
    using p by auto
  then have sum: "(\<Sum>q \<leftarrow> p # remove1 p ps. card (used_slots ?h ar q)) = (\<Sum>q \<leftarrow> ps. card (used_slots h ar q))"
    using sum_list_same_set [OF _ d, of "p # remove1 p ps" "\<lambda>q. card (used_slots h ar q)"] by (simp add: us)
  have len: "length (p # remove1 p ps) = length ps"
    using p length_pos_if_in_set [OF p] by (simp add: length_remove1)
  have ok: "\<forall>q \<in> set (p # remove1 p ps). page_ok ?h ar q"
    using core p by (auto simp: arena_core_def page_ok_def us mv(3) dest: notin_set_remove1)
  have "arena_shape (arena_at ?h ar)" "num_objects (arena_at ?h ar) = num_objects (arena_at h ar)"
      "num_pages (arena_at ?h ar) = num_pages (arena_at h ar)" "pages (arena_at ?h ar) = p"
    using core by (simp_all add: mv(2) arena_core_def arena_shape_def)
  with core sum len ok mv(1) show "arena_core ?h ar (p # remove1 p ps)"
    unfolding arena_core_def by (simp del: sum_list.Cons list.map length_Cons)
qed

lemma free_object_state:
  assumes arep: "arena_rep h ar ps" and typed: "\<And>q. length (page_used (apage h q)) = 4"
    and obj: "obj \<in> live h ar ps"
  obtains p i h2 where "free_object obj h = Inr h2" "obj = slot_addr p (object_size (arena_at h ar)) i"
    "p \<in> set ps" "one_slot h2 ar p i h" "arena_rep h2 ar (p # remove1 p ps)" "phys h2 = phys h"
    "\<And>q. length (page_used (apage h2 q)) = 4"
    "\<And>x. x \<notin> set ps \<Longrightarrow> next (nodes h2) x = next (nodes h) x \<and> prev (nodes h2) x = prev (nodes h) x"
proof -
  let ?sz = "object_size (arena_at h ar)"
  have core: "arena_core h ar ps" using arep by (simp add: arena_rep_def)
  obtain p i where p: "p \<in> set ps" and i: "i \<in> used_slots h ar p" and o: "obj = slot_addr p ?sz i"
    using obj by (auto simp: live_iff)
  have al: "unat p mod 4096 = 0" "page_arena (apage h p) = ar" and d: "distinct ps"
    using core p by (auto simp: arena_core_def page_ok_def dest: cyc_distinct)
  have isz: "i < 4032 div unat ?sz"
    using i arena_core_slots(3) [OF core] by (simp add: used_slots_def)
  define h1 where "h1 = release_slot ar p i h"
  define h2 where "h2 = move_page_to_head ar p h1"
  have os: "one_slot h1 ar p i h" and core1: "arena_core h1 ar ps"
    using release_slot_state [OF core p i typed] by (simp_all add: h1_def)
  have eq: "free_object obj h = Inr h2"
    using slot_container [OF al(1) isz] slot_index [OF isz, of p] i al(2)
    by (simp add: free_object_def o Let_def h2_def h1_def used_slots_def)
  have core2: "arena_core h2 ar (p # remove1 p ps)" and us2: "\<And>q. used_slots h2 ar q = used_slots h1 ar q"
    using move_page_core [OF core1 p] by (simp_all add: h2_def)
  have c1: "cyc (nodes h1) ps" "pages (arena_at h1 ar) = hd ps" "NULL \<notin> set ps"
    using core1 p by (auto simp: arena_core_def page_ok_def)
  note mv = move_page_list [OF c1(1,2) p c1(3), folded h2_def]
  have os2: "one_slot h2 ar p i h"
    using os mv(2,3) by (simp add: one_slot_def us2)
  have "full h2 ar q = full h ar q" if "q \<in> set (remove1 p ps)" for q
    using that d one_slot_facts(5) [OF os2, of q] by auto
  moreover have "sorted_wrt (\<lambda>q r. full h ar q \<longrightarrow> full h ar r) (remove1 p ps)"
    using arep d by (simp add: arena_rep_def distinct_remove1_removeAll removeAll_filter_not_eq sorted_wrt_filter)
  ultimately have "sorted_wrt (\<lambda>q r. full h2 ar q \<longrightarrow> full h2 ar r) (p # remove1 p ps)"
    using one_slot_facts(6) [OF os2] by (auto elim!: sorted_wrt_mono_rel [rotated])
  with core2 have "arena_rep h2 ar (p # remove1 p ps)" by (simp add: arena_rep_def)
  moreover have "nodes h1 = nodes h" "phys h1 = phys h" "\<And>q. length (page_used (apage h1 q)) = 4"
    using typed by (simp_all add: h1_def release_slot_def Let_def)
  ultimately show thesis
    using mv(3-5) by (intro that [OF eq o p os2]) simp_all
qed

lemma free_object_rep:
  assumes rep: "kheap_rep h fs A pl" and ar: "ar \<in> A" and obj: "obj \<in> live h ar (pl ar)"
  obtains h' ps' where "free_object obj h = Inr h'" "kheap_rep h' fs A (pl(ar := ps'))"
    "live h' ar ps' = live h ar (pl ar) - {obj}" "avail h' ar fs ps' = Suc (avail h ar fs (pl ar))"
    "\<forall>a \<in> A - {ar}. live h' a (pl a) = live h a (pl a)"
proof -
  note kr = kheap_rep_arena [OF rep ar]
  obtain p i h2 where h2: "free_object obj h = Inr h2" "obj = slot_addr p (object_size (arena_at h ar)) i"
    "p \<in> set (pl ar)" "one_slot h2 ar p i h" "arena_rep h2 ar (p # remove1 p (pl ar))" "phys h2 = phys h"
    "\<And>q. length (page_used (apage h2 q)) = 4"
    "\<And>x. x \<notin> set (pl ar) \<Longrightarrow> next (nodes h2) x = next (nodes h) x \<and> prev (nodes h2) x = prev (nodes h) x"
    by (rule free_object_state [OF kr(1,4) obj]) blast
  let ?qs = "p # remove1 p (pl ar)"
  have core2: "arena_core h2 ar ?qs" using h2(5) by (simp add: arena_rep_def)
  have set: "set ?qs = set (pl ar)" "distinct ?qs" using h2(3) kr(3) by auto
  have fr: "\<And>q. q \<noteq> p \<Longrightarrow> apage h2 q = apage h q" "\<And>a. a \<noteq> ar \<Longrightarrow> arena_at h2 a = arena_at h a"
    "object_size (arena_at h2 ar) = object_size (arena_at h ar)"
    using h2(4) by (simp_all add: one_slot_def)
  have dj: "set (pl ar) \<inter> set fs = {}" "free_pages (phys h) fs" using rep ar by (auto simp: kheap_rep_def)
  have "kheap_rep h2 fs A (pl(ar := ?qs))"
  proof (rule kheap_rep_update [OF rep ar h2(5)])
    show "apage h2 q = apage h q \<and> next (nodes h2) q = next (nodes h) q \<and> prev (nodes h2) q = prev (nodes h) q"
      if "q \<notin> set (pl ar) \<union> set fs" for q
      using that h2(3,8) fr(1) by (metis Un_iff)
  qed (use dj fr h2(6,7) set in auto)
  moreover have "live h ar (pl ar) = insert obj (live h2 ar ?qs)" "obj \<notin> live h2 ar ?qs"
    using one_slot_live [OF h2(4) core2 kr(2)] set h2(2) fr(3) by auto
  moreover have "avail h2 ar fs ?qs = Suc (avail h ar fs (pl ar))"
    using one_slot_avail [OF h2(4) set(2)] sum_list_same_set [OF kr(3) set(2)] set(1) by (simp add: avail_def)
  moreover have "live h2 a (pl a) = live h a (pl a)" if "a \<in> A - {ar}" for a
  proof (rule live_cong)
    have "set (pl a) \<inter> set (pl ar) = {}" using rep ar that unfolding kheap_rep_def by blast
    then show "apage h2 q = apage h q" if "q \<in> set (pl a)" for q
      using that h2(3) by (intro fr(1)) auto
  qed (use that fr(2) in simp)
  ultimately show thesis by (intro that [OF h2(1)]) auto
qed

section \<open>Clearing\<close>

lemma clear_pages_list:
  "chain (nodes h) (c # xs) \<Longrightarrow> next (nodes h) (last (c # xs)) = head \<Longrightarrow> head \<notin> set xs
   \<Longrightarrow> distinct (c # xs) \<Longrightarrow> set (c # xs) \<inter> set fs = {} \<Longrightarrow> NULL \<notin> set (c # xs)
   \<Longrightarrow> free_pages (phys h) fs \<Longrightarrow> length xs < fuel
   \<Longrightarrow> \<exists>f. clear_pages fuel head c h = Inr (h\<lparr>phys := f\<rparr>) \<and> free_pages f (rev (c # xs) @ fs)"
proof (induction xs arbitrary: c h fs fuel)
  case Nil
  obtain f where f: "kfree c (phys h) = Inr f" "free_pages f (c # fs)"
    using Nil pm.free_rep [of "phys h" fs c] by auto
  with Nil show ?case by (cases fuel) auto
next
  case (Cons y xs)
  obtain f where f: "kfree c (phys h) = Inr f" "free_pages f (c # fs)"
    using Cons.prems pm.free_rep [of "phys h" fs c] by auto
  obtain k where k: "fuel = Suc k" using Cons.prems(8) by (cases fuel) auto
  have nx: "next (nodes h) c = y" "y \<noteq> head" using Cons.prems(1,3) by (auto simp: link_def)
  have "\<exists>g. clear_pages k head y (h\<lparr>phys := f\<rparr>) = Inr (h\<lparr>phys := f\<rparr>\<lparr>phys := g\<rparr>) \<and> free_pages g (rev (y # xs) @ c # fs)"
    by (rule Cons.IH) (use Cons.prems f(2) k in auto)
  with f(1) nx k show ?case by auto
qed

lemma clear_arena_rep:
  assumes rep: "kheap_rep h fs A pl" and ar: "ar \<in> A" and fuel: "length (pl ar) \<le> fuel"
  shows "\<exists>h'. clear_arena fuel ar h = Inr h' \<and> kheap_rep h' (rev (pl ar) @ fs) A (pl(ar := []))"
proof -
  note kr = kheap_rep_arena [OF rep ar]
  have nn: "NULL \<notin> set (pl ar)" using kr(2) by (auto simp: arena_core_def page_ok_def)
  have dj: "set (pl ar) \<inter> set fs = {}" "free_pages (phys h) fs"
    using rep ar unfolding kheap_rep_def by blast+
  show ?thesis
  proof (cases "pl ar")
    case Nil
    then have "pages (arena_at h ar) = NULL" using kr(2) by (simp add: arena_core_def)
    with Nil rep show ?thesis by (simp add: clear_arena_def fun_upd_idem)
  next
    case (Cons p ps)
    have hd: "pages (arena_at h ar) = p" "p \<noteq> NULL" and c: "cyc (nodes h) (p # ps)"
      using kr(2) nn Cons by (auto simp: arena_core_def)
    have "\<exists>f. clear_pages fuel p p h = Inr (h\<lparr>phys := f\<rparr>) \<and> free_pages f (rev (p # ps) @ fs)"
      using c fuel dj nn Cons by (intro clear_pages_list) (auto simp: cyc_def link_def)
    then obtain f where f: "clear_pages fuel p p h = Inr (h\<lparr>phys := f\<rparr>)" "free_pages f (rev (p # ps) @ fs)"
      by blast
    define h' where "h' = upd_arena ar (\<lambda>a. a\<lparr>pages := NULL, num_objects := 0, num_pages := 0\<rparr>) (h\<lparr>phys := f\<rparr>)"
    have "arena_rep h' ar []"
      using kr(2) by (simp add: arena_rep_def arena_core_def h'_def arena_shape_def)
    then have "kheap_rep h' (rev (pl ar) @ fs) A (pl(ar := []))"
      by (rule kheap_rep_update [OF rep ar]) (use f(2) kr(4) Cons in \<open>auto simp: h'_def\<close>)
    moreover have "clear_arena fuel ar h = Inr h'"
      using hd f(1) by (simp add: clear_arena_def h'_def)
    ultimately show ?thesis by blast
  qed
qed

section \<open>The contract of an object arena\<close>

locale object_arena =
  fixes rep :: "'h \<Rightarrow> ptr set \<Rightarrow> nat \<Rightarrow> bool"
    and alloc :: "'h \<Rightarrow> (ptr \<times> 'h) res"
    and free :: "ptr \<Rightarrow> 'h \<Rightarrow> 'h res"
  assumes alloc_ok: "rep h L (Suc n) \<Longrightarrow>
      \<exists>obj h'. alloc h = Inr (obj, h') \<and> obj \<noteq> NULL \<and> obj \<notin> L \<and> rep h' (insert obj L) n"
    and alloc_none: "rep h L 0 \<Longrightarrow> \<exists>e. alloc h = Inl e"
    and free_ok: "rep h L n \<Longrightarrow> obj \<in> L \<Longrightarrow> \<exists>h'. free obj h = Inr h' \<and> rep h' (L - {obj}) (Suc n)"
begin

lemma alloc_succeeds_iff:
  assumes "rep h L n"
  shows "(\<exists>obj h'. alloc h = Inr (obj, h')) \<longleftrightarrow> 0 < n"
  using assms alloc_ok [of h L "n - 1"] alloc_none by (cases n) fastforce+

lemma alloc_rep:
  assumes "rep h L n" and "alloc h = Inr (obj, h')"
  shows "obj \<noteq> NULL \<and> obj \<notin> L \<and> rep h' (insert obj L) (n - 1) \<and> 0 < n"
  using assms alloc_ok [of h L "n - 1"] alloc_none [of h L] by (cases n) fastforce+

lemma alloc_then_free:
  assumes "rep h L n" and "alloc h = Inr (obj, h')"
  shows "\<exists>h''. free obj h' = Inr h'' \<and> rep h'' L n"
  using alloc_rep [OF assms] free_ok [of h' "insert obj L" "n - 1" obj] by auto

lemma free_then_alloc:
  assumes "rep h L n" and "obj \<in> L" and "free obj h = Inr h'"
  shows "\<exists>new h''. alloc h' = Inr (new, h'') \<and> new \<notin> L - {obj} \<and> rep h'' (insert new (L - {obj})) n"
  using free_ok [OF assms(1,2)] assms(3) alloc_ok [of h' "L - {obj}" n] by auto

end

definition arena_objs :: "ptr \<Rightarrow> ptr set \<Rightarrow> kheap \<Rightarrow> ptr set \<Rightarrow> nat \<Rightarrow> bool" where
  "arena_objs ar A h L n \<longleftrightarrow> (\<exists>fs pl. kheap_rep h fs A pl \<and> ar \<in> A \<and> L = live h ar (pl ar) \<and> n = avail h ar fs (pl ar))"

interpretation ao: object_arena "arena_objs ar A" "alloc_object ar" free_object for ar A
proof
  fix h L n assume "arena_objs ar A h L (Suc n)"
  then obtain fs pl where h: "kheap_rep h fs A pl" "ar \<in> A" "L = live h ar (pl ar)" "Suc n = avail h ar fs (pl ar)"
    by (auto simp: arena_objs_def)
  then have "0 < avail h ar fs (pl ar)" by simp
  from h(1,2) this obtain obj h' fs' ps' where *: "alloc_object ar h = Inr (obj, h')"
      "alloc_spec A ar h fs pl obj h' fs' ps'"
    by (rule alloc_object_rep)
  then have "arena_objs ar A h' (insert obj L) n"
    using h unfolding arena_objs_def alloc_spec_def
    by (intro exI [of _ fs'] exI [of _ "pl(ar := ps')"]) simp
  with * h(3) show "\<exists>obj h'. alloc_object ar h = Inr (obj, h') \<and> obj \<noteq> NULL \<and> obj \<notin> L \<and> arena_objs ar A h' (insert obj L) n"
    by (auto simp: alloc_spec_def)
next
  fix h L assume "arena_objs ar A h L 0"
  then show "\<exists>e. alloc_object ar h = Inl e"
    using alloc_object_fails by (fastforce simp: arena_objs_def)
next
  fix h L n obj assume "arena_objs ar A h L n" and obj: "obj \<in> L"
  then obtain fs pl where h: "kheap_rep h fs A pl" "ar \<in> A" "L = live h ar (pl ar)" "n = avail h ar fs (pl ar)"
    by (auto simp: arena_objs_def)
  from h(1,2) obj [unfolded h(3)] obtain h' ps' where *: "free_object obj h = Inr h'"
      "kheap_rep h' fs A (pl(ar := ps'))" "live h' ar ps' = live h ar (pl ar) - {obj}"
      "avail h' ar fs ps' = Suc (avail h ar fs (pl ar))"
    by (rule free_object_rep)
  then have "arena_objs ar A h' (L - {obj}) (Suc n)"
    using h unfolding arena_objs_def by (intro exI [of _ fs] exI [of _ "pl(ar := ps')"]) simp
  with * show "\<exists>h'. free_object obj h = Inr h' \<and> arena_objs ar A h' (L - {obj}) (Suc n)" by blast
qed

section \<open>Initialisation, errors and separation\<close>

lemma init_arena_rep:
  assumes rep: "kheap_rep h fs A pl" and new: "ar \<notin> A" and sz: "16 \<le> unat sz" "unat sz \<le> 4032"
  shows "\<exists>h'. init_arena ar sz h = Inr h' \<and> kheap_rep h' fs (insert ar A) (pl(ar := []))"
proof -
  define h' where "h' = upd_arena ar (\<lambda>_. \<lparr>object_size = sz, max_count = ARENA_PAGE_CAPACITY div sz, pages = NULL,
        num_objects = 0, num_pages = 0\<rparr>) h"
  have "init_arena ar sz h = Inr h'"
    using sz by (simp add: init_arena_def h'_def arena_consts word_le_nat_alt)
  moreover have "arena_rep h' ar []"
    using sz by (simp add: arena_rep_def arena_core_def arena_shape_def h'_def arena_consts unat_div)
  moreover have "arena_rep h' a (pl a)" if "a \<in> A" for a
    using kheap_rep_arena(1) [OF rep that] that new by (rule_tac arena_rep_cong) (auto simp: h'_def)
  ultimately have ok: "init_arena ar sz h = Inr h'"
      "\<forall>a \<in> insert ar A. arena_rep h' a ((pl(ar := [])) a) \<and> set ((pl(ar := [])) a) \<inter> set fs = {}"
    using rep new by (simp_all add: kheap_rep_def)
  have "\<forall>a \<in> insert ar A. \<forall>b \<in> insert ar A. a \<noteq> b \<longrightarrow> set ((pl(ar := [])) a) \<inter> set ((pl(ar := [])) b) = {}"
    using rep by (simp add: kheap_rep_def)
  with ok rep show ?thesis by (simp add: kheap_rep_def h'_def)
qed

lemma live_page:
  assumes "arena_core h ar ps" and "x \<in> live h ar ps"
  obtains p i where "p \<in> set ps" "i \<in> used_slots h ar p" "x = slot_addr p (object_size (arena_at h ar)) i"
    "unat x = unat p + 64 + i * unat (object_size (arena_at h ar))" "unat p mod 4096 = 0"
    "unat x + unat (object_size (arena_at h ar)) \<le> unat p + 4096"
proof -
  obtain p i where p: "p \<in> set ps" "i \<in> used_slots h ar p" "x = slot_addr p (object_size (arena_at h ar)) i"
    using assms(2) by (auto simp: live_iff)
  have al: "unat p mod 4096 = 0" using assms(1) p(1) by (auto simp: arena_core_def page_ok_def)
  have i: "i < 4032 div unat (object_size (arena_at h ar))"
    using p(2) arena_core_slots(3) [OF assms(1)] by (simp add: used_slots_def)
  show thesis
    using unat_slot_addr [OF al i] slot_bound [OF i] p(3) by (intro that [OF p]) (simp_all add: al)
qed

lemma aligned_apart:
  assumes "unat p mod 4096 = 0" "unat q mod 4096 = 0" "p \<noteq> q"
  shows "unat p + 4096 \<le> unat q \<or> unat q + 4096 \<le> unat (p :: ptr)"
proof -
  obtain a b where ab: "unat p = 4096 * a" "unat q = 4096 * b"
    using assms by (metis mod_eq_0_iff_dvd dvd_def)
  have "a \<noteq> b" using ab assms(3) by (auto simp: word_unat_eq_iff)
  with ab show ?thesis by auto
qed

lemma live_apart:
  assumes rep: "kheap_rep h fs A pl" and "a \<in> A" "b \<in> A" and x: "x \<in> live h a (pl a)" and y: "y \<in> live h b (pl b)"
    and ne: "x \<noteq> y"
  shows "unat x + unat (object_size (arena_at h a)) \<le> unat y \<or> unat y + unat (object_size (arena_at h b)) \<le> unat x"
proof -
  note ka = kheap_rep_arena [OF rep \<open>a \<in> A\<close>] and kb = kheap_rep_arena [OF rep \<open>b \<in> A\<close>]
  obtain p i where p: "p \<in> set (pl a)" "x = slot_addr p (object_size (arena_at h a)) i"
    "unat x = unat p + 64 + i * unat (object_size (arena_at h a))" "unat p mod 4096 = 0"
    "unat x + unat (object_size (arena_at h a)) \<le> unat p + 4096"
    by (rule live_page [OF ka(2) x])
  obtain q j where q: "q \<in> set (pl b)" "y = slot_addr q (object_size (arena_at h b)) j"
    "unat y = unat q + 64 + j * unat (object_size (arena_at h b))" "unat q mod 4096 = 0"
    "unat y + unat (object_size (arena_at h b)) \<le> unat q + 4096"
    by (rule live_page [OF kb(2) y])
  show ?thesis
  proof (cases "p = q")
    case False
    with aligned_apart [OF p(4) q(4)] p q show ?thesis by linarith
  next
    case True
    then have ab: "a = b" using rep \<open>a \<in> A\<close> \<open>b \<in> A\<close> p(1) q(1) unfolding kheap_rep_def by blast
    have "i \<noteq> j" using ne p(2) q(2) True ab by auto
    then have "Suc i * unat (object_size (arena_at h a)) \<le> j * unat (object_size (arena_at h a))
        \<or> Suc j * unat (object_size (arena_at h a)) \<le> i * unat (object_size (arena_at h a))"
      by (metis Suc_leI mult_le_mono1 nat_neq_iff)
    then show ?thesis using p(3) q(3) True ab by auto
  qed
qed

lemma double_free_detected:
  assumes "kheap_rep h fs A pl" "ar \<in> A" "p \<in> set (pl ar)" "i < slots h ar" "i \<notin> used_slots h ar p"
  shows "free_object (slot_addr p (object_size (arena_at h ar)) i) h = Inl (Panic ''double free object'')"
proof -
  note kr = kheap_rep_arena [OF assms(1,2)]
  have al: "unat p mod 4096 = 0" "page_arena (apage h p) = ar"
    using kr(2) assms(3) by (auto simp: arena_core_def page_ok_def)
  have isz: "i < 4032 div unat (object_size (arena_at h ar))"
    using assms(4) arena_core_slots(3) [OF kr(2)] by simp
  show ?thesis
    using slot_container [OF al(1) isz] slot_index [OF isz, of p] assms(4,5) al(2)
    by (simp add: free_object_def Let_def used_slots_def)
qed

text \<open>A heap with one arena of two 2016-byte objects on one page, and one free page.\<close>

definition sample_kheap :: kheap where
  "sample_kheap = \<lparr>phys = \<lparr>fl_next = 0x2000, page_word = \<lambda>_. 0\<rparr>, nodes = \<lparr>prev = id, next = id\<rparr>,
     apage = \<lambda>_. \<lparr>page_arena = 0x100, page_used = [3, 0, 0, 0], page_count = 2\<rparr>,
     arena_at = \<lambda>_. \<lparr>object_size = 2016, max_count = 2, pages = 0x1000, num_objects = 2, num_pages = 1\<rparr>\<rparr>"

lemma sample_used: "used_slots sample_kheap 0x100 p = {0, 1}"
proof -
  have "bitmap_get [3, 0, 0, 0] 0" "bitmap_get [3, 0, 0, 0] (Suc 0)"
    by (simp_all add: bitmap_get_bit bit_Suc)
  moreover have "slots sample_kheap 0x100 = 2" by (simp add: slots_def sample_kheap_def)
  ultimately show ?thesis
    by (auto simp: used_slots_def sample_kheap_def less_2_cases_iff)
qed

lemma sample_rep: "kheap_rep sample_kheap [0x2000] {0x100} (\<lambda>_. [0x1000])"
proof -
  have "arena_rep sample_kheap 0x100 [0x1000]"
    using sample_used
    by (simp add: arena_rep_def arena_core_def arena_shape_def page_ok_def cyc_singleton)
      (simp add: sample_kheap_def)
  then show ?thesis
    by (simp add: kheap_rep_def free_pages_def) (simp add: sample_kheap_def)
qed

lemma sample_live: "live sample_kheap 0x100 [0x1000] = {0x1040, 0x1820}"
  by (simp add: live_def sample_used) (simp add: sample_kheap_def slot_addr_def sizeof_ArenaPage_def)

section \<open>Properties\<close>

text \<open>
  C26: \<^verbatim>\<open>alloc_object\<close> succeeds exactly when a slot or a free page is left.  The object it
  returns is not null and not in use, every other object of this and of every other arena stays
  as it was, the capacity drops by one, the invariant of the allocator is kept, and a page is
  requested only when all pages of the arena are full.
\<close>

theorem alloc_object_correct:
  assumes "kheap_rep h fs A pl" and "ar \<in> A"
  shows "if avail h ar fs (pl ar) = 0
    then alloc_object ar h = Inl (if pl ar = [] then NullDeref else Panic ''arena failed to allocate object'')
    else \<exists>obj h' fs' ps'. alloc_object ar h = Inr (obj, h') \<and> alloc_spec A ar h fs pl obj h' fs' ps'
      \<and> length ps' = (if \<forall>q \<in> set (pl ar). full h ar q then 1 else 0) + length (pl ar)"
proof (cases "avail h ar fs (pl ar) = 0")
  case True
  with alloc_object_fails [OF assms] show ?thesis by simp
next
  case False
  then have "0 < avail h ar fs (pl ar)" by simp
  from assms this obtain obj h' fs' ps' where "alloc_object ar h = Inr (obj, h')"
    "alloc_spec A ar h fs pl obj h' fs' ps'"
    "length ps' = (if \<forall>q \<in> set (pl ar). full h ar q then 1 else 0) + length (pl ar)"
    by (rule alloc_object_rep)
  then show ?thesis unfolding if_not_P [OF False] by blast
qed

theorem alloc_object_correct_witness:
  "\<exists>obj h' fs' ps'. alloc_object 0x100 sample_kheap = Inr (obj, h')
     \<and> alloc_spec {0x100} 0x100 sample_kheap [0x2000] (\<lambda>_. [0x1000]) obj h' fs' ps' \<and> length ps' = 2"
proof -
  have sl: "slots sample_kheap 0x100 = 2" by (simp add: slots_def sample_kheap_def)
  have "avail sample_kheap 0x100 [0x2000] [0x1000] \<noteq> 0"
    by (simp add: avail_def sl)
  moreover have "full sample_kheap 0x100 0x1000"
    by (simp add: full_def sample_used sl)
  ultimately show ?thesis
    using alloc_object_correct [OF sample_rep, of "0x100"] by (simp add: numeral_2_eq_2)
qed

text \<open>
  C27: \<^verbatim>\<open>free_object\<close> on an object in use releases exactly that object, keeps the
  invariant and every object of every arena, and makes room for one more allocation; on a slot
  that is not in use it stops with the double-free assertion.
\<close>

theorem free_object_correct:
  assumes "kheap_rep h fs A pl" and "ar \<in> A"
  shows "(obj \<in> live h ar (pl ar) \<longrightarrow>
      (\<exists>h' ps'. free_object obj h = Inr h' \<and> kheap_rep h' fs A (pl(ar := ps'))
        \<and> live h' ar ps' = live h ar (pl ar) - {obj}
        \<and> avail h' ar fs ps' = Suc (avail h ar fs (pl ar))
        \<and> (\<forall>a \<in> A - {ar}. live h' a (pl a) = live h a (pl a))))
    \<and> (p \<in> set (pl ar) \<and> i < slots h ar \<and> i \<notin> used_slots h ar p \<longrightarrow>
        free_object (slot_addr p (object_size (arena_at h ar)) i) h = Inl (Panic ''double free object''))"
proof (intro conjI impI)
  assume obj: "obj \<in> live h ar (pl ar)"
  show "\<exists>h' ps'. free_object obj h = Inr h' \<and> kheap_rep h' fs A (pl(ar := ps'))
        \<and> live h' ar ps' = live h ar (pl ar) - {obj}
        \<and> avail h' ar fs ps' = Suc (avail h ar fs (pl ar))
        \<and> (\<forall>a \<in> A - {ar}. live h' a (pl a) = live h a (pl a))"
    by (rule free_object_rep [OF assms obj]) blast
qed (use double_free_detected [OF assms] in auto)

theorem free_object_correct_witness:
  "\<exists>h' ps'. free_object 0x1040 sample_kheap = Inr h' \<and> live h' 0x100 ps' = {0x1820}"
  using free_object_correct [OF sample_rep, of "0x100" "0x1040" "0x1000" 0] by (auto simp: sample_live)

text \<open>
  C28: objects never overlap: two different objects in use, of one arena or of two, occupy
  disjoint byte ranges, and each lies inside a page of its arena behind the page header.
\<close>

theorem objects_disjoint:
  assumes "kheap_rep h fs A pl" and "a \<in> A" and "b \<in> A"
    and "x \<in> live h a (pl a)" and "y \<in> live h b (pl b)" and "x \<noteq> y"
  shows "(unat x + unat (object_size (arena_at h a)) \<le> unat y
      \<or> unat y + unat (object_size (arena_at h b)) \<le> unat x)
    \<and> (\<exists>p \<in> set (pl a). get_container_page x = p \<and> unat p + 64 \<le> unat x
        \<and> unat x + unat (object_size (arena_at h a)) \<le> unat p + 4096)"
proof
  note core = kheap_rep_arena(2) [OF assms(1,2)]
  obtain p i where p: "p \<in> set (pl a)" "i \<in> used_slots h a p" "x = slot_addr p (object_size (arena_at h a)) i"
    "unat x = unat p + 64 + i * unat (object_size (arena_at h a))" "unat p mod 4096 = 0"
    "unat x + unat (object_size (arena_at h a)) \<le> unat p + 4096"
    by (rule live_page [OF core assms(4)])
  then have "get_container_page x = p"
    using arena_core_slots(3) [OF core] by (simp add: used_slots_def slot_container)
  with p show "\<exists>p \<in> set (pl a). get_container_page x = p \<and> unat p + 64 \<le> unat x
        \<and> unat x + unat (object_size (arena_at h a)) \<le> unat p + 4096"
    by auto
qed (rule live_apart [OF assms])

theorem objects_disjoint_witness:
  "unat (0x1040 :: ptr) + unat (object_size (arena_at sample_kheap 0x100)) \<le> unat (0x1820 :: ptr)
   \<or> unat (0x1820 :: ptr) + unat (object_size (arena_at sample_kheap 0x100)) \<le> unat (0x1040 :: ptr)"
  using objects_disjoint [OF sample_rep, of "0x100" "0x100" "0x1040" "0x1820"] by (simp add: sample_live)

text \<open>
  \<^verbatim>\<open>init_arena\<close> rejects object sizes outside 16 to 4032 bytes and otherwise gives an
  empty arena next to the existing ones; \<^verbatim>\<open>clear_arena\<close> terminates and returns every page of
  the arena to the page allocator, exactly once.
\<close>

theorem init_clear_arena_correct:
  assumes "kheap_rep h fs A pl" and "new \<notin> A" and "ar \<in> A" and "length (pl ar) \<le> fuel"
  shows "(if 16 \<le> unat sz \<and> unat sz \<le> 4032
      then \<exists>h'. init_arena new sz h = Inr h' \<and> kheap_rep h' fs (insert new A) (pl(new := []))
      else \<exists>msg. init_arena new sz h = Inl (Panic msg))
    \<and> (\<exists>h'. clear_arena fuel ar h = Inr h' \<and> kheap_rep h' (rev (pl ar) @ fs) A (pl(ar := [])))"
proof
  show "if 16 \<le> unat sz \<and> unat sz \<le> 4032
      then \<exists>h'. init_arena new sz h = Inr h' \<and> kheap_rep h' fs (insert new A) (pl(new := []))
      else \<exists>msg. init_arena new sz h = Inl (Panic msg)"
    using init_arena_rep [OF assms(1,2), of sz]
    by (auto simp: init_arena_def arena_consts word_le_nat_alt assertE_def)
qed (rule clear_arena_rep [OF assms(1,3,4)])

end
