(* ===== verification/Block_Cache.thy ===== *)
theory Block_Cache
  imports Arena
begin

text \<open>
  The block cache of \<^verbatim>\<open>fs/cache.c\<close>: finding, loading, evicting, holding and releasing blocks.
  The list of cached blocks (\<^verbatim>\<open>head\<close>) is a list of block addresses, front first; that detaching
  a node and merging it behind the head moves it to the front is what \<open>Circular_List\<close>
  shows of the pointer operations.  Blocks come from the arena of the cache.  The device is the
  array of its sectors; every write it receives is also kept in order, which is what a crash can
  cut short.  Critical sections of the cache's spinlock are single steps; waiting for a
  sleeplock that is taken is the error \<open>Blocked\<close>.
\<close>

section \<open>State\<close>

definition BLOCK_SIZE :: nat where
  "BLOCK_SIZE = 512"

definition LOG_MAX_SIZE :: nat where
  "LOG_MAX_SIZE = (BLOCK_SIZE - 8) div 8"

definition EVICTION_THRESHOLD :: nat where
  "EVICTION_THRESHOLD = 20"

text \<open>\<^verbatim>\<open>sizeof(Block)\<close>\<close>

definition sizeof_Block :: u64 where
  "sizeof_Block = 584"

type_synonym sector = "u8 list"

record SuperBlock =
  sb_num_blocks :: u32
  sb_num_data_blocks :: u32
  sb_num_inodes :: u32
  sb_num_log_blocks :: u32
  sb_log_start :: u32
  sb_inode_start :: u32
  sb_bitmap_start :: u32

record LogHeader =
  hdr_num_blocks :: u64
  hdr_block_no :: "u64 list"

record Block =
  blk_no :: u64
  acquired :: bool
  pinned :: bool
  blk_locked :: bool
  blk_valid :: bool
  blk_data :: sector

text \<open>Processes sleep on \<^verbatim>\<open>&log_used\<close> until the log has room and on \<^verbatim>\<open>&last_persisted_ts\<close> until their operation is on disk.\<close>

datatype bc_chan = LogUsed | LastPersisted

record bcache =
  bc_arena :: ptr
  kh :: kheap
  blk :: "ptr \<Rightarrow> Block"
  lru :: "ptr list"
  hdr :: LogHeader
  last_allocated_ts :: u64
  last_persisted_ts :: u64
  log_start :: u64
  log_size :: u64
  log_used :: u64
  op_count :: u64
  sblock :: SuperBlock
  disk :: "u64 \<Rightarrow> sector"
  dev_trace :: "(u64 \<times> sector) list"
  asleep :: "(nat \<times> bc_chan) list"

definition upd_blk :: "ptr \<Rightarrow> (Block \<Rightarrow> Block) \<Rightarrow> bcache \<Rightarrow> bcache" where
  "upd_blk p f c = c\<lparr>blk := (blk c)(p := f (blk c p))\<rparr>"

section \<open>Operations\<close>

definition dev_write :: "u64 \<Rightarrow> sector \<Rightarrow> bcache \<Rightarrow> bcache" where
  "dev_write no d c = c\<lparr>disk := (disk c)(no := d), dev_trace := dev_trace c @ [(no, d)]\<rparr>"

definition device_read :: "ptr \<Rightarrow> bcache \<Rightarrow> bcache" where
  "device_read block c = upd_blk block (\<lambda>b. b\<lparr>blk_data := disk c (blk_no b)\<rparr>) c"

definition device_write :: "ptr \<Rightarrow> bcache \<Rightarrow> bcache" where
  "device_write block c = dev_write (blk_no (blk c block)) (blk_data (blk c block)) c"

definition init_block :: "ptr \<Rightarrow> bcache \<Rightarrow> bcache" where
  "init_block block c =
     upd_blk block (\<lambda>_. \<lparr>blk_no = 0, acquired = False, pinned = False, blk_locked = False,
       blk_valid = False, blk_data = replicate BLOCK_SIZE 0\<rparr>) c"

definition get_num_cached_blocks :: "bcache \<Rightarrow> nat" where
  "get_num_cached_blocks c = length (lru c)"

definition acquire_sleeplock :: "ptr \<Rightarrow> bcache \<Rightarrow> bcache res" where
  "acquire_sleeplock block c =
     (if blk_locked (blk c block) then Inl Blocked
      else Inr (upd_blk block (\<lambda>b. b\<lparr>blk_locked := True\<rparr>) c))"

definition release_sleeplock :: "ptr \<Rightarrow> bcache \<Rightarrow> bcache" where
  "release_sleeplock block c = upd_blk block (\<lambda>b. b\<lparr>blk_locked := False\<rparr>) c"

text \<open>The search loop of \<^verbatim>\<open>cache_acquire\<close>: the block if cached, else the last candidate to evict.\<close>

fun scan :: "(ptr \<Rightarrow> Block) \<Rightarrow> u64 \<Rightarrow> ptr option \<Rightarrow> ptr list \<Rightarrow> ptr option" where
  "scan bl no slot [] = slot"
| "scan bl no slot (x # xs) =
     (if blk_no (bl x) = no then Some x
      else scan bl no (if \<not> acquired (bl x) \<and> \<not> pinned (bl x) then Some x else slot) xs)"

text \<open>The choice of the slot: hit, eviction, or a new block.\<close>

definition choose_slot :: "u64 \<Rightarrow> bcache \<Rightarrow> (ptr \<times> bcache) res" where
  "choose_slot no c =
     (let (slot, c) =
        (case scan (blk c) no None (lru c) of
           None \<Rightarrow> (None, c)
         | Some s \<Rightarrow>
             if blk_no (blk c s) \<noteq> no
             then if get_num_cached_blocks c \<ge> EVICTION_THRESHOLD
                  then (Some s, upd_blk s (\<lambda>b. b\<lparr>blk_no := no, blk_valid := False\<rparr>) c)
                  else (None, c)
             else (Some s, c))
      in case slot of
           Some s \<Rightarrow> Inr (s, c)
         | None \<Rightarrow>
             bindE (alloc_object (bc_arena c) (kh c)) (\<lambda>(s, h).
             bindE (assertE (s \<noteq> NULL) ''slot != NULL'') (\<lambda>_.
             let c = init_block s (c\<lparr>kh := h\<rparr>)
             in Inr (s, upd_blk s (\<lambda>b. b\<lparr>blk_no := no\<rparr>) c))))"

definition cache_acquire :: "u64 \<Rightarrow> bcache \<Rightarrow> (ptr \<times> bcache) res" where
  "cache_acquire no c =
     bindE (choose_slot no c) (\<lambda>(slot, c).
     let c = c\<lparr>lru := slot # remove1 slot (lru c)\<rparr>;
         c = upd_blk slot (\<lambda>b. b\<lparr>acquired := True\<rparr>) c
     in bindE (acquire_sleeplock slot c) (\<lambda>c.
        if \<not> blk_valid (blk c slot)
        then let c = device_read slot c
             in Inr (slot, upd_blk slot (\<lambda>b. b\<lparr>blk_valid := True\<rparr>) c)
        else Inr (slot, c)))"

definition cache_release :: "ptr \<Rightarrow> bcache \<Rightarrow> bcache" where
  "cache_release block c =
     (let c = release_sleeplock block c
      in upd_blk block (\<lambda>b. b\<lparr>acquired := False\<rparr>) c)"

section \<open>Invariant and abstraction\<close>

definition block_inv :: "bcache \<Rightarrow> ptr \<Rightarrow> bool" where
  "block_inv c p \<longleftrightarrow> (let b = blk c p in length (blk_data b) = BLOCK_SIZE \<and> acquired b = blk_locked b
     \<and> (pinned b \<or> blk_locked b \<longrightarrow> blk_valid b)
     \<and> (blk_valid b \<and> \<not> pinned b \<and> \<not> blk_locked b \<longrightarrow> blk_data b = disk c (blk_no b)))"

definition cache_inv :: "bcache \<Rightarrow> bool" where
  "cache_inv c \<longleftrightarrow> distinct (lru c) \<and> inj_on (\<lambda>p. blk_no (blk c p)) (set (lru c))
     \<and> (\<forall>p \<in> set (lru c). block_inv c p) \<and> (\<forall>n. length (disk c n) = BLOCK_SIZE)"

text \<open>At least \<open>k\<close> more blocks can be allocated.\<close>

definition cache_mem :: "bcache \<Rightarrow> nat \<Rightarrow> bool" where
  "cache_mem c k \<longleftrightarrow> (\<exists>A L n. arena_objs (bc_arena c) A (kh c) L n \<and> set (lru c) \<subseteq> L \<and> k \<le> n)"

text \<open>The content of a block as the threads of the kernel see it.\<close>

definition cview :: "bcache \<Rightarrow> u64 \<Rightarrow> sector" where
  "cview c n = (case find (\<lambda>p. blk_no (blk c p) = n \<and> blk_valid (blk c p)) (lru c) of
     None \<Rightarrow> disk c n | Some p \<Rightarrow> blk_data (blk c p))"

definition held :: "bcache \<Rightarrow> u64 set" where
  "held c = {blk_no (blk c p) | p. p \<in> set (lru c) \<and> blk_locked (blk c p)}"

definition pins :: "bcache \<Rightarrow> u64 set" where
  "pins c = {blk_no (blk c p) | p. p \<in> set (lru c) \<and> pinned (blk c p)}"

section \<open>Lemmas on the abstraction\<close>

lemma upd_blk_simps [simp]:
  "blk (upd_blk p f c) = (blk c)(p := f (blk c p))" "lru (upd_blk p f c) = lru c"
  "disk (upd_blk p f c) = disk c" "dev_trace (upd_blk p f c) = dev_trace c" "kh (upd_blk p f c) = kh c"
  "bc_arena (upd_blk p f c) = bc_arena c" "hdr (upd_blk p f c) = hdr c" "sblock (upd_blk p f c) = sblock c"
  "log_start (upd_blk p f c) = log_start c" "log_size (upd_blk p f c) = log_size c"
  "log_used (upd_blk p f c) = log_used c" "op_count (upd_blk p f c) = op_count c"
  "last_allocated_ts (upd_blk p f c) = last_allocated_ts c"
  "last_persisted_ts (upd_blk p f c) = last_persisted_ts c" "asleep (upd_blk p f c) = asleep c"
  by (simp_all add: upd_blk_def)

lemma cview_cached:
  assumes "cache_inv c" and "p \<in> set (lru c)" and "blk_no (blk c p) = n" and "blk_valid (blk c p)"
  shows "cview c n = blk_data (blk c p)"
proof (cases "find (\<lambda>p. blk_no (blk c p) = n \<and> blk_valid (blk c p)) (lru c)")
  case None
  with assms show ?thesis by (auto simp: find_None_iff)
next
  case (Some q)
  then have "q \<in> set (lru c)" "blk_no (blk c q) = n"
    by (auto simp: find_Some_iff dest: nth_mem)
  then have "q = p" using assms by (auto simp: cache_inv_def inj_on_def)
  with Some show ?thesis by (simp add: cview_def)
qed

lemma cview_disk:
  assumes "\<And>p. p \<in> set (lru c) \<Longrightarrow> blk_no (blk c p) = n \<Longrightarrow> \<not> blk_valid (blk c p)"
  shows "cview c n = disk c n"
proof -
  have "find (\<lambda>p. blk_no (blk c p) = n \<and> blk_valid (blk c p)) (lru c) = None"
    using assms by (auto simp: find_None_iff)
  then show ?thesis by (simp add: cview_def)
qed

lemma cache_inv_inj:
  "cache_inv c \<Longrightarrow> p \<in> set (lru c) \<Longrightarrow> q \<in> set (lru c) \<Longrightarrow> blk_no (blk c p) = blk_no (blk c q) \<Longrightarrow> p = q"
  by (auto simp: cache_inv_def inj_on_def)

lemma length_cview:
  assumes "cache_inv c"
  shows "length (cview c n) = BLOCK_SIZE"
proof (cases "\<exists>p \<in> set (lru c). blk_no (blk c p) = n \<and> blk_valid (blk c p)")
  case True
  then obtain p where "p \<in> set (lru c)" "blk_no (blk c p) = n" "blk_valid (blk c p)" by blast
  with assms cview_cached [OF assms this] show ?thesis
    by (auto simp: cache_inv_def block_inv_def Let_def)
next
  case False
  then show ?thesis using assms cview_disk [of c n] by (auto simp: cache_inv_def)
qed

lemma scan_hit: "q \<in> set xs \<Longrightarrow> blk_no (bl q) = no \<Longrightarrow> \<exists>s. scan bl no slot xs = Some s \<and> s \<in> set xs \<and> blk_no (bl s) = no"
  by (induction xs arbitrary: slot) auto

lemma scan_miss:
  "\<forall>q \<in> set xs. blk_no (bl q) \<noteq> no \<Longrightarrow>
   (case scan bl no slot xs of
      None \<Rightarrow> slot = None \<and> (\<forall>q \<in> set xs. acquired (bl q) \<or> pinned (bl q))
    | Some s \<Rightarrow> slot = Some s \<or> s \<in> set xs \<and> \<not> acquired (bl s) \<and> \<not> pinned (bl s))"
proof (induction xs arbitrary: slot)
  case (Cons x xs)
  let ?slot = "if \<not> acquired (bl x) \<and> \<not> pinned (bl x) then Some x else slot"
  have eq: "scan bl no slot (x # xs) = scan bl no ?slot xs" using Cons.prems by simp
  have "case scan bl no ?slot xs of
      None \<Rightarrow> ?slot = None \<and> (\<forall>q \<in> set xs. acquired (bl q) \<or> pinned (bl q))
    | Some s \<Rightarrow> ?slot = Some s \<or> s \<in> set xs \<and> \<not> acquired (bl s) \<and> \<not> pinned (bl s)"
    using Cons.prems by (intro Cons.IH) simp
  then show ?case unfolding eq by (cases "scan bl no ?slot xs") (auto split: if_splits)
qed (simp split: option.split)

text \<open>
  The three ways \<^verbatim>\<open>cache_acquire\<close> finds its slot \<open>s\<close> for block \<open>no\<close>: the block is cached, a block
  that nobody holds and no operation pinned is evicted, or a new block is allocated.
\<close>

definition slot_hit :: "bcache \<Rightarrow> u64 \<Rightarrow> ptr \<Rightarrow> bool" where
  "slot_hit c no s \<longleftrightarrow> s \<in> set (lru c) \<and> blk_no (blk c s) = no"

definition slot_evicted :: "bcache \<Rightarrow> u64 \<Rightarrow> ptr \<Rightarrow> bool" where
  "slot_evicted c no s \<longleftrightarrow> (\<forall>q \<in> set (lru c). blk_no (blk c q) \<noteq> no) \<and> s \<in> set (lru c)
     \<and> \<not> acquired (blk c s) \<and> \<not> pinned (blk c s) \<and> EVICTION_THRESHOLD \<le> length (lru c)"

definition slot_new :: "bcache \<Rightarrow> u64 \<Rightarrow> ptr \<Rightarrow> bool" where
  "slot_new c no s \<longleftrightarrow> (\<forall>q \<in> set (lru c). blk_no (blk c q) \<noteq> no) \<and> s \<notin> set (lru c) \<and> s \<noteq> NULL
     \<and> (length (lru c) < EVICTION_THRESHOLD \<or> (\<forall>q \<in> set (lru c). acquired (blk c q) \<or> pinned (blk c q)))"

definition slot_block :: "bcache \<Rightarrow> u64 \<Rightarrow> ptr \<Rightarrow> Block" where
  "slot_block c no s = (if slot_hit c no s then blk c s
     else if slot_evicted c no s then (blk c s)\<lparr>blk_no := no, blk_valid := False\<rparr>
     else \<lparr>blk_no = no, acquired = False, pinned = False, blk_locked = False,
       blk_valid = False, blk_data = replicate BLOCK_SIZE 0\<rparr>)"

lemma choose_slot_cases:
  assumes "cache_mem c (Suc k)"
  obtains s h where "choose_slot no c = Inr (s, c\<lparr>kh := h, blk := (blk c)(s := slot_block c no s)\<rparr>)"
    "slot_hit c no s \<or> slot_evicted c no s \<or> slot_new c no s"
    "cache_mem (c\<lparr>kh := h, lru := s # remove1 s (lru c)\<rparr>) k"
proof -
  note result = that
  obtain A L n where mem: "arena_objs (bc_arena c) A (kh c) L (Suc n)" "set (lru c) \<subseteq> L" "k \<le> n"
    using assms by (auto simp: cache_mem_def) (metis Suc_le_D Suc_le_mono)
  have keep: "cache_mem (c\<lparr>kh := kh c, lru := s # remove1 s (lru c)\<rparr>) k" if "s \<in> set (lru c)" for s
    unfolding cache_mem_def using mem that set_remove1_subset [of s "lru c"]
    by (rule_tac exI [of _ A], rule_tac exI [of _ L], rule_tac exI [of _ "Suc n"]) auto
  show thesis
  proof (cases "\<exists>q \<in> set (lru c). blk_no (blk c q) = no")
    case True
    then obtain s where s: "scan (blk c) no None (lru c) = Some s" "s \<in> set (lru c)" "blk_no (blk c s) = no"
      using scan_hit by metis
    then have "slot_hit c no s" by (simp add: slot_hit_def)
    with s keep show thesis
      by (intro that [of s "kh c"]) (simp_all add: choose_slot_def slot_block_def)
  next
    case miss: False
    then have sc: "case scan (blk c) no None (lru c) of
      None \<Rightarrow> \<forall>q \<in> set (lru c). acquired (blk c q) \<or> pinned (blk c q)
    | Some s \<Rightarrow> s \<in> set (lru c) \<and> \<not> acquired (blk c s) \<and> \<not> pinned (blk c s)"
      using scan_miss [of "lru c" "blk c" no None] by (auto split: option.splits)
    have nh: "\<not> slot_hit c no s" for s using miss by (auto simp: slot_hit_def)
    obtain s' h where al: "alloc_object (bc_arena c) (kh c) = Inr (s', h)" "s' \<noteq> NULL" "s' \<notin> L"
        "arena_objs (bc_arena c) A h (insert s' L) n"
      using ao.alloc_ok [OF mem(1)] by blast
    have ns: "s' \<notin> set (lru c)" using al(3) mem(2) by auto
    have new: thesis if "choose_slot no c = bindE (alloc_object (bc_arena c) (kh c)) (\<lambda>(s, h).
             bindE (assertE (s \<noteq> NULL) ''slot != NULL'') (\<lambda>_.
             let c = init_block s (c\<lparr>kh := h\<rparr>)
             in Inr (s, upd_blk s (\<lambda>b. b\<lparr>blk_no := no\<rparr>) c)))" "slot_new c no s'"
    proof (rule result [of s' h])
      have "\<not> slot_evicted c no s'" using ns by (simp add: slot_evicted_def)
      then show "choose_slot no c = Inr (s', c\<lparr>kh := h, blk := (blk c)(s' := slot_block c no s')\<rparr>)"
        using al(1,2) nh by (simp add: that(1) slot_block_def init_block_def upd_blk_def)
      show "cache_mem (c\<lparr>kh := h, lru := s' # remove1 s' (lru c)\<rparr>) k"
        unfolding cache_mem_def using al(4) mem(2,3) set_remove1_subset [of s' "lru c"]
        by (rule_tac exI [of _ A], rule_tac exI [of _ "insert s' L"], rule_tac exI [of _ n]) auto
    qed (use \<open>slot_new c no s'\<close> in simp)
    show thesis
    proof (cases "scan (blk c) no None (lru c)")
      case None
      then show thesis
        using sc ns al(2) miss by (intro new) (auto simp: choose_slot_def slot_new_def)
    next
      case (Some s)
      then have s: "s \<in> set (lru c)" "\<not> acquired (blk c s)" "\<not> pinned (blk c s)" "blk_no (blk c s) \<noteq> no"
        using sc miss by auto
      show thesis
      proof (cases "EVICTION_THRESHOLD \<le> length (lru c)")
        case True
        then have ev: "slot_evicted c no s" using s miss by (auto simp: slot_evicted_def)
        show thesis
          using True Some s ev nh keep
          by (intro that [of s "kh c"])
            (simp_all add: choose_slot_def get_num_cached_blocks_def slot_block_def upd_blk_def)
      next
        case False
        then show thesis
          using Some s ns al(2) miss
          by (intro new) (auto simp: choose_slot_def get_num_cached_blocks_def slot_new_def)
      qed
    qed
  qed
qed

section \<open>Acquiring\<close>

definition slot_ok :: "bcache \<Rightarrow> u64 \<Rightarrow> ptr \<Rightarrow> bool" where
  "slot_ok c no s \<longleftrightarrow> slot_hit c no s \<or> slot_evicted c no s \<or> slot_new c no s"

text \<open>The state after \<^verbatim>\<open>cache_acquire\<close> returned slot \<open>s\<close>, with the allocator in state \<open>h\<close>.\<close>

definition acquired_state :: "u64 \<Rightarrow> ptr \<Rightarrow> kheap \<Rightarrow> bcache \<Rightarrow> bcache" where
  "acquired_state no s h c = c\<lparr>kh := h, lru := s # remove1 s (lru c),
     blk := (blk c)(s := \<lparr>blk_no = no, acquired = True, pinned = (no \<in> pins c), blk_locked = True,
       blk_valid = True, blk_data = cview c no\<rparr>)\<rparr>"

lemma pins_iff: "cache_inv c \<Longrightarrow> p \<in> set (lru c) \<Longrightarrow> blk_no (blk c p) \<in> pins c \<longleftrightarrow> pinned (blk c p)"
  by (auto simp: pins_def dest: cache_inv_inj)

lemma held_iff: "cache_inv c \<Longrightarrow> p \<in> set (lru c) \<Longrightarrow> blk_no (blk c p) \<in> held c \<longleftrightarrow> blk_locked (blk c p)"
  by (auto simp: held_def dest: cache_inv_inj)

lemma block_invD:
  assumes "cache_inv c" and "p \<in> set (lru c)"
  shows "length (blk_data (blk c p)) = BLOCK_SIZE" "acquired (blk c p) = blk_locked (blk c p)"
    "pinned (blk c p) \<or> blk_locked (blk c p) \<Longrightarrow> blk_valid (blk c p)"
    "blk_valid (blk c p) \<Longrightarrow> \<not> pinned (blk c p) \<Longrightarrow> \<not> blk_locked (blk c p)
       \<Longrightarrow> blk_data (blk c p) = disk c (blk_no (blk c p))"
  using assms by (auto simp: cache_inv_def block_inv_def Let_def)

lemma uncached_not_pinned: "\<forall>q \<in> set (lru c). blk_no (blk c q) \<noteq> no \<Longrightarrow> no \<notin> pins c"
  by (auto simp: pins_def)

lemma slot_block_facts:
  assumes inv: "cache_inv c" and free: "no \<notin> held c" and ok: "slot_ok c no s"
  defines "b \<equiv> slot_block c no s"
  shows "blk_no b = no" "\<not> blk_locked b" "pinned b \<longleftrightarrow> no \<in> pins c"
    "blk_valid b \<Longrightarrow> blk_data b = cview c no" "\<not> blk_valid b \<Longrightarrow> disk c no = cview c no"
proof -
  have h: "\<not> slot_evicted c no s" if "slot_hit c no s"
    using that by (auto simp: slot_hit_def slot_evicted_def)
  have nc: "cview c no = disk c no" "no \<notin> pins c" if "\<not> slot_hit c no s"
    using ok that by (auto simp: slot_ok_def slot_evicted_def slot_new_def intro!: cview_disk uncached_not_pinned)
  show "blk_no b = no" by (auto simp: b_def slot_block_def slot_hit_def)
  show "\<not> blk_locked b"
    using free block_invD(2) [OF inv] held_iff [OF inv]
    by (auto simp: b_def slot_block_def slot_hit_def slot_evicted_def)
  show "pinned b \<longleftrightarrow> no \<in> pins c"
    using nc pins_iff [OF inv] by (auto simp: b_def slot_block_def slot_hit_def slot_evicted_def)
  show "blk_data b = cview c no" if "blk_valid b"
    using that cview_cached [OF inv] by (auto simp: b_def slot_block_def slot_hit_def split: if_splits)
  show "disk c no = cview c no" if "\<not> blk_valid b"
  proof (cases "slot_hit c no s")
    case True
    then have "cview c no = disk c no"
      using that cache_inv_inj [OF inv] by (intro cview_disk) (auto simp: b_def slot_block_def slot_hit_def)
    then show ?thesis by simp
  qed (use nc in simp)
qed

lemma cache_acquire_state:
  assumes inv: "cache_inv c" and free: "no \<notin> held c" and mem: "cache_mem c (Suc k)"
  obtains s h where "cache_acquire no c = Inr (s, acquired_state no s h c)" "slot_ok c no s"
    "cache_mem (acquired_state no s h c) k"
proof -
  from mem obtain s h where s: "choose_slot no c = Inr (s, c\<lparr>kh := h, blk := (blk c)(s := slot_block c no s)\<rparr>)"
    "slot_hit c no s \<or> slot_evicted c no s \<or> slot_new c no s"
    "cache_mem (c\<lparr>kh := h, lru := s # remove1 s (lru c)\<rparr>) k"
    by (rule choose_slot_cases)
  then have ok: "slot_ok c no s" by (simp add: slot_ok_def)
  note b = slot_block_facts [OF inv free ok]
  have "(slot_block c no s)\<lparr>acquired := True, blk_locked := True\<rparr>
      = \<lparr>blk_no = no, acquired = True, pinned = (no \<in> pins c), blk_locked = True,
         blk_valid = True, blk_data = cview c no\<rparr>" if "blk_valid (slot_block c no s)"
    using b that by (cases "slot_block c no s") simp
  moreover have "(slot_block c no s)\<lparr>acquired := True, blk_locked := True, blk_data := cview c no, blk_valid := True\<rparr>
      = \<lparr>blk_no = no, acquired = True, pinned = (no \<in> pins c), blk_locked = True,
         blk_valid = True, blk_data = cview c no\<rparr>"
    using b(1-3) by (cases "slot_block c no s") simp
  ultimately have "cache_acquire no c = Inr (s, acquired_state no s h c)"
    using b(1,2,5) by (cases "blk_valid (slot_block c no s)")
      (simp_all add: cache_acquire_def s(1) acquire_sleeplock_def device_read_def upd_blk_def acquired_state_def Let_def)
  moreover have "cache_mem (acquired_state no s h c) k"
    using s(3) by (simp add: cache_mem_def acquired_state_def)
  ultimately show thesis using ok that by blast
qed

lemma acquired_state_simps [simp]:
  "disk (acquired_state no s h c) = disk c" "dev_trace (acquired_state no s h c) = dev_trace c" "asleep (acquired_state no s h c) = asleep c"
  "hdr (acquired_state no s h c) = hdr c" "sblock (acquired_state no s h c) = sblock c"
  "log_start (acquired_state no s h c) = log_start c" "log_size (acquired_state no s h c) = log_size c"
  "log_used (acquired_state no s h c) = log_used c" "op_count (acquired_state no s h c) = op_count c"
  "last_allocated_ts (acquired_state no s h c) = last_allocated_ts c"
  "last_persisted_ts (acquired_state no s h c) = last_persisted_ts c"
  by (simp_all add: acquired_state_def)

definition holds :: "bcache \<Rightarrow> ptr \<Rightarrow> u64 \<Rightarrow> bool" where
  "holds c p n \<longleftrightarrow> p \<in> set (lru c) \<and> blk_no (blk c p) = n \<and> blk_locked (blk c p)"

lemma held_holds: "m \<in> held c \<longleftrightarrow> (\<exists>q. holds c q m)"
  by (auto simp: held_def holds_def)

lemma pins_mem: "m \<in> pins c \<longleftrightarrow> (\<exists>p \<in> set (lru c). blk_no (blk c p) = m \<and> pinned (blk c p))"
  by (auto simp: pins_def)

lemma acquired_lru:
  fixes h
  assumes "cache_inv c" and "slot_ok c no s"
  defines "c' \<equiv> acquired_state no s h c"
  shows "set (lru c') = insert s (set (lru c))" "distinct (lru c')" "\<And>q. q \<noteq> s \<Longrightarrow> blk c' q = blk c q"
    "\<And>q. q \<in> set (lru c) \<Longrightarrow> q \<noteq> s \<Longrightarrow> blk_no (blk c q) \<noteq> no"
    "blk c' s = \<lparr>blk_no = no, acquired = True, pinned = (no \<in> pins c), blk_locked = True,
       blk_valid = True, blk_data = cview c no\<rparr>"
proof -
  have d: "distinct (lru c)" using assms(1) by (simp add: cache_inv_def)
  then show "set (lru c') = insert s (set (lru c))" "distinct (lru c')"
    by (auto simp: c'_def acquired_state_def)
  show "\<And>q. q \<noteq> s \<Longrightarrow> blk c' q = blk c q" by (simp add: c'_def acquired_state_def)
  show "\<And>q. q \<in> set (lru c) \<Longrightarrow> q \<noteq> s \<Longrightarrow> blk_no (blk c q) \<noteq> no"
    using assms(2) cache_inv_inj [OF assms(1)]
    by (auto simp: slot_ok_def slot_hit_def slot_evicted_def slot_new_def)
  show "blk c' s = \<lparr>blk_no = no, acquired = True, pinned = (no \<in> pins c), blk_locked = True,
       blk_valid = True, blk_data = cview c no\<rparr>"
    by (simp add: c'_def acquired_state_def)
qed

lemma slot_old_number:
  assumes inv: "cache_inv c" and "slot_ok c no s" and "s \<in> set (lru c)" and "blk_no (blk c s) \<noteq> no"
  shows "\<not> blk_locked (blk c s)" "\<not> pinned (blk c s)"
  using assms block_invD(2) [OF inv] by (auto simp: slot_ok_def slot_hit_def slot_evicted_def slot_new_def)

lemma acquired_inv:
  assumes inv: "cache_inv c" and ok: "slot_ok c no s"
  shows "cache_inv (acquired_state no s h c)"
proof -
  let ?c = "acquired_state no s h c"
  note l = acquired_lru [OF inv ok]
  have "block_inv ?c q" if "q \<in> set (lru ?c)" for q
  proof (cases "q = s")
    case True
    then show ?thesis by (simp add: block_inv_def l(5) length_cview [OF inv])
  next
    case False
    with that have "q \<in> set (lru c)" by (simp add: l(1))
    with False show ?thesis using inv by (auto simp: block_inv_def l(3) cache_inv_def)
  qed
  moreover have "inj_on (\<lambda>p. blk_no (blk ?c p)) (set (lru ?c))"
  proof (rule inj_onI)
    fix p q assume "p \<in> set (lru ?c)" "q \<in> set (lru ?c)" "blk_no (blk ?c p) = blk_no (blk ?c q)"
    then show "p = q"
      using l(4) cache_inv_inj [OF inv] by (cases "p = s"; cases "q = s") (auto simp: l(1,3,5))
  qed
  ultimately show ?thesis using l(2) inv by (simp add: cache_inv_def)
qed

lemma acquired_cview:
  assumes inv: "cache_inv c" and ok: "slot_ok c no s"
  shows "cview (acquired_state no s h c) = cview c"
proof
  fix m
  let ?c = "acquired_state no s h c"
  note l = acquired_lru [OF inv ok] and inv' = acquired_inv [OF inv ok, of h]
  show "cview ?c m = cview c m"
  proof (cases "m = no")
    case True
    then show ?thesis using cview_cached [OF inv', of s no] by (simp add: l(1,5))
  next
    case ne: False
    show ?thesis
    proof (cases "\<exists>q \<in> set (lru c) - {s}. blk_no (blk c q) = m \<and> blk_valid (blk c q)")
      case True
      then obtain q where q: "q \<in> set (lru c)" "q \<noteq> s" "blk_no (blk c q) = m" "blk_valid (blk c q)" by auto
      then show ?thesis
        using cview_cached [OF inv q(1,3,4)] cview_cached [OF inv', of q m] by (simp add: l(1,3))
    next
      case False
      have "\<not> blk_valid (blk ?c q)" if "q \<in> set (lru ?c)" "blk_no (blk ?c q) = m" for q
        using that False ne by (cases "q = s") (auto simp: l(1,3,5))
      then have "cview ?c m = disk c m" using cview_disk [of ?c m] by simp
      moreover have "cview c m = disk c m"
      proof (cases "s \<in> set (lru c) \<and> blk_no (blk c s) = m \<and> blk_valid (blk c s)")
        case True
        then show ?thesis
          using cview_cached [OF inv, of s m] slot_old_number [OF inv ok] ne block_invD(4) [OF inv, of s] by auto
      qed (use False in \<open>auto intro: cview_disk\<close>)
      ultimately show ?thesis by simp
    qed
  qed
qed

lemma acquired_held:
  assumes inv: "cache_inv c" and ok: "slot_ok c no s" and free: "no \<notin> held c"
  shows "held (acquired_state no s h c) = insert no (held c)" "pins (acquired_state no s h c) = pins c"
    "holds (acquired_state no s h c) s no" "\<And>p n. holds c p n \<Longrightarrow> holds (acquired_state no s h c) p n \<and> p \<noteq> s
      \<and> blk (acquired_state no s h c) p = blk c p"
proof -
  let ?c = "acquired_state no s h c"
  note l = acquired_lru [OF inv ok]
  have sl: "\<not> blk_locked (blk c s)" if "s \<in> set (lru c)"
    using slot_old_number [OF inv ok that] free that by (auto simp: held_def)
  show hs: "\<And>p n. holds c p n \<Longrightarrow> holds ?c p n \<and> p \<noteq> s \<and> blk ?c p = blk c p"
  proof -
    fix p n assume p: "holds c p n"
    with sl have "p \<noteq> s" by (auto simp: holds_def)
    with p show "holds ?c p n \<and> p \<noteq> s \<and> blk ?c p = blk c p" by (simp add: holds_def l(1,3))
  qed
  show s: "holds ?c s no" by (simp add: holds_def l(1,5))
  have "holds ?c p n \<longleftrightarrow> holds c p n \<or> p = s \<and> n = no" for p n
    using hs s by (cases "p = s") (auto simp: holds_def l(1,3,5) sl)
  then show "held ?c = insert no (held c)" by (auto simp: held_holds)
  show "pins ?c = pins c"
  proof (rule set_eqI)
    fix n
    have old: "(\<exists>p \<in> set (lru c). p \<noteq> s \<and> blk_no (blk c p) = n \<and> pinned (blk c p)) \<longleftrightarrow> n \<in> pins c" if "n \<noteq> no"
      using that slot_old_number(2) [OF inv ok] unfolding pins_mem by metis
    have "n \<in> pins ?c \<longleftrightarrow> n = no \<and> no \<in> pins c
        \<or> (\<exists>p \<in> set (lru c). p \<noteq> s \<and> blk_no (blk c p) = n \<and> pinned (blk c p))"
      unfolding pins_mem [of n ?c] l(1) by (auto simp: acquired_state_def)
    then show "n \<in> pins ?c \<longleftrightarrow> n \<in> pins c"
      using old l(4) by (cases "n = no") auto
  qed
qed

section \<open>Working on held blocks\<close>

lemma cview_upd:
  assumes inv: "cache_inv c" and p: "p \<in> set (lru c)" "blk_no (blk c p) = n" "blk_valid (blk c p)"
    and inv': "cache_inv (upd_blk p f c)" and f: "blk_no (f (blk c p)) = n" "blk_valid (f (blk c p))"
  shows "cview (upd_blk p f c) = (cview c)(n := blk_data (f (blk c p)))"
proof
  fix m
  let ?c = "upd_blk p f c"
  show "cview ?c m = ((cview c)(n := blk_data (f (blk c p)))) m"
  proof (cases "m = n")
    case True
    then show ?thesis using cview_cached [OF inv', of p n] p f by simp
  next
    case ne: False
    have same: "q \<noteq> p \<Longrightarrow> blk ?c q = blk c q" for q by simp
    show ?thesis
    proof (cases "\<exists>q \<in> set (lru c). blk_no (blk c q) = m \<and> blk_valid (blk c q)")
      case True
      then obtain q where q: "q \<in> set (lru c)" "blk_no (blk c q) = m" "blk_valid (blk c q)" by blast
      moreover from this ne p have "q \<noteq> p" by auto
      ultimately show ?thesis
        using ne cview_cached [OF inv q] cview_cached [OF inv', of q m] by simp
    next
      case False
      have "\<not> blk_valid (blk ?c q)" if "q \<in> set (lru ?c)" "blk_no (blk ?c q) = m" for q
        using that False ne f by (cases "q = p") auto
      then have "cview ?c m = disk c m" using cview_disk [of ?c m] by simp
      moreover have "cview c m = disk c m" using False cview_disk [of c m] by auto
      ultimately show ?thesis using ne by simp
    qed
  qed
qed

lemma cache_inv_upd:
  assumes inv: "cache_inv c" and p: "p \<in> set (lru c)" and f: "blk_no (f (blk c p)) = blk_no (blk c p)"
    and b: "block_inv (upd_blk p f c) p"
  shows "cache_inv (upd_blk p f c)"
proof -
  let ?c = "upd_blk p f c"
  have no: "blk_no (blk ?c q) = blk_no (blk c q)" for q using f by simp
  have "block_inv ?c q" if "q \<in> set (lru c)" for q
    using b inv that by (cases "q = p") (auto simp: block_inv_def cache_inv_def)
  then show ?thesis
    using inv by (simp add: cache_inv_def no del: upd_blk_simps(1))
qed

text \<open>An update of a held block that keeps its number and its lock.\<close>

lemma holds_update:
  assumes inv: "cache_inv c" and h: "holds c p n"
    and f: "blk_no (f (blk c p)) = n" "blk_valid (f (blk c p))" "acquired (f (blk c p))" "blk_locked (f (blk c p))"
      "length (blk_data (f (blk c p))) = BLOCK_SIZE"
  shows "cache_inv (upd_blk p f c)" "cview (upd_blk p f c) = (cview c)(n := blk_data (f (blk c p)))"
    "held (upd_blk p f c) = held c" "\<And>q m. holds (upd_blk p f c) q m \<longleftrightarrow> holds c q m"
    "pins (upd_blk p f c) = (if pinned (f (blk c p)) then insert n (pins c) else pins c - {n})"
proof -
  let ?c = "upd_blk p f c"
  have p: "p \<in> set (lru c)" "blk_no (blk c p) = n" "blk_valid (blk c p)"
    using h block_invD(3) [OF inv] by (auto simp: holds_def)
  show inv': "cache_inv ?c"
    using f by (intro cache_inv_upd [OF inv p(1)]) (simp_all add: p block_inv_def)
  show "cview ?c = (cview c)(n := blk_data (f (blk c p)))"
    using f by (intro cview_upd [OF inv p inv'])
  show hs: "holds ?c q m \<longleftrightarrow> holds c q m" for q m
    using h f by (auto simp: holds_def)
  then show "held ?c = held c" by (simp add: set_eq_iff held_holds)
  show "pins ?c = (if pinned (f (blk c p)) then insert n (pins c) else pins c - {n})"
  proof (rule set_eqI)
    fix m
    show "m \<in> pins ?c \<longleftrightarrow> m \<in> (if pinned (f (blk c p)) then insert n (pins c) else pins c - {n})"
    proof (cases "m = n")
      case True
      then have "m \<in> pins ?c \<longleftrightarrow> pinned (f (blk c p))"
        using pins_iff [OF inv', of p] p f(1) by simp
      with True show ?thesis by simp
    next
      case False
      then have "q \<in> set (lru c) \<Longrightarrow> blk_no (blk ?c q) = m \<and> pinned (blk ?c q)
          \<longleftrightarrow> blk_no (blk c q) = m \<and> pinned (blk c q)" for q
        using p f(1) by (cases "q = p") auto
      then have "m \<in> pins ?c \<longleftrightarrow> m \<in> pins c" unfolding pins_mem by simp
      with False show ?thesis by simp
    qed
  qed
qed

lemma release_effect:
  assumes inv: "cache_inv c" and h: "holds c p n" and clean: "n \<in> pins c \<or> cview c n = disk c n"
  shows "cache_inv (cache_release p c)" "cview (cache_release p c) = cview c"
    "held (cache_release p c) = held c - {n}" "pins (cache_release p c) = pins c"
    "\<And>q m. m \<noteq> n \<Longrightarrow> holds c q m \<Longrightarrow> holds (cache_release p c) q m \<and> blk (cache_release p c) q = blk c q"
proof -
  define f where "f = (\<lambda>b. b\<lparr>blk_locked := False, acquired := False\<rparr> :: Block)"
  have eq: "cache_release p c = upd_blk p f c"
    by (simp add: cache_release_def release_sleeplock_def upd_blk_def f_def)
  have p: "p \<in> set (lru c)" "blk_no (blk c p) = n" "blk_valid (blk c p)" "blk_locked (blk c p)"
    using h block_invD(3) [OF inv] by (auto simp: holds_def)
  have "pinned (blk c p) \<or> blk_data (blk c p) = disk c n"
    using clean pins_iff [OF inv p(1)] cview_cached [OF inv p(1-3)] p(2) by auto
  then have "block_inv (upd_blk p f c) p"
    using block_invD [OF inv p(1)] p by (auto simp: block_inv_def f_def)
  then show inv': "cache_inv (cache_release p c)"
    unfolding eq by (intro cache_inv_upd [OF inv p(1)]) (simp add: f_def)
  have "cview (upd_blk p f c) = (cview c)(n := blk_data (f (blk c p)))"
    using inv' p by (intro cview_upd [OF inv p(1-3)]) (simp_all add: eq f_def)
  then show "cview (cache_release p c) = cview c"
    using cview_cached [OF inv p(1-3)] by (simp add: eq f_def fun_upd_idem)
  have hs: "holds (cache_release p c) q m \<longleftrightarrow> holds c q m \<and> q \<noteq> p" for q m
    using p by (auto simp: holds_def eq f_def)
  show "\<And>q m. m \<noteq> n \<Longrightarrow> holds c q m \<Longrightarrow> holds (cache_release p c) q m \<and> blk (cache_release p c) q = blk c q"
    using p by (auto simp: hs holds_def) (auto simp: eq)
  have "(\<exists>q. holds c q m \<and> q \<noteq> p) \<longleftrightarrow> (\<exists>q. holds c q m) \<and> m \<noteq> n" for m
    using h cache_inv_inj [OF inv, of _ p] by (metis holds_def)
  then show "held (cache_release p c) = held c - {n}"
    by (simp add: set_eq_iff held_holds hs)
  have "blk_no (blk (cache_release p c) q) = blk_no (blk c q)"
    "pinned (blk (cache_release p c) q) = pinned (blk c q)" for q
    by (simp_all add: eq f_def)
  then show "pins (cache_release p c) = pins c"
    by (simp add: set_eq_iff pins_mem) (simp add: eq)
qed

lemma dev_write_simps [simp]:
  "blk (dev_write n d c) = blk c" "lru (dev_write n d c) = lru c" "disk (dev_write n d c) = (disk c)(n := d)"
  "dev_trace (dev_write n d c) = dev_trace c @ [(n, d)]" "asleep (dev_write n d c) = asleep c" "kh (dev_write n d c) = kh c"
  "bc_arena (dev_write n d c) = bc_arena c" "hdr (dev_write n d c) = hdr c" "sblock (dev_write n d c) = sblock c"
  "log_start (dev_write n d c) = log_start c" "log_size (dev_write n d c) = log_size c"
  "log_used (dev_write n d c) = log_used c" "op_count (dev_write n d c) = op_count c"
  "last_allocated_ts (dev_write n d c) = last_allocated_ts c"
  "last_persisted_ts (dev_write n d c) = last_persisted_ts c"
  by (simp_all add: dev_write_def)

lemma cview_dev_write_other: "m \<noteq> n \<Longrightarrow> cview (dev_write n d c) m = cview c m"
  by (simp add: cview_def split: option.split)

lemma device_write_effect:
  assumes inv: "cache_inv c" and h: "holds c p n"
  shows "device_write p c = dev_write n (cview c n) c" "cache_inv (device_write p c)"
    "cview (device_write p c) = cview c" "held (device_write p c) = held c" "pins (device_write p c) = pins c"
    "holds (device_write p c) = holds c"
proof -
  have p: "p \<in> set (lru c)" "blk_no (blk c p) = n" "blk_valid (blk c p)" "blk_locked (blk c p)"
    using h block_invD(3) [OF inv] by (auto simp: holds_def)
  show eq: "device_write p c = dev_write n (cview c n) c"
    using cview_cached [OF inv p(1-3)] p by (simp add: device_write_def)
  have other: "q = p" if "q \<in> set (lru c)" "blk_no (blk c q) = n" for q
    using cache_inv_inj [OF inv that(1) p(1)] that p by simp
  show inv': "cache_inv (device_write p c)"
  proof -
    have "block_inv (device_write p c) q" if "q \<in> set (lru c)" for q
      using block_invD [OF inv that] other [OF that] p(4)
      by (cases "q = p") (auto simp: eq dev_write_def block_inv_def Let_def)
    then show ?thesis
      using inv length_cview [OF inv, of n] by (simp add: cache_inv_def eq dev_write_def)
  qed
  show "cview (device_write p c) = cview c"
  proof
    fix m
    have "cview c m = (if m = n then blk_data (blk c p) else cview c m)"
      using cview_cached [OF inv p(1-3)] by simp
    moreover have "cview (device_write p c) n = blk_data (blk c p)"
      using cview_cached [OF inv', of p n] p by (simp add: eq)
    ultimately show "cview (device_write p c) m = cview c m"
      by (cases "m = n") (simp_all add: eq cview_dev_write_other)
  qed
qed (simp_all add: device_write_def dev_write_def held_def pins_def holds_def fun_eq_iff)

section \<open>Effects of acquiring, for the clients\<close>

definition cached :: "bcache \<Rightarrow> u64 set" where
  "cached c = (\<lambda>p. blk_no (blk c p)) ` set (lru c)"

text \<open>Nothing but the cached blocks and the allocator differs.\<close>

definition same_log :: "bcache \<Rightarrow> bcache \<Rightarrow> bool" where
  "same_log c c' \<longleftrightarrow> disk c' = disk c \<and> dev_trace c' = dev_trace c \<and> hdr c' = hdr c \<and> sblock c' = sblock c
     \<and> log_start c' = log_start c \<and> log_size c' = log_size c \<and> log_used c' = log_used c
     \<and> op_count c' = op_count c \<and> last_allocated_ts c' = last_allocated_ts c
     \<and> last_persisted_ts c' = last_persisted_ts c \<and> asleep c' = asleep c"

lemma same_log_refl [simp]: "same_log c c"
  by (simp add: same_log_def)

lemma same_log_trans: "same_log a b \<Longrightarrow> same_log b c \<Longrightarrow> same_log a c"
  by (simp add: same_log_def)

lemma same_log_upd [simp]: "same_log c (upd_blk p f c)"
  by (simp add: same_log_def)

lemma same_log_release [simp]: "same_log c (cache_release p c)"
  by (simp add: same_log_def cache_release_def release_sleeplock_def)

lemma cached_upd: "blk_no (f (blk c p)) = blk_no (blk c p) \<Longrightarrow> cached (upd_blk p f c) = cached c"
  by (auto simp: cached_def)

lemma cached_release [simp]: "cached (cache_release p c) = cached c"
  by (simp add: cache_release_def release_sleeplock_def cached_upd)

lemma cache_mem_upd [simp]: "cache_mem (upd_blk p f c) k = cache_mem c k"
  by (simp add: cache_mem_def)

lemma cache_mem_release [simp]: "cache_mem (cache_release p c) k = cache_mem c k"
  by (simp add: cache_release_def release_sleeplock_def)

lemma cache_mem_mono: "cache_mem c k \<Longrightarrow> j \<le> k \<Longrightarrow> cache_mem c j"
  unfolding cache_mem_def by (meson le_trans)

lemma acquire_effect:
  assumes inv: "cache_inv c" and free: "no \<notin> held c" and mem: "cache_mem c (Suc k)"
  obtains s c' where "cache_acquire no c = Inr (s, c')" "cache_inv c'" "cache_mem c' k" "cview c' = cview c"
    "held c' = insert no (held c)" "pins c' = pins c" "holds c' s no" "blk_data (blk c' s) = cview c no"
    "same_log c c'" "cached c' \<subseteq> insert no (cached c)"
    "\<And>p n. holds c p n \<Longrightarrow> holds c' p n \<and> p \<noteq> s \<and> blk c' p = blk c p"
proof -
  from inv free mem obtain s h where s: "cache_acquire no c = Inr (s, acquired_state no s h c)" "slot_ok c no s"
    "cache_mem (acquired_state no s h c) k"
    by (rule cache_acquire_state)
  let ?c = "acquired_state no s h c"
  note l = acquired_lru [OF inv s(2)] and hh = acquired_held [OF inv s(2) free]
  have "cached ?c \<subseteq> insert no (cached c)"
    by (auto simp: cached_def acquired_state_def dest: notin_set_remove1)
  moreover have "same_log c ?c" by (simp add: same_log_def)
  ultimately show thesis
    using acquired_inv [OF inv s(2)] acquired_cview [OF inv s(2)] l(5)
    by (intro that [OF s(1) _ s(3) _ hh(1,2,3) _ _ _ hh(4)]) auto
qed

lemma clean_view:
  assumes inv: "cache_inv c" and "n \<notin> pins c" and "n \<notin> held c"
  shows "cview c n = disk c n"
proof (cases "\<exists>p \<in> set (lru c). blk_no (blk c p) = n \<and> blk_valid (blk c p)")
  case True
  then obtain p where p: "p \<in> set (lru c)" "blk_no (blk c p) = n" "blk_valid (blk c p)" by blast
  then show ?thesis
    using assms block_invD(4) [OF inv p(1)] pins_iff [OF inv p(1)] held_iff [OF inv p(1)] cview_cached [OF inv p]
    by auto
next
  case False
  then show ?thesis using cview_disk [of c n] by auto
qed

lemma holds_data: "cache_inv c \<Longrightarrow> holds c p n \<Longrightarrow> blk_data (blk c p) = cview c n"
  using cview_cached [of c p n] block_invD(3) [of c p] by (auto simp: holds_def)

lemma holds_set_data:
  assumes inv: "cache_inv c" and h: "holds c p n" and len: "length d = BLOCK_SIZE"
  defines "c' \<equiv> upd_blk p (\<lambda>b. b\<lparr>blk_data := d\<rparr>) c"
  shows "cache_inv c'" "cview c' = (cview c)(n := d)" "held c' = held c" "holds c' = holds c" "pins c' = pins c"
    "same_log c c'" "cached c' = cached c" "cache_mem c' = cache_mem c"
proof -
  let ?f = "\<lambda>b. b\<lparr>blk_data := d\<rparr> :: Block"
  have p: "p \<in> set (lru c)" "blk_no (blk c p) = n" "blk_locked (blk c p)"
    using h by (auto simp: holds_def)
  note b = block_invD [OF inv p(1)]
  note u = holds_update [OF inv h, of ?f, folded c'_def]
  show "cache_inv c'" "cview c' = (cview c)(n := d)" "held c' = held c"
    using u(1-3) p b len by simp_all
  show "holds c' = holds c" using u(4) p b len by (simp add: fun_eq_iff)
  show "pins c' = pins c"
    using u(5) p b len pins_iff [OF inv p(1)] by (cases "pinned (blk c p)") auto
qed (simp_all add: c'_def cached_upd fun_eq_iff)

lemma holds_set_pinned:
  fixes v
  assumes inv: "cache_inv c" and h: "holds c p n"
  defines "c' \<equiv> upd_blk p (\<lambda>b. b\<lparr>pinned := v\<rparr>) c"
  shows "cache_inv c'" "cview c' = cview c" "held c' = held c" "holds c' = holds c"
    "pins c' = (if v then insert n (pins c) else pins c - {n})"
    "same_log c c'" "cached c' = cached c" "cache_mem c' = cache_mem c"
proof -
  let ?f = "\<lambda>b. b\<lparr>pinned := v\<rparr> :: Block"
  have p: "p \<in> set (lru c)" "blk_no (blk c p) = n" "blk_locked (blk c p)"
    using h by (auto simp: holds_def)
  note b = block_invD [OF inv p(1)]
  note u = holds_update [OF inv h, of ?f, folded c'_def]
  show "cache_inv c'" "held c' = held c" "pins c' = (if v then insert n (pins c) else pins c - {n})"
    using u(1,3,5) p b by simp_all
  show "cview c' = cview c"
    using u(2) p b holds_data [OF inv h] by (simp add: fun_upd_idem)
  show "holds c' = holds c" using u(4) p b by (simp add: fun_eq_iff)
qed (simp_all add: c'_def cached_upd fun_eq_iff)

lemma holds_held: "holds c p n \<Longrightarrow> n \<in> held c"
  by (auto simp: held_holds)

text \<open>A cache with block 5 cached and held, on a disk filled with sevens.\<close>

definition sample_cache :: bcache where
  "sample_cache = \<lparr>bc_arena = 0x100, kh = sample_kheap,
     blk = \<lambda>_. \<lparr>blk_no = 5, acquired = True, pinned = False, blk_locked = True, blk_valid = True,
       blk_data = replicate 512 7\<rparr>,
     lru = [0x1040], hdr = \<lparr>hdr_num_blocks = 0, hdr_block_no = replicate 63 0\<rparr>,
     last_allocated_ts = 0, last_persisted_ts = 0, log_start = 3, log_size = 63, log_used = 0, op_count = 0,
     sblock = \<lparr>sb_num_blocks = 1000, sb_num_data_blocks = 900, sb_num_inodes = 200, sb_num_log_blocks = 64,
       sb_log_start = 2, sb_inode_start = 66, sb_bitmap_start = 92\<rparr>,
     disk = \<lambda>_. replicate 512 7, dev_trace = [], asleep = []\<rparr>"

lemma sample_cache_inv: "cache_inv sample_cache"
  by (simp add: cache_inv_def block_inv_def BLOCK_SIZE_def) (simp add: sample_cache_def)

lemma sample_cache_held: "held sample_cache = {5}" "holds sample_cache 0x1040 5"
  by (auto simp: held_def holds_def sample_cache_def)

lemma sample_objs: "arena_objs 0x100 {0x100} sample_kheap {0x1040, 0x1820} 2"
proof -
  have "avail sample_kheap 0x100 [0x2000] [0x1000] = 2"
    by (simp add: avail_def sample_used) (simp add: slots_def sample_kheap_def)
  then show ?thesis
    unfolding arena_objs_def using sample_rep sample_live by (intro exI conjI) (assumption | simp)+
qed

lemma sample_cache_mem: "cache_mem sample_cache 2"
  unfolding cache_mem_def using sample_objs
  by (rule_tac exI [of _ "{0x100}"], rule_tac exI [of _ "{0x1040, 0x1820}"], rule_tac exI [of _ 2])
    (simp add: sample_cache_def)

section \<open>Properties\<close>

text \<open>
  C4: \<^verbatim>\<open>cache_acquire\<close> of a block nobody holds returns a block with that number whose data
  is the current content of the block, locked for the caller and at the front of the list.  The
  content of every block stays as it was, and so do the blocks that other threads hold.  A cached
  block is given up only if nobody holds it, no operation pinned it and the cache has
  reached its threshold; a new block is allocated only below the threshold or
  when every cached block is held or pinned.
\<close>

theorem cache_acquire_correct:
  assumes "cache_inv c" and "no \<notin> held c" and "cache_mem c (Suc k)"
  shows "\<exists>s c'. cache_acquire no c = Inr (s, c') \<and> cache_inv c' \<and> cache_mem c' k
    \<and> holds c' s no \<and> blk_data (blk c' s) = cview c no \<and> lru c' = s # remove1 s (lru c)
    \<and> cview c' = cview c \<and> disk c' = disk c \<and> pins c' = pins c \<and> held c' = insert no (held c)
    \<and> (s \<in> set (lru c) \<and> blk_no (blk c s) \<noteq> no \<longrightarrow>
         \<not> blk_locked (blk c s) \<and> \<not> pinned (blk c s) \<and> 20 \<le> get_num_cached_blocks c)
    \<and> (s \<notin> set (lru c) \<longrightarrow> get_num_cached_blocks c < 20
         \<or> (\<forall>q \<in> set (lru c). blk_locked (blk c q) \<or> pinned (blk c q)))"
proof -
  from assms obtain s h where s: "cache_acquire no c = Inr (s, acquired_state no s h c)" "slot_ok c no s"
    "cache_mem (acquired_state no s h c) k"
    by (rule cache_acquire_state)
  have "s \<in> set (lru c) \<and> blk_no (blk c s) \<noteq> no \<longrightarrow>
      \<not> blk_locked (blk c s) \<and> \<not> pinned (blk c s) \<and> 20 \<le> get_num_cached_blocks c"
    using s(2) block_invD(2) [OF assms(1)]
    by (auto simp: slot_ok_def slot_hit_def slot_evicted_def slot_new_def EVICTION_THRESHOLD_def get_num_cached_blocks_def)
  moreover have "s \<notin> set (lru c) \<longrightarrow> get_num_cached_blocks c < 20
      \<or> (\<forall>q \<in> set (lru c). blk_locked (blk c q) \<or> pinned (blk c q))"
    using s(2) block_invD(2) [OF assms(1)]
    by (auto simp: slot_ok_def slot_hit_def slot_evicted_def slot_new_def EVICTION_THRESHOLD_def get_num_cached_blocks_def)
  moreover have "lru (acquired_state no s h c) = s # remove1 s (lru c)"
    "blk_data (blk (acquired_state no s h c) s) = cview c no"
    by (simp_all add: acquired_state_def)
  ultimately show ?thesis
    using s acquired_inv [OF assms(1) s(2)] acquired_cview [OF assms(1) s(2)] acquired_held [OF assms(1) s(2) assms(2)]
    by (intro exI [of _ s] exI [of _ "acquired_state no s h c"]) simp
qed

theorem cache_acquire_correct_witness:
  "\<exists>s c'. cache_acquire 9 sample_cache = Inr (s, c') \<and> holds c' s 9 \<and> held c' = {9, 5}
     \<and> blk_data (blk c' s) = cview sample_cache 9"
proof -
  have "cache_mem sample_cache (Suc 1)" using sample_cache_mem by (simp add: numeral_2_eq_2)
  from cache_acquire_correct [OF sample_cache_inv _ this, of 9] sample_cache_held show ?thesis by auto
qed

text \<open>
  C5: \<^verbatim>\<open>cache_release\<close> of a block that is pinned or equal to its copy on disk ends the hold
  on that block and changes neither the content of any block nor any other hold.
\<close>

theorem cache_release_correct:
  assumes "cache_inv c" and "holds c p n" and "n \<in> pins c \<or> cview c n = disk c n"
  shows "cache_inv (cache_release p c) \<and> held (cache_release p c) = held c - {n}
    \<and> cview (cache_release p c) = cview c \<and> pins (cache_release p c) = pins c \<and> disk (cache_release p c) = disk c"
  using release_effect [OF assms] same_log_release [of c p] by (simp add: same_log_def)

theorem cache_release_correct_witness:
  "cache_inv (cache_release 0x1040 sample_cache) \<and> held (cache_release 0x1040 sample_cache) = {}"
proof -
  have "cview sample_cache 5 = disk sample_cache 5"
    by (simp add: cview_def) (simp add: sample_cache_def)
  then show ?thesis
    using cache_release_correct [OF sample_cache_inv sample_cache_held(2)] sample_cache_held(1) by simp
qed

end
