(* ===== verification/Cache_Log.thy ===== *)
theory Cache_Log
  imports Block_Cache
begin

text \<open>
  Write-ahead logging of \<^verbatim>\<open>fs/cache.c\<close>: atomic operations (\<^verbatim>\<open>cache_begin_op\<close>, \<^verbatim>\<open>cache_sync\<close>,
  \<^verbatim>\<open>cache_end_op\<close>), \<^verbatim>\<open>commit\<close>, \<^verbatim>\<open>checkpoint\<close>, \<^verbatim>\<open>replay\<close> and recovery in \<^verbatim>\<open>init_bcache\<close>.  The log header
  is kept as the record the code keeps in memory and as its 512-byte image on disk.  The main
  result is about crashes: whatever prefix of the device writes of an operation's end reaches the
  disk, recovery yields all blocks of the operation or none.
\<close>

section \<open>Operations\<close>

definition OP_MAX_NUM_BLOCKS :: nat where
  "OP_MAX_NUM_BLOCKS = 10"

record OpContext =
  op_ts :: u64
  op_num_blocks :: u64
  op_block_no :: "u64 list"

definition header_bytes :: "LogHeader \<Rightarrow> sector" where
  "header_bytes h = bytes_of_cells (hdr_num_blocks h # hdr_block_no h)"

definition header_of_bytes :: "sector \<Rightarrow> LogHeader" where
  "header_of_bytes bs =
     (let cs = cells_of_bytes bs in \<lparr>hdr_num_blocks = hd cs, hdr_block_no = tl cs\<rparr>)"

definition log_header_no :: "bcache \<Rightarrow> u64" where
  "log_header_no c = ucast (sb_log_start (sblock c))"

definition read_header :: "bcache \<Rightarrow> bcache" where
  "read_header c = c\<lparr>hdr := header_of_bytes (disk c (log_header_no c))\<rparr>"

definition write_header :: "bcache \<Rightarrow> bcache" where
  "write_header c = dev_write (log_header_no c) (header_bytes (hdr c)) c"

text \<open>
  The conditions of the loops that sleep, and waking the sleepers of a channel.  \<open>asleep\<close> lists the sleeping processes of the process table the
  caller runs on, the only one that \<^verbatim>\<open>wakeup\<close> scans.
\<close>

definition begin_waits :: "bcache \<Rightarrow> bool" where
  "begin_waits c \<longleftrightarrow> log_used c + of_nat OP_MAX_NUM_BLOCKS > log_size c"

definition end_waits :: "OpContext \<Rightarrow> bcache \<Rightarrow> bool" where
  "end_waits ctx c \<longleftrightarrow> op_ts ctx > last_persisted_ts c"

definition wake :: "bc_chan \<Rightarrow> bcache \<Rightarrow> bcache" where
  "wake ch c = c\<lparr>asleep := filter (\<lambda>(p, ch'). ch' \<noteq> ch) (asleep c)\<rparr>"

definition cache_begin_op :: "bcache \<Rightarrow> (OpContext \<times> bcache) res" where
  "cache_begin_op c =
     (if begin_waits c then Inl Blocked
      else let c = c\<lparr>log_used := log_used c + of_nat OP_MAX_NUM_BLOCKS,
                     last_allocated_ts := last_allocated_ts c + 1, op_count := op_count c + 1\<rparr>
           in Inr (\<lparr>op_ts = last_allocated_ts c, op_num_blocks = 0,
                    op_block_no = replicate OP_MAX_NUM_BLOCKS 0\<rparr>, c))"

text \<open>The index at which a linear search for \<open>no\<close> in the first \<open>n\<close> entries ends.\<close>

definition search_index :: "u64 list \<Rightarrow> u64 \<Rightarrow> nat \<Rightarrow> nat" where
  "search_index xs no n = (case find_from (\<lambda>i. xs ! i = no) 0 n of Some i \<Rightarrow> i | None \<Rightarrow> n)"

definition cache_sync :: "OpContext option \<Rightarrow> ptr \<Rightarrow> bcache \<Rightarrow> (OpContext option \<times> bcache) res" where
  "cache_sync ctx block c =
     (case ctx of
        Some x \<Rightarrow>
          let i = search_index (op_block_no x) (blk_no (blk c block)) (unat (op_num_blocks x))
          in bindE (assertE (i < OP_MAX_NUM_BLOCKS) ''i < OP_MAX_NUM_BLOCKS'') (\<lambda>_.
             let x = x\<lparr>op_block_no := (op_block_no x)[i := blk_no (blk c block)]\<rparr>;
                 x = (if i \<ge> unat (op_num_blocks x) then x\<lparr>op_num_blocks := op_num_blocks x + 1\<rparr> else x)
             in Inr (Some x, upd_blk block (\<lambda>b. b\<lparr>pinned := True\<rparr>) c))
      | None \<Rightarrow> Inr (None, device_write block c))"

text \<open>One iteration of the outer loop of \<^verbatim>\<open>commit\<close>, and the loop.\<close>

definition commit_entry :: "u64 \<Rightarrow> u64 \<Rightarrow> u64 \<times> LogHeader \<Rightarrow> (u64 \<times> LogHeader) res" where
  "commit_entry lsize no s =
     (let (absorbed, h) = s;
          j = search_index (hdr_block_no h) no (unat (hdr_num_blocks h))
      in bindE (assertE (of_nat j < lsize) ''j < log_size'') (\<lambda>_.
         let absorb = j < unat (hdr_num_blocks h);
             h = h\<lparr>hdr_block_no := (hdr_block_no h)[j := no]\<rparr>
         in Inr (if absorb then (absorbed + 1, h)
                 else (absorbed, h\<lparr>hdr_num_blocks := hdr_num_blocks h + 1\<rparr>))))"

fun commit_loop :: "u64 \<Rightarrow> u64 list \<Rightarrow> u64 \<times> LogHeader \<Rightarrow> (u64 \<times> LogHeader) res" where
  "commit_loop lsize [] s = Inr s"
| "commit_loop lsize (no # nos) s = bindE (commit_entry lsize no s) (commit_loop lsize nos)"

definition commit :: "OpContext \<Rightarrow> bcache \<Rightarrow> bcache res" where
  "commit ctx c =
     (if length (op_block_no ctx) < unat (op_num_blocks ctx) then Inl OutOfBounds else
     bindE (commit_loop (log_size c) (take (unat (op_num_blocks ctx)) (op_block_no ctx)) (0, hdr c))
       (\<lambda>(absorbed, h).
         let unused = of_nat OP_MAX_NUM_BLOCKS - op_num_blocks ctx
         in Inr (wake LogUsed (c\<lparr>hdr := h, log_used := log_used c - (unused + absorbed)\<rparr>))))"

text \<open>The loop body of \<^verbatim>\<open>replay\<close>; \<open>header.block_no[i]\<close> outside the array is an error.\<close>

definition replay_block :: "nat \<Rightarrow> bcache \<Rightarrow> bcache res" where
  "replay_block i c =
     bindE (cache_acquire (log_start c + of_nat i) c) (\<lambda>(src, c).
     if i \<ge> length (hdr_block_no (hdr c)) then Inl OutOfBounds else
     bindE (cache_acquire (hdr_block_no (hdr c) ! i) c) (\<lambda>(dest, c).
     let c = upd_blk dest (\<lambda>b. b\<lparr>blk_data := blk_data (blk c src)\<rparr>) c;
         c = cache_release src c;
         c = device_write dest c;
         c = upd_blk dest (\<lambda>b. b\<lparr>pinned := False\<rparr>) c
     in Inr (cache_release dest c)))"

fun replay_loop :: "nat list \<Rightarrow> bcache \<Rightarrow> bcache res" where
  "replay_loop [] c = Inr c"
| "replay_loop (i # is) c = bindE (replay_block i c) (replay_loop is)"

definition replay :: "bcache \<Rightarrow> bcache res" where
  "replay c =
     (if hdr_num_blocks (hdr c) = 0 then Inr c
      else bindE (replay_loop [0 ..< unat (hdr_num_blocks (hdr c))] c) (\<lambda>c.
           let c = c\<lparr>hdr := (hdr c)\<lparr>hdr_num_blocks := 0\<rparr>\<rparr>
           in Inr (write_header c)))"

definition log_block :: "nat \<Rightarrow> bcache \<Rightarrow> bcache res" where
  "log_block i c =
     (if i \<ge> length (hdr_block_no (hdr c)) then Inl OutOfBounds else
      bindE (cache_acquire (hdr_block_no (hdr c) ! i) c) (\<lambda>(src, c).
      bindE (cache_acquire (log_start c + of_nat i) c) (\<lambda>(dest, c).
      let c = upd_blk dest (\<lambda>b. b\<lparr>blk_data := blk_data (blk c src)\<rparr>) c;
          c = cache_release src c;
          c = device_write dest c
      in Inr (cache_release dest c))))"

fun log_loop :: "nat list \<Rightarrow> bcache \<Rightarrow> bcache res" where
  "log_loop [] c = Inr c"
| "log_loop (i # is) c = bindE (log_block i c) (log_loop is)"

definition checkpoint :: "bcache \<Rightarrow> bcache res" where
  "checkpoint c =
     bindE (log_loop [0 ..< unat (hdr_num_blocks (hdr c))] c) (\<lambda>c.
     bindE (replay (write_header c)) (\<lambda>c.
     Inr (wake LastPersisted (c\<lparr>last_persisted_ts := last_allocated_ts c\<rparr>))))"

definition cache_end_op :: "OpContext \<Rightarrow> bcache \<Rightarrow> bcache res" where
  "cache_end_op ctx c =
     bindE (commit ctx c) (\<lambda>c.
     let c = c\<lparr>op_count := op_count c - 1\<rparr>;
         do_checkpoint = (op_count c = 0);
         log_size_copy = log_size c
     in if do_checkpoint
        then bindE (checkpoint (c\<lparr>log_size := 0\<rparr>)) (\<lambda>c.
             Inr (wake LogUsed (c\<lparr>log_size := log_size_copy, log_used := 0\<rparr>)))
        else if end_waits ctx c then Inl Blocked
        else Inr c)"

definition init_bcache :: "SuperBlock \<Rightarrow> bcache \<Rightarrow> bcache res" where
  "init_bcache sb c =
     (let c = c\<lparr>sblock := sb\<rparr>
      in bindE (init_arena (bc_arena c) sizeof_Block (kh c)) (\<lambda>h.
         let c = c\<lparr>kh := h, lru := [], last_allocated_ts := 0, last_persisted_ts := 0,
                   log_start := ucast (sb_log_start sb) + 1,
                   log_size := c_MIN (ucast (sb_num_log_blocks sb - 1)) (of_nat LOG_MAX_SIZE),
                   log_used := 0, op_count := 0\<rparr>
         in replay (read_header c)))"

section \<open>The log header and its image on disk\<close>

definition hdr_nos :: "LogHeader \<Rightarrow> u64 list" where
  "hdr_nos h = take (unat (hdr_num_blocks h)) (hdr_block_no h)"

definition hdr_ok :: "LogHeader \<Rightarrow> bool" where
  "hdr_ok h \<longleftrightarrow> length (hdr_block_no h) = LOG_MAX_SIZE \<and> unat (hdr_num_blocks h) \<le> LOG_MAX_SIZE \<and> distinct (hdr_nos h)"

lemma length_hdr_nos: "hdr_ok h \<Longrightarrow> length (hdr_nos h) = unat (hdr_num_blocks h)"
  by (simp add: hdr_ok_def hdr_nos_def)

lemma header_of_header_bytes [simp]: "header_of_bytes (header_bytes h) = h"
  by (simp add: header_of_bytes_def header_bytes_def cells_of_bytes_of_cells)

lemma length_header_bytes: "length (hdr_block_no h) = LOG_MAX_SIZE \<Longrightarrow> length (header_bytes h) = BLOCK_SIZE"
  by (simp add: header_bytes_def LOG_MAX_SIZE_def BLOCK_SIZE_def)

lemma length_header_of_bytes:
  "length bs = BLOCK_SIZE \<Longrightarrow> length (hdr_block_no (header_of_bytes bs)) = LOG_MAX_SIZE"
  by (simp add: header_of_bytes_def Let_def BLOCK_SIZE_def LOG_MAX_SIZE_def)

lemma search_index_cases:
  assumes "n \<le> length xs"
  shows "if no \<in> set (take n xs) then search_index xs no n < n \<and> xs ! search_index xs no n = no
    else search_index xs no n = n"
proof (cases "find_from (\<lambda>i. xs ! i = no) 0 n")
  case None
  then have "no \<notin> set (take n xs)"
    using assms by (auto simp: find_from_None in_set_conv_nth)
  with None show ?thesis by (simp add: search_index_def)
next
  case (Some i)
  then have "i < n" "xs ! i = no" by (auto simp: find_from_Some)
  moreover from this have "no \<in> set (take n xs)"
    using assms by (auto simp: in_set_conv_nth intro!: exI [of _ i])
  ultimately show ?thesis using Some by (simp add: search_index_def)
qed

section \<open>Recording blocks in an operation\<close>

definition ctx_nos :: "OpContext \<Rightarrow> u64 list" where
  "ctx_nos x = take (unat (op_num_blocks x)) (op_block_no x)"

definition ctx_ok :: "OpContext \<Rightarrow> bool" where
  "ctx_ok x \<longleftrightarrow> length (op_block_no x) = OP_MAX_NUM_BLOCKS \<and> unat (op_num_blocks x) \<le> OP_MAX_NUM_BLOCKS
     \<and> distinct (ctx_nos x)"

lemma length_ctx_nos: "ctx_ok x \<Longrightarrow> length (ctx_nos x) = unat (op_num_blocks x)"
  by (simp add: ctx_ok_def ctx_nos_def)

lemma unat_Suc_small: "unat (w :: u64) < 1000 \<Longrightarrow> unat (w + 1) = Suc (unat w)"
  using unat_plus_ptr [of w 1] by simp

lemma take_Suc_update:
  "k < length xs \<Longrightarrow> take (Suc k) (xs[k := v]) = take k xs @ [v]"
  by (simp add: take_Suc_conv_app_nth)

lemma cache_sync_ctx:
  assumes ok: "ctx_ok x" and no: "blk_no (blk c p) = n"
  shows "n \<in> set (ctx_nos x) \<Longrightarrow> cache_sync (Some x) p c = Inr (Some x, upd_blk p (\<lambda>b. b\<lparr>pinned := True\<rparr>) c)"
    and "n \<notin> set (ctx_nos x) \<Longrightarrow> length (ctx_nos x) < OP_MAX_NUM_BLOCKS \<Longrightarrow>
      \<exists>x'. cache_sync (Some x) p c = Inr (Some x', upd_blk p (\<lambda>b. b\<lparr>pinned := True\<rparr>) c)
        \<and> ctx_ok x' \<and> ctx_nos x' = ctx_nos x @ [n] \<and> op_ts x' = op_ts x"
    and "n \<notin> set (ctx_nos x) \<Longrightarrow> length (ctx_nos x) = OP_MAX_NUM_BLOCKS \<Longrightarrow>
      cache_sync (Some x) p c = Inl (Panic ''i < OP_MAX_NUM_BLOCKS'')"
proof -
  let ?k = "unat (op_num_blocks x)" and ?i = "search_index (op_block_no x) n (unat (op_num_blocks x))"
  have len: "?k \<le> length (op_block_no x)" "length (op_block_no x) = 10" "?k \<le> 10" "length (ctx_nos x) = ?k"
    using ok length_ctx_nos [OF ok] by (auto simp: ctx_ok_def OP_MAX_NUM_BLOCKS_def)
  note si = search_index_cases [OF len(1), of n, folded ctx_nos_def]
  show "cache_sync (Some x) p c = Inr (Some x, upd_blk p (\<lambda>b. b\<lparr>pinned := True\<rparr>) c)" if "n \<in> set (ctx_nos x)"
  proof -
    have i: "?i < ?k" "op_block_no x ! ?i = n" using si that by auto
    moreover have "(op_block_no x)[?i := n] = op_block_no x"
      using i(2) by (metis list_update_id)
    ultimately show ?thesis
      using len by (simp add: cache_sync_def no OP_MAX_NUM_BLOCKS_def)
  qed
  assume new: "n \<notin> set (ctx_nos x)"
  then have i: "?i = ?k" using si by simp
  show "cache_sync (Some x) p c = Inl (Panic ''i < OP_MAX_NUM_BLOCKS'')" if "length (ctx_nos x) = OP_MAX_NUM_BLOCKS"
    using that len i by (simp add: cache_sync_def no)
  assume small: "length (ctx_nos x) < OP_MAX_NUM_BLOCKS"
  define x' where "x' = x\<lparr>op_block_no := (op_block_no x)[?k := n], op_num_blocks := op_num_blocks x + 1\<rparr>"
  have k: "unat (op_num_blocks x + 1) = Suc ?k"
    using len by (intro unat_Suc_small) simp
  have nos: "ctx_nos x' = ctx_nos x @ [n]"
    using small len by (simp add: ctx_nos_def x'_def k take_Suc_update OP_MAX_NUM_BLOCKS_def)
  have "cache_sync (Some x) p c = Inr (Some x', upd_blk p (\<lambda>b. b\<lparr>pinned := True\<rparr>) c)"
    using small len by (simp add: cache_sync_def no i x'_def)
  moreover have "ctx_ok x'"
    using ok nos new small len by (simp add: ctx_ok_def x'_def k)
  ultimately show "\<exists>x'. cache_sync (Some x) p c = Inr (Some x', upd_blk p (\<lambda>b. b\<lparr>pinned := True\<rparr>) c)
        \<and> ctx_ok x' \<and> ctx_nos x' = ctx_nos x @ [n] \<and> op_ts x' = op_ts x"
    using nos by (intro exI [of _ x']) (simp add: x'_def)
qed

section \<open>Commit\<close>

lemma commit_entry_absorb:
  assumes ok: "hdr_ok h" and "no \<in> set (hdr_nos h)" and size: "unat (hdr_num_blocks h) \<le> unat lsize" "unat lsize \<le> LOG_MAX_SIZE"
  shows "commit_entry lsize no (a, h) = Inr (a + 1, h)"
proof -
  let ?k = "unat (hdr_num_blocks h)" and ?j = "search_index (hdr_block_no h) no (unat (hdr_num_blocks h))"
  have "?k \<le> length (hdr_block_no h)" using ok by (simp add: hdr_ok_def)
  then have j: "?j < ?k" "hdr_block_no h ! ?j = no"
    using search_index_cases [of ?k "hdr_block_no h" no] assms(2) by (auto simp: hdr_nos_def)
  have "(hdr_block_no h)[?j := no] = hdr_block_no h" using j(2) by (metis list_update_id)
  moreover have "(of_nat ?j :: u64) < lsize"
    using j(1) size by (simp add: word_less_nat_alt unat_of_nat_ptr LOG_MAX_SIZE_def BLOCK_SIZE_def)
  ultimately show ?thesis using j(1) by (simp add: commit_entry_def)
qed

lemma commit_entry_new:
  assumes ok: "hdr_ok h" and new: "no \<notin> set (hdr_nos h)" and size: "unat (hdr_num_blocks h) < unat lsize" "unat lsize \<le> LOG_MAX_SIZE"
  shows "\<exists>h'. commit_entry lsize no (a, h) = Inr (a, h') \<and> hdr_ok h' \<and> hdr_nos h' = hdr_nos h @ [no]"
proof -
  let ?k = "unat (hdr_num_blocks h)"
  have len: "?k \<le> length (hdr_block_no h)" "length (hdr_block_no h) = 63" using ok size by (auto simp: hdr_ok_def LOG_MAX_SIZE_def BLOCK_SIZE_def)
  have j: "search_index (hdr_block_no h) no ?k = ?k"
    using search_index_cases [OF len(1), of no] new by (simp add: hdr_nos_def)
  define h' where "h' = h\<lparr>hdr_block_no := (hdr_block_no h)[?k := no], hdr_num_blocks := hdr_num_blocks h + 1\<rparr>"
  have k: "unat (hdr_num_blocks h + 1) = Suc ?k"
    using size by (intro unat_Suc_small) (simp add: LOG_MAX_SIZE_def BLOCK_SIZE_def)
  have k63: "?k < 63" using size by (simp add: LOG_MAX_SIZE_def BLOCK_SIZE_def)
  have nos: "hdr_nos h' = hdr_nos h @ [no]"
    using len k63 by (simp add: hdr_nos_def h'_def k take_Suc_update)
  have "hdr_ok h'"
    using ok nos new k63 by (simp add: hdr_ok_def h'_def k LOG_MAX_SIZE_def BLOCK_SIZE_def)
  moreover have "commit_entry lsize no (a, h) = Inr (a, h')"
    using size k63 by (simp add: commit_entry_def j h'_def word_less_nat_alt)
  ultimately show ?thesis using nos by blast
qed

lemma commit_loop_ok:
  assumes "hdr_ok h" and "distinct nos" and "unat lsize \<le> LOG_MAX_SIZE"
    and "length (hdr_nos h) + length (filter (\<lambda>n. n \<notin> set (hdr_nos h)) nos) \<le> unat lsize"
  shows "\<exists>h'. commit_loop lsize nos (a, h) = Inr (a + of_nat (length (filter (\<lambda>n. n \<in> set (hdr_nos h)) nos)), h')
    \<and> hdr_ok h' \<and> hdr_nos h' = hdr_nos h @ filter (\<lambda>n. n \<notin> set (hdr_nos h)) nos"
  using assms
proof (induction nos arbitrary: a h)
  case Nil
  then show ?case by simp
next
  case (Cons no nos)
  have k: "length (hdr_nos h) = unat (hdr_num_blocks h)" using Cons.prems(1) by (rule length_hdr_nos)
  show ?case
  proof (cases "no \<in> set (hdr_nos h)")
    case True
    then have "commit_entry lsize no (a, h) = Inr (a + 1, h)"
      using Cons.prems k by (intro commit_entry_absorb) auto
    with Cons.IH [of h "a + 1"] Cons.prems True show ?thesis by (auto simp: add.assoc)
  next
    case False
    then obtain h1 where h1: "commit_entry lsize no (a, h) = Inr (a, h1)" "hdr_ok h1" "hdr_nos h1 = hdr_nos h @ [no]"
      using commit_entry_new [of h no lsize a] Cons.prems k by auto
    have flt: "filter (\<lambda>n. n \<in> set (hdr_nos h1)) nos = filter (\<lambda>n. n \<in> set (hdr_nos h)) nos"
      "filter (\<lambda>n. n \<notin> set (hdr_nos h1)) nos = filter (\<lambda>n. n \<notin> set (hdr_nos h)) nos"
      using Cons.prems(2) by (auto simp: h1(3) intro!: filter_cong)
    have "\<exists>h'. commit_loop lsize nos (a, h1) = Inr (a + of_nat (length (filter (\<lambda>n. n \<in> set (hdr_nos h)) nos)), h')
      \<and> hdr_ok h' \<and> hdr_nos h' = hdr_nos h1 @ filter (\<lambda>n. n \<notin> set (hdr_nos h)) nos"
      using Cons.prems False length_append [of "hdr_nos h" "[no]"]
      by (intro Cons.IH [of h1 a, unfolded flt] h1(2)) (simp_all add: h1(3))
    with False h1(1,3) show ?thesis by simp
  qed
qed

section \<open>Copying blocks\<close>

text \<open>Everything but the blocks, the device and the allocator is the same.\<close>

definition same_meta :: "bcache \<Rightarrow> bcache \<Rightarrow> bool" where
  "same_meta c c' \<longleftrightarrow> hdr c' = hdr c \<and> sblock c' = sblock c
     \<and> log_start c' = log_start c \<and> log_size c' = log_size c \<and> log_used c' = log_used c
     \<and> op_count c' = op_count c \<and> last_allocated_ts c' = last_allocated_ts c
     \<and> last_persisted_ts c' = last_persisted_ts c \<and> asleep c' = asleep c"

lemma same_meta_refl [simp]: "same_meta c c"
  by (simp add: same_meta_def)

lemma same_meta_trans: "same_meta a b \<Longrightarrow> same_meta b c \<Longrightarrow> same_meta a c"
  by (simp add: same_meta_def)

lemma same_log_meta: "same_log c c' \<Longrightarrow> same_meta c c'"
  by (simp add: same_log_def same_meta_def)

text \<open>The common tail of the loop bodies of \<^verbatim>\<open>replay\<close> (which also unpins) and \<^verbatim>\<open>checkpoint\<close>.\<close>

definition finish_copy :: "bool \<Rightarrow> ptr \<Rightarrow> ptr \<Rightarrow> bcache \<Rightarrow> bcache" where
  "finish_copy unpin src dest c =
     (let c = upd_blk dest (\<lambda>b. b\<lparr>blk_data := blk_data (blk c src)\<rparr>) c;
          c = cache_release src c;
          c = device_write dest c;
          c = (if unpin then upd_blk dest (\<lambda>b. b\<lparr>pinned := False\<rparr>) c else c)
      in cache_release dest c)"

lemma finish_copy_effect:
  fixes u
  assumes inv: "cache_inv c" and s: "holds c s a" and d: "holds c d b" and ab: "a \<noteq> b"
    and clean: "a \<in> pins c \<or> cview c a = disk c a"
  defines "c' \<equiv> finish_copy u s d c"
  shows "cache_inv c'" "cview c' = (cview c)(b := cview c a)" "disk c' = (disk c)(b := cview c a)"
    "dev_trace c' = dev_trace c @ [(b, cview c a)]" "held c' = held c - {a, b}"
    "pins c' = (if u then pins c - {b} else pins c)" "same_meta c c'" "cached c' = cached c"
    "cache_mem c' = cache_mem c"
proof -
  have data: "blk_data (blk c s) = cview c a" using holds_data [OF inv s] .
  define c1 where "c1 = upd_blk d (\<lambda>b. b\<lparr>blk_data := cview c a\<rparr>) c"
  note 1 = holds_set_data [OF inv d length_cview [OF inv], of a, folded c1_def]
  define c2 where "c2 = cache_release s c1"
  have "a \<in> pins c1 \<or> cview c1 a = disk c1 a" "holds c1 s a"
    using clean ab 1(2,4-6) s by (auto simp: same_log_def)
  from release_effect [OF 1(1) this(2,1)] d ab 1(3-5)
  have 2: "cache_inv c2" "cview c2 = cview c1" "held c2 = held c - {a}" "pins c2 = pins c" "holds c2 d b"
    by (simp_all add: c2_def)
  define c3 where "c3 = device_write d c2"
  note dw = device_write_effect [OF 2(1,5), folded c3_def]
  have c3: "c3 = dev_write b (cview c a) c2" using dw(1) 2(2) 1(2) by simp
  define c4 where "c4 = (if u then upd_blk d (\<lambda>b. b\<lparr>pinned := False\<rparr>) c3 else c3)"
  have h3: "holds c3 d b" using dw(6) 2(5) by simp
  note up = holds_set_pinned [OF dw(2) h3, of False]
  have 4: "cache_inv c4" "cview c4 = cview c1" "held c4 = held c - {a}" "holds c4 d b"
      "pins c4 = (if u then pins c - {b} else pins c)" "same_log c3 c4" "cached c4 = cached c3" "cache_mem c4 = cache_mem c3"
    using up dw h3 2 by (auto simp: c4_def)
  have eq: "c' = cache_release d c4"
    using data by (simp add: c'_def finish_copy_def c4_def c3_def c2_def c1_def Let_def)
  have "b \<in> pins c4 \<or> cview c4 b = disk c4 b"
    using 4(2,6) 1(2) by (simp add: same_log_def c3)
  note r = release_effect [OF 4(1,4) this, folded eq]
  show "cache_inv c'" "cview c' = (cview c)(b := cview c a)" "held c' = held c - {a, b}"
      "pins c' = (if u then pins c - {b} else pins c)"
    using r 4 1(2) by auto
  have sl: "same_log c c1" "same_log c1 c2" "same_log c4 c'"
    by (simp_all add: c1_def c2_def eq)
  then show "disk c' = (disk c)(b := cview c a)" "dev_trace c' = dev_trace c @ [(b, cview c a)]" "same_meta c c'"
    using 4(6) by (simp_all add: same_log_def same_meta_def c3)
  have "cached c3 = cached c2" "cache_mem c3 = cache_mem c2" by (simp_all add: c3 cached_def cache_mem_def fun_eq_iff)
  then show "cached c' = cached c" "cache_mem c' = cache_mem c"
    using 4(7,8) 1(7,8) by (simp_all add: eq c2_def fun_eq_iff)
qed

definition log_no :: "bcache \<Rightarrow> nat \<Rightarrow> u64" where
  "log_no c i = log_start c + of_nat i"

definition quiet :: "bcache \<Rightarrow> bool" where
  "quiet c \<longleftrightarrow> cache_inv c \<and> held c = {}"

definition apply_writes :: "(u64 \<times> sector) list \<Rightarrow> (u64 \<Rightarrow> sector) \<Rightarrow> u64 \<Rightarrow> sector" where
  "apply_writes W f = fold (\<lambda>(n, d) f. f(n := d)) W f"

text \<open>What one copy from block \<open>a\<close> to block \<open>b\<close> does to a cache no block of which is held.\<close>

definition copied :: "bool \<Rightarrow> u64 \<Rightarrow> u64 \<Rightarrow> nat \<Rightarrow> bcache \<Rightarrow> bcache \<Rightarrow> bool" where
  "copied unpin a b k c c' \<longleftrightarrow> quiet c' \<and> cache_mem c' k \<and> cview c' = (cview c)(b := cview c a)
     \<and> disk c' = (disk c)(b := cview c a) \<and> dev_trace c' = dev_trace c @ [(b, cview c a)]
     \<and> pins c' = (if unpin then pins c - {b} else pins c) \<and> same_meta c c' \<and> cached c' \<subseteq> insert a (insert b (cached c))"

lemma copy_effect:
  assumes q: "quiet c" and mem: "cache_mem c (Suc (Suc k))" and ab: "a \<noteq> b"
  obtains s d c1 c2 where "cache_acquire a c = Inr (s, c1)" "cache_acquire b c1 = Inr (d, c2)"
    "same_log c c1" "same_log c c2" "\<And>u. copied u a b k c (finish_copy u s d c2)"
proof -
  have inv: "cache_inv c" "a \<notin> held c" "held c = {}" using q by (auto simp: quiet_def)
  obtain s c1 where 1: "cache_acquire a c = Inr (s, c1)" "cache_inv c1" "cache_mem c1 (Suc k)" "cview c1 = cview c"
    "held c1 = insert a (held c)" "pins c1 = pins c" "holds c1 s a" "same_log c c1" "cached c1 \<subseteq> insert a (cached c)"
    by (rule acquire_effect [OF inv(1,2) mem]) blast
  have "b \<notin> held c1" using 1(5) inv(3) ab by simp
  from 1(2) this 1(3) obtain d c2 where 2: "cache_acquire b c1 = Inr (d, c2)" "cache_inv c2" "cache_mem c2 k" "cview c2 = cview c1"
    "held c2 = insert b (held c1)" "pins c2 = pins c1" "holds c2 d b" "same_log c1 c2" "cached c2 \<subseteq> insert b (cached c1)"
    "\<And>p n. holds c1 p n \<Longrightarrow> holds c2 p n \<and> p \<noteq> d \<and> blk c2 p = blk c1 p"
    by (rule acquire_effect) blast
  have hs: "holds c2 s a" using 2(10) 1(7) by blast
  have sl: "same_log c c2" using same_log_trans 1(8) 2(8) by blast
  have "a \<in> pins c2 \<or> cview c2 a = disk c2 a"
    using clean_view [OF inv(1), of a] inv(3) 1(4,6) 2(4,6) sl by (auto simp: same_log_def)
  note fc = finish_copy_effect [OF 2(2) hs 2(7) ab this]
  have "copied u a b k c (finish_copy u s d c2)" for u
    unfolding copied_def quiet_def
    using fc [of u] 2 1(4-6,9) sl inv(3) same_meta_trans [OF same_log_meta [OF sl]] by (auto simp: same_log_def)
  with 1(1,8) 2(1) sl show thesis by (intro that [of s c1 d c2]) auto
qed

lemma log_block_effect:
  assumes "quiet c" and "cache_mem c (Suc (Suc k))" and "i < length (hdr_block_no (hdr c))"
    and "hdr_block_no (hdr c) ! i \<noteq> log_no c i"
  shows "\<exists>c'. log_block i c = Inr c' \<and> copied False (hdr_block_no (hdr c) ! i) (log_no c i) k c c'"
proof -
  from assms(1,2,4) obtain s d c1 c2 where *: "cache_acquire (hdr_block_no (hdr c) ! i) c = Inr (s, c1)"
    "cache_acquire (log_no c i) c1 = Inr (d, c2)" "same_log c c1" "same_log c c2"
    "\<And>u. copied u (hdr_block_no (hdr c) ! i) (log_no c i) k c (finish_copy u s d c2)"
    by (rule copy_effect) blast
  then have "log_block i c = Inr (finish_copy False s d c2)"
    using assms(3) by (simp add: log_block_def log_no_def same_log_def finish_copy_def Let_def)
  with *(5) show ?thesis by blast
qed

lemma replay_block_effect:
  assumes "quiet c" and "cache_mem c (Suc (Suc k))" and "i < length (hdr_block_no (hdr c))"
    and "hdr_block_no (hdr c) ! i \<noteq> log_no c i"
  shows "\<exists>c'. replay_block i c = Inr c' \<and> copied True (log_no c i) (hdr_block_no (hdr c) ! i) k c c'"
proof -
  from assms(1,2) assms(4) [symmetric] obtain s d c1 c2 where *: "cache_acquire (log_no c i) c = Inr (s, c1)"
    "cache_acquire (hdr_block_no (hdr c) ! i) c1 = Inr (d, c2)" "same_log c c1" "same_log c c2"
    "\<And>u. copied u (log_no c i) (hdr_block_no (hdr c) ! i) k c (finish_copy u s d c2)"
    by (rule copy_effect) blast
  then have "replay_block i c = Inr (finish_copy True s d c2)"
    using assms(3) by (simp add: replay_block_def log_no_def same_log_def finish_copy_def Let_def)
  with *(5) show ?thesis by blast
qed

text \<open>The two loops: what they read does not change while they run.\<close>

definition loop_result :: "(u64 \<times> sector) list \<Rightarrow> u64 set \<Rightarrow> nat \<Rightarrow> bcache \<Rightarrow> bcache \<Rightarrow> bool" where
  "loop_result W P k c c' \<longleftrightarrow> quiet c' \<and> cache_mem c' k \<and> cview c' = apply_writes W (cview c)
     \<and> disk c' = apply_writes W (disk c) \<and> dev_trace c' = dev_trace c @ W \<and> pins c' = pins c - P \<and> same_meta c c'"

lemma apply_writes_Cons [simp]: "apply_writes ((n, d) # W) f = apply_writes W (f(n := d))"
  by (simp add: apply_writes_def)

lemma apply_writes_Nil [simp]: "apply_writes [] f = f"
  by (simp add: apply_writes_def)

lemma apply_writes_append: "apply_writes (V @ W) f = apply_writes W (apply_writes V f)"
  by (simp add: apply_writes_def)

definition log_writes :: "bcache \<Rightarrow> nat list \<Rightarrow> (u64 \<times> sector) list" where
  "log_writes c is = map (\<lambda>i. (log_no c i, cview c (hdr_block_no (hdr c) ! i))) is"

definition home_writes :: "bcache \<Rightarrow> nat list \<Rightarrow> (u64 \<times> sector) list" where
  "home_writes c is = map (\<lambda>i. (hdr_block_no (hdr c) ! i, cview c (log_no c i))) is"

lemma log_loop_effect:
  assumes "quiet c" and "cache_mem c (2 * length is + k)" and "\<And>i. i \<in> set is \<Longrightarrow> i < length (hdr_block_no (hdr c))"
    and "\<And>i j. i \<in> set is \<Longrightarrow> j \<in> set is \<Longrightarrow> hdr_block_no (hdr c) ! i \<noteq> log_no c j"
  shows "\<exists>c'. log_loop is c = Inr c' \<and> loop_result (log_writes c is) {} k c c'
    \<and> cached c' \<subseteq> cached c \<union> (\<lambda>i. hdr_block_no (hdr c) ! i) ` set is \<union> log_no c ` set is"
  using assms
proof (induction "is" arbitrary: c)
  case Nil
  then show ?case by (simp add: loop_result_def log_writes_def)
next
  case (Cons i "is")
  let ?n = "\<lambda>i. hdr_block_no (hdr c) ! i"
  have "cache_mem c (Suc (Suc (2 * length is + k)))" using Cons.prems(2) by simp
  from log_block_effect [OF Cons.prems(1) this, of i] Cons.prems(3,4)
  obtain c1 where c1: "log_block i c = Inr c1" "copied False (?n i) (log_no c i) (2 * length is + k) c c1"
    by auto
  then have sm: "hdr c1 = hdr c" "log_no c1 = log_no c"
    by (auto simp: copied_def same_meta_def log_no_def fun_eq_iff)
  have W: "log_writes c1 is = log_writes c is"
    using c1(2) Cons.prems(4) by (auto simp: log_writes_def sm copied_def)
  have "\<exists>c'. log_loop is c1 = Inr c' \<and> loop_result (log_writes c1 is) {} k c1 c'
    \<and> cached c' \<subseteq> cached c1 \<union> (\<lambda>i. hdr_block_no (hdr c1) ! i) ` set is \<union> log_no c1 ` set is"
    using c1(2) Cons.prems(3,4) by (intro Cons.IH) (auto simp: copied_def sm)
  then obtain c' where c': "log_loop is c1 = Inr c'" "loop_result (log_writes c is) {} k c1 c'"
    "cached c' \<subseteq> cached c1 \<union> ?n ` set is \<union> log_no c ` set is" by (auto simp: W sm)
  have "loop_result (log_writes c (i # is)) {} k c c'"
    using c1(2) c'(2) same_meta_trans [of c c1 c'] by (simp add: loop_result_def copied_def log_writes_def)
  moreover have "cached c' \<subseteq> cached c \<union> ?n ` set (i # is) \<union> log_no c ` set (i # is)"
    using c'(3) c1(2) by (auto simp: copied_def)
  ultimately show ?case using c1(1) c'(1) by auto
qed

lemma replay_loop_effect:
  assumes "quiet c" and "cache_mem c (2 * length is + k)" and "\<And>i. i \<in> set is \<Longrightarrow> i < length (hdr_block_no (hdr c))"
    and "\<And>i j. i \<in> set is \<Longrightarrow> j \<in> set is \<Longrightarrow> hdr_block_no (hdr c) ! i \<noteq> log_no c j"
  shows "\<exists>c'. replay_loop is c = Inr c'
    \<and> loop_result (home_writes c is) ((\<lambda>i. hdr_block_no (hdr c) ! i) ` set is) k c c'
    \<and> cached c' \<subseteq> cached c \<union> (\<lambda>i. hdr_block_no (hdr c) ! i) ` set is \<union> log_no c ` set is"
  using assms
proof (induction "is" arbitrary: c)
  case Nil
  then show ?case by (simp add: loop_result_def home_writes_def)
next
  case (Cons i "is")
  let ?n = "\<lambda>i. hdr_block_no (hdr c) ! i"
  have "cache_mem c (Suc (Suc (2 * length is + k)))" using Cons.prems(2) by simp
  from replay_block_effect [OF Cons.prems(1) this, of i] Cons.prems(3,4)
  obtain c1 where c1: "replay_block i c = Inr c1" "copied True (log_no c i) (?n i) (2 * length is + k) c c1"
    by auto
  then have sm: "hdr c1 = hdr c" "log_no c1 = log_no c"
    by (auto simp: copied_def same_meta_def log_no_def fun_eq_iff)
  have W: "home_writes c1 is = home_writes c is"
    using c1(2) Cons.prems(4) by (fastforce simp: home_writes_def sm copied_def)
  have "\<exists>c'. replay_loop is c1 = Inr c' \<and> loop_result (home_writes c1 is) ((\<lambda>i. hdr_block_no (hdr c1) ! i) ` set is) k c1 c'
    \<and> cached c' \<subseteq> cached c1 \<union> (\<lambda>i. hdr_block_no (hdr c1) ! i) ` set is \<union> log_no c1 ` set is"
    using c1(2) Cons.prems(3,4) by (intro Cons.IH) (auto simp: copied_def sm)
  then obtain c' where c': "replay_loop is c1 = Inr c'" "loop_result (home_writes c is) (?n ` set is) k c1 c'"
    "cached c' \<subseteq> cached c1 \<union> ?n ` set is \<union> log_no c ` set is" by (auto simp: W sm)
  have "loop_result (home_writes c (i # is)) (?n ` set (i # is)) k c c'"
    using c1(2) c'(2) same_meta_trans [of c c1 c'] by (auto simp: loop_result_def copied_def home_writes_def)
  moreover have "cached c' \<subseteq> cached c \<union> ?n ` set (i # is) \<union> log_no c ` set (i # is)"
    using c'(3) c1(2) by (auto simp: copied_def)
  ultimately show ?case using c1(1) c'(1) by auto
qed

section \<open>Replay and checkpoint\<close>

text \<open>The blocks behind the log header, and the logging area of the disk layout: the header and these blocks.\<close>

definition log_len :: "SuperBlock \<Rightarrow> nat" where
  "log_len sb = unat (sb_num_log_blocks sb) - 1"

definition log_area :: "bcache \<Rightarrow> u64 set" where
  "log_area c = insert (log_header_no c) (log_no c ` {..< log_len (sblock c)})"

text \<open>The log lies behind its header, the logged blocks outside it, and the header block is not cached.\<close>

definition log_ready :: "bcache \<Rightarrow> bool" where
  "log_ready c \<longleftrightarrow> log_start c = log_header_no c + 1 \<and> length (hdr_block_no (hdr c)) = LOG_MAX_SIZE
     \<and> unat (hdr_num_blocks (hdr c)) \<le> LOG_MAX_SIZE \<and> unat (hdr_num_blocks (hdr c)) \<le> log_len (sblock c)
     \<and> set (hdr_nos (hdr c)) \<inter> log_area c = {} \<and> log_header_no c \<notin> cached c"

lemma log_no_inj: "i < LOG_MAX_SIZE \<Longrightarrow> j < LOG_MAX_SIZE \<Longrightarrow> log_no c i = log_no c j \<longleftrightarrow> i = j"
  by (auto simp: log_no_def LOG_MAX_SIZE_def BLOCK_SIZE_def dest!: arg_cong [of _ _ unat] simp: unat_of_nat)

lemma log_no_header:
  assumes "log_start c = log_header_no c + 1" and "i < LOG_MAX_SIZE"
  shows "log_no c i \<noteq> log_header_no c"
proof
  assume "log_no c i = log_header_no c"
  then have "(of_nat (Suc i) :: u64) = 0" by (simp add: log_no_def assms(1) add.assoc)
  then show False
    using assms(2) unat_of_nat_ptr [of "Suc i"] by (simp add: LOG_MAX_SIZE_def BLOCK_SIZE_def)
qed

lemma hdr_nos_nth:
  "length (hdr_block_no h) = LOG_MAX_SIZE \<Longrightarrow> unat (hdr_num_blocks h) \<le> LOG_MAX_SIZE
   \<Longrightarrow> (\<lambda>i. hdr_block_no h ! i) ` {0 ..< unat (hdr_num_blocks h)} = set (hdr_nos h)"
  by (simp add: hdr_nos_def nth_image)

lemma log_ready_apart:
  assumes "log_ready c" and "i < unat (hdr_num_blocks (hdr c))" and "j < log_len (sblock c)"
  shows "hdr_block_no (hdr c) ! i \<noteq> log_no c j" "hdr_block_no (hdr c) ! i \<noteq> log_header_no c"
proof -
  have "hdr_block_no (hdr c) ! i \<in> set (hdr_nos (hdr c))"
    using assms(1,2) hdr_nos_nth [of "hdr c"] by (auto simp: log_ready_def)
  then show "hdr_block_no (hdr c) ! i \<noteq> log_no c j" "hdr_block_no (hdr c) ! i \<noteq> log_header_no c"
    using assms(1,3) by (auto simp: log_ready_def log_area_def)
qed

lemma header_untouched:
  assumes "log_ready c"
  shows "log_header_no c \<notin> cached c \<union> (\<lambda>i. hdr_block_no (hdr c) ! i) ` {0 ..< unat (hdr_num_blocks (hdr c))}
    \<union> log_no c ` {0 ..< unat (hdr_num_blocks (hdr c))}"
proof -
  have "log_header_no c \<noteq> hdr_block_no (hdr c) ! i" "log_header_no c \<noteq> log_no c i"
    if "i \<in> {0 ..< unat (hdr_num_blocks (hdr c))}" for i
    using that assms log_ready_apart(2) [OF assms, of i i] log_no_header [of c i] by (auto simp: log_ready_def)
  moreover have "log_header_no c \<notin> cached c" using assms by (simp add: log_ready_def)
  ultimately show ?thesis by blast
qed

lemma dev_write_uncached:
  assumes inv: "cache_inv c" and n: "n \<notin> cached c" and len: "length d = BLOCK_SIZE"
  shows "cache_inv (dev_write n d c)" "cview (dev_write n d c) = (cview c)(n := d)"
    "held (dev_write n d c) = held c" "pins (dev_write n d c) = pins c" "cached (dev_write n d c) = cached c"
    "cache_mem (dev_write n d c) = cache_mem c"
proof -
  have ne: "blk_no (blk c p) \<noteq> n" if "p \<in> set (lru c)" for p using n that by (auto simp: cached_def)
  then have "block_inv (dev_write n d c) p" if "p \<in> set (lru c)" for p
    using inv that by (auto simp: cache_inv_def block_inv_def Let_def)
  then show "cache_inv (dev_write n d c)" using inv len by (simp add: cache_inv_def)
  have "cview (dev_write n d c) n = d" using cview_disk [of "dev_write n d c" n] ne by auto
  then show "cview (dev_write n d c) = (cview c)(n := d)"
    by (auto simp: fun_eq_iff cview_dev_write_other)
qed (simp_all add: held_def pins_def cached_def cache_mem_def fun_eq_iff)

lemma cview_meta [simp]:
  "cview (c\<lparr>hdr := h\<rparr>) = cview c" "held (c\<lparr>hdr := h\<rparr>) = held c" "pins (c\<lparr>hdr := h\<rparr>) = pins c"
  "cached (c\<lparr>hdr := h\<rparr>) = cached c" "cache_mem (c\<lparr>hdr := h\<rparr>) = cache_mem c" "cache_inv (c\<lparr>hdr := h\<rparr>) = cache_inv c"
  "cview (c\<lparr>last_persisted_ts := t\<rparr>) = cview c" "held (c\<lparr>last_persisted_ts := t\<rparr>) = held c"
  "pins (c\<lparr>last_persisted_ts := t\<rparr>) = pins c" "cached (c\<lparr>last_persisted_ts := t\<rparr>) = cached c"
  "cache_mem (c\<lparr>last_persisted_ts := t\<rparr>) = cache_mem c" "cache_inv (c\<lparr>last_persisted_ts := t\<rparr>) = cache_inv c"
  "cview (c\<lparr>asleep := l\<rparr>) = cview c" "held (c\<lparr>asleep := l\<rparr>) = held c" "pins (c\<lparr>asleep := l\<rparr>) = pins c"
  "cached (c\<lparr>asleep := l\<rparr>) = cached c" "cache_mem (c\<lparr>asleep := l\<rparr>) = cache_mem c" "cache_inv (c\<lparr>asleep := l\<rparr>) = cache_inv c"
  by (simp_all add: cview_def held_def pins_def cached_def cache_mem_def cache_inv_def block_inv_def fun_eq_iff
      split: option.split)

lemma write_header_effect:
  assumes "quiet c" and "cache_mem c k" and "log_header_no c \<notin> cached c" and "length (hdr_block_no (hdr c)) = LOG_MAX_SIZE"
  shows "loop_result [(log_header_no c, header_bytes (hdr c))] {} k c (write_header c) \<and> cached (write_header c) = cached c"
  using dev_write_uncached [of c "log_header_no c" "header_bytes (hdr c)"] assms
  by (simp add: quiet_def write_header_def loop_result_def length_header_bytes same_meta_def)

lemma loop_result_trans:
  assumes "loop_result W P j c c1" and "loop_result V Q k c1 c2"
  shows "loop_result (W @ V) (P \<union> Q) k c c2"
  using assms same_meta_trans [of c c1 c2] by (auto simp: loop_result_def apply_writes_append)

definition clear_header :: "LogHeader \<Rightarrow> LogHeader" where
  "clear_header h = h\<lparr>hdr_num_blocks := 0\<rparr>"

definition replay_writes :: "bcache \<Rightarrow> (u64 \<times> sector) list" where
  "replay_writes c = (if hdr_num_blocks (hdr c) = 0 then [] else
     home_writes c [0 ..< unat (hdr_num_blocks (hdr c))] @ [(log_header_no c, header_bytes (clear_header (hdr c)))])"

lemma replay_effect:
  assumes q: "quiet c" and mem: "cache_mem c (2 * unat (hdr_num_blocks (hdr c)) + k)" and log: "log_ready c"
  shows "\<exists>c'. replay c = Inr c' \<and> quiet c' \<and> cache_mem c' k \<and> cview c' = apply_writes (replay_writes c) (cview c)
     \<and> disk c' = apply_writes (replay_writes c) (disk c) \<and> dev_trace c' = dev_trace c @ replay_writes c
     \<and> pins c' = pins c - set (hdr_nos (hdr c)) \<and> same_meta (c\<lparr>hdr := clear_header (hdr c)\<rparr>) c'
     \<and> log_header_no c' \<notin> cached c'"
proof (cases "hdr_num_blocks (hdr c) = 0")
  case True
  then have "clear_header (hdr c) = hdr c" by (simp add: clear_header_def)
  with True show ?thesis
    using q mem log by (simp add: replay_def replay_writes_def hdr_nos_def same_meta_def log_ready_def)
next
  case False
  let ?n = "unat (hdr_num_blocks (hdr c))" and ?H = "log_header_no c"
  have len: "length (hdr_block_no (hdr c)) = LOG_MAX_SIZE" "?n \<le> LOG_MAX_SIZE" "?H \<notin> cached c"
    using log by (auto simp: log_ready_def)
  have len2: "?n \<le> log_len (sblock c)" using log by (simp add: log_ready_def)
  have "\<exists>c1. replay_loop [0 ..< ?n] c = Inr c1
    \<and> loop_result (home_writes c [0 ..< ?n]) ((\<lambda>i. hdr_block_no (hdr c) ! i) ` set [0 ..< ?n]) k c c1
    \<and> cached c1 \<subseteq> cached c \<union> (\<lambda>i. hdr_block_no (hdr c) ! i) ` set [0 ..< ?n] \<union> log_no c ` set [0 ..< ?n]"
    using mem len len2 log_ready_apart(1) [OF log] by (intro replay_loop_effect q) auto
  then obtain c1 where c1: "replay_loop [0 ..< ?n] c = Inr c1"
    "loop_result (home_writes c [0 ..< ?n]) (set (hdr_nos (hdr c))) k c c1"
    "cached c1 \<subseteq> cached c \<union> (\<lambda>i. hdr_block_no (hdr c) ! i) ` {0 ..< ?n} \<union> log_no c ` {0 ..< ?n}"
    by (auto simp: hdr_nos_nth len)
  define c2 where "c2 = c1\<lparr>hdr := clear_header (hdr c)\<rparr>"
  have m1: "same_meta c c1" using c1(2) by (simp add: loop_result_def)
  have H2: "log_header_no c2 = ?H" using m1 by (simp add: c2_def log_header_no_def same_meta_def)
  have H1: "?H \<notin> cached c1" using c1(3) header_untouched [OF log] by blast
  then have wh: "loop_result [(?H, header_bytes (clear_header (hdr c)))] {} k c2 (write_header c2)"
      "cached (write_header c2) = cached c1"
    using write_header_effect [of c2 k] c1(2) len(1) H2
    by (simp_all add: c2_def loop_result_def quiet_def clear_header_def)
  have "replay c = Inr (write_header c2)"
    using False c1(1) m1 by (simp add: replay_def c2_def clear_header_def same_meta_def)
  moreover have "same_meta c2 (write_header c2)" "same_meta (c\<lparr>hdr := clear_header (hdr c)\<rparr>) c2"
    using wh(1) m1 by (simp_all add: loop_result_def c2_def same_meta_def)
  moreover from this have "log_header_no (write_header c2) = ?H"
    by (simp add: same_meta_def log_header_no_def)
  moreover have "replay_writes c = home_writes c [0 ..< ?n] @ [(?H, header_bytes (clear_header (hdr c)))]"
    using False by (simp add: replay_writes_def)
  ultimately show ?thesis
    using wh c1(2) H1 same_meta_trans
    by (intro exI [of _ "write_header c2"]) (auto simp: loop_result_def apply_writes_append c2_def)
qed

lemma apply_writes_other: "m \<notin> fst ` set W \<Longrightarrow> apply_writes W f m = f m"
  by (induction W arbitrary: f) auto

lemma apply_writes_val:
  "m \<in> fst ` set W \<Longrightarrow> (\<And>d. (m, d) \<in> set W \<Longrightarrow> d = v) \<Longrightarrow> apply_writes W f m = v"
proof (induction W rule: rev_induct)
  case (snoc w W)
  then show ?case by (cases w) (auto simp: apply_writes_append)
qed simp

text \<open>The device writes of \<^verbatim>\<open>checkpoint\<close>: log blocks, header, home locations, cleared header.\<close>

definition ckpt_writes :: "bcache \<Rightarrow> (u64 \<times> sector) list" where
  "ckpt_writes c = log_writes c [0 ..< unat (hdr_num_blocks (hdr c))]
     @ [(log_header_no c, header_bytes (hdr c))]
     @ (if hdr_num_blocks (hdr c) = 0 then [] else
         map (\<lambda>n. (n, cview c n)) (hdr_nos (hdr c)) @ [(log_header_no c, header_bytes (clear_header (hdr c)))])"

lemma log_writes_val:
  assumes "i < n" and "n \<le> LOG_MAX_SIZE"
  shows "apply_writes (log_writes c [0 ..< n]) f (log_no c i) = cview c (hdr_block_no (hdr c) ! i)"
proof (rule apply_writes_val)
  show "log_no c i \<in> fst ` set (log_writes c [0 ..< n])"
    using assms(1) by (force simp: log_writes_def)
  fix d assume "(log_no c i, d) \<in> set (log_writes c [0 ..< n])"
  then obtain j where "j < n" "log_no c j = log_no c i" "d = cview c (hdr_block_no (hdr c) ! j)"
    by (auto simp: log_writes_def)
  with assms show "d = cview c (hdr_block_no (hdr c) ! i)" using log_no_inj [of j i c] by simp
qed

lemma home_writes_after_log:
  assumes log: "log_ready c" and "hdr c2 = hdr c" "log_no c2 = log_no c"
    and view: "cview c2 = apply_writes (log_writes c [0 ..< unat (hdr_num_blocks (hdr c))] @ [(log_header_no c, x)]) (cview c)"
  shows "home_writes c2 [0 ..< unat (hdr_num_blocks (hdr c))] = map (\<lambda>n. (n, cview c n)) (hdr_nos (hdr c))"
proof -
  let ?n = "unat (hdr_num_blocks (hdr c))" and ?nos = "hdr_block_no (hdr c)"
  have len: "length ?nos = LOG_MAX_SIZE" "?n \<le> LOG_MAX_SIZE" using log by (auto simp: log_ready_def)
  have "cview c2 (log_no c i) = cview c (?nos ! i)" if "i < ?n" for i
    using that len(2) log_no_header [of c i] log log_writes_val [OF that len(2), of c "cview c"]
    by (simp add: view apply_writes_append log_ready_def)
  then show ?thesis
    using len by (intro nth_equalityI) (simp_all add: home_writes_def hdr_nos_def assms)
qed

lemma checkpoint_effect:
  assumes q: "quiet c" and mem: "cache_mem c (4 * unat (hdr_num_blocks (hdr c)) + k)" and log: "log_ready c"
  shows "\<exists>c'. checkpoint c = Inr c' \<and> quiet c' \<and> cache_mem c' k \<and> cview c' = apply_writes (ckpt_writes c) (cview c)
     \<and> disk c' = apply_writes (ckpt_writes c) (disk c) \<and> dev_trace c' = dev_trace c @ ckpt_writes c
     \<and> pins c' = pins c - set (hdr_nos (hdr c))
     \<and> same_meta (wake LastPersisted (c\<lparr>hdr := clear_header (hdr c), last_persisted_ts := last_allocated_ts c\<rparr>)) c'
     \<and> log_header_no c' \<notin> cached c'"
proof -
  let ?n = "unat (hdr_num_blocks (hdr c))" and ?H = "log_header_no c"
  have len: "length (hdr_block_no (hdr c)) = LOG_MAX_SIZE" "?n \<le> LOG_MAX_SIZE" "?H \<notin> cached c"
    using log by (auto simp: log_ready_def)
  have len2: "?n \<le> log_len (sblock c)" using log by (simp add: log_ready_def)
  have "\<exists>c1. log_loop [0 ..< ?n] c = Inr c1 \<and> loop_result (log_writes c [0 ..< ?n]) {} (2 * ?n + k) c c1
    \<and> cached c1 \<subseteq> cached c \<union> (\<lambda>i. hdr_block_no (hdr c) ! i) ` set [0 ..< ?n] \<union> log_no c ` set [0 ..< ?n]"
    using mem len len2 log_ready_apart(1) [OF log] by (intro log_loop_effect q) auto
  then obtain c1 where c1: "log_loop [0 ..< ?n] c = Inr c1" "loop_result (log_writes c [0 ..< ?n]) {} (2 * ?n + k) c c1"
    "cached c1 \<subseteq> cached c \<union> (\<lambda>i. hdr_block_no (hdr c) ! i) ` {0 ..< ?n} \<union> log_no c ` {0 ..< ?n}"
    by auto
  have H1: "?H \<notin> cached c1" using c1(3) header_untouched [OF log] by blast
  have m1: "same_meta c c1" using c1(2) by (simp add: loop_result_def)
  then have eq1: "log_header_no c1 = ?H" "hdr c1 = hdr c" "log_no c1 = log_no c"
    by (simp_all add: same_meta_def log_header_no_def log_no_def fun_eq_iff)
  define c2 where "c2 = write_header c1"
  have wh: "loop_result [(?H, header_bytes (hdr c))] {} (2 * ?n + k) c1 c2" "cached c2 = cached c1"
    using write_header_effect [of c1 "2 * ?n + k"] c1(2) H1 len(1) by (simp_all add: c2_def eq1 loop_result_def)
  have r2: "loop_result (log_writes c [0 ..< ?n] @ [(?H, header_bytes (hdr c))]) {} (2 * ?n + k) c c2"
    using loop_result_trans [OF c1(2) wh(1)] by simp
  then have m2: "same_meta c c2" by (simp add: loop_result_def)
  then have eq2: "log_header_no c2 = ?H" "hdr c2 = hdr c" "log_no c2 = log_no c" "log_start c2 = log_start c" "sblock c2 = sblock c"
    by (simp_all add: same_meta_def log_header_no_def log_no_def fun_eq_iff)
  have "log_ready c2" using log H1 by (simp add: log_ready_def eq2 log_area_def wh(2))
  with r2 obtain c3 where c3: "replay c2 = Inr c3" "quiet c3" "cache_mem c3 k"
    "cview c3 = apply_writes (replay_writes c2) (cview c2)" "disk c3 = apply_writes (replay_writes c2) (disk c2)"
    "dev_trace c3 = dev_trace c2 @ replay_writes c2" "pins c3 = pins c2 - set (hdr_nos (hdr c))"
    "same_meta (c2\<lparr>hdr := clear_header (hdr c)\<rparr>) c3" "log_header_no c3 \<notin> cached c3"
    using replay_effect [of c2 k] by (auto simp: loop_result_def eq2)
  have "replay_writes c2 = (if hdr_num_blocks (hdr c) = 0 then [] else
         map (\<lambda>n. (n, cview c n)) (hdr_nos (hdr c)) @ [(?H, header_bytes (clear_header (hdr c)))])"
    using home_writes_after_log [OF log eq2(2,3)] r2 by (simp add: replay_writes_def eq2 loop_result_def)
  then have W: "ckpt_writes c = (log_writes c [0 ..< ?n] @ [(?H, header_bytes (hdr c))]) @ replay_writes c2"
    by (simp add: ckpt_writes_def)
  define c4 where "c4 = wake LastPersisted (c3\<lparr>last_persisted_ts := last_allocated_ts c3\<rparr>)"
  have "checkpoint c = Inr c4"
    using c1(1) c3(1) by (simp add: checkpoint_def c2_def c4_def)
  moreover have "same_meta (wake LastPersisted (c\<lparr>hdr := clear_header (hdr c), last_persisted_ts := last_allocated_ts c\<rparr>)) c4"
    using c3(8) m2 by (simp add: same_meta_def c4_def wake_def)
  ultimately show ?thesis
    using c3 r2 by (intro exI [of _ c4]) (simp add: W apply_writes_append loop_result_def c4_def wake_def log_header_no_def quiet_def)
qed

section \<open>Recovery\<close>

definition sb_header_no :: "SuperBlock \<Rightarrow> u64" where
  "sb_header_no sb = ucast (sb_log_start sb)"

definition sb_log_no :: "SuperBlock \<Rightarrow> nat \<Rightarrow> u64" where
  "sb_log_no sb i = sb_header_no sb + 1 + of_nat i"

definition sb_log_area :: "SuperBlock \<Rightarrow> u64 set" where
  "sb_log_area sb = insert (sb_header_no sb) (sb_log_no sb ` {..< log_len sb})"

text \<open>The disk recovery leaves: the blocks a committed log names are copied to their places.\<close>

definition recovery_writes :: "SuperBlock \<Rightarrow> (u64 \<Rightarrow> sector) \<Rightarrow> (u64 \<times> sector) list" where
  "recovery_writes sb d =
     (let h = header_of_bytes (d (sb_header_no sb))
      in if hdr_num_blocks h = 0 then []
         else map (\<lambda>i. (hdr_block_no h ! i, d (sb_log_no sb i))) [0 ..< unat (hdr_num_blocks h)]
           @ [(sb_header_no sb, header_bytes (clear_header h))])"

definition recovered :: "SuperBlock \<Rightarrow> (u64 \<Rightarrow> sector) \<Rightarrow> u64 \<Rightarrow> sector" where
  "recovered sb d = apply_writes (recovery_writes sb d) d"

lemma recovered_alt:
  "recovered sb d =
     (let h = header_of_bytes (d (sb_header_no sb))
      in if hdr_num_blocks h = 0 then d
         else apply_writes (map (\<lambda>i. (hdr_block_no h ! i, d (sb_log_no sb i))) [0 ..< unat (hdr_num_blocks h)]
           @ [(sb_header_no sb, header_bytes (clear_header h))]) d)"
  by (simp add: recovered_def recovery_writes_def Let_def)

definition log_on_disk_ok :: "SuperBlock \<Rightarrow> (u64 \<Rightarrow> sector) \<Rightarrow> bool" where
  "log_on_disk_ok sb d \<longleftrightarrow> (\<forall>n. length (d n) = BLOCK_SIZE) \<and> sb_num_log_blocks sb \<noteq> 0
     \<and> (let h = header_of_bytes (d (sb_header_no sb))
        in unat (hdr_num_blocks h) \<le> LOG_MAX_SIZE \<and> unat (hdr_num_blocks h) \<le> log_len sb \<and> set (hdr_nos h) \<inter> sb_log_area sb = {})"

text \<open>The log the cache uses lies in the logging area, behind the header.\<close>

definition log_fits :: "bcache \<Rightarrow> bool" where
  "log_fits c \<longleftrightarrow> log_start c = log_header_no c + 1 \<and> unat (log_size c) \<le> log_len (sblock c) \<and> unat (log_size c) \<le> LOG_MAX_SIZE"

text \<open>A machine that boots: the page allocator has at least 21 pages for the cache.\<close>

definition boot_mem :: "bcache \<Rightarrow> bool" where
  "boot_mem c \<longleftrightarrow> (\<exists>fs A pl. kheap_rep (kh c) fs A pl \<and> bc_arena c \<notin> A \<and> 21 \<le> length fs)"

lemma init_bcache_recovers:
  assumes mem: "boot_mem c" and log: "log_on_disk_ok sb (disk c)"
  shows "\<exists>c'. init_bcache sb c = Inr c' \<and> quiet c' \<and> pins c' = {} \<and> disk c' = recovered sb (disk c)
    \<and> dev_trace c' = dev_trace c @ recovery_writes sb (disk c) \<and> cview c' = disk c' \<and> hdr_num_blocks (hdr c') = 0 \<and> op_count c' = 0 \<and> log_used c' = 0
    \<and> sblock c' = sb \<and> log_fits c'"
proof -
  obtain fs A pl where rep: "kheap_rep (kh c) fs A pl" "bc_arena c \<notin> A" "21 \<le> length fs"
    using mem by (auto simp: boot_mem_def)
  obtain h where h: "init_arena (bc_arena c) sizeof_Block (kh c) = Inr h"
    "kheap_rep h fs (insert (bc_arena c) A) (pl(bc_arena c := []))"
    using init_arena_rep [OF rep(1,2), of sizeof_Block] by (auto simp: sizeof_Block_def)
  define c1 where "c1 = read_header (c\<lparr>sblock := sb, kh := h, lru := [], last_allocated_ts := 0, last_persisted_ts := 0,
                   log_start := ucast (sb_log_start sb) + 1,
                   log_size := c_MIN (ucast (sb_num_log_blocks sb - 1)) (of_nat LOG_MAX_SIZE),
                   log_used := 0, op_count := 0\<rparr>)"
  have eq: "init_bcache sb c = replay c1"
    by (simp add: init_bcache_def h(1) c1_def)
  have H: "log_header_no c1 = sb_header_no sb" "log_no c1 = sb_log_no sb" "log_area c1 = sb_log_area sb"
    and hd: "hdr c1 = header_of_bytes (disk c (sb_header_no sb))" and d1: "disk c1 = disk c" "lru c1 = []"
    and oth: "op_count c1 = 0" "log_used c1 = 0" "dev_trace c1 = dev_trace c" "sblock c1 = sb"
    by (simp_all add: c1_def read_header_def log_header_no_def sb_header_no_def log_no_def sb_log_no_def fun_eq_iff
        log_area_def sb_log_area_def)
  have q: "quiet c1" "pins c1 = {}" and view: "cview c1 = disk c"
    using log by (auto simp: quiet_def cache_inv_def held_def pins_def d1 log_on_disk_ok_def cview_def fun_eq_iff)
  have "slots h (bc_arena c) = 6"
    using arena_core_slots(3) [OF kheap_rep_arena(2) [OF h(2)], of "bc_arena c"] h(1)
    by (auto simp: init_arena_def sizeof_Block_def arena_consts)
  then have "arena_objs (bc_arena c) (insert (bc_arena c) A) h (live h (bc_arena c) []) (length fs * 6)"
    unfolding arena_objs_def using h(2)
    by (intro exI [of _ fs] exI [of _ "pl(bc_arena c := [])"]) (simp add: avail_def)
  then have "cache_mem c1 126"
    unfolding cache_mem_def using rep(3)
    by (rule_tac exI [of _ "insert (bc_arena c) A"], rule_tac exI [of _ "live h (bc_arena c) []"], rule_tac exI [of _ "length fs * 6"])
      (simp add: c1_def read_header_def)
  moreover have n: "unat (hdr_num_blocks (hdr c1)) \<le> 63"
    using log by (simp add: log_on_disk_ok_def hd Let_def LOG_MAX_SIZE_def BLOCK_SIZE_def)
  ultimately have mem1: "cache_mem c1 (2 * unat (hdr_num_blocks (hdr c1)) + 0)"
    by (rule_tac cache_mem_mono) auto
  have "log_ready c1"
    using log length_header_of_bytes [of "disk c (sb_header_no sb)"]
    by (simp add: log_ready_def H hd log_on_disk_ok_def Let_def cached_def d1 oth)
      (simp add: c1_def read_header_def sb_header_no_def)
  from replay_effect [OF q(1) mem1 this] obtain c' where c': "replay c1 = Inr c'" "quiet c'"
    "cview c' = apply_writes (replay_writes c1) (cview c1)" "disk c' = apply_writes (replay_writes c1) (disk c1)"
    "pins c' = pins c1 - set (hdr_nos (hdr c1))" "same_meta (c1\<lparr>hdr := clear_header (hdr c1)\<rparr>) c'"
    "dev_trace c' = dev_trace c1 @ replay_writes c1" by blast
  have "replay_writes c1 = recovery_writes sb (disk c)"
    by (simp add: replay_writes_def recovery_writes_def home_writes_def H hd view Let_def)
  moreover have "log_fits c1"
  proof -
    have "sb_num_log_blocks sb \<noteq> 0" using log by (simp add: log_on_disk_ok_def)
    then have "unat (sb_num_log_blocks sb - 1) = log_len sb" by (simp add: log_len_def unat_minus_one)
    moreover have "unat (sb_num_log_blocks sb - 1) < 2 ^ 32" using unsigned_less [of "sb_num_log_blocks sb - 1"] by simp
    ultimately have "unat (ucast (sb_num_log_blocks sb - 1) :: u64) = log_len sb"
      by (simp add: unsigned_ucast_eq take_bit_nat_eq_self)
    then show ?thesis
      by (simp add: log_fits_def c1_def read_header_def log_header_no_def c_MIN_def word_le_nat_alt LOG_MAX_SIZE_def BLOCK_SIZE_def)
  qed
  ultimately show ?thesis
    using c' eq q(2) by (simp add: d1 view same_meta_def clear_header_def oth recovered_def log_fits_def log_header_no_def)
qed

section \<open>Ending an operation\<close>

text \<open>
  The state in which the only outstanding operation ends: nothing is held, every pinned block is
  recorded in the header (by operations that ended before) or in the operation, the log
  has room for them, and the log on disk is empty.
\<close>

definition last_op :: "bcache \<Rightarrow> OpContext \<Rightarrow> bool" where
  "last_op c x \<longleftrightarrow> quiet c \<and> hdr_ok (hdr c) \<and> ctx_ok x \<and> op_count c = 1 \<and> log_fits c
     \<and> length (hdr_nos (hdr c)) + 10 \<le> unat (log_size c)
     \<and> cache_mem c (4 * (length (hdr_nos (hdr c)) + length (ctx_nos x)))
     \<and> pins c \<subseteq> set (hdr_nos (hdr c)) \<union> set (ctx_nos x)
     \<and> (set (hdr_nos (hdr c)) \<union> set (ctx_nos x)) \<inter> log_area c = {}
     \<and> log_header_no c \<notin> cached c \<and> hdr_num_blocks (header_of_bytes (disk c (log_header_no c))) = 0"

lemma commit_effect:
  assumes "last_op c x"
  obtains h u where "commit x c = Inr (wake LogUsed (c\<lparr>hdr := h, log_used := u\<rparr>))" "hdr_ok h"
    "set (hdr_nos h) = set (hdr_nos (hdr c)) \<union> set (ctx_nos x)"
    "unat (hdr_num_blocks h) \<le> length (hdr_nos (hdr c)) + length (ctx_nos x)" "unat (hdr_num_blocks h) \<le> log_len (sblock c)"
proof -
  have ok: "hdr_ok (hdr c)" "ctx_ok x" and size: "unat (log_size c) \<le> LOG_MAX_SIZE" "length (hdr_nos (hdr c)) + 10 \<le> unat (log_size c)"
    and fit: "unat (log_size c) \<le> log_len (sblock c)"
    using assms by (auto simp: last_op_def log_fits_def)
  have "length (filter (\<lambda>n. n \<notin> set (hdr_nos (hdr c))) (ctx_nos x)) \<le> 10"
    using length_filter_le [of _ "ctx_nos x"] length_ctx_nos [OF ok(2)] ok(2)
    by (metis OP_MAX_NUM_BLOCKS_def ctx_ok_def le_trans)
  then have sum: "length (hdr_nos (hdr c)) + length (filter (\<lambda>n. n \<notin> set (hdr_nos (hdr c))) (ctx_nos x)) \<le> unat (log_size c)"
    using size(2) by linarith
  from commit_loop_ok [OF ok(1) _ size(1) sum, of 0] ok(2)
  obtain a h where h: "commit_loop (log_size c) (ctx_nos x) (0, hdr c) = Inr (a, h)" "hdr_ok h"
    "hdr_nos h = hdr_nos (hdr c) @ filter (\<lambda>n. n \<notin> set (hdr_nos (hdr c))) (ctx_nos x)"
    by (auto simp: ctx_ok_def)
  moreover have "unat (hdr_num_blocks h) \<le> length (hdr_nos (hdr c)) + length (ctx_nos x)"
    using length_hdr_nos [OF h(2)] length_filter_le [of "\<lambda>n. n \<notin> set (hdr_nos (hdr c))" "ctx_nos x"]
    unfolding h(3) length_append by linarith
  moreover have "unat (hdr_num_blocks h) \<le> log_len (sblock c)"
    using length_hdr_nos [OF h(2)] sum fit unfolding h(3) length_append by linarith
  ultimately show thesis
    using ok(2) by (intro that) (auto simp: commit_def ctx_nos_def [symmetric] ctx_ok_def Let_def)
qed

lemma meta_frame [simp]:
  "cview (c\<lparr>log_used := u\<rparr>) = cview c" "held (c\<lparr>log_used := u\<rparr>) = held c" "pins (c\<lparr>log_used := u\<rparr>) = pins c"
  "cached (c\<lparr>log_used := u\<rparr>) = cached c" "cache_mem (c\<lparr>log_used := u\<rparr>) = cache_mem c" "cache_inv (c\<lparr>log_used := u\<rparr>) = cache_inv c"
  "cview (c\<lparr>log_size := u\<rparr>) = cview c" "held (c\<lparr>log_size := u\<rparr>) = held c" "pins (c\<lparr>log_size := u\<rparr>) = pins c"
  "cached (c\<lparr>log_size := u\<rparr>) = cached c" "cache_mem (c\<lparr>log_size := u\<rparr>) = cache_mem c" "cache_inv (c\<lparr>log_size := u\<rparr>) = cache_inv c"
  "cview (c\<lparr>op_count := u\<rparr>) = cview c" "held (c\<lparr>op_count := u\<rparr>) = held c" "pins (c\<lparr>op_count := u\<rparr>) = pins c"
  "cached (c\<lparr>op_count := u\<rparr>) = cached c" "cache_mem (c\<lparr>op_count := u\<rparr>) = cache_mem c" "cache_inv (c\<lparr>op_count := u\<rparr>) = cache_inv c"
  by (simp_all add: cview_def held_def pins_def cached_def cache_mem_def cache_inv_def block_inv_def fun_eq_iff
      split: option.split)

text \<open>The header after the commit and the writes that follow it.\<close>

lemma end_op_effect:
  assumes last: "last_op c x"
  obtains h c' where "cache_end_op x c = Inr c'" "hdr_ok h"
    "set (hdr_nos h) = set (hdr_nos (hdr c)) \<union> set (ctx_nos x)"
    "quiet c'" "pins c' = {}" "cview c' = apply_writes (ckpt_writes (c\<lparr>hdr := h\<rparr>)) (cview c)"
    "disk c' = apply_writes (ckpt_writes (c\<lparr>hdr := h\<rparr>)) (disk c)"
    "dev_trace c' = dev_trace c @ ckpt_writes (c\<lparr>hdr := h\<rparr>)"
    "hdr_num_blocks (hdr c') = 0" "log_used c' = 0" "op_count c' = 0" "log_size c' = log_size c"
    "last_persisted_ts c' = last_allocated_ts c" "log_fits c'" "asleep c' = []"
    "unat (hdr_num_blocks h) \<le> log_len (sblock c)"
proof -
  from last obtain h u where h: "commit x c = Inr (wake LogUsed (c\<lparr>hdr := h, log_used := u\<rparr>))" "hdr_ok h"
    "set (hdr_nos h) = set (hdr_nos (hdr c)) \<union> set (ctx_nos x)"
    "unat (hdr_num_blocks h) \<le> length (hdr_nos (hdr c)) + length (ctx_nos x)" "unat (hdr_num_blocks h) \<le> log_len (sblock c)"
    by (rule commit_effect)
  define c1 where "c1 = (wake LogUsed (c\<lparr>hdr := h, log_used := u\<rparr>))\<lparr>op_count := 0, log_size := 0\<rparr>"
  have c1: "log_header_no c1 = log_header_no c" "log_area c1 = log_area c" "log_no c1 = log_no c" "hdr c1 = h"
    "cview c1 = cview c" "disk c1 = disk c" "dev_trace c1 = dev_trace c" "pins c1 = pins c"
    "sblock c1 = sblock c" "log_start c1 = log_start c"
    by (simp_all add: c1_def wake_def log_header_no_def log_area_def log_no_def fun_eq_iff)
  have q: "quiet c1" and log: "log_ready c1"
    using last h(2,3,5) by (auto simp: last_op_def quiet_def log_ready_def c1 hdr_ok_def log_fits_def) (simp_all add: c1_def wake_def)
  have W: "ckpt_writes c1 = ckpt_writes (c\<lparr>hdr := h\<rparr>)"
    by (simp add: ckpt_writes_def log_writes_def log_header_no_def log_no_def c1_def wake_def)
  have "cache_mem c1 (4 * (length (hdr_nos (hdr c)) + length (ctx_nos x)))" using last by (simp add: last_op_def c1_def wake_def)
  then have "cache_mem c1 (4 * unat (hdr_num_blocks (hdr c1)) + 0)"
    by (rule cache_mem_mono) (use h(4) in \<open>simp add: c1\<close>)
  from checkpoint_effect [OF q this log] obtain c2 where c2: "checkpoint c1 = Inr c2" "quiet c2"
    "cview c2 = apply_writes (ckpt_writes c1) (cview c)" "disk c2 = apply_writes (ckpt_writes c1) (disk c)"
    "dev_trace c2 = dev_trace c @ ckpt_writes c1" "pins c2 = pins c - set (hdr_nos h)"
    "same_meta (wake LastPersisted (c1\<lparr>hdr := clear_header h, last_persisted_ts := last_allocated_ts c1\<rparr>)) c2"
    by (auto simp: c1)
  have "pins c2 = {}" using c2(6) last h(3) by (auto simp: last_op_def)
  moreover define c3 where "c3 = wake LogUsed (c2\<lparr>log_size := log_size c, log_used := 0\<rparr>)"
  moreover have "cache_end_op x c = Inr c3"
    using last h(1) c2(1) by (simp add: cache_end_op_def last_op_def c1_def c3_def wake_def Let_def)
  moreover have m: "hdr_num_blocks (hdr c2) = 0" "op_count c2 = 0" "last_persisted_ts c2 = last_allocated_ts c"
    "log_start c2 = log_start c" "sblock c2 = sblock c" "asleep c2 = filter (\<lambda>(p, ch). ch \<noteq> LastPersisted) (asleep c1)"
    using c2(7) by (auto simp: same_meta_def clear_header_def c1_def wake_def)
  moreover have "asleep c3 = []"
    by (auto simp: c3_def wake_def m(6) filter_empty_conv) (metis bc_chan.exhaust)
  moreover have "log_fits c3"
    using last m by (simp add: c3_def wake_def log_fits_def last_op_def log_header_no_def)
  ultimately show thesis
    using c2(2-5) h(2,3,5) unfolding W
    by (intro that [of c3 h]) (simp_all add: quiet_def c3_def wake_def)
qed

section \<open>Crashes\<close>

lemma crash_before_header:
  assumes empty: "hdr_num_blocks (header_of_bytes (d (sb_header_no sb))) = 0"
    and W: "fst ` set W \<subseteq> sb_log_area sb - {sb_header_no sb}" and n: "n \<notin> sb_log_area sb"
  shows "recovered sb (apply_writes W d) n = d n"
proof -
  have "apply_writes W d (sb_header_no sb) = d (sb_header_no sb)" "apply_writes W d n = d n"
    using W n by (auto intro!: apply_writes_other)
  with empty show ?thesis by (simp add: recovered_alt)
qed

lemma crash_after_header:
  assumes hd: "header_of_bytes (d (sb_header_no sb)) = h" "hdr_num_blocks h \<noteq> 0" "hdr_ok h"
    and log: "\<And>i. i < unat (hdr_num_blocks h) \<Longrightarrow> d (sb_log_no sb i) = v (hdr_block_no h ! i)"
    and out: "n \<notin> set (hdr_nos h) \<Longrightarrow> d n = v n" and n: "n \<noteq> sb_header_no sb"
  shows "recovered sb d n = v n"
proof -
  let ?n = "unat (hdr_num_blocks h)" and ?nos = "hdr_block_no h"
  let ?W = "map (\<lambda>i. (?nos ! i, d (sb_log_no sb i))) [0 ..< ?n] @ [(sb_header_no sb, header_bytes (clear_header h))]"
  have img: "(\<lambda>i. ?nos ! i) ` {0 ..< ?n} = set (hdr_nos h)"
    using hd(3) by (intro hdr_nos_nth) (auto simp: hdr_ok_def)
  have W: "recovered sb d = apply_writes ?W d" using hd by (simp add: recovered_alt)
  show ?thesis
  proof (cases "n \<in> set (hdr_nos h)")
    case True
    then obtain i where "i < ?n" "n = ?nos ! i"
      unfolding img [symmetric] by auto
    then have "n \<in> fst ` set ?W" by force
    moreover have "e = v n" if "(n, e) \<in> set ?W" for e
      using that n log by auto
    ultimately show ?thesis unfolding W by (rule apply_writes_val)
  next
    case False
    then have "n \<notin> fst ` set ?W" using n unfolding img [symmetric] by auto
    then have "apply_writes ?W d n = d n" by (rule apply_writes_other)
    with out [OF False] show ?thesis unfolding W by simp
  qed
qed

text \<open>
  The header \<open>h\<close> is about to be checkpointed from state \<open>c\<close>: it names every block whose content
  differs from the disk, and the log on disk is empty.
\<close>

definition ckpt_ready :: "bcache \<Rightarrow> LogHeader \<Rightarrow> bool" where
  "ckpt_ready c h \<longleftrightarrow> hdr_ok h \<and> unat (hdr_num_blocks h) \<le> log_len (sblock c) \<and> set (hdr_nos h) \<inter> log_area c = {} \<and> log_start c = log_header_no c + 1
     \<and> (\<forall>n. n \<notin> set (hdr_nos h) \<longrightarrow> cview c n = disk c n)
     \<and> hdr_num_blocks (header_of_bytes (disk c (log_header_no c))) = 0"

definition home_list :: "bcache \<Rightarrow> LogHeader \<Rightarrow> (u64 \<times> sector) list" where
  "home_list c h = map (\<lambda>n. (n, cview c n)) (hdr_nos h)"

definition log_list :: "bcache \<Rightarrow> LogHeader \<Rightarrow> (u64 \<times> sector) list" where
  "log_list c h = log_writes (c\<lparr>hdr := h\<rparr>) [0 ..< unat (hdr_num_blocks h)]"

lemma ckpt_ready_facts:
  assumes "ckpt_ready c h"
  shows "sb_header_no (sblock c) = log_header_no c" "sb_log_no (sblock c) = log_no c" "sb_log_area (sblock c) = log_area c"
    "hdr_ok h" "length (log_list c h) = unat (hdr_num_blocks h)" "length (home_list c h) = unat (hdr_num_blocks h)"
    "unat (hdr_num_blocks h) \<le> LOG_MAX_SIZE"
    "fst ` set (log_list c h) \<subseteq> log_area c - {log_header_no c}" "fst ` set (home_list c h) = set (hdr_nos h)"
    "set (hdr_nos h) \<inter> log_area c = {}" "log_header_no c \<in> log_area c"
    "\<And>i. i < unat (hdr_num_blocks h) \<Longrightarrow> log_no c i \<in> log_area c - {log_header_no c}"
    "\<And>n. n \<notin> set (hdr_nos h) \<Longrightarrow> cview c n = disk c n"
    "hdr_num_blocks (header_of_bytes (disk c (log_header_no c))) = 0" "unat (hdr_num_blocks h) \<le> log_len (sblock c)"
proof -
  have r: "hdr_ok h" "set (hdr_nos h) \<inter> log_area c = {}" "log_start c = log_header_no c + 1" "unat (hdr_num_blocks h) \<le> log_len (sblock c)"
    using assms by (auto simp: ckpt_ready_def)
  show "sb_header_no (sblock c) = log_header_no c" "sb_log_no (sblock c) = log_no c" "sb_log_area (sblock c) = log_area c"
    using r(3) by (simp_all add: sb_header_no_def log_header_no_def sb_log_no_def log_no_def fun_eq_iff
        sb_log_area_def log_area_def)
  show "hdr_ok h" "set (hdr_nos h) \<inter> log_area c = {}" by (fact r)+
  show "length (log_list c h) = unat (hdr_num_blocks h)" "length (home_list c h) = unat (hdr_num_blocks h)"
      "unat (hdr_num_blocks h) \<le> LOG_MAX_SIZE"
    using r(1) length_hdr_nos [OF r(1)] by (simp_all add: log_list_def home_list_def log_writes_def hdr_ok_def)
  show l: "log_no c i \<in> log_area c - {log_header_no c}" if "i < unat (hdr_num_blocks h)" for i
    using that log_no_header [OF r(3), of i] r(1,4) by (simp add: log_area_def hdr_ok_def)
  have "fst ` set (log_list c h) = log_no c ` {0 ..< unat (hdr_num_blocks h)}"
    by (simp add: log_list_def log_writes_def image_image log_no_def)
  then show "fst ` set (log_list c h) \<subseteq> log_area c - {log_header_no c}"
    using l by auto
  show "fst ` set (home_list c h) = set (hdr_nos h)" by (simp add: home_list_def image_image)
  show "log_header_no c \<in> log_area c" by (simp add: log_area_def)
qed (use assms in \<open>auto simp: ckpt_ready_def\<close>)

lemma ckpt_writes_eq:
  "ckpt_writes (c\<lparr>hdr := h\<rparr>) = log_list c h @ (log_header_no c, header_bytes h)
     # (if hdr_num_blocks h = 0 then [] else home_list c h @ [(log_header_no c, header_bytes (clear_header h))])"
  by (simp add: ckpt_writes_def log_header_no_def log_list_def home_list_def)

lemma crash_logged:
  assumes r: "ckpt_ready c h" and ne: "hdr_num_blocks h \<noteq> 0" and n: "n \<notin> log_area c"
  shows "recovered (sblock c) (apply_writes (log_list c h @ (log_header_no c, header_bytes h) # take j (home_list c h)) (disk c)) n
    = cview c n"
proof -
  note f = ckpt_ready_facts [OF r]
  let ?V = "log_list c h @ (log_header_no c, header_bytes h) # take j (home_list c h)"
  have sub: "fst ` set (take j (home_list c h)) \<subseteq> set (hdr_nos h)"
    unfolding f(9) [symmetric] by (intro image_mono set_take_subset)
  show ?thesis
  proof (rule crash_after_header [OF _ ne f(4)])
    have "log_header_no c \<notin> fst ` set (take j (home_list c h))" using sub f(10,11) by blast
    then show "header_of_bytes (apply_writes ?V (disk c) (sb_header_no (sblock c))) = h"
      by (simp add: f(1) apply_writes_append apply_writes_other)
    show "apply_writes ?V (disk c) (sb_log_no (sblock c) i) = cview c (hdr_block_no h ! i)"
      if "i < unat (hdr_num_blocks h)" for i
    proof -
      have "log_no c i \<in> log_area c - {log_header_no c}" using that by (rule f(12))
      then have "log_no c i \<notin> fst ` set (take j (home_list c h))" "log_no c i \<noteq> log_header_no c"
        using sub f(10) by blast+
      moreover have "apply_writes (log_list c h) (disk c) (log_no c i) = cview c (hdr_block_no h ! i)"
        using log_writes_val [OF that f(7), of "c\<lparr>hdr := h\<rparr>" "disk c"] by (simp add: log_no_def log_list_def)
      ultimately show ?thesis by (simp add: f(2) apply_writes_append apply_writes_other)
    qed
    show "apply_writes ?V (disk c) n = cview c n" if "n \<notin> set (hdr_nos h)"
    proof -
      have "n \<notin> fst ` set (log_list c h)" "n \<noteq> log_header_no c" "n \<notin> fst ` set (take j (home_list c h))"
        using that n sub f(8,11) by blast+
      then have "n \<notin> fst ` set ?V" by (simp add: image_Un)
      then have "apply_writes ?V (disk c) n = disk c n" by (rule apply_writes_other)
      with f(13) [OF that] show ?thesis by (simp only:)
    qed
    show "n \<noteq> sb_header_no (sblock c)" using n f(1,11) by auto
  qed
qed

lemma crash_finished:
  assumes r: "ckpt_ready c h" and n: "n \<notin> log_area c"
  defines "V \<equiv> log_list c h @ (log_header_no c, header_bytes h) # home_list c h @ [(log_header_no c, header_bytes (clear_header h))]"
  shows "recovered (sblock c) (apply_writes V (disk c)) n = cview c n" "apply_writes V (disk c) n = cview c n"
    "apply_writes V (cview c) n = cview c n"
proof -
  note f = ckpt_ready_facts [OF r]
  have nh: "n \<noteq> log_header_no c" "n \<notin> fst ` set (log_list c h)" using n f(8,11) by auto
  have new: "apply_writes V g n = cview c n" if "n \<in> set (hdr_nos h) \<or> g n = cview c n" for g
  proof (cases "n \<in> set (hdr_nos h)")
    case True
    then have "apply_writes (home_list c h) g' n = cview c n" for g'
      using f(9) by (intro apply_writes_val) (auto simp: home_list_def)
    then show ?thesis using nh by (simp add: V_def apply_writes_append)
  next
    case False
    then have "n \<notin> fst ` set (home_list c h)" by (simp add: f(9))
    with that False nh show ?thesis by (simp add: V_def apply_writes_append apply_writes_other)
  qed
  have "recovered (sblock c) (apply_writes V (disk c)) = apply_writes V (disk c)"
    by (simp add: recovered_alt f(1) V_def apply_writes_append clear_header_def)
  with new f(13) show "recovered (sblock c) (apply_writes V (disk c)) n = cview c n"
    "apply_writes V (disk c) n = cview c n" "apply_writes V (cview c) n = cview c n" by metis+
qed

lemma crash_recovered:
  fixes k :: nat
  assumes r: "ckpt_ready c h"
  defines "d \<equiv> apply_writes (take k (ckpt_writes (c\<lparr>hdr := h\<rparr>))) (disk c)"
  shows "(\<forall>n. n \<notin> log_area c \<longrightarrow> recovered (sblock c) d n = disk c n)
       \<or> (\<forall>n. n \<notin> log_area c \<longrightarrow> recovered (sblock c) d n = cview c n)"
proof -
  note f = ckpt_ready_facts [OF r]
  show ?thesis
  proof (cases "k \<le> unat (hdr_num_blocks h)")
    case True
    then have "d = apply_writes (take k (log_list c h)) (disk c)" by (simp add: d_def ckpt_writes_eq f(5))
    moreover have "fst ` set (take k (log_list c h)) \<subseteq> log_area c - {log_header_no c}"
      using f(8) image_mono [OF set_take_subset [of k "log_list c h"], of fst] by blast
    ultimately show ?thesis using crash_before_header [of "disk c" "sblock c"] f(1,3,14) by simp
  next
    case False
    then obtain j where j: "k = unat (hdr_num_blocks h) + Suc j"
      using less_imp_Suc_add [of "unat (hdr_num_blocks h)" k] by auto
    show ?thesis
    proof (cases "hdr_num_blocks h = 0")
      case True
      then have "d = (disk c)(log_header_no c := header_bytes h)"
        using j by (simp add: d_def ckpt_writes_eq log_list_def log_writes_def)
      then have "recovered (sblock c) d n = disk c n" if "n \<notin> log_area c" for n
        using that True f(11) by (auto simp: recovered_alt f(1))
      then show ?thesis by blast
    next
      case ne: False
      show ?thesis
      proof (cases "j \<le> unat (hdr_num_blocks h)")
        case True
        then have "d = apply_writes (log_list c h @ (log_header_no c, header_bytes h) # take j (home_list c h)) (disk c)"
          using ne j by (simp add: d_def ckpt_writes_eq f(5,6))
        then show ?thesis using crash_logged [OF r ne] by simp
      next
        case False
        then have "d = apply_writes (log_list c h @ (log_header_no c, header_bytes h) # home_list c h
            @ [(log_header_no c, header_bytes (clear_header h))]) (disk c)"
          using ne j by (simp add: d_def ckpt_writes_eq f(5,6))
        then show ?thesis using crash_finished(1) [OF r] by simp
      qed
    qed
  qed
qed

lemma apply_writes_cases: "apply_writes W f m = f m \<or> (m, apply_writes W f m) \<in> set W"
proof (induction W arbitrary: f)
  case (Cons w W)
  obtain a b where w: "w = (a, b)" by (cases w)
  define g where "g = f(a := b)"
  have "g m = (if m = a then b else f m)" by (simp add: g_def)
  with Cons [of g] show ?case by (auto simp: w g_def [symmetric] split: if_splits)
qed simp

lemma apply_writes_base:
  assumes "n \<in> fst ` set M"
  shows "apply_writes M f n = apply_writes M g n"
  using assms
proof (induction M arbitrary: f g)
  case (Cons w M)
  obtain a b where w: "w = (a, b)" by (cases w)
  show ?case
  proof (cases "n \<in> fst ` set M")
    case True
    from Cons.IH [OF this] show ?thesis unfolding w apply_writes_Cons .
  next
    case False
    with Cons.prems show ?thesis by (simp add: w apply_writes_other)
  qed
qed simp

lemma crash_log_ok:
  assumes r: "ckpt_ready c h" and inv: "cache_inv c" and layout: "sb_num_log_blocks (sblock c) \<noteq> 0"
  shows "log_on_disk_ok (sblock c) (apply_writes (take k (ckpt_writes (c\<lparr>hdr := h\<rparr>))) (disk c))"
proof -
  note f = ckpt_ready_facts [OF r]
  let ?W = "ckpt_writes (c\<lparr>hdr := h\<rparr>)" and ?d = "apply_writes (take k (ckpt_writes (c\<lparr>hdr := h\<rparr>))) (disk c)"
  have lh: "length (header_bytes h) = BLOCK_SIZE" "length (header_bytes (clear_header h)) = BLOCK_SIZE"
    using f(4) by (simp_all add: length_header_bytes hdr_ok_def clear_header_def)
  have "length v = BLOCK_SIZE" if "(n, v) \<in> set ?W" for n v
    using that lh length_cview [OF inv]
    by (auto simp: ckpt_writes_eq log_list_def log_writes_def home_list_def split: if_splits)
  moreover have sub: "(n, ?d n) \<in> set ?W \<or> ?d n = disk c n" for n
    using apply_writes_cases [of "take k ?W" "disk c" n] set_take_subset [of k ?W] by auto
  ultimately have len: "length (?d n) = BLOCK_SIZE" for n
    using inv by (metis cache_inv_def)
  have "v = header_bytes h \<or> v = header_bytes (clear_header h)" if "(log_header_no c, v) \<in> set ?W" for v
  proof -
    have "log_header_no c \<notin> fst ` set (log_list c h)" "log_header_no c \<notin> fst ` set (home_list c h)"
      using f(8-11) by blast+
    with that show ?thesis by (force simp: ckpt_writes_eq split: if_splits)
  qed
  from this [of "?d (log_header_no c)"] sub [of "log_header_no c"]
  have "header_of_bytes (?d (log_header_no c)) = h \<or> hdr_num_blocks (header_of_bytes (?d (log_header_no c))) = 0"
    using f(14) by (auto simp: clear_header_def)
  then show ?thesis
    using len f(7,10,15) layout by (auto simp: log_on_disk_ok_def f(1,3) hdr_nos_def Let_def)
qed

lemma last_op_ready:
  assumes last: "last_op c x" and h: "hdr_ok h" "set (hdr_nos h) = set (hdr_nos (hdr c)) \<union> set (ctx_nos x)"
    "unat (hdr_num_blocks h) \<le> log_len (sblock c)"
  shows "ckpt_ready c h"
proof -
  have "cview c n = disk c n" if "n \<notin> set (hdr_nos h)" for n
    using last h(2) that by (intro clean_view) (auto simp: last_op_def quiet_def)
  with last h show ?thesis by (auto simp: ckpt_ready_def last_op_def log_fits_def)
qed

lemma recovered_empty: "hdr_num_blocks (header_of_bytes (d (sb_header_no sb))) = 0 \<Longrightarrow> recovered sb d = d"
  by (simp add: recovered_alt)

lemma recover_twice:
  assumes ok: "log_on_disk_ok sb d" and n: "n \<noteq> sb_header_no sb"
  shows "recovered sb (apply_writes (take k (recovery_writes sb d)) d) n = recovered sb d n"
proof (cases "hdr_num_blocks (header_of_bytes (d (sb_header_no sb))) = 0")
  case True
  then show ?thesis by (simp add: recovery_writes_def)
next
  case False
  define h M where "h = header_of_bytes (d (sb_header_no sb))"
    and "M = map (\<lambda>i. (hdr_block_no h ! i, d (sb_log_no sb i))) [0 ..< unat (hdr_num_blocks h)]"
  have W: "recovery_writes sb d = M @ [(sb_header_no sb, header_bytes (clear_header h))]"
    using False by (simp add: recovery_writes_def Let_def h_def M_def)
  have small: "unat (hdr_num_blocks h) \<le> LOG_MAX_SIZE" "unat (hdr_num_blocks h) \<le> log_len sb" and apart: "set (hdr_nos h) \<inter> sb_log_area sb = {}"
    and len: "length (hdr_block_no h) = LOG_MAX_SIZE"
    using ok length_header_of_bytes by (simp_all add: log_on_disk_ok_def Let_def h_def)
  have M: "fst ` set M = set (hdr_nos h)"
    using small len by (simp add: M_def image_image hdr_nos_nth)
  show ?thesis
  proof (cases "k \<le> length M")
    case True
    let ?d = "apply_writes (take k M) d"
    have keep: "?d m = d m" if "m \<in> sb_log_area sb" for m
    proof -
      have "fst ` set (take k M) \<subseteq> set (hdr_nos h)" unfolding M [symmetric] by (intro image_mono set_take_subset)
      with that apart show ?thesis by (intro apply_writes_other) blast
    qed
    have "?d (sb_log_no sb i) = d (sb_log_no sb i)" if "i < unat (hdr_num_blocks h)" for i
      using that small(2) by (intro keep) (simp add: sb_log_area_def)
    moreover have "?d (sb_header_no sb) = d (sb_header_no sb)" by (intro keep) (simp add: sb_log_area_def)
    ultimately have "recovery_writes sb ?d = recovery_writes sb d"
      by (simp add: recovery_writes_def Let_def flip: h_def)
    then have "recovered sb ?d n = apply_writes M ?d n" "recovered sb d n = apply_writes M d n"
      using n by (simp_all add: recovered_def W apply_writes_append)
    moreover have "apply_writes M ?d n = apply_writes M d n"
    proof (cases "n \<in> fst ` set M")
      case True
      then show ?thesis by (rule apply_writes_base)
    next
      case False
      moreover from this have "n \<notin> fst ` set (take k M)" using set_take_subset [of k M] by blast
      ultimately show ?thesis by (simp add: apply_writes_other)
    qed
    ultimately show ?thesis using True by (simp add: W)
  next
    case False
    then have "take k (recovery_writes sb d) = recovery_writes sb d" by (simp add: W)
    moreover have "hdr_num_blocks (header_of_bytes (recovered sb d (sb_header_no sb))) = 0"
      by (simp add: recovered_def W apply_writes_append clear_header_def)
    then have "recovered sb (recovered sb d) = recovered sb d" by (rule recovered_empty)
    ultimately show ?thesis by (simp flip: recovered_def)
  qed
qed

lemma recover_crash_ok:
  assumes ok: "log_on_disk_ok sb d"
  shows "log_on_disk_ok sb (apply_writes (take k (recovery_writes sb d)) d)"
proof -
  define h where "h = header_of_bytes (d (sb_header_no sb))"
  let ?W = "recovery_writes sb d" and ?d = "apply_writes (take k (recovery_writes sb d)) d"
  have small: "unat (hdr_num_blocks h) \<le> LOG_MAX_SIZE" "unat (hdr_num_blocks h) \<le> log_len sb" and apart: "set (hdr_nos h) \<inter> sb_log_area sb = {}"
    and len: "length (hdr_block_no h) = LOG_MAX_SIZE" "length (d m) = BLOCK_SIZE" for m
    using ok length_header_of_bytes by (simp_all add: log_on_disk_ok_def Let_def h_def)
  have "hdr_block_no h ! i \<in> set (hdr_nos h)" if "i < unat (hdr_num_blocks h)" for i
    using that small len(1) by (auto simp: hdr_nos_def in_set_conv_nth intro!: exI [of _ i])
  then have W: "(m, v) \<in> set ?W \<Longrightarrow> length v = BLOCK_SIZE
      \<and> (m \<in> set (hdr_nos h) \<or> m = sb_header_no sb \<and> v = header_bytes (clear_header h))" for m v
    using small len
    by (auto simp: recovery_writes_def Let_def h_def [symmetric] length_header_bytes clear_header_def split: if_splits)
  have sub: "(m, ?d m) \<in> set ?W \<or> ?d m = d m" for m
    using apply_writes_cases [of "take k ?W" d m] set_take_subset [of k ?W] by auto
  have "length (?d m) = BLOCK_SIZE" for m using sub [of m] W len(2) by metis
  moreover have "header_of_bytes (?d (sb_header_no sb)) = h \<or> hdr_num_blocks (header_of_bytes (?d (sb_header_no sb))) = 0"
    using sub [of "sb_header_no sb"] W [of "sb_header_no sb" "?d (sb_header_no sb)"] apart
    by (auto simp: h_def clear_header_def sb_log_area_def)
  ultimately show ?thesis
    using small apart ok by (auto simp: log_on_disk_ok_def hdr_nos_def Let_def)
qed

section \<open>A sample state\<close>

text \<open>
  A disk with the layout that \<^verbatim>\<open>mkfs\<close> gives it.  One operation has changed block 65, the first inode block, directly behind the
  log, in the cache and is about to end; one process waits for its own operation to be persisted and one for room in the log; the disk
  is all zero.  The machine that boots afterwards has 21 free pages and the same disk.
\<close>

definition sample_ctx :: OpContext where
  "sample_ctx = \<lparr>op_ts = 2, op_num_blocks = 1, op_block_no = 65 # replicate 9 0\<rparr>"

definition sample_log :: bcache where
  "sample_log = sample_cache\<lparr>
     kh := sample_kheap\<lparr>phys := \<lparr>fl_next = 0x3000, page_word = (\<lambda>_. 0)(0x3000 := 0x2000)\<rparr>\<rparr>,
     blk := \<lambda>_. \<lparr>blk_no = 65, acquired = False, pinned = True, blk_locked = False, blk_valid = True,
       blk_data = replicate 512 9\<rparr>,
     last_allocated_ts := 2, log_size := 62, log_used := 10, op_count := 1, asleep := [(7, LastPersisted), (8, LogUsed)],
     sblock := \<lparr>sb_num_blocks = 1000, sb_num_data_blocks = 908, sb_num_inodes = 200, sb_num_log_blocks = 63,
       sb_log_start = 2, sb_inode_start = 65, sb_bitmap_start = 91\<rparr>, disk := \<lambda>_. replicate 512 0\<rparr>"

definition boot_pages :: "ptr list" where
  "boot_pages = [0x15000, 0x14000, 0x13000, 0x12000, 0x11000, 0x10000, 0xF000, 0xE000, 0xD000, 0xC000,
     0xB000, 0xA000, 0x9000, 0x8000, 0x7000, 0x6000, 0x5000, 0x4000, 0x3000, 0x2000, 0x1000]"

definition sample_boot :: "(u64 \<Rightarrow> sector) \<Rightarrow> bcache" where
  "sample_boot d = sample_cache\<lparr>
     kh := sample_kheap\<lparr>phys := \<lparr>fl_next = 0x15000, page_word = \<lambda>p. p - 0x1000\<rparr>\<rparr>, disk := d\<rparr>"

lemma sample_boot_mem: "boot_mem (sample_boot d)" "disk (sample_boot d) = d"
proof -
  have "free_pages (phys (kh (sample_boot d))) boot_pages" "\<forall>p \<in> set boot_pages. unat p mod 4096 = 0"
      "length boot_pages = 21"
    by (simp_all add: free_pages_def sample_boot_def boot_pages_def)
  then have "kheap_rep (kh (sample_boot d)) boot_pages {} (\<lambda>_. [])" "length boot_pages = 21"
    by (simp_all add: kheap_rep_def) (simp add: sample_boot_def sample_kheap_def)
  then show "boot_mem (sample_boot d)" unfolding boot_mem_def by force
qed (simp add: sample_boot_def)

lemma sample_log_mem: "cache_mem sample_log 4"
proof -
  define h where "h = sample_kheap\<lparr>phys := \<lparr>fl_next = 0x3000, page_word = (\<lambda>_. 0)(0x3000 := 0x2000)\<rparr>\<rparr>"
  have used: "used_slots h 0x100 p = {0, 1}" for p
    using sample_used [of p] by (simp add: used_slots_def slots_def h_def)
  have "arena_rep h 0x100 [0x1000]"
    by (simp add: arena_rep_def arena_core_def arena_shape_def page_ok_def cyc_singleton used)
      (simp add: h_def sample_kheap_def)
  then have "kheap_rep h [0x3000, 0x2000] {0x100} (\<lambda>_. [0x1000])"
    by (simp add: kheap_rep_def free_pages_def) (simp add: h_def sample_kheap_def)
  moreover have "avail h 0x100 [0x3000, 0x2000] [0x1000] = 4"
    by (simp add: avail_def used) (simp add: slots_def h_def sample_kheap_def)
  moreover have "live h 0x100 [0x1000] = {0x1040, 0x1820}"
    by (simp add: live_def used) (simp add: h_def sample_kheap_def slot_addr_def sizeof_ArenaPage_def)
  ultimately have "arena_objs 0x100 {0x100} h {0x1040, 0x1820} 4"
    unfolding arena_objs_def by (intro exI conjI) (assumption | simp)+
  then show ?thesis
    unfolding cache_mem_def
    by (rule_tac exI [of _ "{0x100}"], rule_tac exI [of _ "{0x1040, 0x1820}"], rule_tac exI [of _ 4])
      (simp add: sample_log_def sample_cache_def h_def)
qed

lemma header_of_zeros: "header_of_bytes (replicate 512 0) = \<lparr>hdr_num_blocks = 0, hdr_block_no = replicate 63 0\<rparr>"
proof -
  have "replicate 512 0 = header_bytes \<lparr>hdr_num_blocks = 0, hdr_block_no = replicate 63 0\<rparr>"
    by code_simp
  then show ?thesis by simp
qed

lemma sample_log_area: "log_area sample_log = (\<lambda>i. 2 + of_nat i) ` {..< 63}" "log_header_no sample_log = 2"
proof -
  show "log_header_no sample_log = 2" by (simp add: log_header_no_def sample_log_def sample_cache_def)
  then have "log_area sample_log = insert 2 ((\<lambda>i. 2 + of_nat i) ` Suc ` {..< 62})"
    by (simp add: log_area_def log_no_def image_image log_len_def)
      (simp add: sample_log_def sample_cache_def)
  also have "\<dots> = (\<lambda>i. 2 + of_nat i) ` insert 0 (Suc ` {..< 62})" by simp
  also have "insert 0 (Suc ` {..< 62}) = {..< 63 :: nat}" by (simp flip: lessThan_Suc_eq_insert_0)
  finally show "log_area sample_log = (\<lambda>i. 2 + of_nat i) ` {..< 63}" .
qed

lemma sample_last_op: "last_op sample_log sample_ctx"
proof -
  have x: "ctx_nos sample_ctx = [65]" "ctx_ok sample_ctx"
    by (simp_all add: ctx_nos_def ctx_ok_def sample_ctx_def OP_MAX_NUM_BLOCKS_def)
  have h: "hdr_nos (hdr sample_log) = []" "hdr_ok (hdr sample_log)"
    by (simp_all add: hdr_nos_def hdr_ok_def sample_log_def sample_cache_def LOG_MAX_SIZE_def BLOCK_SIZE_def)
  have q: "quiet sample_log" "pins sample_log = {65}" "cached sample_log = {65}"
    by (auto simp: quiet_def cache_inv_def block_inv_def held_def pins_def cached_def sample_log_def sample_cache_def
        BLOCK_SIZE_def)
  have "(65 :: u64) \<noteq> 2 + of_nat i" if "i < 63" for i
    using that by (simp add: word_unat_eq_iff unat_word_ariths unat_of_nat)
  then have "65 \<notin> log_area sample_log" by (auto simp: sample_log_area)
  with x h q sample_log_mem show ?thesis
    by (simp add: last_op_def log_fits_def sample_log_area(2))
      (simp add: sample_log_def sample_cache_def header_of_zeros log_len_def LOG_MAX_SIZE_def BLOCK_SIZE_def)
qed

section \<open>Properties\<close>

text \<open>
  C1: the end of the last outstanding operation is atomic across crashes.  Whatever number of the
  device writes of \<^verbatim>\<open>cache_end_op\<close> reaches the disk before the machine stops, the next boot
  runs \<^verbatim>\<open>init_bcache\<close> to its end, and then either every block outside the logging area of the super block has the
  content it had on disk before, or every block has the content the operations gave it.  The log used after the boot lies in the same area.
\<close>

theorem end_op_crash_atomic:
  assumes "last_op c x"
  shows "\<exists>c' W. cache_end_op x c = Inr c' \<and> dev_trace c' = dev_trace c @ W
    \<and> (\<forall>k b. boot_mem b \<and> disk b = apply_writes (take k W) (disk c) \<longrightarrow>
        (\<exists>b'. init_bcache (sblock c) b = Inr b' \<and> quiet b' \<and> cview b' = disk b'
          \<and> log_area b' = log_area c \<and> log_fits b'
          \<and> ((\<forall>n. n \<notin> log_area c \<longrightarrow> cview b' n = disk c n) \<or> (\<forall>n. n \<notin> log_area c \<longrightarrow> cview b' n = cview c n))))"
proof -
  from assms obtain h c' where e: "cache_end_op x c = Inr c'" "hdr_ok h"
    "set (hdr_nos h) = set (hdr_nos (hdr c)) \<union> set (ctx_nos x)" "dev_trace c' = dev_trace c @ ckpt_writes (c\<lparr>hdr := h\<rparr>)"
    "unat (hdr_num_blocks h) \<le> log_len (sblock c)"
    by (rule end_op_effect)
  note r = last_op_ready [OF assms e(2,3,5)]
  have inv: "cache_inv c" "sb_num_log_blocks (sblock c) \<noteq> 0"
    using assms by (auto simp: last_op_def quiet_def log_fits_def log_len_def)
  have "\<exists>b'. init_bcache (sblock c) b = Inr b' \<and> quiet b' \<and> cview b' = disk b'
      \<and> log_area b' = log_area c \<and> log_fits b'
      \<and> ((\<forall>n. n \<notin> log_area c \<longrightarrow> cview b' n = disk c n) \<or> (\<forall>n. n \<notin> log_area c \<longrightarrow> cview b' n = cview c n))"
    if b: "boot_mem b" "disk b = apply_writes (take k (ckpt_writes (c\<lparr>hdr := h\<rparr>))) (disk c)" for k b
  proof -
    obtain b' where "init_bcache (sblock c) b = Inr b'" "quiet b'" "cview b' = disk b'" "disk b' = recovered (sblock c) (disk b)"
      "sblock b' = sblock c" "log_fits b'"
      using init_bcache_recovers [OF b(1)] crash_log_ok [OF r inv, of k] b(2) by metis
    moreover from this(5,6) have "log_area b' = log_area c"
      using assms by (simp add: log_area_def log_header_no_def log_no_def log_fits_def last_op_def)
    ultimately show ?thesis using crash_recovered [OF r, of k] b(2) by auto
  qed
  with e(1,4) show ?thesis by blast
qed

theorem end_op_crash_atomic_witness:
  "\<exists>c' W. cache_end_op sample_ctx sample_log = Inr c' \<and> dev_trace c' = dev_trace sample_log @ W
     \<and> (\<exists>b'. init_bcache (sblock sample_log) (sample_boot (apply_writes (take 2 W) (disk sample_log))) = Inr b'
         \<and> cview b' 65 \<in> {replicate 512 0, replicate 512 9})"
proof -
  have v: "disk sample_log 65 = replicate 512 0" "cview sample_log 65 = replicate 512 9"
    by (simp_all add: cview_def sample_log_def sample_cache_def)
  have "65 \<notin> log_area sample_log"
    using sample_last_op by (auto simp: last_op_def sample_ctx_def ctx_nos_def)
  with v end_op_crash_atomic [OF sample_last_op] sample_boot_mem show ?thesis by (metis insertCI)
qed

text \<open>
  C2: \<^verbatim>\<open>cache_end_op\<close> of the last outstanding operation returns with everything persistent: the
  disk holds the content of every block outside the logging area, nothing is pinned or held, the contents
  the threads see are unchanged, and the log is empty.  Every process that slept on \<^verbatim>\<open>&log_used\<close> or \<^verbatim>\<open>&last_persisted_ts\<close>
  has been woken, and the condition it slept for holds: no operation given out so far has to wait for its end any more, and
  \<^verbatim>\<open>cache_begin_op\<close> succeeds.
\<close>

theorem end_op_persists:
  assumes "last_op c x"
  shows "\<exists>c'. cache_end_op x c = Inr c' \<and> quiet c' \<and> pins c' = {}
    \<and> (\<forall>n. n \<notin> log_area c \<longrightarrow> disk c' n = cview c n \<and> cview c' n = cview c n)
    \<and> hdr_num_blocks (hdr c') = 0 \<and> log_used c' = 0 \<and> op_count c' = 0 \<and> log_size c' = log_size c
    \<and> asleep c' = [] \<and> (\<forall>y. op_ts y \<le> last_allocated_ts c \<longrightarrow> \<not> end_waits y c') \<and> (\<exists>y c''. cache_begin_op c' = Inr (y, c''))"
proof -
  from assms obtain h c' where e: "cache_end_op x c = Inr c'" "hdr_ok h"
    "set (hdr_nos h) = set (hdr_nos (hdr c)) \<union> set (ctx_nos x)" "quiet c'" "pins c' = {}"
    "cview c' = apply_writes (ckpt_writes (c\<lparr>hdr := h\<rparr>)) (cview c)"
    "disk c' = apply_writes (ckpt_writes (c\<lparr>hdr := h\<rparr>)) (disk c)" "hdr_num_blocks (hdr c') = 0" "log_used c' = 0"
    "op_count c' = 0" "log_size c' = log_size c" "last_persisted_ts c' = last_allocated_ts c"
    "asleep c' = []" "unat (hdr_num_blocks h) \<le> log_len (sblock c)"
    by (rule end_op_effect)
  note r = last_op_ready [OF assms e(2,3,14)]
  have "10 \<le> unat (log_size c)" using assms by (simp add: last_op_def)
  then have "\<not> begin_waits c'" by (simp add: begin_waits_def e(9,11) OP_MAX_NUM_BLOCKS_def word_less_nat_alt)
  then have "\<exists>y c''. cache_begin_op c' = Inr (y, c'')" by (simp add: cache_begin_op_def Let_def)
  moreover have "\<not> end_waits y c'" if "op_ts y \<le> last_allocated_ts c" for y using that by (simp add: end_waits_def e(12))
  moreover
  have "disk c' n = cview c n \<and> cview c' n = cview c n" if "n \<notin> log_area c" for n
  proof (cases "hdr_num_blocks h = 0")
    case True
    then have "ckpt_writes (c\<lparr>hdr := h\<rparr>) = [(log_header_no c, header_bytes h)]" "n \<noteq> log_header_no c"
      using that ckpt_ready_facts(11) [OF r] by (auto simp: ckpt_writes_eq log_list_def log_writes_def)
    then show ?thesis using True ckpt_ready_facts(13) [OF r, of n] by (simp add: e hdr_nos_def)
  next
    case False
    then show ?thesis using crash_finished(2,3) [OF r that] by (simp add: e ckpt_writes_eq)
  qed
  ultimately show ?thesis using e by blast
qed

theorem end_op_persists_witness:
  "asleep sample_log = [(7, LastPersisted), (8, LogUsed)]
   \<and> (\<exists>c'. cache_end_op sample_ctx sample_log = Inr c' \<and> disk c' 65 = replicate 512 9 \<and> asleep c' = [])"
proof -
  have v: "cview sample_log 65 = replicate 512 9" "asleep sample_log = [(7, LastPersisted), (8, LogUsed)]"
    by (simp_all add: cview_def sample_log_def sample_cache_def)
  have "65 \<notin> log_area sample_log"
    using sample_last_op by (auto simp: last_op_def sample_ctx_def ctx_nos_def)
  with v end_op_persists [OF sample_last_op] show ?thesis by metis
qed

text \<open>
  C3: recovery can itself be interrupted.  \<^verbatim>\<open>init_bcache\<close> on a disk whose log is well formed (the header names at most as many
  blocks as the logging area holds, all outside of it) copies every logged block to its place, clears the header, and ends with an
  empty log inside the logging area; if only some of its device writes reach the disk, a second
  boot succeeds and every block but the log header has the content the first boot would have left.
\<close>

theorem recovery_restartable:
  assumes "boot_mem c" and "log_on_disk_ok sb (disk c)"
  shows "\<exists>c'. init_bcache sb c = Inr c' \<and> quiet c' \<and> pins c' = {} \<and> cview c' = recovered sb (disk c) \<and> disk c' = recovered sb (disk c)
    \<and> hdr_num_blocks (hdr c') = 0 \<and> op_count c' = 0 \<and> log_used c' = 0 \<and> log_area c' = sb_log_area sb \<and> log_fits c'
    \<and> dev_trace c' = dev_trace c @ recovery_writes sb (disk c)
    \<and> (\<forall>k b. boot_mem b \<and> disk b = apply_writes (take k (recovery_writes sb (disk c))) (disk c) \<longrightarrow>
        (\<exists>b'. init_bcache sb b = Inr b' \<and> quiet b' \<and> (\<forall>n. n \<noteq> sb_header_no sb \<longrightarrow> cview b' n = cview c' n)))"
proof -
  have again: "\<exists>b'. init_bcache sb b = Inr b' \<and> quiet b' \<and> (\<forall>n. n \<noteq> sb_header_no sb \<longrightarrow> cview b' n = recovered sb (disk c) n)"
    if "boot_mem b" "disk b = apply_writes (take k (recovery_writes sb (disk c))) (disk c)" for k b
    using init_bcache_recovers [OF that(1), of sb] recover_crash_ok [OF assms(2), of k] recover_twice [OF assms(2), of _ k]
    by (metis that(2))
  obtain c' where c': "init_bcache sb c = Inr c'" "quiet c'" "pins c' = {}" "disk c' = recovered sb (disk c)"
    "dev_trace c' = dev_trace c @ recovery_writes sb (disk c)" "cview c' = disk c'" "hdr_num_blocks (hdr c') = 0" "op_count c' = 0"
    "log_used c' = 0" "sblock c' = sb" "log_fits c'"
    using init_bcache_recovers [OF assms] by blast
  then have "log_area c' = sb_log_area sb"
    by (simp add: log_area_def sb_log_area_def log_fits_def log_header_no_def sb_header_no_def log_no_def sb_log_no_def)
  with c' again show ?thesis by auto
qed

text \<open>A log that names the first inode block, and a crash after that block was copied but before the header was cleared.\<close>

definition logged_disk :: "u64 \<Rightarrow> sector" where
  "logged_disk = (\<lambda>_. replicate 512 0)(2 := header_bytes \<lparr>hdr_num_blocks = 1, hdr_block_no = 65 # replicate 62 0\<rparr>, 3 := replicate 512 7)"

lemma logged_disk_ok: "log_on_disk_ok (sblock sample_log) logged_disk"
    "recovery_writes (sblock sample_log) logged_disk
      = [(65, replicate 512 7), (2, header_bytes \<lparr>hdr_num_blocks = 0, hdr_block_no = 65 # replicate 62 0\<rparr>)]"
proof -
  let ?h = "\<lparr>hdr_num_blocks = 1, hdr_block_no = 65 # replicate 62 0\<rparr> :: LogHeader"
  have sb: "sb_header_no (sblock sample_log) = 2" "sb_log_no (sblock sample_log) 0 = 3" "log_len (sblock sample_log) = 62"
    "sb_num_log_blocks (sblock sample_log) \<noteq> 0"
    by (simp_all add: sb_header_no_def sb_log_no_def log_len_def sample_log_def)
  have h: "header_of_bytes (logged_disk 2) = ?h" "logged_disk 3 = replicate 512 7"
    by (simp_all add: logged_disk_def)
  have "length (header_bytes ?h) = 512" using length_header_bytes [of ?h] by (simp add: LOG_MAX_SIZE_def BLOCK_SIZE_def)
  then have "length (logged_disk n) = BLOCK_SIZE" for n by (simp add: logged_disk_def BLOCK_SIZE_def)
  moreover have "65 \<notin> sb_log_area (sblock sample_log)"
  proof -
    have "(62 :: u64) \<noteq> of_nat i" if "i < 62" for i using that by (simp add: word_unat_eq_iff unat_of_nat)
    then show ?thesis by (auto simp: sb_log_area_def sb sb_log_no_def)
  qed
  ultimately show "log_on_disk_ok (sblock sample_log) logged_disk"
    by (simp add: log_on_disk_ok_def sb h hdr_nos_def LOG_MAX_SIZE_def BLOCK_SIZE_def)
  show "recovery_writes (sblock sample_log) logged_disk = [(65, replicate 512 7), (2, header_bytes \<lparr>hdr_num_blocks = 0, hdr_block_no = 65 # replicate 62 0\<rparr>)]"
    by (simp add: recovery_writes_def sb h clear_header_def)
qed

theorem recovery_restartable_witness:
  "\<exists>c' b'. init_bcache (sblock sample_log) (sample_boot logged_disk) = Inr c' \<and> cview c' 65 = replicate 512 7
     \<and> init_bcache (sblock sample_log) (sample_boot (logged_disk(65 := replicate 512 7))) = Inr b' \<and> cview b' 65 = replicate 512 7"
proof -
  let ?sb = "sblock sample_log"
  have "recovered ?sb logged_disk 65 = replicate 512 7" "take 1 (recovery_writes ?sb logged_disk) = [(65, replicate 512 7)]"
    by (simp_all add: recovered_def logged_disk_ok(2))
  moreover have "65 \<noteq> sb_header_no ?sb" by (simp add: sb_header_no_def sample_log_def)
  ultimately show ?thesis
    using recovery_restartable [of "sample_boot logged_disk" ?sb] sample_boot_mem logged_disk_ok(1) by (metis apply_writes_Cons apply_writes_Nil)
qed

text \<open>
  C6: \<^verbatim>\<open>cache_sync\<close> with an operation records the block once and pins it; the eleventh
  different block of one operation stops the kernel with the assertion on \<^verbatim>\<open>OP_MAX_NUM_BLOCKS\<close>.
\<close>

theorem cache_sync_bounded:
  assumes "ctx_ok x"
  shows "cache_sync (Some x) p c =
      (if blk_no (blk c p) \<in> set (ctx_nos x) then Inr (Some x, upd_blk p (\<lambda>b. b\<lparr>pinned := True\<rparr>) c)
       else if length (ctx_nos x) < OP_MAX_NUM_BLOCKS
       then Inr (Some (x\<lparr>op_block_no := (op_block_no x)[length (ctx_nos x) := blk_no (blk c p)], op_num_blocks := op_num_blocks x + 1\<rparr>),
                 upd_blk p (\<lambda>b. b\<lparr>pinned := True\<rparr>) c)
       else Inl (Panic ''i < OP_MAX_NUM_BLOCKS''))
    \<and> (\<forall>x' c'. cache_sync (Some x) p c = Inr (Some x', c') \<longrightarrow> ctx_ok x' \<and> set (ctx_nos x') = insert (blk_no (blk c p)) (set (ctx_nos x)))"
proof -
  let ?n = "blk_no (blk c p)"
  note sy = cache_sync_ctx [OF assms refl, of c p]
  consider "?n \<in> set (ctx_nos x)" | "?n \<notin> set (ctx_nos x)" "length (ctx_nos x) < OP_MAX_NUM_BLOCKS"
    | "?n \<notin> set (ctx_nos x)" "length (ctx_nos x) = OP_MAX_NUM_BLOCKS"
    using assms length_ctx_nos [OF assms] by (fastforce simp: ctx_ok_def)
  then show ?thesis
  proof cases
    case 1
    then show ?thesis using sy(1) assms by auto
  next
    case 2
    have "cache_sync (Some x) p c = Inr (Some (x\<lparr>op_block_no := (op_block_no x)[length (ctx_nos x) := ?n], op_num_blocks := op_num_blocks x + 1\<rparr>),
                 upd_blk p (\<lambda>b. b\<lparr>pinned := True\<rparr>) c)"
      using 2 search_index_cases [of "unat (op_num_blocks x)" "op_block_no x" ?n] assms length_ctx_nos [OF assms]
      by (simp add: cache_sync_def ctx_ok_def ctx_nos_def Let_def)
    with 2 sy(2) show ?thesis by auto
  next
    case 3
    then show ?thesis using sy(3) by simp
  qed
qed

theorem cache_sync_bounded_witness:
  "cache_sync (Some \<lparr>op_ts = 1, op_num_blocks = 10, op_block_no = [0, 1, 2, 3, 4, 5, 6, 7, 8, 9]\<rparr>) 0x1040 sample_log
     = Inl (Panic ''i < OP_MAX_NUM_BLOCKS'')
   \<and> (\<exists>c'. cache_sync (Some sample_ctx) 0x1040 sample_log = Inr (Some sample_ctx, c'))"
proof -
  have "blk_no (blk sample_log 0x1040) = 65" by (simp add: sample_log_def)
  then show ?thesis
    using cache_sync_bounded [of sample_ctx "0x1040" sample_log]
      cache_sync_bounded [of "\<lparr>op_ts = 1, op_num_blocks = 10, op_block_no = [0, 1, 2, 3, 4, 5, 6, 7, 8, 9]\<rparr>" "0x1040" sample_log]
    by (simp add: ctx_ok_def ctx_nos_def OP_MAX_NUM_BLOCKS_def sample_ctx_def)
qed

end
