(* ===== verification/Transaction.thy ===== *)
theory Transaction
  imports Cache_Log
begin

text \<open>
  The block cache as its clients see it: the functions of the table \<^verbatim>\<open>BlockCache\<close> of \<^verbatim>\<open>fs/cache.h\<close> on
  a cache together with the operation (\<^verbatim>\<open>OpContext *\<close>, possibly null) the client passes along, and
  the block allocator built on them (\<^verbatim>\<open>cache_alloc\<close> and \<^verbatim>\<open>cache_free\<close> of \<^verbatim>\<open>fs/cache.c\<close>).  The
  contract between cache and clients is a locale, interpreted on the cache.
\<close>

section \<open>The interface\<close>

type_synonym txn = "OpContext option \<times> bcache"

definition t_acquire :: "u64 \<Rightarrow> txn \<Rightarrow> (ptr \<times> txn) res" where
  "t_acquire n s = bindE (cache_acquire n (snd s)) (\<lambda>(p, c). Inr (p, (fst s, c)))"

definition t_release :: "ptr \<Rightarrow> txn \<Rightarrow> txn" where
  "t_release p s = (fst s, cache_release p (snd s))"

definition t_sync :: "ptr \<Rightarrow> txn \<Rightarrow> txn res" where
  "t_sync p s = cache_sync (fst s) p (snd s)"

text \<open>Reading and assigning the buffer \<^verbatim>\<open>block->data\<close>.\<close>

definition t_data :: "txn \<Rightarrow> ptr \<Rightarrow> sector" where
  "t_data s p = blk_data (blk (snd s) p)"

definition t_store :: "ptr \<Rightarrow> sector \<Rightarrow> txn \<Rightarrow> txn" where
  "t_store p d s = (fst s, upd_blk p (\<lambda>b. b\<lparr>blk_data := d\<rparr>) (snd s))"

section \<open>The contract\<close>

text \<open>
  \<open>ok k s\<close> is the invariant with room for \<open>k\<close> more acquisitions, \<open>held\<close> the blocks the client
  has locked, \<open>rec\<close> the blocks recorded in the operation, \<open>dirty\<close> the held blocks whose change has
  not been recorded yet.
\<close>

locale block_store =
  fixes ok :: "nat \<Rightarrow> 's \<Rightarrow> bool" and view :: "'s \<Rightarrow> u64 \<Rightarrow> sector" and helds :: "'s \<Rightarrow> u64 set"
    and recs :: "'s \<Rightarrow> u64 set" and dirty :: "'s \<Rightarrow> u64 set" and logging :: "'s \<Rightarrow> bool"
    and holdp :: "'s \<Rightarrow> ptr \<Rightarrow> u64 \<Rightarrow> bool"
    and acquire :: "u64 \<Rightarrow> 's \<Rightarrow> (ptr \<times> 's) res" and data :: "'s \<Rightarrow> ptr \<Rightarrow> sector"
    and store :: "ptr \<Rightarrow> sector \<Rightarrow> 's \<Rightarrow> 's" and sync :: "ptr \<Rightarrow> 's \<Rightarrow> 's res" and release :: "ptr \<Rightarrow> 's \<Rightarrow> 's"
  assumes acquire_law: "ok (Suc k) s \<Longrightarrow> n \<notin> helds s \<Longrightarrow>
      \<exists>p s'. acquire n s = Inr (p, s') \<and> ok k s' \<and> view s' = view s \<and> helds s' = insert n (helds s) \<and> recs s' = recs s
        \<and> dirty s' = dirty s \<and> logging s' = logging s \<and> holdp s' p n"
    and acquire_keeps: "ok (Suc k) s \<Longrightarrow> n \<notin> helds s \<Longrightarrow> acquire n s = Inr (p, s') \<Longrightarrow> holdp s q m \<Longrightarrow> holdp s' q m"
    and data_law: "ok k s \<Longrightarrow> holdp s p n \<Longrightarrow> data s p = view s n"
    and view_length: "ok k s \<Longrightarrow> length (view s n) = BLOCK_SIZE"
    and holdp_held: "holdp s p n \<Longrightarrow> n \<in> helds s"
    and store_law: "ok k s \<Longrightarrow> holdp s p n \<Longrightarrow> length d = BLOCK_SIZE \<Longrightarrow>
      ok k (store p d s) \<and> view (store p d s) = (view s)(n := d) \<and> helds (store p d s) = helds s \<and> recs (store p d s) = recs s
        \<and> dirty (store p d s) - {n} = dirty s - {n} \<and> logging (store p d s) = logging s \<and> holdp (store p d s) = holdp s"
    and sync_law: "ok k s \<Longrightarrow> holdp s p n \<Longrightarrow> logging s \<Longrightarrow> n \<in> recs s \<or> card (recs s) < OP_MAX_NUM_BLOCKS \<Longrightarrow>
      \<exists>s'. sync p s = Inr s' \<and> ok k s' \<and> view s' = view s \<and> helds s' = helds s \<and> recs s' = insert n (recs s)
        \<and> dirty s' = dirty s - {n} \<and> logging s' \<and> holdp s' = holdp s"
    and release_law: "ok k s \<Longrightarrow> holdp s p n \<Longrightarrow> n \<notin> dirty s \<Longrightarrow>
      ok k (release p s) \<and> view (release p s) = view s \<and> helds (release p s) = helds s - {n} \<and> recs (release p s) = recs s
        \<and> dirty (release p s) = dirty s \<and> logging (release p s) = logging s"
    and release_keeps: "ok k s \<Longrightarrow> holdp s p n \<Longrightarrow> n \<notin> dirty s \<Longrightarrow> m \<noteq> n \<Longrightarrow> holdp s q m \<Longrightarrow> holdp (release p s) q m"
    and dirty_held: "ok k s \<Longrightarrow> dirty s \<subseteq> helds s"
    and ok_mono: "ok k s \<Longrightarrow> j \<le> k \<Longrightarrow> ok j s"
begin

lemma acquire_obtain:
  assumes "ok (Suc k) s" and "n \<notin> helds s"
  obtains p s' where "acquire n s = Inr (p, s')" "ok k s'" "view s' = view s" "helds s' = insert n (helds s)" "recs s' = recs s"
    "dirty s' = dirty s" "logging s' = logging s" "holdp s' p n" "data s' p = view s n" "n \<notin> dirty s'"
    "\<And>q m. holdp s q m \<Longrightarrow> holdp s' q m \<and> m \<noteq> n"
proof -
  obtain p s' where s': "acquire n s = Inr (p, s')" "ok k s'" "view s' = view s" "helds s' = insert n (helds s)" "recs s' = recs s"
    "dirty s' = dirty s" "logging s' = logging s" "holdp s' p n"
    using acquire_law [OF assms] by (elim exE conjE) simp
  have "n \<notin> dirty s'" using dirty_held [OF assms(1)] assms(2) s'(6) by auto
  moreover have "holdp s' q m \<and> m \<noteq> n" if "holdp s q m" for q m
    using acquire_keeps [OF assms s'(1) that] holdp_held [OF that] assms(2) by auto
  ultimately show thesis using s' data_law [OF s'(2,8)] by (intro that [OF s']) simp_all
qed

lemma read_one:
  assumes "ok (Suc k) s" and "n \<notin> helds s"
  obtains p s' where "acquire n s = Inr (p, s')" "data s' p = view s n" "ok k (release p s')" "view (release p s') = view s"
    "helds (release p s') = helds s" "recs (release p s') = recs s" "dirty (release p s') = dirty s"
    "logging (release p s') = logging s" "\<And>q m. holdp s q m \<Longrightarrow> holdp (release p s') q m"
proof -
  from assms obtain p s' where s': "acquire n s = Inr (p, s')" "ok k s'" "view s' = view s" "helds s' = insert n (helds s)" "recs s' = recs s"
    "dirty s' = dirty s" "logging s' = logging s" "holdp s' p n" "data s' p = view s n" "n \<notin> dirty s'"
    "\<And>q m. holdp s q m \<Longrightarrow> holdp s' q m \<and> m \<noteq> n"
    by (rule acquire_obtain) blast
  note r = release_law [OF s'(2,8,10)]
  have "holdp (release p s') q m" if "holdp s q m" for q m
    using release_keeps [OF s'(2,8,10)] s'(11) [OF that] by blast
  then show thesis
    using r s'(3-7,9) assms(2) by (intro that [OF s'(1)]) simp_all
qed

lemma update_held:
  assumes "ok k s" and "holdp s p n" and "n \<notin> dirty s" and "logging s" and "n \<in> recs s \<or> card (recs s) < OP_MAX_NUM_BLOCKS"
    and "length d = BLOCK_SIZE"
  obtains s' where "sync p (store p d s) = Inr s'" "ok k (release p s')" "view (release p s') = (view s)(n := d)"
    "helds (release p s') = helds s - {n}" "recs (release p s') = insert n (recs s)" "dirty (release p s') = dirty s"
    "logging (release p s')" "\<And>q m. holdp s q m \<Longrightarrow> m \<noteq> n \<Longrightarrow> holdp (release p s') q m"
proof -
  let ?s = "store p d s"
  have st: "ok k ?s" "view ?s = (view s)(n := d)" "helds ?s = helds s" "recs ?s = recs s"
    "dirty ?s - {n} = dirty s" "logging ?s" "holdp ?s = holdp s" "holdp ?s p n"
    using store_law [OF assms(1,2,6)] assms(2-4) by auto
  obtain s' where s': "sync p ?s = Inr s'" "ok k s'" "view s' = view ?s" "helds s' = helds ?s" "recs s' = insert n (recs ?s)"
    "dirty s' = dirty ?s - {n}" "logging s'" "holdp s' = holdp ?s"
    using sync_law [OF st(1,8,6)] assms(5) st(4) by (auto elim!: exE conjE)
  have h: "holdp s' p n" "n \<notin> dirty s'" using s'(6,8) st(8) by simp_all
  have "holdp (release p s') q m" if "holdp s q m" "m \<noteq> n" for q m
    using release_keeps [OF s'(2) h that(2)] that(1) s'(8) st(7) by simp
  then show thesis
    using release_law [OF s'(2) h] s' st by (intro that [OF s'(1)]) simp_all
qed

lemma write_one:
  assumes "ok (Suc k) s" and "n \<notin> helds s" and "logging s" and "n \<in> recs s \<or> card (recs s) < OP_MAX_NUM_BLOCKS"
    and "length d = BLOCK_SIZE"
  obtains p s1 s2 where "acquire n s = Inr (p, s1)" "data s1 p = view s n" "sync p (store p d s1) = Inr s2"
    "ok k (release p s2)" "view (release p s2) = (view s)(n := d)" "helds (release p s2) = helds s"
    "recs (release p s2) = insert n (recs s)" "dirty (release p s2) = dirty s" "logging (release p s2)"
    "\<And>q m. holdp s q m \<Longrightarrow> holdp (release p s2) q m"
proof -
  from assms(1,2) obtain p s1 where s1: "acquire n s = Inr (p, s1)" "ok k s1" "view s1 = view s" "helds s1 = insert n (helds s)" "recs s1 = recs s"
    "dirty s1 = dirty s" "logging s1 = logging s" "holdp s1 p n" "data s1 p = view s n" "n \<notin> dirty s1"
    "\<And>q m. holdp s q m \<Longrightarrow> holdp s1 q m \<and> m \<noteq> n"
    by (rule acquire_obtain) blast
  have log: "logging s1" "n \<in> recs s1 \<or> card (recs s1) < OP_MAX_NUM_BLOCKS" using assms(3,4) s1(5,7) by simp_all
  from s1(2,8,10) log assms(5) show thesis
    by (rule update_held) (use s1 assms(2) in \<open>auto intro!: that\<close>)
qed

end

section \<open>The cache implements it\<close>

text \<open>The operation started in the cache \<open>b\<close>; until it ends, neither the disk nor the log changes.\<close>

fun recorded :: "u64 set \<Rightarrow> OpContext option \<Rightarrow> u64 set \<Rightarrow> bool" where
  "recorded P None Q \<longleftrightarrow> Q = P"
| "recorded P (Some x) Q \<longleftrightarrow> ctx_ok x \<and> Q \<subseteq> P \<union> set (ctx_nos x)"

definition txn_ok :: "bcache \<Rightarrow> nat \<Rightarrow> txn \<Rightarrow> bool" where
  "txn_ok b k s \<longleftrightarrow> cache_inv (snd s) \<and> cache_mem (snd s) k \<and> same_log b (snd s)
     \<and> recorded (pins b) (fst s) (pins (snd s))"

definition t_recs :: "txn \<Rightarrow> u64 set" where
  "t_recs s = (case fst s of None \<Rightarrow> {} | Some x \<Rightarrow> set (ctx_nos x))"

definition t_dirty :: "txn \<Rightarrow> u64 set" where
  "t_dirty s = {n \<in> held (snd s). n \<notin> pins (snd s) \<and> cview (snd s) n \<noteq> disk (snd s) n}"

abbreviation (input) t_view :: "txn \<Rightarrow> u64 \<Rightarrow> sector" where
  "t_view s \<equiv> cview (snd s)"

abbreviation (input) t_held :: "txn \<Rightarrow> u64 set" where
  "t_held s \<equiv> held (snd s)"

lemma same_log_disk: "same_log b c \<Longrightarrow> disk c = disk b"
  by (simp add: same_log_def)

lemma txn_acquire:
  assumes ok: "txn_ok b (Suc k) s" and n: "n \<notin> t_held s"
  obtains p s' where "t_acquire n s = Inr (p, s')" "txn_ok b k s'" "t_view s' = t_view s" "t_held s' = insert n (t_held s)"
    "fst s' = fst s" "t_dirty s' = t_dirty s" "holds (snd s') p n" "\<And>q m. holds (snd s) q m \<Longrightarrow> holds (snd s') q m"
proof -
  obtain x c where s: "s = (x, c)" by (cases s)
  have inv: "cache_inv c" and mem: "cache_mem c (Suc k)" and log: "same_log b c" and free: "n \<notin> held c"
    using ok n by (auto simp: txn_ok_def s)
  from inv free mem obtain p c' where c': "cache_acquire n c = Inr (p, c')" "cache_inv c'" "cache_mem c' k" "cview c' = cview c"
    "held c' = insert n (held c)" "pins c' = pins c" "holds c' p n" "same_log c c'" "\<And>q m. holds c q m \<Longrightarrow> holds c' q m"
    by (rule acquire_effect) blast
  have "disk c' = disk c" using c'(8) by (rule same_log_disk)
  moreover have "n \<in> pins c \<or> cview c n = disk c n" using clean_view [OF inv _ free] by blast
  ultimately have "t_dirty (x, c') = t_dirty s" using free by (auto simp: t_dirty_def s c')
  moreover have "txn_ok b k (x, c')" using ok c' same_log_trans [OF log] by (simp add: txn_ok_def s)
  ultimately show thesis using c' by (intro that [of p "(x, c')"]) (simp_all add: s t_acquire_def)
qed

lemma txn_store:
  assumes ok: "txn_ok b k s" and h: "holds (snd s) p n" and len: "length d = BLOCK_SIZE"
  shows "txn_ok b k (t_store p d s)" "t_view (t_store p d s) = (t_view s)(n := d)" "t_held (t_store p d s) = t_held s"
    "fst (t_store p d s) = fst s" "t_dirty (t_store p d s) - {n} = t_dirty s - {n}" "holds (snd (t_store p d s)) = holds (snd s)"
proof -
  have inv: "cache_inv (snd s)" using ok by (simp add: txn_ok_def)
  note u = holds_set_data [OF inv h len]
  have l: "same_log b (snd s)" using ok by (simp add: txn_ok_def)
  show "txn_ok b k (t_store p d s)" using ok u same_log_trans [OF l u(6)] by (simp add: txn_ok_def t_store_def)
  show "t_view (t_store p d s) = (t_view s)(n := d)" "t_held (t_store p d s) = t_held s" "fst (t_store p d s) = fst s"
    "holds (snd (t_store p d s)) = holds (snd s)"
    using u by (simp_all add: t_store_def)
  show "t_dirty (t_store p d s) - {n} = t_dirty s - {n}"
    using u(2,3,5) same_log_disk [OF u(6)] by (auto simp: t_dirty_def t_store_def)
qed

lemma txn_sync:
  assumes ok: "txn_ok b k s" and h: "holds (snd s) p n" and x: "fst s = Some x" and room: "n \<in> set (ctx_nos x) \<or> card (set (ctx_nos x)) < OP_MAX_NUM_BLOCKS"
  obtains x' c' where "t_sync p s = Inr (Some x', c')" "txn_ok b k (Some x', c')" "cview c' = t_view s" "held c' = t_held s"
    "set (ctx_nos x') = insert n (set (ctx_nos x))" "t_dirty (Some x', c') = t_dirty s - {n}" "holds c' = holds (snd s)"
proof -
  let ?c = "upd_blk p (\<lambda>b. b\<lparr>pinned := True\<rparr>) (snd s)"
  have inv: "cache_inv (snd s)" and cx: "ctx_ok x" using ok by (simp_all add: txn_ok_def x)
  note u = holds_set_pinned [OF inv h, of True]
  have no: "blk_no (blk (snd s) p) = n" using h by (simp add: holds_def)
  have l: "same_log b (snd s)" using ok by (simp add: txn_ok_def)
  have "length (ctx_nos x) = card (set (ctx_nos x))" using cx by (simp add: ctx_ok_def distinct_card)
  then obtain x' where x': "t_sync p s = Inr (Some x', ?c)" "ctx_ok x'" "set (ctx_nos x') = insert n (set (ctx_nos x))"
    using cache_sync_ctx(1,2) [OF cx no] room cx by (cases "n \<in> set (ctx_nos x)") (auto simp: t_sync_def x)
  moreover have "txn_ok b k (Some x', ?c)"
    using ok u x' same_log_trans [OF l u(6)] by (auto simp: txn_ok_def x)
  moreover have "t_dirty (Some x', ?c) = t_dirty s - {n}"
    using u(2,3,5) same_log_disk [OF u(6)] by (auto simp: t_dirty_def)
  ultimately show thesis using u by (intro that [of x' ?c]) simp_all
qed

lemma txn_release:
  assumes ok: "txn_ok b k s" and h: "holds (snd s) p n" and clean: "n \<notin> t_dirty s"
  shows "txn_ok b k (t_release p s)" "t_view (t_release p s) = t_view s" "t_held (t_release p s) = t_held s - {n}"
    "fst (t_release p s) = fst s" "t_dirty (t_release p s) = t_dirty s"
    "\<And>q m. m \<noteq> n \<Longrightarrow> holds (snd s) q m \<Longrightarrow> holds (snd (t_release p s)) q m"
proof -
  have inv: "cache_inv (snd s)" using ok by (simp add: txn_ok_def)
  have "n \<in> pins (snd s) \<or> cview (snd s) n = disk (snd s) n"
    using clean holds_held [OF h] by (auto simp: t_dirty_def)
  note u = release_effect [OF inv h this]
  have l: "same_log b (snd s)" using ok by (simp add: txn_ok_def)
  show "txn_ok b k (t_release p s)"
    using ok u same_log_trans [OF l same_log_release [of "snd s" p]] by (simp add: txn_ok_def t_release_def)
  show "t_view (t_release p s) = t_view s" "t_held (t_release p s) = t_held s - {n}" "fst (t_release p s) = fst s"
    "\<And>q m. m \<noteq> n \<Longrightarrow> holds (snd s) q m \<Longrightarrow> holds (snd (t_release p s)) q m"
    using u by (simp_all add: t_release_def)
  show "t_dirty (t_release p s) = t_dirty s"
    using u(2-4) same_log_disk [OF same_log_release [of "snd s" p]] clean by (auto simp: t_dirty_def t_release_def)
qed

interpretation bs: block_store "txn_ok b" t_view t_held t_recs t_dirty "\<lambda>s. fst s \<noteq> None" "\<lambda>s. holds (snd s)"
  t_acquire t_data t_store t_sync t_release for b
proof
  fix k s n assume "txn_ok b (Suc k) s" "n \<notin> t_held s"
  then show "\<exists>p s'. t_acquire n s = Inr (p, s') \<and> txn_ok b k s' \<and> t_view s' = t_view s \<and> t_held s' = insert n (t_held s)
      \<and> t_recs s' = t_recs s \<and> t_dirty s' = t_dirty s \<and> (fst s' \<noteq> None) = (fst s \<noteq> None) \<and> holds (snd s') p n"
    by (rule txn_acquire) (auto simp: t_recs_def)
next
  fix k s n p s' q m
  assume a: "txn_ok b (Suc k) s" "n \<notin> t_held s" "t_acquire n s = Inr (p, s')" "holds (snd s) q m"
  from a(1,2) show "holds (snd s') q m" by (rule txn_acquire) (use a in auto)
next
  fix k s p n assume "txn_ok b k s" "holds (snd s) p n"
  then show "t_data s p = t_view s n" by (simp add: txn_ok_def t_data_def holds_data)
next
  fix k s n assume "txn_ok b k s"
  then show "length (t_view s n) = BLOCK_SIZE" by (simp add: txn_ok_def length_cview)
next
  fix s :: txn and p n assume "holds (snd s) p n"
  then show "n \<in> t_held s" by (rule holds_held)
next
  fix k s p n and d :: sector assume a: "txn_ok b k s" "holds (snd s) p n" "length d = BLOCK_SIZE"
  show "txn_ok b k (t_store p d s) \<and> t_view (t_store p d s) = (t_view s)(n := d) \<and> t_held (t_store p d s) = t_held s
      \<and> t_recs (t_store p d s) = t_recs s \<and> t_dirty (t_store p d s) - {n} = t_dirty s - {n}
      \<and> (fst (t_store p d s) \<noteq> None) = (fst s \<noteq> None) \<and> holds (snd (t_store p d s)) = holds (snd s)"
    using txn_store [OF a] by (simp add: t_recs_def)
next
  fix k s p n assume a: "txn_ok b k s" "holds (snd s) p n" "fst s \<noteq> None" "n \<in> t_recs s \<or> card (t_recs s) < OP_MAX_NUM_BLOCKS"
  then obtain x where x: "fst s = Some x" by blast
  have "n \<in> set (ctx_nos x) \<or> card (set (ctx_nos x)) < OP_MAX_NUM_BLOCKS" using a(4) by (simp add: t_recs_def x)
  with a(1,2) x show "\<exists>s'. t_sync p s = Inr s' \<and> txn_ok b k s' \<and> t_view s' = t_view s \<and> t_held s' = t_held s
      \<and> t_recs s' = insert n (t_recs s) \<and> t_dirty s' = t_dirty s - {n} \<and> fst s' \<noteq> None \<and> holds (snd s') = holds (snd s)"
    by (rule txn_sync) (simp add: t_recs_def x)
next
  fix k s p n assume a: "txn_ok b k s" "holds (snd s) p n" "n \<notin> t_dirty s"
  show "txn_ok b k (t_release p s) \<and> t_view (t_release p s) = t_view s \<and> t_held (t_release p s) = t_held s - {n}
      \<and> t_recs (t_release p s) = t_recs s \<and> t_dirty (t_release p s) = t_dirty s \<and> (fst (t_release p s) \<noteq> None) = (fst s \<noteq> None)"
    using txn_release [OF a] by (simp add: t_recs_def)
next
  fix k s p n m q assume "txn_ok b k s" "holds (snd s) p n" "n \<notin> t_dirty s" "m \<noteq> n" "holds (snd s) q m"
  then show "holds (snd (t_release p s)) q m" by (rule txn_release(6))
next
  fix k s show "t_dirty s \<subseteq> t_held s" by (auto simp: t_dirty_def)
next
  fix k s j assume "txn_ok b k s" "j \<le> k"
  then show "txn_ok b j s" using cache_mem_mono by (auto simp: txn_ok_def)
qed

section \<open>The block allocator\<close>

definition BIT_PER_BLOCK :: nat where
  "BIT_PER_BLOCK = BLOCK_SIZE * 8"

definition bitmap_block :: "txn \<Rightarrow> nat \<Rightarrow> u64" where
  "bitmap_block s i = ucast (sb_bitmap_start (sblock (snd s))) + of_nat (i div BIT_PER_BLOCK)"

definition num_blocks :: "txn \<Rightarrow> nat" where
  "num_blocks s = unat (sb_num_blocks (sblock (snd s)))"

text \<open>
  The loops of \<^verbatim>\<open>cache_alloc\<close>; the outer one runs over the multiples of \<^verbatim>\<open>BIT_PER_BLOCK\<close> below the number
  of blocks, the inner one looks for a clear bit of one bitmap block.
\<close>

fun alloc_loop :: "nat list \<Rightarrow> txn \<Rightarrow> (u64 \<times> txn) res" where
  "alloc_loop [] s = Inl (Panic ''cache_alloc: no free block'')"
| "alloc_loop (i # is) s =
     bindE (t_acquire (bitmap_block s i) s) (\<lambda>(block, s).
     let bitmap = cells_of_bytes (t_data s block)
     in case find_from (\<lambda>j. \<not> bitmap_get bitmap j) 0 (min BIT_PER_BLOCK (num_blocks s - i)) of
          Some j \<Rightarrow>
            bindE (t_sync block (t_store block (bytes_of_cells (bitmap_set bitmap j)) s)) (\<lambda>s.
            let s = t_release block s; block_no = of_nat (i + j)
            in bindE (t_acquire block_no s) (\<lambda>(block, s).
               bindE (t_sync block (t_store block (replicate BLOCK_SIZE 0) s)) (\<lambda>s.
               Inr (block_no, t_release block s))))
        | None \<Rightarrow> alloc_loop is (t_release block s))"

definition cache_alloc :: "txn \<Rightarrow> (u64 \<times> txn) res" where
  "cache_alloc s = alloc_loop (map ((*) BIT_PER_BLOCK) [0 ..< (num_blocks s + (BIT_PER_BLOCK - 1)) div BIT_PER_BLOCK]) s"

definition cache_free :: "u64 \<Rightarrow> txn \<Rightarrow> txn res" where
  "cache_free block_no s =
     (let j = unat block_no mod BIT_PER_BLOCK
      in bindE (t_acquire (bitmap_block s (unat block_no)) s) (\<lambda>(block, s).
         let bitmap = cells_of_bytes (t_data s block)
         in bindE (assertE (bitmap_get bitmap j) ''bitmap_get(bitmap, j)'') (\<lambda>_.
            bindE (t_sync block (t_store block (bytes_of_cells (bitmap_clear bitmap j)) s)) (\<lambda>s.
            Inr (t_release block s)))))"

section \<open>The set of allocated blocks\<close>

definition bitmap_at :: "SuperBlock \<Rightarrow> (u64 \<Rightarrow> sector) \<Rightarrow> nat \<Rightarrow> bool" where
  "bitmap_at sb v n \<longleftrightarrow>
     bitmap_get (cells_of_bytes (v (ucast (sb_bitmap_start sb) + of_nat (n div BIT_PER_BLOCK)))) (n mod BIT_PER_BLOCK)"

definition allocated :: "SuperBlock \<Rightarrow> (u64 \<Rightarrow> sector) \<Rightarrow> u64 set" where
  "allocated sb v = {of_nat n | n. n < unat (sb_num_blocks sb) \<and> bitmap_at sb v n}"

text \<open>The blocks of the bitmap.\<close>

definition bitmap_blocks :: "SuperBlock \<Rightarrow> u64 set" where
  "bitmap_blocks sb = {ucast (sb_bitmap_start sb) + of_nat (n div BIT_PER_BLOCK) | n. n < unat (sb_num_blocks sb)}"

definition bitmap_no :: "SuperBlock \<Rightarrow> nat \<Rightarrow> u64" where
  "bitmap_no sb q = ucast (sb_bitmap_start sb) + of_nat q"

lemma unat_num_blocks: "unat (sb_num_blocks sb) < 2 ^ 32"
  using unsigned_less [of "sb_num_blocks sb"] by simp

lemma BIT_PER_BLOCK_eq: "BIT_PER_BLOCK = 4096"
  by (simp add: BIT_PER_BLOCK_def BLOCK_SIZE_def)

lemma bitmap_at_alt: "bitmap_at sb v n \<longleftrightarrow> bitmap_get (cells_of_bytes (v (bitmap_no sb (n div 4096)))) (n mod 4096)"
  by (simp add: bitmap_at_def bitmap_no_def BIT_PER_BLOCK_eq)

lemma bitmap_no_inj: "q < 2 ^ 32 \<Longrightarrow> r < 2 ^ 32 \<Longrightarrow> bitmap_no sb q = bitmap_no sb r \<longleftrightarrow> q = r"
proof
  assume "q < 2 ^ 32" "r < 2 ^ 32" "bitmap_no sb q = bitmap_no sb r"
  then have "unat (of_nat q :: u64) = unat (of_nat r :: u64)" "q < 2 ^ 64" "r < 2 ^ 64" by (simp_all add: bitmap_no_def)
  then show "q = r" by (simp only: unat_of_nat_ptr)
qed simp

lemma of_nat_block_inj: "m < 2 ^ 32 \<Longrightarrow> n < 2 ^ 32 \<Longrightarrow> (of_nat m :: u64) = of_nat n \<longleftrightarrow> m = n"
proof
  assume "m < 2 ^ 32" "n < 2 ^ 32" "(of_nat m :: u64) = of_nat n"
  then have "unat (of_nat m :: u64) = unat (of_nat n :: u64)" "m < 2 ^ 64" "n < 2 ^ 64" by simp_all
  then show "m = n" by (simp only: unat_of_nat_ptr)
qed simp

lemma mem_bitmap_blocks: "b \<in> bitmap_blocks sb \<longleftrightarrow> (\<exists>q. b = bitmap_no sb q \<and> 4096 * q < unat (sb_num_blocks sb))"
proof
  assume "b \<in> bitmap_blocks sb"
  then obtain n where "b = bitmap_no sb (n div 4096)" "n < unat (sb_num_blocks sb)"
    by (auto simp: bitmap_blocks_def bitmap_no_def BIT_PER_BLOCK_eq)
  then show "\<exists>q. b = bitmap_no sb q \<and> 4096 * q < unat (sb_num_blocks sb)" by (intro exI [of _ "n div 4096"]) auto
next
  assume "\<exists>q. b = bitmap_no sb q \<and> 4096 * q < unat (sb_num_blocks sb)"
  then obtain q where "b = bitmap_no sb q" "4096 * q < unat (sb_num_blocks sb)" by blast
  then show "b \<in> bitmap_blocks sb" by (auto simp: bitmap_blocks_def bitmap_no_def BIT_PER_BLOCK_eq intro!: exI [of _ "4096 * q"])
qed

lemma mem_allocated: "n < 2 ^ 32 \<Longrightarrow> of_nat n \<in> allocated sb v \<longleftrightarrow> n < unat (sb_num_blocks sb) \<and> bitmap_at sb v n"
  using unat_num_blocks [of sb] by (auto simp: allocated_def of_nat_block_inj)

text \<open>The effect of changing one bit of the bitmap on the set of allocated blocks.\<close>

lemma bitmap_set_allocated:
  assumes len: "\<And>n. length (v n) = BLOCK_SIZE" and n: "n < unat (sb_num_blocks sb)" and m: "n = 4096 * q + j" "j < 4096"
  shows "allocated sb (v(bitmap_no sb q := bytes_of_cells (bitmap_set (cells_of_bytes (v (bitmap_no sb q))) j)))
      = insert (of_nat n) (allocated sb v)"
    "allocated sb (v(bitmap_no sb q := bytes_of_cells (bitmap_clear (cells_of_bytes (v (bitmap_no sb q))) j)))
      = allocated sb v - {of_nat n}"
proof -
  let ?c = "cells_of_bytes (v (bitmap_no sb q))"
  have bits: "bitmap_bits ?c = 4096" by (simp add: bitmap_bits_def BITMAP_BITS_PER_CELL_def len BLOCK_SIZE_def)
  have small: "unat (sb_num_blocks sb) < 2 ^ 32" by (rule unat_num_blocks)
  have q: "q < 2 ^ 32" using n m small by simp
  have at: "bitmap_at sb (v(bitmap_no sb q := bytes_of_cells d)) i
      \<longleftrightarrow> (if i div 4096 = q then bitmap_get d (i mod 4096) else bitmap_at sb v i)" if "i < unat (sb_num_blocks sb)" for i d
  proof -
    have "i div 4096 < 2 ^ 32" using that small by (metis div_le_dividend le_less_trans less_trans)
    then show ?thesis using bitmap_no_inj [OF _ q, of "i div 4096" sb] by (simp add: bitmap_at_alt cells_of_bytes_of_cells)
  qed
  have eq: "i div 4096 = q \<and> i mod 4096 = j \<longleftrightarrow> i = n" for i using m by auto
  have set1: "bitmap_at sb (v(bitmap_no sb q := bytes_of_cells (bitmap_set ?c j))) i \<longleftrightarrow> i = n \<or> bitmap_at sb v i"
    and set2: "bitmap_at sb (v(bitmap_no sb q := bytes_of_cells (bitmap_clear ?c j))) i \<longleftrightarrow> i \<noteq> n \<and> bitmap_at sb v i"
    if "i < unat (sb_num_blocks sb)" for i
    using at [OF that] eq [of i] bm.get_set [of j ?c "i mod 4096"] bm.get_clear [of j ?c "i mod 4096"] m(2) bits
    by (auto simp: bitmap_at_alt)
  show "allocated sb (v(bitmap_no sb q := bytes_of_cells (bitmap_set ?c j))) = insert (of_nat n) (allocated sb v)"
    using set1 n by (auto simp: allocated_def)
  show "allocated sb (v(bitmap_no sb q := bytes_of_cells (bitmap_clear ?c j))) = allocated sb v - {of_nat n}"
    using set2 n small by (auto simp: allocated_def of_nat_block_inj)
qed

lemma allocated_other:
  "b \<notin> bitmap_blocks sb \<Longrightarrow> allocated sb (v(b := d)) = allocated sb v"
  unfolding allocated_def bitmap_at_def by (auto simp: bitmap_blocks_def)

section \<open>Steps of an operation\<close>

text \<open>What a sequence of calls leaves alone: the blocks held before it and whether there is an operation.\<close>

definition txn_step :: "bcache \<Rightarrow> nat \<Rightarrow> txn \<Rightarrow> txn \<Rightarrow> bool" where
  "txn_step b k s s' \<longleftrightarrow> txn_ok b k s' \<and> t_held s' = t_held s \<and> t_dirty s' = t_dirty s
     \<and> (fst s' = None \<longleftrightarrow> fst s = None) \<and> (\<forall>q m. holds (snd s) q m \<longrightarrow> holds (snd s') q m)"

lemma txn_step_ok: "txn_step b k s s' \<Longrightarrow> txn_ok b k s'"
  by (simp add: txn_step_def)

lemma txn_step_refl: "txn_ok b k s \<Longrightarrow> txn_step b k s s"
  by (simp add: txn_step_def)

lemma txn_step_trans: "txn_step b j s t \<Longrightarrow> txn_step b k t u \<Longrightarrow> txn_step b k s u"
  by (simp add: txn_step_def)

lemma txn_step_mono: "txn_step b k s t \<Longrightarrow> j \<le> k \<Longrightarrow> txn_step b j s t"
  using bs.ok_mono [of b k t j] by (auto simp: txn_step_def)

lemma txn_sblock: "txn_ok b k s \<Longrightarrow> sblock (snd s) = sblock b"
  by (simp add: txn_ok_def same_log_def)

lemma txn_view_length: "txn_ok b k s \<Longrightarrow> length (t_view s n) = BLOCK_SIZE"
  by (rule bs.view_length)

lemma txn_read:
  assumes "txn_ok b (Suc k) s" and "n \<notin> t_held s"
  obtains p s' where "t_acquire n s = Inr (p, s')" "t_data s' p = t_view s n" "txn_step b k s (t_release p s')"
    "t_view (t_release p s') = t_view s" "t_recs (t_release p s') = t_recs s" "sblock (snd s') = sblock b"
proof -
  from assms obtain p s' where s': "t_acquire n s = Inr (p, s')" "txn_ok b k s'"
    by (rule txn_acquire)
  from assms show thesis
    by (rule bs.read_one) (use s' in \<open>auto simp: txn_step_def txn_sblock intro!: that\<close>)
qed

lemma txn_write:
  assumes "txn_ok b (Suc k) s" and "n \<notin> t_held s" and "fst s \<noteq> None" and "card (insert n (t_recs s)) \<le> OP_MAX_NUM_BLOCKS"
    and "length d = BLOCK_SIZE"
  obtains p s1 s2 where "t_acquire n s = Inr (p, s1)" "t_data s1 p = t_view s n" "t_sync p (t_store p d s1) = Inr s2"
    "txn_step b k s (t_release p s2)" "t_view (t_release p s2) = (t_view s)(n := d)" "t_recs (t_release p s2) = insert n (t_recs s)"
    "sblock (snd s1) = sblock b"
proof -
  from assms(1,2) obtain p s' where s': "t_acquire n s = Inr (p, s')" "txn_ok b k s'"
    by (rule txn_acquire)
  have fin: "finite (t_recs s)" by (simp add: t_recs_def split: option.split)
  have "n \<in> t_recs s \<or> card (t_recs s) < OP_MAX_NUM_BLOCKS" using assms(4) fin by (cases "n \<in> t_recs s") auto
  from assms(1-3) this assms(5) show thesis
    by (rule bs.write_one) (use s' assms(3) in \<open>auto simp: txn_step_def txn_sblock intro!: that\<close>)
qed

text \<open>Finishing the change of a block that was acquired some calls before.\<close>

lemma txn_finish:
  assumes s1: "txn_ok b (Suc j) s" "n \<notin> t_held s" "t_acquire n s = Inr (p, s1)"
    and s2: "txn_step b k s1 s2" "fst s2 \<noteq> None" "card (insert n (t_recs s2)) \<le> OP_MAX_NUM_BLOCKS" "length d = BLOCK_SIZE"
  obtains s3 where "t_sync p (t_store p d s2) = Inr s3" "txn_step b k s (t_release p s3)"
    "t_view (t_release p s3) = (t_view s2)(n := d)" "t_recs (t_release p s3) = insert n (t_recs s2)"
proof -
  from s1(1,2) obtain p' s' where s': "t_acquire n s = Inr (p', s')" "txn_ok b j s'" "t_held s' = insert n (t_held s)"
    "t_dirty s' = t_dirty s" "fst s' = fst s" "holds (snd s') p' n" "\<And>q m. holds (snd s) q m \<Longrightarrow> holds (snd s') q m"
    by (rule txn_acquire) auto
  with s1(3) have eq: "p' = p" "s' = s1" by auto
  have clean: "n \<notin> t_dirty s2" using s2(1) s'(4) s1(2) eq by (auto simp: txn_step_def t_dirty_def)
  have fin: "finite (t_recs s2)" by (simp add: t_recs_def split: option.split)
  have room: "n \<in> t_recs s2 \<or> card (t_recs s2) < OP_MAX_NUM_BLOCKS" using s2(3) fin by (cases "n \<in> t_recs s2") auto
  have h: "txn_ok b k s2" "holds (snd s2) p n" using s2(1) s'(6) eq by (auto simp: txn_step_def)
  from h clean s2(2) room s2(4) obtain s3 where s3: "t_sync p (t_store p d s2) = Inr s3" "txn_ok b k (t_release p s3)"
    "t_view (t_release p s3) = (t_view s2)(n := d)" "t_held (t_release p s3) = t_held s2 - {n}"
    "t_recs (t_release p s3) = insert n (t_recs s2)" "t_dirty (t_release p s3) = t_dirty s2" "fst (t_release p s3) \<noteq> None"
    "\<And>q m. holds (snd s2) q m \<Longrightarrow> m \<noteq> n \<Longrightarrow> holds (snd (t_release p s3)) q m"
    by (rule bs.update_held) blast
  have "holds (snd (t_release p s3)) q m" if "holds (snd s) q m" for q m
  proof (rule s3(8))
    show "holds (snd s2) q m" using s2(1) s'(7) [OF that] eq by (simp add: txn_step_def)
    show "m \<noteq> n" using holds_held [OF that] s1(2) by blast
  qed
  then have "txn_step b k s (t_release p s3)"
    using s3 s2(1,2) s'(3-5) eq s1(2) by (auto simp: txn_step_def)
  then show thesis using s3 by (intro that) simp_all
qed

section \<open>Allocation\<close>

text \<open>
  The bitmap is not held, its own blocks are allocated, and so is everything the client holds.
\<close>

definition bitmap_free_to_use :: "bcache \<Rightarrow> txn \<Rightarrow> bool" where
  "bitmap_free_to_use b s \<longleftrightarrow> t_held s \<inter> bitmap_blocks (sblock b) = {} \<and> bitmap_blocks (sblock b) \<subseteq> allocated (sblock b) (t_view s)
     \<and> t_held s \<subseteq> allocated (sblock b) (t_view s)"

definition fs_blocks :: "bcache \<Rightarrow> nat" where
  "fs_blocks b = unat (sb_num_blocks (sblock b))"

definition num_bitmaps :: "bcache \<Rightarrow> nat" where
  "num_bitmaps b = (fs_blocks b + 4095) div 4096"

text \<open>The operation can record a bitmap block and one more.\<close>

definition alloc_room :: "bcache \<Rightarrow> txn \<Rightarrow> bool" where
  "alloc_room b s \<longleftrightarrow> (\<forall>m. \<forall>q < num_bitmaps b. card (insert m (insert (bitmap_no (sblock b) q) (t_recs s))) \<le> OP_MAX_NUM_BLOCKS)"

lemma card_insert_Suc: "card (insert x A) \<le> Suc (card A)"
  by (cases "finite A") (simp_all add: card_insert_if)

lemma finite_t_recs [simp]: "finite (t_recs s)"
  by (simp add: t_recs_def split: option.split)

lemma bitmap_no_mem: "q < num_bitmaps b \<Longrightarrow> bitmap_no (sblock b) q \<in> bitmap_blocks (sblock b)"
  by (auto simp: mem_bitmap_blocks num_bitmaps_def fs_blocks_def)

lemma finite_bitmap_blocks [simp]: "finite (bitmap_blocks sb)"
  by (simp add: bitmap_blocks_def)

lemma alloc_room_card:
  assumes "card (t_recs s) + 2 \<le> OP_MAX_NUM_BLOCKS"
  shows "alloc_room b s"
proof -
  have "card (insert m (insert x (t_recs s))) \<le> Suc (Suc (card (t_recs s)))" for m x
    using card_insert_Suc [of m "insert x (t_recs s)"] card_insert_Suc [of x "t_recs s"] by linarith
  then show ?thesis unfolding alloc_room_def using assms by (metis add_2_eq_Suc' le_trans)
qed

lemma alloc_room_union:
  assumes "card (t_recs s \<union> bitmap_blocks (sblock b)) < OP_MAX_NUM_BLOCKS"
  shows "alloc_room b s"
  unfolding alloc_room_def
proof (intro allI impI)
  fix m q assume "q < num_bitmaps b"
  then have "insert m (insert (bitmap_no (sblock b) q) (t_recs s)) \<subseteq> insert m (t_recs s \<union> bitmap_blocks (sblock b))"
    using bitmap_no_mem by auto
  then have "card (insert m (insert (bitmap_no (sblock b) q) (t_recs s))) \<le> card (insert m (t_recs s \<union> bitmap_blocks (sblock b)))"
    by (intro card_mono) simp_all
  then show "card (insert m (insert (bitmap_no (sblock b) q) (t_recs s))) \<le> OP_MAX_NUM_BLOCKS"
    using assms card_insert_Suc [of m "t_recs s \<union> bitmap_blocks (sblock b)"] by linarith
qed

lemma alloc_found:
  assumes ok: "txn_ok b (Suc (Suc k)) s" and use: "bitmap_free_to_use b s" and log: "fst s \<noteq> None"
    and n: "n = 4096 * q + j" "j < 4096" "n < fs_blocks b" "\<not> bitmap_at (sblock b) (t_view s) n"
    and first: "\<And>i. i < j \<Longrightarrow> bitmap_at (sblock b) (t_view s) (4096 * q + i)"
    and room: "card (insert (of_nat n) (insert (bitmap_no (sblock b) q) (t_recs s))) \<le> OP_MAX_NUM_BLOCKS"
  obtains s' where "alloc_loop (4096 * q # is) s = Inr (of_nat n, s')" "txn_step b k s s'"
    "t_view s' = (t_view s)(bitmap_no (sblock b) q := bytes_of_cells (bitmap_set (cells_of_bytes (t_view s (bitmap_no (sblock b) q))) j),
       of_nat n := replicate BLOCK_SIZE 0)"
    "t_recs s' = insert (of_nat n) (insert (bitmap_no (sblock b) q) (t_recs s))"
proof -
  let ?sb = "sblock b" and ?B = "bitmap_no (sblock b) q" and ?c = "cells_of_bytes (t_view s (bitmap_no (sblock b) q))"
  let ?d = "bytes_of_cells (bitmap_set ?c j)"
  have small: "n < 2 ^ 32" using n(3) unat_num_blocks [of ?sb] by (simp add: fs_blocks_def)
  have fresh: "of_nat n \<notin> allocated ?sb (t_view s)" using n(4) by (simp add: mem_allocated [OF small])
  have B: "?B \<in> bitmap_blocks ?sb" using n by (auto simp: mem_bitmap_blocks fs_blocks_def)
  then have held: "?B \<notin> t_held s" "of_nat n \<notin> t_held s" "of_nat n \<noteq> ?B"
    using use fresh by (auto simp: bitmap_free_to_use_def)
  have fin: "finite (t_recs s)" by (simp add: t_recs_def split: option.split)
  have "card (insert ?B (t_recs s)) \<le> card (insert (of_nat n) (insert ?B (t_recs s)))" using fin by (intro card_mono) auto
  then have room1: "card (insert ?B (t_recs s)) \<le> OP_MAX_NUM_BLOCKS" using room by linarith
  have len: "length ?d = BLOCK_SIZE" using txn_view_length [OF ok] by (simp add: BLOCK_SIZE_def)
  obtain p s1 s2 where w1: "t_acquire ?B s = Inr (p, s1)" "t_data s1 p = t_view s ?B" "t_sync p (t_store p ?d s1) = Inr s2"
    "txn_step b (Suc k) s (t_release p s2)" "t_view (t_release p s2) = (t_view s)(?B := ?d)" "t_recs (t_release p s2) = insert ?B (t_recs s)"
    "sblock (snd s1) = sblock b"
    using txn_write [OF ok held(1) log room1 len] by blast
  let ?s = "t_release p s2"
  have ok2: "txn_ok b (Suc k) ?s" "of_nat n \<notin> t_held ?s" "fst ?s \<noteq> None" "card (insert (of_nat n) (t_recs ?s)) \<le> OP_MAX_NUM_BLOCKS"
    using w1(4,6) held(2) log room by (auto simp: txn_step_def)
  obtain p' s3 s4 where w2: "t_acquire (of_nat n) ?s = Inr (p', s3)" "t_sync p' (t_store p' (replicate BLOCK_SIZE 0) s3) = Inr s4"
    "txn_step b k ?s (t_release p' s4)" "t_view (t_release p' s4) = (t_view ?s)(of_nat n := replicate BLOCK_SIZE 0)"
    "t_recs (t_release p' s4) = insert (of_nat n) (t_recs ?s)"
    using txn_write [OF ok2, of "replicate BLOCK_SIZE 0"] by (metis length_replicate)
  have bit: "bitmap_get ?c i \<longleftrightarrow> bitmap_at ?sb (t_view s) (4096 * q + i)" if "i < 4096" for i
    using that by (simp add: bitmap_at_alt)
  have "find_from (\<lambda>i. \<not> bitmap_get ?c i) 0 (min BIT_PER_BLOCK (fs_blocks b - 4096 * q)) = Some j"
    using n bit first by (auto simp: find_from_Some BIT_PER_BLOCK_eq)
  moreover have "bitmap_block s (4096 * q) = ?B" using txn_sblock [OF ok] by (simp add: bitmap_block_def bitmap_no_def BIT_PER_BLOCK_eq)
  moreover have "num_blocks s1 = fs_blocks b" using w1(7) by (simp add: num_blocks_def fs_blocks_def)
  ultimately have "alloc_loop (4096 * q # is) s = Inr (of_nat n, t_release p' s4)"
    using w1(1-3) w2(1,2) n(1) by (simp add: Let_def)
  then show thesis using txn_step_trans [OF w1(4) w2(3)] w1(5,6) w2(4,5) by (intro that) simp_all
qed

text \<open>The state after allocating block \<open>n\<close>, relative to the state before.\<close>

definition alloc_result :: "bcache \<Rightarrow> nat \<Rightarrow> txn \<Rightarrow> u64 \<Rightarrow> txn \<Rightarrow> bool" where
  "alloc_result b k s m s' \<longleftrightarrow> txn_step b k s s' \<and> m \<notin> allocated (sblock b) (t_view s) \<and> unat m < fs_blocks b
     \<and> allocated (sblock b) (t_view s') = insert m (allocated (sblock b) (t_view s)) \<and> t_view s' m = replicate BLOCK_SIZE 0
     \<and> (\<forall>n. n \<noteq> m \<and> n \<notin> bitmap_blocks (sblock b) \<longrightarrow> t_view s' n = t_view s n)
     \<and> (\<exists>q < num_bitmaps b. t_recs s' = insert m (insert (bitmap_no (sblock b) q) (t_recs s)))"

lemma alloc_found_result:
  assumes ok: "txn_ok b (Suc (Suc k)) s" and use: "bitmap_free_to_use b s" and log: "fst s \<noteq> None"
    and n: "n = 4096 * q + j" "j < 4096" "n < fs_blocks b" "\<not> bitmap_at (sblock b) (t_view s) n"
    and first: "\<And>i. i < j \<Longrightarrow> bitmap_at (sblock b) (t_view s) (4096 * q + i)"
    and room: "alloc_room b s"
  shows "\<exists>m s'. alloc_loop (4096 * q # is) s = Inr (m, s') \<and> alloc_result b k s m s'"
proof -
  let ?sb = "sblock b" and ?B = "bitmap_no (sblock b) q"
  have "q < num_bitmaps b" using n(1,3) by (simp add: num_bitmaps_def)
  then have room': "card (insert (of_nat n) (insert ?B (t_recs s))) \<le> OP_MAX_NUM_BLOCKS"
    using room by (simp add: alloc_room_def)
  from assms(1-8) room' obtain s' where s': "alloc_loop (4096 * q # is) s = Inr (of_nat n, s')" "txn_step b k s s'"
    "t_view s' = (t_view s)(?B := bytes_of_cells (bitmap_set (cells_of_bytes (t_view s ?B)) j), of_nat n := replicate BLOCK_SIZE 0)"
    "t_recs s' = insert (of_nat n) (insert ?B (t_recs s))"
    by (rule alloc_found) blast
  have small: "n < 2 ^ 32" using n(3) unat_num_blocks [of ?sb] by (simp add: fs_blocks_def)
  have fresh: "of_nat n \<notin> allocated ?sb (t_view s)" using n(4) by (simp add: mem_allocated [OF small])
  have B: "?B \<in> bitmap_blocks ?sb" using n by (auto simp: mem_bitmap_blocks fs_blocks_def)
  have nb: "of_nat n \<notin> bitmap_blocks ?sb" using use fresh by (auto simp: bitmap_free_to_use_def)
  have "allocated ?sb (t_view s') = insert (of_nat n) (allocated ?sb (t_view s))"
    unfolding s'(3) allocated_other [OF nb]
    using n bitmap_set_allocated(1) [of "t_view s" n ?sb q j] txn_view_length [OF ok] by (simp add: fs_blocks_def)
  moreover have "q < num_bitmaps b" using n(1,3) by (simp add: num_bitmaps_def)
  moreover have "unat (of_nat n :: u64) = n" using small by (intro unat_of_nat_ptr) simp
  ultimately have "alloc_result b k s (of_nat n) s'"
    using s'(2-4) fresh B n(3) by (auto simp: alloc_result_def)
  then show ?thesis using s'(1) by blast
qed

lemma bitmap_free_step:
  assumes "bitmap_free_to_use b s" and "txn_step b k s s'" and "t_view s' = t_view s"
  shows "bitmap_free_to_use b s'"
  using assms by (simp add: bitmap_free_to_use_def txn_step_def)

lemma alloc_loop_effect:
  assumes "num_bitmaps b - q = r" "q \<le> num_bitmaps b" "txn_ok b (r + Suc k) s" "bitmap_free_to_use b s" "fst s \<noteq> None"
    "alloc_room b s" "\<And>n. n < 4096 * q \<Longrightarrow> n < fs_blocks b \<Longrightarrow> bitmap_at (sblock b) (t_view s) n"
  shows "if \<exists>n < fs_blocks b. \<not> bitmap_at (sblock b) (t_view s) n
    then \<exists>m s'. alloc_loop (map ((*) 4096) [q ..< num_bitmaps b]) s = Inr (m, s') \<and> alloc_result b k s m s'
    else alloc_loop (map ((*) 4096) [q ..< num_bitmaps b]) s = Inl (Panic ''cache_alloc: no free block'')"
  using assms
proof (induction r arbitrary: q s)
  case 0
  then have q: "q = num_bitmaps b" by simp
  have "fs_blocks b \<le> 4096 * num_bitmaps b" by (simp add: num_bitmaps_def)
  then have "\<not> (\<exists>n < fs_blocks b. \<not> bitmap_at (sblock b) (t_view s) n)" using 0(7) by (auto simp: q)
  then show ?case by (simp add: q)
next
  case (Suc r)
  let ?sb = "sblock b" and ?B = "bitmap_no (sblock b) q"
  have upt: "[q ..< num_bitmaps b] = q # [Suc q ..< num_bitmaps b]" using Suc.prems(1) by (simp add: upt_rec)
  have qs: "4096 * q < fs_blocks b" using Suc.prems(1) by (simp add: num_bitmaps_def)
  have low: "num_bitmaps b - Suc q = r" "Suc q \<le> num_bitmaps b" using Suc.prems(1,2) by linarith+
  show ?case
  proof (cases "\<exists>j < 4096. 4096 * q + j < fs_blocks b \<and> \<not> bitmap_at ?sb (t_view s) (4096 * q + j)")
    case True
    define P where "P = (\<lambda>j. j < 4096 \<and> 4096 * q + j < fs_blocks b \<and> \<not> bitmap_at ?sb (t_view s) (4096 * q + j))"
    define j where "j = (LEAST j. P j)"
    have "\<exists>j. P j" using True by (auto simp: P_def)
    then have j: "P j" unfolding j_def by (rule LeastI_ex)
    have first: "bitmap_at ?sb (t_view s) (4096 * q + i)" if "i < j" for i
      using not_less_Least [of i P] that j by (auto simp: j_def P_def)
    have "txn_ok b (Suc (Suc k)) s" using Suc.prems(3) bs.ok_mono [of b _ s "Suc (Suc k)"] by simp
    from alloc_found_result [OF this Suc.prems(4,5) refl _ _ _ first Suc.prems(6)] j
    show ?thesis unfolding upt P_def by auto
  next
    case False
    have "?B \<in> bitmap_blocks ?sb" using qs by (auto simp: mem_bitmap_blocks fs_blocks_def)
    then have B: "?B \<notin> t_held s" using Suc.prems(4) by (auto simp: bitmap_free_to_use_def)
    have ok: "txn_ok b (Suc (r + Suc k)) s" using Suc.prems(3) by simp
    from ok B obtain p s1 where s1: "t_acquire ?B s = Inr (p, s1)" "t_data s1 p = t_view s ?B" "txn_step b (r + Suc k) s (t_release p s1)"
      "t_view (t_release p s1) = t_view s" "t_recs (t_release p s1) = t_recs s" "sblock (snd s1) = sblock b" by (rule txn_read)
    let ?s = "t_release p s1"
    have none: "find_from (\<lambda>i. \<not> bitmap_get (cells_of_bytes (t_view s ?B)) i) 0 (min BIT_PER_BLOCK (fs_blocks b - 4096 * q)) = None"
      using False by (auto simp: find_from_None BIT_PER_BLOCK_eq bitmap_at_alt)
    have "bitmap_block s (4096 * q) = ?B" using txn_sblock [OF ok] by (simp add: bitmap_block_def bitmap_no_def BIT_PER_BLOCK_eq)
    moreover have "num_blocks s1 = fs_blocks b" using s1(6) by (simp add: num_blocks_def fs_blocks_def)
    ultimately have loop: "alloc_loop (map ((*) 4096) [q ..< num_bitmaps b]) s = alloc_loop (map ((*) 4096) [Suc q ..< num_bitmaps b]) ?s"
      unfolding upt using none s1(1,2) by (simp add: Let_def)
    have below: "bitmap_at ?sb (t_view ?s) n" if "n < 4096 * Suc q" "n < fs_blocks b" for n
    proof (cases "n < 4096 * q")
      case True
      then show ?thesis using Suc.prems(7) that s1(4) by simp
    next
      case ge: False
      with that have "4096 * q + (n - 4096 * q) < fs_blocks b" "n - 4096 * q < 4096" by auto
      then have "bitmap_at ?sb (t_view s) (4096 * q + (n - 4096 * q))" using False by blast
      with ge show ?thesis by (simp add: s1(4))
    qed
    have "alloc_result b k s m s'" if "alloc_result b k ?s m s'" for m s'
      using that s1(4,5) txn_step_trans [OF s1(3)] by (auto simp: alloc_result_def)
    moreover have "if \<exists>n < fs_blocks b. \<not> bitmap_at ?sb (t_view ?s) n
      then \<exists>m s'. alloc_loop (map ((*) 4096) [Suc q ..< num_bitmaps b]) ?s = Inr (m, s') \<and> alloc_result b k ?s m s'
      else alloc_loop (map ((*) 4096) [Suc q ..< num_bitmaps b]) ?s = Inl (Panic ''cache_alloc: no free block'')"
      using s1 Suc.prems(5,6) below bitmap_free_step [OF Suc.prems(4) s1(3,4)]
      by (intro Suc.IH [OF low]) (auto simp: txn_step_def alloc_room_def)
    ultimately show ?thesis unfolding loop s1(4) by (auto split: if_splits)
  qed
qed

lemma cache_alloc_effect:
  assumes "txn_ok b (num_bitmaps b + Suc k) s" "bitmap_free_to_use b s" "fst s \<noteq> None" "alloc_room b s"
  shows "if \<exists>n < fs_blocks b. \<not> bitmap_at (sblock b) (t_view s) n
    then \<exists>m s'. cache_alloc s = Inr (m, s') \<and> alloc_result b k s m s'
    else cache_alloc s = Inl (Panic ''cache_alloc: no free block'')"
proof -
  have eq: "(num_blocks s + (4096 - 1)) div 4096 = num_bitmaps b"
    using txn_sblock [OF assms(1)] by (simp add: num_blocks_def num_bitmaps_def fs_blocks_def)
  show ?thesis
    unfolding cache_alloc_def BIT_PER_BLOCK_eq eq by (rule alloc_loop_effect) (use assms in simp_all)
qed

lemma cache_free_effect:
  assumes ok: "txn_ok b (Suc k) s" and use: "t_held s \<inter> bitmap_blocks (sblock b) = {}" and log: "fst s \<noteq> None"
    and n: "unat n < fs_blocks b" and room: "card (t_recs s) < OP_MAX_NUM_BLOCKS"
  shows "if n \<in> allocated (sblock b) (t_view s)
    then \<exists>s'. cache_free n s = Inr s' \<and> txn_step b k s s' \<and> allocated (sblock b) (t_view s') = allocated (sblock b) (t_view s) - {n}
      \<and> (\<forall>m. m \<notin> bitmap_blocks (sblock b) \<longrightarrow> t_view s' m = t_view s m)
      \<and> (\<exists>q < num_bitmaps b. t_recs s' = insert (bitmap_no (sblock b) q) (t_recs s))
    else cache_free n s = Inl (Panic ''bitmap_get(bitmap, j)'')"
proof -
  let ?q = "unat n div 4096" and ?j = "unat n mod 4096" and ?sb = "sblock b"
  let ?B = "bitmap_no ?sb ?q" and ?c = "cells_of_bytes (t_view s (bitmap_no (sblock b) (unat n div 4096)))"
  have small: "unat n < 2 ^ 32" using n unat_num_blocks [of ?sb] by (simp add: fs_blocks_def)
  have mem: "n \<in> allocated ?sb (t_view s) \<longleftrightarrow> bitmap_get ?c ?j"
    using mem_allocated [OF small, of ?sb "t_view s"] n by (simp add: fs_blocks_def bitmap_at_alt)
  have "?B \<in> bitmap_blocks ?sb" using n by (auto simp: mem_bitmap_blocks fs_blocks_def)
  then have B: "?B \<notin> t_held s" "?B \<in> bitmap_blocks ?sb" using use by auto
  have blk: "bitmap_block s (unat n) = ?B" using txn_sblock [OF ok] by (simp add: bitmap_block_def bitmap_no_def BIT_PER_BLOCK_eq)
  show ?thesis
  proof (cases "bitmap_get ?c ?j")
    case False
    from ok B(1) obtain p s1 where "t_acquire ?B s = Inr (p, s1)" "t_data s1 p = t_view s ?B" by (rule txn_read)
    then show ?thesis using False mem by (simp add: cache_free_def Let_def blk BIT_PER_BLOCK_eq)
  next
    case True
    let ?d = "bytes_of_cells (bitmap_clear ?c ?j)"
    have fin: "finite (t_recs s)" by (simp add: t_recs_def split: option.split)
    have len: "length ?d = BLOCK_SIZE" using txn_view_length [OF ok] by (simp add: BLOCK_SIZE_def)
    have rm: "card (insert ?B (t_recs s)) \<le> OP_MAX_NUM_BLOCKS" using room fin by (simp add: card_insert_if)
    obtain p s1 s2 where w: "t_acquire ?B s = Inr (p, s1)" "t_data s1 p = t_view s ?B" "t_sync p (t_store p ?d s1) = Inr s2"
      "txn_step b k s (t_release p s2)" "t_view (t_release p s2) = (t_view s)(?B := ?d)" "t_recs (t_release p s2) = insert ?B (t_recs s)"
      by (rule txn_write [OF ok B(1) log rm len])
    have "allocated ?sb (t_view (t_release p s2)) = allocated ?sb (t_view s) - {n}"
      unfolding w(5) using bitmap_set_allocated(2) [of "t_view s" "unat n" ?sb ?q ?j] txn_view_length [OF ok] n by (simp add: fs_blocks_def)
    moreover have "cache_free n s = Inr (t_release p s2)"
      using w(1-3) True by (simp add: cache_free_def Let_def blk BIT_PER_BLOCK_eq)
    moreover have "(unat n + 4096) div 4096 \<le> num_bitmaps b"
      unfolding num_bitmaps_def using n by (intro div_le_mono) simp
    then have "?q < num_bitmaps b" by simp
    moreover have "t_view (t_release p s2) m = t_view s m" if "m \<notin> bitmap_blocks ?sb" for m
      using w(5) that B(2) by auto
    ultimately show ?thesis unfolding mem using True w(4,6) by auto
  qed
qed

section \<open>Properties\<close>

text \<open>
  C35: \<^verbatim>\<open>cache_alloc\<close> returns a block that was free, inside the file system and filled with zeros, and marks exactly this block as
  allocated; no other block outside the bitmap changes, the blocks the caller holds stay held, and at most two blocks are
  recorded in the operation.  It stops the kernel exactly when no block is free.
\<close>

theorem cache_alloc_correct:
  assumes "txn_ok b (num_bitmaps b + Suc k) s" and "bitmap_free_to_use b s" and "fst s \<noteq> None" and "card (t_recs s) + 2 \<le> OP_MAX_NUM_BLOCKS"
  shows "if \<exists>n < fs_blocks b. \<not> bitmap_at (sblock b) (t_view s) n
    then \<exists>m s'. cache_alloc s = Inr (m, s') \<and> alloc_result b k s m s'
    else cache_alloc s = Inl (Panic ''cache_alloc: no free block'')"
  by (rule cache_alloc_effect [OF assms(1-3) alloc_room_card [OF assms(4)]])

text \<open>A disk of 1000 blocks, the first 100 of them allocated; block 92 is the bitmap.\<close>

definition sample_bitmap :: sector where
  "sample_bitmap = replicate 12 0xff @ [0x0f] @ replicate 499 0"

definition sample_disk :: "u64 \<Rightarrow> sector" where
  "sample_disk n = (if n = 92 then sample_bitmap else replicate 512 0)"

definition sample_fs :: bcache where
  "sample_fs = sample_cache\<lparr>lru := [], disk := sample_disk\<rparr>"

definition sample_op :: OpContext where
  "sample_op = \<lparr>op_ts = 1, op_num_blocks = 0, op_block_no = replicate 10 0\<rparr>"

lemma sample_fs_view: "cview sample_fs = sample_disk" "held sample_fs = {}" "pins sample_fs = {}" "sblock sample_fs = sblock sample_cache"
  by (simp_all add: cview_def sample_fs_def held_def pins_def fun_eq_iff)

lemma sample_fs_ok: "txn_ok sample_fs 2 (Some sample_op, sample_fs)"
proof -
  have "length (sample_disk n) = 512" for n by (simp add: sample_disk_def sample_bitmap_def)
  then have "cache_inv sample_fs" by (simp add: cache_inv_def sample_fs_def BLOCK_SIZE_def)
  moreover have "cache_mem sample_fs 2"
    unfolding cache_mem_def using sample_objs
    by (rule_tac exI [of _ "{0x100}"], rule_tac exI [of _ "{0x1040, 0x1820}"], rule_tac exI [of _ 2])
      (simp add: sample_fs_def sample_cache_def)
  ultimately show ?thesis
    by (simp add: txn_ok_def sample_op_def ctx_ok_def ctx_nos_def OP_MAX_NUM_BLOCKS_def)
qed

lemma sample_fs_bits:
  "num_bitmaps sample_fs = 1" "fs_blocks sample_fs = 1000" "bitmap_blocks (sblock sample_fs) = {92}"
  "n < 1000 \<Longrightarrow> bitmap_at (sblock sample_fs) (cview sample_fs) n \<longleftrightarrow> bit (sample_bitmap ! (n div 8)) (n mod 8)"
proof -
  show fs: "fs_blocks sample_fs = 1000" by (simp add: fs_blocks_def sample_fs_view) (simp add: sample_cache_def)
  then show "num_bitmaps sample_fs = 1" by (simp add: num_bitmaps_def)
  have no: "bitmap_no (sblock sample_fs) 0 = 92" by (simp add: bitmap_no_def sample_fs_view) (simp add: sample_cache_def)
  have "4096 * q < 1000 \<longleftrightarrow> q = 0" for q :: nat by auto
  then show "bitmap_blocks (sblock sample_fs) = {92}"
    unfolding set_eq_iff mem_bitmap_blocks using fs no by (simp add: fs_blocks_def)
  show "bitmap_at (sblock sample_fs) (cview sample_fs) n \<longleftrightarrow> bit (sample_bitmap ! (n div 8)) (n mod 8)" if "n < 1000"
    using that no by (simp add: bitmap_at_alt sample_fs_view(1) sample_disk_def bitmap_get_bytes sample_bitmap_def)
qed

lemma sample_fs_use: "bitmap_free_to_use sample_fs (Some sample_op, sample_fs)"
proof -
  have "bitmap_at (sblock sample_fs) (cview sample_fs) 92"
    by (simp add: sample_fs_bits(4)) (simp add: sample_bitmap_def nth_append bit_Suc)
  then have "of_nat 92 \<in> allocated (sblock sample_fs) (cview sample_fs)"
    using sample_fs_bits(2) by (subst mem_allocated) (simp_all add: fs_blocks_def)
  then show ?thesis by (simp add: bitmap_free_to_use_def sample_fs_view(2) sample_fs_bits(3))
qed

theorem cache_alloc_correct_witness:
  "\<exists>m s'. cache_alloc (Some sample_op, sample_fs) = Inr (m, s') \<and> alloc_result sample_fs 0 (Some sample_op, sample_fs) m s'"
proof -
  have "\<not> bitmap_at (sblock sample_fs) (cview sample_fs) 100"
    by (simp add: sample_fs_bits(4)) (simp add: sample_bitmap_def nth_append bit_Suc)
  then have "\<exists>n < fs_blocks sample_fs. \<not> bitmap_at (sblock sample_fs) (t_view (Some sample_op, sample_fs)) n"
    by (intro exI [of _ 100]) (simp add: sample_fs_bits(2))
  moreover have "txn_ok sample_fs (num_bitmaps sample_fs + Suc 0) (Some sample_op, sample_fs)"
    using sample_fs_ok by (simp add: sample_fs_bits(1) numeral_2_eq_2)
  moreover have "card (t_recs (Some sample_op, sample_fs)) + 2 \<le> OP_MAX_NUM_BLOCKS"
    by (simp add: t_recs_def sample_op_def ctx_nos_def OP_MAX_NUM_BLOCKS_def)
  ultimately show ?thesis using cache_alloc_correct [OF _ sample_fs_use, of 0] by (simp del: One_nat_def)
qed

text \<open>
  \<^verbatim>\<open>cache_free\<close> makes exactly the given block free again and changes nothing outside the bitmap; freeing a block that
  is not allocated stops the kernel.
\<close>

theorem cache_free_correct:
  assumes "txn_ok b (Suc k) s" and "t_held s \<inter> bitmap_blocks (sblock b) = {}" and "fst s \<noteq> None" and "unat n < fs_blocks b"
    and "card (t_recs s) < OP_MAX_NUM_BLOCKS"
  shows "if n \<in> allocated (sblock b) (t_view s)
    then \<exists>s'. cache_free n s = Inr s' \<and> txn_step b k s s' \<and> allocated (sblock b) (t_view s') = allocated (sblock b) (t_view s) - {n}
      \<and> (\<forall>m. m \<notin> bitmap_blocks (sblock b) \<longrightarrow> t_view s' m = t_view s m)
      \<and> (\<exists>q < num_bitmaps b. t_recs s' = insert (bitmap_no (sblock b) q) (t_recs s))
    else cache_free n s = Inl (Panic ''bitmap_get(bitmap, j)'')"
  by (rule cache_free_effect [OF assms])

end
