(* ===== verification/Format.thy ===== *)
theory Format
  imports Prelude "HOL-Library.Sublist"
begin

text \<open>
  Formatted output of \<^verbatim>\<open>common/format.c\<close>.  The characters handed to \<^verbatim>\<open>put_char\<close> are
  returned as a string.  A format string is the list of its characters before the terminator, a
  variadic argument is the content of a 64-bit slot or a (possibly null) string pointer.  The
  scratch buffer of 64 digits and the 16 digit characters are arrays with their bounds.  Shown are the round trip of
  integer printing and that a format string is executed directive by directive.
\<close>

section \<open>Integers\<close>

definition digit :: string where
  "digit = ''0123456789abcdef''"

text \<open>
  The first loop of \<^verbatim>\<open>_print_int\<close>, with \<open>pos\<close> the number of characters in the buffer; the
  digits come out in the order of the buffer, the least significant first.
\<close>

function print_digits :: "nat \<Rightarrow> u64 \<Rightarrow> u64 \<Rightarrow> string res" where
  "print_digits pos v base =
     (if pos \<ge> 64 then Inl OutOfBounds
      else if unat (v mod base) \<ge> length digit then Inl OutOfBounds
      else let c = digit ! unat (v mod base); v = v div base
           in if v \<noteq> 0 then bindE (print_digits (Suc pos) v base) (\<lambda>s. Inr (c # s)) else Inr [c])"
  by pat_completeness auto
termination
  by (relation "measure (\<lambda>(pos, _). 64 - pos)") auto

declare print_digits.simps [simp del]

definition print_int :: "u64 \<Rightarrow> u64 \<Rightarrow> bool \<Rightarrow> string res" where
  "print_int u base is_signed =
     (let neg = (is_signed \<and> sint u < 0); v = (if neg then - u else u)
      in bindE (print_digits 0 v base) (\<lambda>buf. Inr ((if neg then ''-'' else []) @ rev buf)))"

section \<open>Format strings\<close>

datatype va = VInt u64 | VStr "string option"

fun va_int :: "va list \<Rightarrow> (u64 \<times> va list) res" where
  "va_int (VInt w # args) = Inr (w, args)"
| "va_int _ = Inl OutOfBounds"

fun va_str :: "va list \<Rightarrow> (string option \<times> va list) res" where
  "va_str (VStr s # args) = Inr (s, args)"
| "va_str _ = Inl OutOfBounds"

text \<open>The integer directives: spelling, conversion of the slot to \<^verbatim>\<open>i64\<close>, base and signedness.\<close>

definition as_u32 :: "u64 \<Rightarrow> u64" where
  "as_u32 w = ucast (ucast w :: u32)"

definition as_i32 :: "u64 \<Rightarrow> u64" where
  "as_i32 w = scast (ucast w :: u32)"

definition int_cases :: "(string \<times> (u64 \<Rightarrow> u64) \<times> u64 \<times> bool) list" where
  "int_cases =
     [(''u'', as_u32, 10, False), (''llu'', id, 10, False), (''d'', as_i32, 10, True), (''lld'', id, 10, True),
      (''x'', as_u32, 16, False), (''llx'', id, 16, False), (''p'', id, 16, False), (''zu'', id, 10, False),
      (''zd'', id, 10, True)]"

text \<open>What follows a percent sign: the output, the rest of the format and of the arguments; \<open>None\<close> if it is no directive.\<close>

definition directive :: "string \<Rightarrow> va list \<Rightarrow> (string \<times> string \<times> va list) option res" where
  "directive pos args =
     (if prefix ''%'' pos then Inr (Some (''%'', tl pos, args))
      else if prefix ''c'' pos
      then bindE (va_int args) (\<lambda>(w, args). Inr (Some ([char_of (unat w)], tl pos, args)))
      else if prefix ''s'' pos
      then bindE (va_str args) (\<lambda>(s, args).
             Inr (Some (case s of None \<Rightarrow> ''(null)'' | Some s \<Rightarrow> s, tl pos, args)))
      else case find (\<lambda>(ident, _). prefix ident pos) int_cases of
             Some (ident, conv, base, sign) \<Rightarrow>
               bindE (va_int args) (\<lambda>(w, args).
               bindE (print_int (conv w) base sign) (\<lambda>s.
               Inr (Some (s, drop (length ident) pos, args))))
           | None \<Rightarrow> Inr None)"

lemma directive_shorter: "directive pos args = Inr (Some (s, pos', args')) \<Longrightarrow> length pos' \<le> length pos"
  unfolding directive_def
  by (cases "prefix ''%'' pos"; cases "prefix ''c'' pos"; cases "prefix ''s'' pos";
      cases "find (\<lambda>(ident, _). prefix ident pos) int_cases") (auto simp: bindE_eq_Inr)

function vformat :: "string \<Rightarrow> va list \<Rightarrow> string res" where
  "vformat [] args = Inr []"
| "vformat (c # pos) args =
     (if c = CHR ''%''
      then case directive pos args of
             Inl e \<Rightarrow> Inl e
           | Inr (Some (s, pos', args')) \<Rightarrow> bindE (vformat pos' args') (\<lambda>out. Inr (s @ out))
           | Inr None \<Rightarrow> bindE (vformat pos args) (\<lambda>out. Inr (c # out))
      else bindE (vformat pos args) (\<lambda>out. Inr (c # out)))"
  by pat_completeness auto
termination
  by (relation "measure (\<lambda>(pos, _). length pos)") (auto dest: directive_shorter)

section \<open>Reading a printed integer back\<close>

fun digit_value :: "char \<Rightarrow> nat" where
  "digit_value c = (case find_from (\<lambda>i. digit ! i = c) 0 (length digit) of Some i \<Rightarrow> i | None \<Rightarrow> 0)"

fun value_of :: "nat \<Rightarrow> nat \<Rightarrow> string \<Rightarrow> nat" where
  "value_of base acc [] = acc"
| "value_of base acc (c # cs) = value_of base (base * acc + digit_value c) cs"

definition read_int :: "nat \<Rightarrow> string \<Rightarrow> int" where
  "read_int base s =
     (case s of c # cs \<Rightarrow> if c = CHR ''-'' then - int (value_of base 0 cs) else int (value_of base 0 s) | [] \<Rightarrow> 0)"

lemma length_digit [simp]: "length digit = 16"
  by (simp add: digit_def)

lemma digit_props: "i < 16 \<Longrightarrow> digit_value (digit ! i) = i \<and> digit ! i \<noteq> CHR ''-''"
proof -
  have "\<forall>i \<in> set [0 ..< 16]. digit_value (digit ! i) = i \<and> digit ! i \<noteq> CHR ''-''" by code_simp
  then show "i < 16 \<Longrightarrow> digit_value (digit ! i) = i \<and> digit ! i \<noteq> CHR ''-''" by simp
qed

lemma value_of_append: "value_of base acc (s @ t) = value_of base (value_of base acc s) t"
  by (induction s arbitrary: acc) auto

text \<open>The digits of \<open>v\<close>, least significant first; with base at least 2 the buffer has room for them.\<close>

lemma print_digits_value:
  assumes "2 \<le> unat base" "unat base \<le> 16"
  shows "unat v < 2 ^ k \<Longrightarrow> pos + k \<le> 64 \<Longrightarrow> 0 < k \<Longrightarrow>
    \<exists>s. print_digits pos v base = Inr s \<and> s \<noteq> [] \<and> length s \<le> k \<and> set s \<subseteq> set (take (unat base) digit)
      \<and> value_of (unat base) 0 (rev s) = unat v \<and> (0 < unat v \<longrightarrow> last s \<noteq> digit ! 0)"
proof (induction k arbitrary: pos v)
  case (Suc k)
  let ?d = "unat (v mod base)"
  have d: "?d = unat v mod unat base" "unat (v div base) = unat v div unat base"
    by (simp_all add: unat_mod unat_div)
  have "unat v mod unat base < unat base" using assms by (intro mod_less_divisor) linarith
  then have small: "?d < unat base" "?d < 16" using assms unfolding d by linarith+
  then have c: "digit_value (digit ! ?d) = ?d" "digit ! ?d \<in> set (take (unat base) digit)"
    using digit_props assms by (auto simp: in_set_conv_nth intro!: exI [of _ ?d])
  show ?case
  proof (cases "v div base = 0")
    case True
    then have "unat v = ?d" using d by (metis add_0 mult_0_right mult_div_mod_eq unat_0)
    moreover have "print_digits pos v base = Inr [digit ! ?d]"
      using True Suc.prems small by (simp add: print_digits.simps [of pos])
    moreover have "digit ! ?d \<noteq> digit ! 0" if "0 < ?d"
      using c(1) digit_props [of 0] that by (metis less_irrefl zero_less_numeral)
    ultimately show ?thesis using c by simp
  next
    case False
    then have pos: "0 < unat (v div base)" by (simp add: unat_gt_0)
    have "unat (v div base) * 2 \<le> unat v"
      using mult_le_mono2 [OF assms(1), of "unat v div unat base"] div_times_less_eq_dividend [of "unat v" "unat base"]
      unfolding d by linarith
    then have less: "unat (v div base) < 2 ^ k" using Suc.prems(1) by simp
    with pos have "0 < k" by (cases k) auto
    with Suc.IH [OF less, of "Suc pos"] Suc.prems(2) obtain s where s: "print_digits (Suc pos) (v div base) base = Inr s" "s \<noteq> []" "length s \<le> k"
      "set s \<subseteq> set (take (unat base) digit)" "value_of (unat base) 0 (rev s) = unat (v div base)" "last s \<noteq> digit ! 0"
      using pos by auto
    moreover have "print_digits pos v base = Inr (digit ! ?d # s)"
      using False Suc.prems small s(1) by (simp add: print_digits.simps [of pos])
    moreover have "value_of (unat base) 0 (rev (digit ! ?d # s)) = unat v"
      using s(5) c(1) d by (simp add: value_of_append del: digit_value.simps)
    ultimately show ?thesis using c by auto
  qed
qed simp

lemma print_int_read:
  assumes base: "2 \<le> unat base" "unat base \<le> 16"
  shows "\<exists>s. print_int u base sg = Inr s \<and> length s \<le> 65
    \<and> read_int (unat base) s = (if sg then sint u else uint u)"
proof -
  define neg v where "neg = (sg \<and> sint u < 0)" and "v = (if neg then - u else u)"
  have "unat v < 2 ^ 64" by (rule unat_ptr_less)
  from print_digits_value [OF base this, of 0] obtain s where s: "print_digits 0 v base = Inr s" "s \<noteq> []" "length s \<le> 64"
    "set s \<subseteq> set (take (unat base) digit)" "value_of (unat base) 0 (rev s) = unat v" by auto
  have "hd (rev s) \<in> set digit" using s(2,4) set_take_subset [of "unat base" digit] hd_in_set [of "rev s"] by auto
  then have "hd (rev s) \<noteq> CHR ''-''" using digit_props by (auto simp: in_set_conv_nth)
  then have "read_int (unat base) ((if neg then ''-'' else []) @ rev s) = (if neg then - int (unat v) else int (unat v))"
    using s(2,5) by (cases "rev s") (auto simp: read_int_def)
  also have "\<dots> = (if sg then sint u else uint u)"
    using sint_neg_u64 [of u] sint_nonneg_u64 [of u] by (auto simp: neg_def v_def)
  finally show ?thesis
    using s(1,3) by (simp add: print_int_def Let_def flip: neg_def v_def)
qed

section \<open>Directives in sequence\<close>

text \<open>
  A format string as a sequence of pieces: plain characters, \<^verbatim>\<open>%%\<close>, and directives with their
  argument; an integer directive is given by its position in the table.
\<close>

datatype piece = Lit char | Percent | CharArg u64 | StrArg "string option" | IntArg nat u64

fun piece_ok :: "piece \<Rightarrow> bool" where
  "piece_ok (Lit c) \<longleftrightarrow> c \<noteq> CHR ''%''"
| "piece_ok (IntArg i w) \<longleftrightarrow> i < length int_cases"
| "piece_ok _ \<longleftrightarrow> True"

fun piece_fmt :: "piece \<Rightarrow> string" where
  "piece_fmt (Lit c) = [c]"
| "piece_fmt Percent = ''%%''"
| "piece_fmt (CharArg w) = ''%c''"
| "piece_fmt (StrArg s) = ''%s''"
| "piece_fmt (IntArg i w) = ''%'' @ fst (int_cases ! i)"

fun piece_args :: "piece \<Rightarrow> va list" where
  "piece_args (CharArg w) = [VInt w]"
| "piece_args (StrArg s) = [VStr s]"
| "piece_args (IntArg i w) = [VInt w]"
| "piece_args _ = []"

fun piece_out :: "piece \<Rightarrow> string" where
  "piece_out (Lit c) = [c]"
| "piece_out Percent = ''%''"
| "piece_out (CharArg w) = [char_of (unat w)]"
| "piece_out (StrArg s) = (case s of None \<Rightarrow> ''(null)'' | Some s \<Rightarrow> s)"
| "piece_out (IntArg i w) = (case int_cases ! i of (_, conv, base, sg) \<Rightarrow> projr (print_int (conv w) base sg))"

lemma int_case_step:
  assumes "i < length int_cases"
  shows "directive (fst (int_cases ! i) @ rest) (VInt w # args)
    = (case int_cases ! i of (ident, conv, base, sg) \<Rightarrow> bindE (print_int (conv w) base sg) (\<lambda>s. Inr (Some (s, rest, args))))"
proof -
  have "i \<in> {0, 1, 2, 3, 4, 5, 6, 7, 8}" using assms by (auto simp: int_cases_def)
  then show ?thesis by (elim insertE emptyE) (simp_all add: int_cases_def directive_def)
qed

lemma int_case_base: "i < length int_cases \<Longrightarrow> fst (snd (snd (int_cases ! i))) \<in> {10, 16}"
proof -
  assume "i < length int_cases"
  then have "i \<in> {0, 1, 2, 3, 4, 5, 6, 7, 8}" by (auto simp: int_cases_def)
  then show ?thesis by (elim insertE emptyE) (simp_all add: int_cases_def)
qed

lemma vformat_piece:
  assumes "piece_ok p"
  shows "vformat (piece_fmt p @ rest) (piece_args p @ args) = bindE (vformat rest args) (\<lambda>out. Inr (piece_out p @ out))"
proof (cases p)
  case (IntArg i w)
  then have i: "i < length int_cases" using assms by simp
  obtain ident conv base sg where c: "int_cases ! i = (ident, conv, base, sg)" by (cases "int_cases ! i")
  then have "base = 10 \<or> base = 16" using int_case_base [OF i] by simp
  then obtain s where "print_int (conv w) base sg = Inr s"
    using print_int_read [of base "conv w" sg] by auto
  then show ?thesis
    using int_case_step [OF i, of rest w args] by (simp add: IntArg c)
qed (use assms in \<open>auto simp: directive_def split: option.splits\<close>)

lemma vformat_pieces:
  "\<forall>p \<in> set ps. piece_ok p \<Longrightarrow>
     vformat (concat (map piece_fmt ps)) (concat (map piece_args ps)) = Inr (concat (map piece_out ps))"
  by (induction ps) (simp_all add: vformat_piece)

section \<open>Properties\<close>

text \<open>
  integer printing is lossless and stays inside its 64-character buffer: for the bases 2 to 16, reading the
  characters back gives the signed or unsigned value of the argument, the least negative
  integer included.
\<close>

theorem print_int_roundtrip:
  assumes "2 \<le> unat base" and "unat base \<le> 16"
  shows "\<exists>s. print_int u base is_signed = Inr s \<and> length s \<le> 65
    \<and> read_int (unat base) s = (if is_signed then sint u else uint u)"
  by (rule print_int_read [OF assms])

text \<open>
  \<^verbatim>\<open>vformat\<close> executes a format string directive by directive: with the arguments of its
  directives in order, it succeeds and the output is the concatenation of the outputs of the pieces.
\<close>

theorem vformat_sequence:
  assumes "\<forall>p \<in> set ps. piece_ok p"
  shows "vformat (concat (map piece_fmt ps)) (concat (map piece_args ps)) = Inr (concat (map piece_out ps))"
  by (rule vformat_pieces [OF assms])

end
