(* ===== verification/Console.thy ===== *)
theory Console
  imports Format
begin

text \<open>
  The console of \<^verbatim>\<open>core/console.c\<close>: line editing in the interrupt handler and the reader's loop,
  over the ring buffer of 128 characters with three free-running 64-bit indices.  Characters sent by
  \<^verbatim>\<open>uart_put_char\<close> are appended to an output trace.  The handler and the reader are shown to
  implement a line discipline on two lists, the committed input and the line being edited,
  for every value of the indices, wrap-around included.
\<close>

section \<open>State\<close>

definition INPUT_BUF :: nat where
  "INPUT_BUF = 128"

definition CTRL :: "u8 \<Rightarrow> u8" where
  "CTRL x = x - 64"

record console =
  in_buf :: "u8 list"
  in_r :: u64
  in_w :: u64
  in_e :: u64
  panicked :: int
  panicked_flag :: bool
  uart_out :: "u8 list"
  readers :: "nat list"

text \<open>\<open>readers\<close> lists the processes asleep on \<^verbatim>\<open>&input.r\<close> in the process table the handler's \<^verbatim>\<open>wakeup\<close> scans.\<close>

text \<open>A newline is followed by a carriage return on the wire.\<close>

definition uart_put_char :: "u8 \<Rightarrow> console \<Rightarrow> console" where
  "uart_put_char c s = s\<lparr>uart_out := uart_out s @ (if c = 10 then [c, 13] else [c])\<rparr>"

definition uart_get_char :: "u32 \<Rightarrow> u32 \<Rightarrow> u8" where
  "uart_get_char iir io = (if iir AND 1 \<noteq> 0 \<or> iir AND 6 \<noteq> 4 then - 1 else ucast (io AND 0xff))"

text \<open>\<open>None\<close> stands for \<^verbatim>\<open>BACKSPACE\<close>, a value outside the characters.\<close>

definition consputc :: "u8 option \<Rightarrow> console \<Rightarrow> console" where
  "consputc c s = (case c of
     None \<Rightarrow> uart_put_char 8 (uart_put_char 32 (uart_put_char 8 s))
   | Some c \<Rightarrow> uart_put_char c s)"

section \<open>Kernel messages\<close>

text \<open>
  A CPU that finds the flag of another CPU's panic set never returns (\<^verbatim>\<open>check_panicked\<close>).  The state
  \<open>Inr\<close> carries for \<^verbatim>\<open>_panic\<close> is the one in which the panicking CPU stops.
\<close>

definition check_panicked :: "console \<Rightarrow> unit res" where
  "check_panicked s = (if panicked_flag s then Inl Blocked else Inr ())"

definition put_string :: "string \<Rightarrow> console \<Rightarrow> console" where
  "put_string str s = fold (\<lambda>c. uart_put_char (of_char c)) str s"

definition NEWLINE :: char where
  "NEWLINE = CHR 0x0A"

definition puts :: "string \<Rightarrow> console \<Rightarrow> console res" where
  "puts str s =
     bindE (check_panicked s) (\<lambda>_.
     Inr (put_string [NEWLINE] (put_string str s)))"

definition vprintf :: "string \<Rightarrow> va list \<Rightarrow> console \<Rightarrow> console res" where
  "vprintf fmt args s =
     bindE (check_panicked s) (\<lambda>_.
     bindE (vformat fmt args) (\<lambda>out. Inr (put_string out s)))"

definition PANIC_BAR_LENGTH :: nat where
  "PANIC_BAR_LENGTH = 32"

definition kpanic :: "u64 \<Rightarrow> string \<Rightarrow> u64 \<Rightarrow> string \<Rightarrow> va list \<Rightarrow> console \<Rightarrow> console res" where
  "kpanic cpu file line fmt args s =
     bindE (check_panicked s) (\<lambda>_.
     let s = s\<lparr>panicked_flag := True\<rparr>;
         s = put_string [NEWLINE] (put_string (replicate PANIC_BAR_LENGTH CHR ''='') s)
     in bindE (vformat (''KERNEL PANIC at CPU %zu:'' @ [NEWLINE]) [VInt cpu]) (\<lambda>a.
        bindE (vformat (''file: %s'' @ [NEWLINE]) [VStr (Some file)]) (\<lambda>b.
        bindE (vformat (''line: %zu'' @ [NEWLINE]) [VInt line]) (\<lambda>c.
        bindE (vformat fmt args) (\<lambda>d.
        Inr (put_string [NEWLINE] (put_string (a @ b @ c @ d) s)))))))"

section \<open>The interrupt handler\<close>

definition buf_at :: "console \<Rightarrow> u64 \<Rightarrow> u8" where
  "buf_at s i = in_buf s ! (unat i mod INPUT_BUF)"

function kill_line :: "console \<Rightarrow> console" where
  "kill_line s =
     (if in_e s \<noteq> in_w s \<and> buf_at s (in_e s - 1) \<noteq> 10
      then kill_line (consputc None (s\<lparr>in_e := in_e s - 1\<rparr>))
      else s)"
  by pat_completeness auto
termination
proof (relation "measure (\<lambda>s. unat (in_e s - in_w s))")
  fix s :: console
  assume "in_e s \<noteq> in_w s \<and> buf_at s (in_e s - 1) \<noteq> 10"
  then have "in_e s - in_w s \<noteq> 0" by simp
  then have "unat (in_e s - in_w s - 1) < unat (in_e s - in_w s)"
    by (simp add: unat_minus_one unat_gt_0)
  then show "(consputc None (s\<lparr>in_e := in_e s - 1\<rparr>), s) \<in> measure (\<lambda>s. unat (in_e s - in_w s))"
    by (simp add: consputc_def uart_put_char_def algebra_simps)
qed simp

declare kill_line.simps [simp del]

definition console_char :: "u8 \<Rightarrow> console \<Rightarrow> console" where
  "console_char c s =
     (if c = CTRL 0x50 then s
      else if c = CTRL 0x55 then kill_line s
      else if c = CTRL 0x48 \<or> c = 0x7f
      then if in_e s \<noteq> in_w s then consputc None (s\<lparr>in_e := in_e s - 1\<rparr>) else s
      else if c \<noteq> 0 \<and> unat (in_e s - in_r s) < INPUT_BUF
      then let c = (if c = 13 then 10 else c);
               s = s\<lparr>in_buf := (in_buf s)[unat (in_e s) mod INPUT_BUF := c], in_e := in_e s + 1\<rparr>;
               s = consputc (Some c) s
           in if c = 10 \<or> c = CTRL 0x44 \<or> in_e s = in_r s + of_nat INPUT_BUF
              then s\<lparr>in_w := in_e s, readers := []\<rparr> else s
      else s)"

text \<open>The characters \<^verbatim>\<open>getc\<close> returns; the handler stops at the first \<open>0xff\<close>.\<close>

fun intr_loop :: "u8 list \<Rightarrow> console \<Rightarrow> console" where
  "intr_loop [] s = s"
| "intr_loop (c # cs) s = (if c = 0xff then s else intr_loop cs (console_char c s))"

definition console_intr :: "u8 list \<Rightarrow> console \<Rightarrow> console res" where
  "console_intr cs s = (if panicked s \<ge> 0 then Inl Blocked else Inr (intr_loop cs s))"

section \<open>Reader and writer\<close>

text \<open>
  The loop of \<^verbatim>\<open>console_read\<close> with \<open>n\<close> characters to go out of \<open>target\<close>; the result is the
  characters copied, or \<open>None\<close> when the process was killed while waiting.
\<close>

fun read_loop :: "bool \<Rightarrow> nat \<Rightarrow> nat \<Rightarrow> console \<Rightarrow> (u8 list option \<times> console) res" where
  "read_loop killed target 0 s = Inr (Some [], s)"
| "read_loop killed target (Suc n) s =
     (if in_r s = in_w s then if killed then Inr (None, s) else Inl Blocked
      else let c = buf_at s (in_r s); s = s\<lparr>in_r := in_r s + 1\<rparr>
           in if c = CTRL 0x44
              then Inr (Some [], if Suc n < target then s\<lparr>in_r := in_r s - 1\<rparr> else s)
              else if c = 10 then Inr (Some [c], s)
              else bindE (read_loop killed target n s) (\<lambda>(cs, s). Inr (map_option (Cons c) cs, s)))"

definition cons_read :: "bool \<Rightarrow> nat \<Rightarrow> console \<Rightarrow> (u8 list option \<times> console) res" where
  "cons_read killed n s = read_loop killed n n s"

definition cons_write :: "u8 list \<Rightarrow> console \<Rightarrow> console" where
  "cons_write cs s = fold (\<lambda>c. consputc (Some (c AND 0xff))) cs s"

section \<open>The line discipline\<close>

text \<open>The characters at the indices from \<open>i\<close> up to \<open>j\<close>.\<close>

definition window :: "console \<Rightarrow> u64 \<Rightarrow> u64 \<Rightarrow> u8 list" where
  "window s i j = map (\<lambda>k. buf_at s (i + of_nat k)) [0 ..< unat (j - i)]"

definition cons_inv :: "console \<Rightarrow> bool" where
  "cons_inv s \<longleftrightarrow> length (in_buf s) = INPUT_BUF
     \<and> unat (in_w s - in_r s) + unat (in_e s - in_w s) = unat (in_e s - in_r s) \<and> unat (in_e s - in_r s) \<le> INPUT_BUF"

text \<open>Committed input and the line being edited.\<close>

definition lines_of :: "console \<Rightarrow> u8 list \<times> u8 list" where
  "lines_of s = (window s (in_r s) (in_w s), window s (in_w s) (in_e s))"

fun type_char :: "u8 \<Rightarrow> u8 list \<times> u8 list \<Rightarrow> u8 list \<times> u8 list" where
  "type_char c (com, line) =
     (if c = 0x10 \<or> c = 0 then (com, line)
      else if c = 0x15 then (com, rev (dropWhile (\<lambda>x. x \<noteq> 10) (rev line)))
      else if c = 0x08 \<or> c = 0x7f then (com, butlast line)
      else if length com + length line < 128
      then let c = (if c = 13 then 10 else c); line = line @ [c]
           in if c = 10 \<or> c = 4 \<or> length com + length line = 128 then (com @ line, []) else (com, line)
      else (com, line))"

section \<open>The ring buffer\<close>

lemma index_mod: "unat ((a :: u64) + of_nat k) mod 128 = (unat a + k) mod 128"
proof -
  have "unat (a + of_nat k) = (unat a + k) mod 2 ^ 64"
    by (simp add: unat_word_ariths unat_of_nat mod_simps)
  then show ?thesis by (simp add: mod_mod_cancel)
qed

lemma index_distinct:
  assumes "k < d" "d < 128"
  shows "unat ((a :: u64) + of_nat k) mod INPUT_BUF \<noteq> unat (a + of_nat d) mod INPUT_BUF"
proof
  assume "unat (a + of_nat k) mod INPUT_BUF = unat (a + of_nat d) mod INPUT_BUF"
  then have "(unat a + d) mod 128 = (unat a + k) mod 128" by (simp add: INPUT_BUF_def index_mod)
  then have "128 dvd (unat a + d) - (unat a + k)" using assms by (subst mod_eq_dvd_iff_nat [symmetric]) auto
  with assms show False by (auto dest: dvd_imp_le)
qed

lemma word_offset: "i + of_nat (unat (j - i)) = (j :: u64)"
  by simp

lemma length_window [simp]: "length (window s i j) = unat (j - i)"
  by (simp add: window_def)

lemma window_empty [simp]: "window s i i = []"
  by (simp add: window_def)

lemma unat_snoc: "unat (j - i) < 2 ^ 64 - 1 \<Longrightarrow> unat (j + 1 - i) = Suc (unat (j - i))" for i j :: u64
  using unat_plus_ptr [of "j - i" 1] by (simp add: algebra_simps)

lemma window_snoc: "unat (j - i) < 2 ^ 64 - 1 \<Longrightarrow> window s i (j + 1) = window s i j @ [buf_at s j]"
  by (simp add: window_def unat_snoc)

lemma window_append:
  assumes "unat (j - i) + unat (k - j) = unat (k - i)"
  shows "window s i k = window s i j @ window s j k"
proof -
  have "[0 ..< unat (k - i)] = [0 ..< unat (j - i)] @ map (\<lambda>n. n + unat (j - i)) [0 ..< unat (k - j)]"
    using upt_add_eq_append [of 0 "unat (j - i)" "unat (k - j)"] by (simp only: map_add_upt assms [symmetric] le0 add.commute)
  moreover have "i + of_nat (n + unat (j - i)) = j + of_nat n" for n
    using word_offset [of i j] by (simp add: algebra_simps)
  ultimately show ?thesis by (simp add: window_def add.commute)
qed

lemma window_Cons: "i \<noteq> j \<Longrightarrow> window s i j = buf_at s i # window s (i + 1) j"
proof -
  assume "i \<noteq> j"
  then have "j - i \<noteq> 0" by simp
  then have "unat (i + 1 - i) + unat (j - (i + 1)) = unat (j - i)"
    using unat_minus_one [of "j - i"] unat_gt_0 [of "j - i"] by (simp add: algebra_simps)
  from window_append [OF this, of s] window_snoc [of i i s] show ?thesis by simp
qed

lemma window_frame:
  assumes "in_buf s' = (in_buf s)[unat e mod INPUT_BUF := c]" and "unat (e - i) < 128" and "unat (j - i) \<le> unat (e - i)"
  shows "window s' i j = window s i j"
proof -
  have "buf_at s' (i + of_nat k) = buf_at s (i + of_nat k)" if "k < unat (j - i)" for k
    using index_distinct [of k "unat (e - i)" i] that assms by (simp add: buf_at_def)
  then show ?thesis by (simp add: window_def)
qed

lemma window_same: "in_buf s' = in_buf s \<Longrightarrow> window s' = window s"
  by (simp add: window_def buf_at_def fun_eq_iff)

lemma uart_frame [simp]: "panicked_flag (uart_put_char c s) = panicked_flag s"
  by (simp add: uart_put_char_def)

lemma put_string_flag [simp]: "panicked_flag (put_string str s) = panicked_flag s"
  by (induction str arbitrary: s) (simp_all add: put_string_def)

lemma consputc_simps [simp]:
  "in_buf (consputc c s) = in_buf s" "in_r (consputc c s) = in_r s" "in_w (consputc c s) = in_w s" "in_e (consputc c s) = in_e s"
  "panicked (consputc c s) = panicked s" "panicked_flag (consputc c s) = panicked_flag s" "readers (consputc c s) = readers s"
  by (simp_all add: consputc_def uart_put_char_def split: option.split)

section \<open>Editing\<close>

lemma rub_out:
  assumes inv: "cons_inv s" and ne: "in_e s \<noteq> in_w s"
  defines "s' \<equiv> consputc None (s\<lparr>in_e := in_e s - 1\<rparr>)"
  shows "cons_inv s'" "lines_of s' = (fst (lines_of s), butlast (snd (lines_of s)))"
    "last (snd (lines_of s)) = buf_at s (in_e s - 1)"
proof -
  have "in_e s - in_w s \<noteq> 0" using ne by simp
  then have l: "unat (in_e s - 1 - in_w s) = unat (in_e s - in_w s) - 1" "0 < unat (in_e s - in_w s)"
    using unat_minus_one [of "in_e s - in_w s"] unat_gt_0 [of "in_e s - in_w s"] by (simp_all add: algebra_simps)
  moreover have "unat (in_e s - 1 - in_r s) = unat (in_e s - in_r s) - 1"
  proof -
    have "in_e s - in_r s \<noteq> 0" using inv l(2) by (auto simp: cons_inv_def)
    then show ?thesis using unat_minus_one [of "in_e s - in_r s"] by (simp add: algebra_simps)
  qed
  ultimately show "cons_inv s'" using inv by (auto simp: cons_inv_def s'_def)
  have "unat (in_e s - in_w s) < 2 ^ 64" by (rule unat_ptr_less)
  then have w: "window s (in_w s) (in_e s) = window s (in_w s) (in_e s - 1) @ [buf_at s (in_e s - 1)]"
    using window_snoc [of "in_e s - 1" "in_w s" s] l by simp
  show "lines_of s' = (fst (lines_of s), butlast (snd (lines_of s)))"
    using w window_same [of s' s] by (simp add: lines_of_def s'_def)
  show "last (snd (lines_of s)) = buf_at s (in_e s - 1)"
    using w by (simp add: lines_of_def)
qed

lemma kill_line_lines:
  "cons_inv s \<Longrightarrow> cons_inv (kill_line s)
     \<and> lines_of (kill_line s) = (fst (lines_of s), rev (dropWhile (\<lambda>x. x \<noteq> 10) (rev (snd (lines_of s)))))"
proof (induction s rule: kill_line.induct)
  case (1 s)
  let ?line = "snd (lines_of s)"
  have len: "?line = [] \<longleftrightarrow> in_e s = in_w s" by (simp add: lines_of_def window_def unat_eq_zero)
  show ?case
  proof (cases "in_e s \<noteq> in_w s \<and> buf_at s (in_e s - 1) \<noteq> 10")
    case True
    note r = rub_out [OF "1.prems"]
    obtain xs where xs: "?line = xs @ [buf_at s (in_e s - 1)]"
      using True len r(3) by (metis append_butlast_last_id)
    show ?thesis
      using True "1.IH" [OF True r(1)] r(2) by (simp add: kill_line.simps [of s] xs)
  next
    case False
    then have "rev (dropWhile (\<lambda>x. x \<noteq> 10) (rev ?line)) = ?line"
    proof (cases "?line = []")
      case nonempty: False
      with False len have "last ?line = 10" using rub_out(3) [OF "1.prems"] by auto
      with nonempty show ?thesis by (cases "?line" rule: rev_cases) auto
    qed simp
    moreover have "kill_line s = s" using False by (subst kill_line.simps) auto
    ultimately show ?thesis using "1.prems" by (simp add: prod_eq_iff)
  qed
qed

lemma type_in:
  fixes c :: u8
  assumes inv: "cons_inv s" and room: "unat (in_e s - in_r s) < INPUT_BUF"
  defines "s' \<equiv> consputc (Some c) (s\<lparr>in_buf := (in_buf s)[unat (in_e s) mod INPUT_BUF := c], in_e := in_e s + 1\<rparr>)"
  shows "cons_inv s'" "lines_of s' = (fst (lines_of s), snd (lines_of s) @ [c])"
    "cons_inv (s'\<lparr>in_w := in_e s', readers := rs\<rparr>)" "lines_of (s'\<lparr>in_w := in_e s', readers := rs\<rparr>) = (fst (lines_of s) @ snd (lines_of s) @ [c], [])"
    "in_e s' = in_r s' + of_nat INPUT_BUF \<longleftrightarrow> length (fst (lines_of s)) + length (snd (lines_of s) @ [c]) = 128"
proof -
  have b: "in_buf s' = (in_buf s)[unat (in_e s) mod INPUT_BUF := c]" and f: "in_e s' = in_e s + 1" "in_w s' = in_w s" "in_r s' = in_r s"
    by (simp_all add: s'_def)
  have len: "length (in_buf s) = INPUT_BUF"
    "unat (in_w s - in_r s) + unat (in_e s - in_w s) = unat (in_e s - in_r s)" "unat (in_e s - in_r s) < 128"
    using inv room by (auto simp: cons_inv_def INPUT_BUF_def)
  have e: "unat (in_e s + 1 - in_w s) = Suc (unat (in_e s - in_w s))" "unat (in_e s + 1 - in_r s) = Suc (unat (in_e s - in_r s))"
    using len by (intro unat_snoc; simp)+
  show i: "cons_inv s'" using len e by (simp add: cons_inv_def b f INPUT_BUF_def)
  show "cons_inv (s'\<lparr>in_w := in_e s', readers := rs\<rparr>)" using i by (simp add: cons_inv_def)
  have "buf_at s' (in_e s) = c" using len by (simp add: buf_at_def b INPUT_BUF_def)
  moreover have "window s' (in_w s) (in_e s) = window s (in_w s) (in_e s)"
    using len by (intro window_frame [OF b]) auto
  ultimately have line: "window s' (in_w s) (in_e s + 1) = window s (in_w s) (in_e s) @ [c]"
    using len by (subst window_snoc) simp_all
  have com: "window s' (in_r s) (in_w s) = window s (in_r s) (in_w s)"
    using len by (intro window_frame [OF b]) auto
  show "lines_of s' = (fst (lines_of s), snd (lines_of s) @ [c])"
    using line com by (simp add: lines_of_def f)
  have "window s' (in_r s) (in_e s + 1) = window s' (in_r s) (in_w s) @ window s' (in_w s) (in_e s + 1)"
    using len e by (intro window_append) simp
  then show "lines_of (s'\<lparr>in_w := in_e s', readers := rs\<rparr>) = (fst (lines_of s) @ snd (lines_of s) @ [c], [])"
    using line com window_same [of "s'\<lparr>in_w := in_e s', readers := rs\<rparr>" s'] by (simp add: lines_of_def f)
  have "in_e s' = in_r s' + of_nat INPUT_BUF \<longleftrightarrow> in_e s + 1 - in_r s = 128"
    by (auto simp: f INPUT_BUF_def algebra_simps)
  also have "\<dots> \<longleftrightarrow> Suc (unat (in_e s - in_r s)) = 128" by (simp add: word_unat_eq_iff e)
  also have "\<dots> \<longleftrightarrow> length (fst (lines_of s)) + length (snd (lines_of s) @ [c]) = 128"
    using len(2) by (simp add: lines_of_def)
  finally show "in_e s' = in_r s' + of_nat INPUT_BUF \<longleftrightarrow> length (fst (lines_of s)) + length (snd (lines_of s) @ [c]) = 128" .
qed

lemma kill_line_readers [simp]: "readers (kill_line s) = readers s"
proof (induction s rule: kill_line.induct)
  case (1 s)
  show ?case using "1.IH" by (subst kill_line.simps) simp
qed

text \<open>\<open>wakes rs com com' rs'\<close>: the sleeping readers are woken exactly when input has been committed.\<close>

definition wakes :: "nat list \<Rightarrow> u8 list \<Rightarrow> u8 list \<Rightarrow> nat list \<Rightarrow> bool" where
  "wakes rs com com' rs' \<longleftrightarrow> (\<exists>x. com' = com @ x \<and> rs' = (if x = [] then rs else []))"

lemma wakes_refl: "wakes rs com com rs"
  by (simp add: wakes_def)

lemma wakes_trans: "wakes rs com com1 rs1 \<Longrightarrow> wakes rs1 com1 com2 rs2 \<Longrightarrow> wakes rs com com2 rs2"
  unfolding wakes_def by (metis append.assoc append_is_Nil_conv)

lemma console_char_refines:
  assumes inv: "cons_inv s"
  shows "cons_inv (console_char c s) \<and> lines_of (console_char c s) = type_char c (lines_of s)
    \<and> wakes (readers s) (fst (lines_of s)) (fst (lines_of (console_char c s))) (readers (console_char c s))"
proof -
  obtain com line where l: "lines_of s = (com, line)" by (cases "lines_of s")
  have keys: "CTRL 0x50 = 0x10" "CTRL 0x55 = 0x15" "CTRL 0x48 = 0x08" "CTRL 0x44 = 4" by (simp_all add: CTRL_def)
  have len: "unat (in_e s - in_r s) = length com + length line" "line = [] \<longleftrightarrow> in_e s = in_w s"
    using inv l by (auto simp: cons_inv_def lines_of_def window_def unat_eq_zero)
  consider "c = 0x10" | "c = 0x15" | "c = 0x08 \<or> c = 0x7f" | "c = 0" | "c \<notin> {0x10, 0x15, 0x08, 0x7f, 0}" by auto
  then show ?thesis
  proof cases
    case 2
    then have "console_char c s = kill_line s" "type_char c (com, line) = (com, rev (dropWhile (\<lambda>x. x \<noteq> 10) (rev line)))"
      by (simp_all add: console_char_def keys)
    then show ?thesis using kill_line_lines [OF inv] by (simp add: l wakes_refl del: type_char.simps)
  next
    case 3
    then have "console_char c s = (if in_e s \<noteq> in_w s then consputc None (s\<lparr>in_e := in_e s - 1\<rparr>) else s)"
      by (auto simp: console_char_def keys)
    moreover have "type_char c (com, line) = (com, butlast line)" using 3 by auto
    ultimately show ?thesis using rub_out [OF inv] inv len(2) by (cases "in_e s = in_w s") (simp_all add: l wakes_refl del: type_char.simps)
  next
    case 5
    show ?thesis
    proof (cases "length com + length line < 128")
      case True
      define d s' where "d = (if c = 13 then 10 else c)"
        and "s' = consputc (Some d) (s\<lparr>in_buf := (in_buf s)[unat (in_e s) mod INPUT_BUF := d], in_e := in_e s + 1\<rparr>)"
      have room: "unat (in_e s - in_r s) < INPUT_BUF" using True len(1) by (simp add: INPUT_BUF_def)
      have "console_char c s = (if d = 10 \<or> d = 4 \<or> in_e s' = in_r s' + of_nat INPUT_BUF then s'\<lparr>in_w := in_e s', readers := []\<rparr> else s')"
        using 5 room by (simp add: console_char_def keys Let_def d_def s'_def)
      moreover have "type_char c (com, line) =
          (if d = 10 \<or> d = 4 \<or> length com + length (line @ [d]) = 128 then (com @ line @ [d], []) else (com, line @ [d]))"
        using 5 True by (simp add: Let_def d_def)
      moreover have "readers s' = readers s" by (simp add: s'_def)
      moreover have "wakes rs com (com @ line @ [d]) []" for rs by (simp add: wakes_def)
      ultimately show ?thesis using type_in [OF inv room, where c = d, folded s'_def] by (simp add: l wakes_refl)
    next
      case False
      then show ?thesis using 5 inv len(1) by (simp add: console_char_def keys l INPUT_BUF_def wakes_refl)
    qed
  qed (use inv in \<open>simp_all add: console_char_def keys l wakes_refl\<close>)
qed

lemma intr_loop_refines:
  "cons_inv s \<Longrightarrow> cons_inv (intr_loop cs s)
     \<and> lines_of (intr_loop cs s) = fold type_char (takeWhile (\<lambda>c. c \<noteq> 0xff) cs) (lines_of s)
     \<and> wakes (readers s) (fst (lines_of s)) (fst (lines_of (intr_loop cs s))) (readers (intr_loop cs s))"
proof (induction cs arbitrary: s)
  case (Cons c cs)
  show ?case
  proof (cases "c = 0xff")
    case False
    note a = console_char_refines [OF Cons.prems, of c]
    with Cons.IH [of "console_char c s"] show ?thesis using False wakes_trans by fastforce
  qed (use Cons.prems in \<open>simp add: wakes_refl\<close>)
qed (simp add: wakes_refl)

section \<open>Reading\<close>

text \<open>
  What \<open>n\<close> characters out of \<open>target\<close> are read from the committed input: the line up to its newline
  or to an end-of-file mark, which is kept when characters precede it.  \<open>None\<close> as the outcome is running dry.
\<close>

fun take_line :: "nat \<Rightarrow> nat \<Rightarrow> u8 list \<Rightarrow> (u8 list \<times> u8 list) option" where
  "take_line target 0 com = Some ([], com)"
| "take_line target (Suc n) [] = None"
| "take_line target (Suc n) (c # com) =
     (if c = 4 then Some ([], if Suc n < target then c # com else com)
      else if c = 10 then Some ([c], com)
      else map_option (\<lambda>(cs, rest). (c # cs, rest)) (take_line target n com))"

lemma consume:
  assumes inv: "cons_inv s" and ne: "in_r s \<noteq> in_w s"
  shows "cons_inv (s\<lparr>in_r := in_r s + 1\<rparr>)" "fst (lines_of s) = buf_at s (in_r s) # fst (lines_of (s\<lparr>in_r := in_r s + 1\<rparr>))"
    "snd (lines_of (s\<lparr>in_r := in_r s + 1\<rparr>)) = snd (lines_of s)"
proof -
  have "in_w s - in_r s \<noteq> 0" using ne by simp
  then have w: "unat (in_w s - (in_r s + 1)) = unat (in_w s - in_r s) - 1" "0 < unat (in_w s - in_r s)"
    using unat_minus_one [of "in_w s - in_r s"] unat_gt_0 [of "in_w s - in_r s"] by (simp_all add: algebra_simps)
  then have "in_e s - in_r s \<noteq> 0" using inv by (auto simp: cons_inv_def)
  then have "unat (in_e s - (in_r s + 1)) = unat (in_e s - in_r s) - 1"
    using unat_minus_one [of "in_e s - in_r s"] by (simp add: algebra_simps)
  then show "cons_inv (s\<lparr>in_r := in_r s + 1\<rparr>)" using inv w by (auto simp: cons_inv_def)
  show "fst (lines_of s) = buf_at s (in_r s) # fst (lines_of (s\<lparr>in_r := in_r s + 1\<rparr>))"
    "snd (lines_of (s\<lparr>in_r := in_r s + 1\<rparr>)) = snd (lines_of s)"
    using window_Cons [OF ne, of s] window_same [of "s\<lparr>in_r := in_r s + 1\<rparr>" s] by (simp_all add: lines_of_def)
qed

lemma read_loop_refines:
  "cons_inv s \<Longrightarrow>
     (case take_line target n (fst (lines_of s)) of
        Some (cs, rest) \<Rightarrow> \<exists>s'. read_loop killed target n s = Inr (Some cs, s') \<and> cons_inv s'
          \<and> lines_of s' = (rest, snd (lines_of s))
      | None \<Rightarrow> if killed then \<exists>s'. read_loop killed target n s = Inr (None, s') \<and> cons_inv s' \<and> lines_of s' = ([], snd (lines_of s))
          else read_loop killed target n s = Inl Blocked)"
proof (induction n arbitrary: s)
  case (Suc n)
  have empty: "fst (lines_of s) = [] \<longleftrightarrow> in_r s = in_w s" by (auto simp: lines_of_def window_def unat_eq_zero)
  show ?case
  proof (cases "in_r s = in_w s")
    case True
    with empty have "fst (lines_of s) = []" "lines_of s = ([], snd (lines_of s))" by (simp_all add: prod_eq_iff)
    with True Suc.prems show ?thesis by simp
  next
    case False
    let ?s = "s\<lparr>in_r := in_r s + 1\<rparr>"
    note c = consume [OF Suc.prems False]
    have d: "CTRL 0x44 = 4" by (simp add: CTRL_def)
    have "?s\<lparr>in_r := in_r ?s - 1\<rparr> = s" by simp
    then show ?thesis
      using Suc.IH [OF c(1)] c False Suc.prems
      by (auto simp: d prod_eq_iff split: option.splits if_splits)
  qed
qed (simp add: prod_eq_iff)

section \<open>Properties\<close>

text \<open>
  C36: the interrupt handler implements the line discipline.  It always ends, keeps the ring buffer
  within its 128 characters, and acts on the committed input and on the edited line as typing
  the characters up to the first \<open>0xff\<close> one by one does: erase, kill line, commit at a newline, at an end of file
  or when the buffer is full, and dropping of characters when there is no room.  Nothing already committed
  is lost, for every value of the free-running indices.  The sleeping readers are woken if the handler has committed any input, and
  otherwise sleep on.
\<close>

theorem console_intr_refines:
  assumes "cons_inv s" and "panicked s < 0"
  shows "\<exists>s'. console_intr cs s = Inr s' \<and> cons_inv s'
    \<and> lines_of s' = fold type_char (takeWhile (\<lambda>c. c \<noteq> 0xff) cs) (lines_of s)
    \<and> (\<exists>x. fst (lines_of s') = fst (lines_of s) @ x \<and> readers s' = (if x = [] then readers s else []))"
proof -
  have "console_intr cs s = Inr (intr_loop cs s)" using assms(2) by (simp add: console_intr_def)
  then show ?thesis using intr_loop_refines [OF assms(1), of cs] unfolding wakes_def by blast
qed

text \<open>The indices are about to wrap around; two characters are committed and the edited line is empty.\<close>

definition sample_console :: console where
  "sample_console = \<lparr>in_buf = replicate 126 0 @ [65, 10], in_r = - 2, in_w = 0, in_e = 0, panicked = - 1, panicked_flag = False,
     uart_out = [], readers = [4]\<rparr>"

lemma sample_console_lines: "cons_inv sample_console" "lines_of sample_console = ([65, 10], [])"
proof -
  show "cons_inv sample_console" by (simp add: cons_inv_def sample_console_def INPUT_BUF_def)
  have "[0 ..< 2] = [0, Suc 0]" by (simp add: upt_rec)
  moreover have "unat (- 1 :: u64) = 18446744073709551615" by (simp add: unsigned_minus_1_eq_mask mask_eq_exp_minus_1)
  ultimately show "lines_of sample_console = ([65, 10], [])"
    by (simp add: lines_of_def window_def buf_at_def sample_console_def INPUT_BUF_def nth_append)
qed

theorem console_intr_refines_witness:
  "\<exists>s'. console_intr [66, 67, 8, 13, 0xff, 68] sample_console = Inr s' \<and> lines_of s' = ([65, 10, 66, 10], []) \<and> readers s' = []"
proof -
  have "panicked sample_console < 0" by (simp add: sample_console_def)
  from console_intr_refines [OF sample_console_lines(1) this, of "[66, 67, 8, 13, 0xff, 68]"]
  show ?thesis by (auto simp: sample_console_lines(2))
qed

text \<open>
  C37: reading delivers the committed input in order: at most \<open>n\<close> characters, up to and including a
  newline, or up to an end-of-file mark.  The mark is consumed only by a read that returns nothing.  With not
  enough committed input the reader sleeps, or gives up if its process was killed.
  The line being edited is never touched.
\<close>

theorem console_read_refines:
  assumes "cons_inv s"
  shows "case take_line n n (fst (lines_of s)) of
      Some (cs, rest) \<Rightarrow> \<exists>s'. cons_read killed n s = Inr (Some cs, s') \<and> cons_inv s' \<and> lines_of s' = (rest, snd (lines_of s))
    | None \<Rightarrow> if killed then \<exists>s'. cons_read killed n s = Inr (None, s') \<and> cons_inv s' \<and> lines_of s' = ([], snd (lines_of s))
        else cons_read killed n s = Inl Blocked"
  unfolding cons_read_def by (rule read_loop_refines [OF assms])

theorem console_read_refines_witness:
  "\<exists>s'. cons_read False 3 sample_console = Inr (Some [65, 10], s') \<and> lines_of s' = ([], [])"
proof -
  have "take_line 3 3 [65, 10] = Some ([65, 10], [])" by (simp add: numeral_3_eq_3)
  then show ?thesis using console_read_refines [OF sample_console_lines(1), where n = 3 and killed = False] by (auto simp: sample_console_lines(2))
qed

lemma consputc_out: "uart_out (consputc (Some c) s) = uart_out s @ (if c = 10 then [10, 13] else [c])"
  by (simp add: consputc_def uart_put_char_def)

lemma cons_write_out:
  "uart_out (cons_write cs s) = uart_out s @ concat (map (\<lambda>c. if c = 10 then [10, 13] else [c]) cs)"
proof (induction cs arbitrary: s)
  case (Cons c cs)
  have "(0xff :: u8) = - 1" by simp
  then have "c AND 0xff = c" by (simp only: and.right_neutral)
  then show ?case using Cons.IH [of "consputc (Some c) s"] by (simp add: cons_write_def consputc_out)
qed (simp add: cons_write_def)

lemma put_string_frame [simp]:
  "panicked (put_string str s) = panicked s" "in_e (put_string str s) = in_e s" "in_r (put_string str s) = in_r s"
  by (induction str arbitrary: s) (simp_all add: put_string_def uart_put_char_def)



end
