(* ===== verification/Mem_String.thy ===== *)
theory Mem_String
  imports Prelude
begin

unbundle bit_operations_syntax

text \<open>
  The memory and string routines of \<^verbatim>\<open>common/string.c\<close>.  A routine whose pointers are
  \<^verbatim>\<open>restrict\<close> or that only reads sees each buffer as a function from indices to bytes;
  \<^verbatim>\<open>memmove\<close>, whose buffers may overlap, works on one memory with 64-bit addresses.
  \<^verbatim>\<open>char\<close> is unsigned on the target.
\<close>

section \<open>The routines\<close>

type_synonym buffer = "nat \<Rightarrow> u8"
type_synonym mem = "ptr \<Rightarrow> u8"

primrec memset :: "buffer \<Rightarrow> 32 word \<Rightarrow> nat \<Rightarrow> buffer" where
  "memset s c 0 = s"
| "memset s c (Suc i) = (memset s c i)(i := ucast (c AND 0xff))"

primrec memcpy :: "buffer \<Rightarrow> buffer \<Rightarrow> nat \<Rightarrow> buffer" where
  "memcpy dest src 0 = dest"
| "memcpy dest src (Suc i) = (memcpy dest src i)(i := src i)"

function memcmp_from :: "buffer \<Rightarrow> buffer \<Rightarrow> nat \<Rightarrow> nat \<Rightarrow> int" where
  "memcmp_from s1 s2 i n =
     (if i < n then
        if s1 i \<noteq> s2 i then uint (s1 i) - uint (s2 i) else memcmp_from s1 s2 (Suc i) n
      else 0)"
  by pat_completeness auto
termination
  by (relation "measure (\<lambda>(s1, s2, i, n). n - i)") auto

definition memcmp :: "buffer \<Rightarrow> buffer \<Rightarrow> nat \<Rightarrow> int" where
  "memcmp s1 s2 n = memcmp_from s1 s2 0 n"

text \<open>The two loops of \<^verbatim>\<open>memmove\<close>, copying upwards and downwards.\<close>

fun move_up :: "ptr \<Rightarrow> ptr \<Rightarrow> nat \<Rightarrow> mem \<Rightarrow> mem" where
  "move_up d s 0 m = m"
| "move_up d s (Suc n) m = move_up (d + 1) (s + 1) n (m(d := m s))"

fun move_down :: "ptr \<Rightarrow> ptr \<Rightarrow> nat \<Rightarrow> mem \<Rightarrow> mem" where
  "move_down d s 0 m = m"
| "move_down d s (Suc n) m = move_down (d - 1) (s - 1) n (m(d - 1 := m (s - 1)))"

definition memmove :: "ptr \<Rightarrow> ptr \<Rightarrow> u64 \<Rightarrow> mem \<Rightarrow> mem" where
  "memmove d s n m =
     (if s < d \<and> d - s < n then move_down (d + n) (s + n) (unat n) m
      else move_up d s (unat n) m)"

text \<open>\<^verbatim>\<open>strncpy\<close>: the copying loop, which returns its index, and the padding loop.\<close>

function strncpy_copy :: "buffer \<Rightarrow> buffer \<Rightarrow> nat \<Rightarrow> nat \<Rightarrow> nat \<times> buffer" where
  "strncpy_copy dest src i n =
     (if i < n \<and> src i \<noteq> 0 then strncpy_copy (dest(i := src i)) src (Suc i) n else (i, dest))"
  by pat_completeness auto
termination
  by (relation "measure (\<lambda>(dest, src, i, n). n - i)") auto

function strncpy_pad :: "buffer \<Rightarrow> nat \<Rightarrow> nat \<Rightarrow> buffer" where
  "strncpy_pad dest i n = (if i < n then strncpy_pad (dest(i := 0)) (Suc i) n else dest)"
  by pat_completeness auto
termination
  by (relation "measure (\<lambda>(dest, i, n). n - i)") auto

definition strncpy :: "buffer \<Rightarrow> buffer \<Rightarrow> nat \<Rightarrow> buffer" where
  "strncpy dest src n = (let (i, dest) = strncpy_copy dest src 0 n in strncpy_pad dest i n)"

definition strncpy_fast :: "buffer \<Rightarrow> buffer \<Rightarrow> nat \<Rightarrow> buffer" where
  "strncpy_fast dest src n =
     (let (i, dest) = strncpy_copy dest src 0 n in if i < n then dest(i := 0) else dest)"

function strncmp_from :: "buffer \<Rightarrow> buffer \<Rightarrow> nat \<Rightarrow> nat \<Rightarrow> int" where
  "strncmp_from s1 s2 i n =
     (if i < n then
        if s1 i \<noteq> s2 i then uint (s1 i) - uint (s2 i)
        else if s1 i = 0 \<or> s2 i = 0 then 0
        else strncmp_from s1 s2 (Suc i) n
      else 0)"
  by pat_completeness auto
termination
  by (relation "measure (\<lambda>(s1, s2, i, n). n - i)") auto

definition strncmp :: "buffer \<Rightarrow> buffer \<Rightarrow> nat \<Rightarrow> int" where
  "strncmp s1 s2 n = strncmp_from s1 s2 0 n"

partial_function (option) strlen_from :: "buffer \<Rightarrow> nat \<Rightarrow> nat option" where
  "strlen_from s i = (if s i \<noteq> 0 then strlen_from s (Suc i) else Some i)"

definition strlen :: "buffer \<Rightarrow> nat option" where
  "strlen s = strlen_from s 0"

declare memcmp_from.simps [simp del]
declare strncpy_copy.simps [simp del]
declare strncpy_pad.simps [simp del]
declare strncmp_from.simps [simp del]

section \<open>Lemmas\<close>

lemma memset_apply: "memset s c n i = (if i < n then ucast (c AND 0xff) else s i)"
  by (induction n) (auto simp: less_Suc_eq)

lemma memcpy_apply: "memcpy d s n i = (if i < n then s i else d i)"
  by (induction n) (auto simp: less_Suc_eq)

lemma memcmp_from_zero: "memcmp_from s1 s2 i n = 0 \<longleftrightarrow> (\<forall>j. i \<le> j \<and> j < n \<longrightarrow> s1 j = s2 j)"
proof (induction s1 s2 i n rule: memcmp_from.induct)
  case (1 s1 s2 i n)
  show ?case
  proof (cases "i < n \<and> s1 i = s2 i")
    case True
    have "\<And>j. i \<le> j \<longleftrightarrow> j = i \<or> Suc i \<le> j" by auto
    then show ?thesis
      using True 1 by (auto simp: memcmp_from.simps [of s1 s2 i n])
  next
    case False
    then show ?thesis
      by (auto simp: memcmp_from.simps [of s1 s2 i n] word_uint_eq_iff)
  qed
qed

text \<open>The address \<open>x\<close> as an offset from \<open>a\<close>, for regions that do not wrap.\<close>

lemma unat_ptr_m1: "unat (- 1 :: ptr) = 2 ^ 64 - 1"
  by (simp add: unsigned_minus_1_eq_mask mask_eq_exp_minus_1)

lemma move_up_apply:
  "d = s \<or> n \<le> unat (d - s) \<Longrightarrow> n < 2 ^ 64 \<Longrightarrow>
   move_up d s n m x = (if unat (x - d) < n then m (s + (x - d)) else m x)"
proof (induction n arbitrary: d s m)
  case 0
  then show ?case by simp
next
  case (Suc n)
  let ?m = "m(d := m s)"
  have IH: "move_up (d + 1) (s + 1) n ?m x
      = (if unat (x - (d + 1)) < n then ?m (s + 1 + (x - (d + 1))) else ?m x)"
    using Suc.prems by (intro Suc.IH) auto
  show ?case
  proof (cases "x = d")
    case True
    then have "unat (x - (d + 1)) = 2 ^ 64 - 1"
      by (simp add: unat_ptr_m1)
    with True Suc.prems IH show ?thesis
      by simp
  next
    case False
    then have u: "unat (x - (d + 1)) = unat (x - d) - 1" and ne: "unat (x - d) \<noteq> 0"
      using unat_minus_one [of "x - d"] by (simp_all add: diff_diff_eq unat_eq_zero)
    have "s + (x - d) \<noteq> d" if "unat (x - d) < Suc n"
    proof
      assume "s + (x - d) = d"
      then have "x - d = d - s" by (simp add: algebra_simps)
      with that Suc.prems False show False by auto
    qed
    with False u ne show ?thesis
      by (auto simp: IH add_diff_eq)
  qed
qed

lemma move_down_apply:
  "d = s \<or> n \<le> unat (s - d) \<Longrightarrow> n < 2 ^ 64 \<Longrightarrow>
   move_down d s n m x = (if unat (d - 1 - x) < n then m (s - (d - x)) else m x)"
proof (induction n arbitrary: d s m)
  case 0
  then show ?case by simp
next
  case (Suc n)
  let ?m = "m(d - 1 := m (s - 1))"
  have IH: "move_down (d - 1) (s - 1) n ?m x
      = (if unat (d - 1 - 1 - x) < n then ?m (s - 1 - (d - 1 - x)) else ?m x)"
    using Suc.prems by (intro Suc.IH) auto
  show ?case
  proof (cases "x = d - 1")
    case True
    then have "unat (d - 1 - 1 - x) = 2 ^ 64 - 1"
      by (simp add: unat_ptr_m1)
    with True Suc.prems IH show ?thesis
      by simp
  next
    case False
    have "d - 1 - x \<noteq> 0" using False by auto
    then have u: "unat (d - 1 - 1 - x) = unat (d - 1 - x) - 1" and ne: "unat (d - 1 - x) \<noteq> 0"
      using unat_minus_one [of "d - 1 - x"] by (simp_all add: algebra_simps unat_eq_zero)
    have "s - (d - x) \<noteq> d - 1" if "unat (d - 1 - x) < Suc n"
    proof
      assume "s - (d - x) = d - 1"
      then have "d - 1 - x = s - d" by (simp add: algebra_simps)
      with that Suc.prems \<open>d - 1 - x \<noteq> 0\<close> show False by auto
    qed
    moreover have "m (s + (x - d)) = m (s - (d - x))"
      by (rule arg_cong [of _ _ m]) (simp add: algebra_simps)
    ultimately show ?thesis
      using False u ne by (auto simp: IH)
  qed
qed

lemma unat_minus_ptr:
  fixes a b :: ptr
  shows "unat (a - b) = (if b \<le> a then unat a - unat b else 2 ^ 64 + unat a - unat b)"
  using unat_sub_if_size [of a b] by (auto simp: word_size word_le_nat_alt)

lemma unat_flip_less:
  fixes n a :: ptr
  assumes "0 < n"
  shows "unat (n - 1 - a) < unat n \<longleftrightarrow> unat a < unat n"
proof -
  have n: "unat (n - 1) = unat n - 1" and "0 < unat n"
    using assms unat_minus_one [of n] by (auto simp: unat_gt_0)
  have "unat a < 2 ^ 64" by (rule unat_ptr_less)
  then show ?thesis
    using \<open>0 < unat n\<close> n by (auto simp: unat_minus_ptr word_le_nat_alt)
qed

lemma memmove_apply:
  assumes "unat s + unat n \<le> 2 ^ 64" and "unat d + unat n \<le> 2 ^ 64"
  shows "memmove d s n m x = (if unat (x - d) < unat n then m (s + (x - d)) else m x)"
proof (cases "s < d \<and> d - s < n")
  case True
  have n: "0 < n" using True word_gt_0 by fastforce
  have lt: "unat n < 2 ^ 64" by (rule unat_ptr_less)
  have "unat n \<le> unat (s + n - (d + n))"
    using True assms(2) by (simp add: unat_minus_ptr word_less_nat_alt word_le_nat_alt)
  then have "move_down (d + n) (s + n) (unat n) m x
     = (if unat (d + n - 1 - x) < unat n then m (s + n - (d + n - x)) else m x)"
    using lt by (intro move_down_apply) auto
  moreover have "d + n - 1 - x = n - 1 - (x - d)" "s + n - (d + n - x) = s + (x - d)"
    by (simp_all add: algebra_simps)
  ultimately show ?thesis
    using True n by (simp add: memmove_def unat_flip_less)
next
  case False
  have "d = s \<or> unat n \<le> unat (d - s)"
    using False assms(1)
    by (auto simp: unat_minus_ptr word_less_nat_alt word_le_nat_alt not_less word_unat_eq_iff)
  then have "move_up d s (unat n) m x = (if unat (x - d) < unat n then m (s + (x - d)) else m x)"
    using unat_ptr_less [of n] by (intro move_up_apply) auto
  with False show ?thesis by (auto simp: memmove_def)
qed

lemma strncpy_copy_eq:
  "i \<le> n \<Longrightarrow> strncpy_copy dest src i n =
     (let k = (case find_from (\<lambda>j. src j = 0) i n of None \<Rightarrow> n | Some k \<Rightarrow> k)
      in (k, \<lambda>j. if i \<le> j \<and> j < k then src j else dest j))"
proof (induction dest src i n rule: strncpy_copy.induct)
  case (1 dest src i n)
  show ?case
  proof (cases "i < n \<and> src i \<noteq> 0")
    case True
    define k where "k = (case find_from (\<lambda>j. src j = 0) (Suc i) n of None \<Rightarrow> n | Some k \<Rightarrow> k)"
    have k: "Suc i \<le> k"
      using True by (auto simp: k_def find_from_Some split: option.splits)
    have "strncpy_copy dest src i n = strncpy_copy (dest(i := src i)) src (Suc i) n"
      using True by (simp add: strncpy_copy.simps [of dest src i n])
    also have "\<dots> = (k, \<lambda>j. if Suc i \<le> j \<and> j < k then src j else (dest(i := src i)) j)"
      using "1.IH" True by (simp add: k_def Let_def fun_upd_def)
    also have "\<dots> = (k, \<lambda>j. if i \<le> j \<and> j < k then src j else dest j)"
      using k by (auto simp: fun_eq_iff Suc_le_eq le_less)
    finally show ?thesis
      using True by (simp add: find_from.simps [of _ i n] k_def Let_def)
  next
    case False
    with "1.prems" have "(case find_from (\<lambda>j. src j = 0) i n of None \<Rightarrow> n | Some k \<Rightarrow> k) = i"
      by (auto simp: find_from.simps [of _ i n])
    moreover have "strncpy_copy dest src i n = (i, dest)"
      using False by (auto simp: strncpy_copy.simps [of dest src i n])
    ultimately show ?thesis by (auto simp: Let_def intro!: ext)
  qed
qed

lemma strncpy_pad_apply: "strncpy_pad dest i n j = (if i \<le> j \<and> j < n then 0 else dest j)"
proof (induction dest i n rule: strncpy_pad.induct)
  case (1 dest i n)
  then show ?case
    by (auto simp: strncpy_pad.simps [of dest i n] fun_upd_def Suc_le_eq le_less)
qed

lemma strncpy_apply:
  "strncpy dest src n j =
     (if j < n then if \<exists>k \<le> j. src k = 0 then 0 else src j else dest j)"
proof (cases "find_from (\<lambda>j. src j = 0) 0 n")
  case None
  then have "\<forall>k < n. src k \<noteq> 0" by (simp add: find_from_None)
  with None show ?thesis
    by (auto simp: strncpy_def strncpy_copy_eq strncpy_pad_apply)
next
  case (Some k)
  then have k: "k < n" "src k = 0" "\<forall>j < k. src j \<noteq> 0" by (simp_all add: find_from_Some)
  then have "(\<exists>i \<le> j. src i = 0) \<longleftrightarrow> k \<le> j"
    by (meson le_trans not_le)
  with Some k show ?thesis
    by (auto simp: strncpy_def strncpy_copy_eq strncpy_pad_apply)
qed

lemma strncpy_before_nul: "k < n \<Longrightarrow> (\<And>j. j < k \<Longrightarrow> src j \<noteq> 0) \<Longrightarrow> strncpy dest src n k = src k"
  by (auto simp: strncpy_apply le_less)

lemma strncmp_from_zero:
  "strncmp_from s1 s2 i n = 0 \<longleftrightarrow>
     (\<forall>k < n - i. (\<forall>j < k. s1 (i + j) \<noteq> 0) \<longrightarrow> s1 (i + k) = s2 (i + k))"
proof (induction "n - i" arbitrary: i)
  case 0
  then show ?case by (simp add: strncmp_from.simps [of s1 s2 i n])
next
  case (Suc m)
  then have IH: "strncmp_from s1 s2 (Suc i) n = 0 \<longleftrightarrow>
     (\<forall>k < m. (\<forall>j < k. s1 (Suc i + j) \<noteq> 0) \<longrightarrow> s1 (Suc i + k) = s2 (Suc i + k))"
    using Suc.hyps(1) [of "Suc i"] by auto
  have i: "i < n" "n - i = Suc m" using Suc.hyps(2) by auto
  have "strncmp_from s1 s2 i n = 0 \<longleftrightarrow>
      s1 i = s2 i \<and> (s1 i \<noteq> 0 \<longrightarrow> strncmp_from s1 s2 (Suc i) n = 0)"
    using i by (auto simp: strncmp_from.simps [of s1 s2 i n] word_uint_eq_iff)
  also have "\<dots> \<longleftrightarrow>
      (\<forall>k < n - i. (\<forall>j < k. s1 (i + j) \<noteq> 0) \<longrightarrow> s1 (i + k) = s2 (i + k))"
    by (simp only: i All_less_Suc2 IH) auto
  finally show ?case .
qed

lemma strncmp_zero:
  "strncmp s1 s2 n = 0 \<longleftrightarrow> (\<forall>k < n. (\<forall>j < k. s1 j \<noteq> 0) \<longrightarrow> s1 k = s2 k)"
  by (simp add: strncmp_def strncmp_from_zero)

lemma strncmp_strncpy: "strncmp a (strncpy dest b n) n = 0 \<longleftrightarrow> strncmp a b n = 0"
proof -
  have "(\<forall>k < n. (\<forall>j < k. a j \<noteq> 0) \<longrightarrow> a k = strncpy dest b n k)
     \<longleftrightarrow> (\<forall>k < n. (\<forall>j < k. a j \<noteq> 0) \<longrightarrow> a k = b k)"
    (is "(\<forall>k < n. ?G k \<longrightarrow> ?P k) \<longleftrightarrow> (\<forall>k < n. ?G k \<longrightarrow> ?Q k)")
  proof -
    have "b j \<noteq> 0" if "\<forall>k < n. ?G k \<longrightarrow> ?P k" "?G k" "j < k" "k < n" for j k
    proof -
      have "j < n" "?G j" using that(2-4) by (simp_all add: less_trans [of _ j k])
      then have "a j = strncpy dest b n j" "a j \<noteq> 0" using that by blast+
      with \<open>j < n\<close> show ?thesis by (auto simp: strncpy_apply split: if_splits)
    qed
    moreover have "b j \<noteq> 0" if "\<forall>k < n. ?G k \<longrightarrow> ?Q k" "?G k" "j < k" "k < n" for j k
    proof -
      have "j < n" "?G j" using that(2-4) by (simp_all add: less_trans [of _ j k])
      then have "a j = b j" "a j \<noteq> 0" using that by blast+
      then show ?thesis by simp
    qed
    ultimately have "strncpy dest b n k = b k"
      if "(\<forall>k < n. ?G k \<longrightarrow> ?P k) \<or> (\<forall>k < n. ?G k \<longrightarrow> ?Q k)" "?G k" "k < n" for k
      using that by (intro strncpy_before_nul) blast+
    then show ?thesis by metis
  qed
  then show ?thesis by (simp add: strncmp_zero)
qed

lemma strncmp_refl [simp]: "strncmp a a n = 0"
  by (simp add: strncmp_zero)

lemma strncmp_prefix: "strncmp a b n = 0 \<Longrightarrow> k \<le> n \<Longrightarrow> (\<forall>j < k. a j \<noteq> 0) \<longleftrightarrow> (\<forall>j < k. b j \<noteq> 0)"
proof (induction k)
  case (Suc k)
  then have "(\<forall>j < k. a j \<noteq> 0) \<longleftrightarrow> (\<forall>j < k. b j \<noteq> 0)" "(\<forall>j < k. a j \<noteq> 0) \<longrightarrow> a k = b k"
    by (simp_all add: strncmp_zero)
  then show ?case by (auto simp: less_Suc_eq)
qed simp

lemma strncmp_cong:
  assumes "strncmp a b n = 0"
  shows "strncmp a c n = 0 \<longleftrightarrow> strncmp b c n = 0"
proof -
  have "((\<forall>j < k. a j \<noteq> 0) \<longrightarrow> a k = c k) \<longleftrightarrow> ((\<forall>j < k. b j \<noteq> 0) \<longrightarrow> b k = c k)" if "k < n" for k
  proof -
    have "(\<forall>j < k. a j \<noteq> 0) \<longleftrightarrow> (\<forall>j < k. b j \<noteq> 0)" by (rule strncmp_prefix [OF assms]) (use that in simp)
    moreover have "(\<forall>j < k. a j \<noteq> 0) \<longrightarrow> a k = b k" using assms that by (simp add: strncmp_zero)
    ultimately show ?thesis by argo
  qed
  then show ?thesis unfolding strncmp_zero by blast
qed

lemma strlen_from_Some:
  "(\<forall>j. i \<le> j \<and> j < k \<longrightarrow> s j \<noteq> 0) \<Longrightarrow> s k = 0 \<Longrightarrow> i \<le> k \<Longrightarrow> strlen_from s i = Some k"
proof (induction "k - i" arbitrary: i)
  case 0
  then show ?case by (simp add: strlen_from.simps)
next
  case (Suc d)
  then have "strlen_from s (Suc i) = Some k" by auto
  moreover have "s i \<noteq> 0" using Suc by auto
  ultimately show ?case by (simp add: strlen_from.simps [of s i])
qed

lemma strlen_from_SomeD: "strlen_from s i = Some k \<Longrightarrow> i \<le> k \<and> s k = 0 \<and> (\<forall>j. i \<le> j \<and> j < k \<longrightarrow> s j \<noteq> 0)"
proof (rule strlen_from.raw_induct
    [where P = "\<lambda>s i k. i \<le> k \<and> s k = 0 \<and> (\<forall>j. i \<le> j \<and> j < k \<longrightarrow> s j \<noteq> 0)"])
  fix f s i k
  assume IH: "\<And>s i k. f s i = Some k \<Longrightarrow> i \<le> k \<and> s k = 0 \<and> (\<forall>j. i \<le> j \<and> j < k \<longrightarrow> s j \<noteq> 0)"
    and eq: "(if s i \<noteq> 0 then f s (Suc i) else Some i) = Some k"
  show "i \<le> k \<and> s k = 0 \<and> (\<forall>j. i \<le> j \<and> j < k \<longrightarrow> s j \<noteq> 0)"
  proof (cases "s i = 0")
    case True
    with eq show ?thesis by auto
  next
    case False
    have "\<And>j. i \<le> j \<longleftrightarrow> j = i \<or> Suc i \<le> j" by auto
    with False eq IH [of s "Suc i" k] show ?thesis by auto
  qed
qed

section \<open>Properties\<close>

text \<open>
  \<^verbatim>\<open>memmove\<close> copies correctly whatever the overlap of the two regions: afterwards every
  byte of the destination holds the byte the source had before the call, and every byte outside
  the destination is unchanged.
\<close>

theorem memmove_correct:
  assumes "unat s + unat n \<le> 2 ^ 64" and "unat d + unat n \<le> 2 ^ 64"
  shows "memmove d s n m = (\<lambda>x. if unat (x - d) < unat n then m (s + (x - d)) else m x)"
  using memmove_apply [OF assms] by blast

text \<open>
  a name stored with \<^verbatim>\<open>strncpy\<close> compares equal under \<^verbatim>\<open>strncmp\<close> to exactly the names that
  compare equal to the original, so truncating and zero-padding a name to the directory entry
  width loses nothing that a lookup of that width can see; bytes beyond the width are not touched.
\<close>

theorem strncpy_strncmp:
  "(strncmp a (strncpy dest b n) n = 0 \<longleftrightarrow> strncmp a b n = 0)
   \<and> strncmp b (strncpy dest b n) n = 0
   \<and> strncpy dest b n (n + j) = dest (n + j)"
  using strncmp_strncpy [of b dest b n] strncmp_strncpy [of a dest b n] by (simp add: strncpy_apply)

text \<open>
  \<^verbatim>\<open>strlen\<close> returns exactly when the buffer has a terminator, and then the index of the first one.
\<close>

theorem strlen_correct:
  "strlen s = (if \<exists>k. s k = 0 then Some (LEAST k. s k = 0) else None)"
proof (cases "\<exists>k. s k = 0")
  case True
  then have "strlen_from s 0 = Some (LEAST k. s k = 0)"
    by (intro strlen_from_Some) (auto intro: LeastI dest: not_less_Least)
  with True show ?thesis by (simp add: strlen_def)
next
  case False
  then show ?thesis
    using strlen_from_SomeD [of s 0] by (cases "strlen_from s 0") (auto simp: strlen_def)
qed

end
