(* ===== verification/Inode.thy ===== *)
theory Inode
  imports Transaction Console Mem_String
begin

text \<open>
  The inode layer of \<^verbatim>\<open>fs/inode.c\<close>: on-disk inodes and their in-memory copies with reference
  counts, file content mapped through direct and indirect blocks, directories, and path lookup.  The
  state is the block cache with the current operation, the inode list and the console, which device
  inodes read and write.
\<close>

section \<open>On-disk structures\<close>

definition INODE_NUM_DIRECT :: nat where
  "INODE_NUM_DIRECT = 12"

definition INODE_NUM_INDIRECT :: nat where
  "INODE_NUM_INDIRECT = BLOCK_SIZE div 4"

definition INODE_PER_BLOCK :: nat where
  "INODE_PER_BLOCK = BLOCK_SIZE div 64"

definition INODE_MAX_BLOCKS :: nat where
  "INODE_MAX_BLOCKS = INODE_NUM_DIRECT + INODE_NUM_INDIRECT"

definition INODE_MAX_BYTES :: nat where
  "INODE_MAX_BYTES = INODE_MAX_BLOCKS * BLOCK_SIZE"

definition FILE_NAME_MAX_LENGTH :: nat where
  "FILE_NAME_MAX_LENGTH = 14"

definition INODE_INVALID :: u16 where
  "INODE_INVALID = 0"

definition INODE_DIRECTORY :: u16 where
  "INODE_DIRECTORY = 1"

definition INODE_REGULAR :: u16 where
  "INODE_REGULAR = 2"

definition INODE_DEVICE :: u16 where
  "INODE_DEVICE = 3"

definition ROOT_INODE_NO :: u64 where
  "ROOT_INODE_NO = 1"

lemmas inode_consts = INODE_NUM_DIRECT_def INODE_NUM_INDIRECT_def INODE_PER_BLOCK_def INODE_MAX_BLOCKS_def
  INODE_MAX_BYTES_def FILE_NAME_MAX_LENGTH_def INODE_INVALID_def INODE_DIRECTORY_def INODE_REGULAR_def
  INODE_DEVICE_def ROOT_INODE_NO_def BLOCK_SIZE_def

record InodeEntry =
  e_type :: u16
  major :: u16
  minor :: u16
  num_links :: u16
  num_bytes :: u32
  addrs :: "u32 list"
  indirect :: u32

text \<open>The 64 bytes of an entry, in the order of the members of the structure.\<close>

definition entry_bytes :: "InodeEntry \<Rightarrow> u8 list" where
  "entry_bytes e = le_bytes 2 (e_type e) @ le_bytes 2 (major e) @ le_bytes 2 (minor e) @ le_bytes 2 (num_links e)
     @ le_bytes 4 (num_bytes e) @ concat (map (le_bytes 4) (addrs e)) @ le_bytes 4 (indirect e)"

definition entry_of_bytes :: "u8 list \<Rightarrow> InodeEntry" where
  "entry_of_bytes d = \<lparr>e_type = le_word (take 2 d), major = le_word (take 2 (drop 2 d)),
     minor = le_word (take 2 (drop 4 d)), num_links = le_word (take 2 (drop 6 d)),
     num_bytes = le_word (take 4 (drop 8 d)),
     addrs = map le_word (chunks 4 (take (4 * INODE_NUM_DIRECT) (drop 12 d))),
     indirect = le_word (take 4 (drop 60 d))\<rparr>"

definition splice :: "nat \<Rightarrow> 'a list \<Rightarrow> 'a list \<Rightarrow> 'a list" where
  "splice i xs ys = take i ys @ xs @ drop (i + length xs) ys"

text \<open>\<^verbatim>\<open>get_entry\<close> and \<^verbatim>\<open>get_addrs\<close> point into the buffer of a block; they are a read and a write here.\<close>

definition get_entry :: "sector \<Rightarrow> u64 \<Rightarrow> InodeEntry" where
  "get_entry d ino = entry_of_bytes (take 64 (drop (64 * (unat ino mod INODE_PER_BLOCK)) d))"

definition put_entry :: "sector \<Rightarrow> u64 \<Rightarrow> InodeEntry \<Rightarrow> sector" where
  "put_entry d ino e = splice (64 * (unat ino mod INODE_PER_BLOCK)) (entry_bytes e) d"

definition get_addrs :: "sector \<Rightarrow> u32 list" where
  "get_addrs d = map le_word (chunks 4 d)"

definition put_addrs :: "u32 list \<Rightarrow> sector" where
  "put_addrs xs = concat (map (le_bytes 4) xs)"

section \<open>In-memory state\<close>

record Inode =
  i_locked :: bool
  i_rc :: RefCount
  i_no :: u64
  i_valid :: bool
  i_entry :: InodeEntry

definition sizeof_Inode :: u64 where
  "sizeof_Inode = 128"

text \<open>
  \<open>it_txn\<close> is the block cache with the operation \<^verbatim>\<open>ctx\<close> the callers pass along, \<open>it_list\<close> the
  circular list behind \<^verbatim>\<open>head\<close> from its first node on, \<open>it_killed\<close> and \<open>it_cwd\<close> the flag and the
  directory of the current process.
\<close>

record itree =
  it_txn :: txn
  it_arena :: ptr
  it_list :: "ptr list"
  it_inode :: "ptr \<Rightarrow> Inode"
  it_root :: ptr
  it_console :: console
  it_killed :: bool
  it_cwd :: ptr

definition upd_inode :: "ptr \<Rightarrow> (Inode \<Rightarrow> Inode) \<Rightarrow> itree \<Rightarrow> itree" where
  "upd_inode ip f s = s\<lparr>it_inode := (it_inode s)(ip := f (it_inode s ip))\<rparr>"

definition set_entry :: "ptr \<Rightarrow> (InodeEntry \<Rightarrow> InodeEntry) \<Rightarrow> itree \<Rightarrow> itree" where
  "set_entry ip f = upd_inode ip (\<lambda>i. i\<lparr>i_entry := f (i_entry i)\<rparr>)"

abbreviation (input) entry :: "itree \<Rightarrow> ptr \<Rightarrow> InodeEntry" where
  "entry s ip \<equiv> i_entry (it_inode s ip)"

text \<open>A call on the block cache, and a call that passes a null operation.\<close>

definition on_txn :: "(txn \<Rightarrow> ('a \<times> txn) res) \<Rightarrow> itree \<Rightarrow> ('a \<times> itree) res" where
  "on_txn f s = bindE (f (it_txn s)) (\<lambda>(a, t). Inr (a, s\<lparr>it_txn := t\<rparr>))"

definition no_ctx :: "(txn \<Rightarrow> ('a \<times> txn) res) \<Rightarrow> txn \<Rightarrow> ('a \<times> txn) res" where
  "no_ctx f t = bindE (f (None, snd t)) (\<lambda>(a, t'). Inr (a, (fst t, snd t')))"

definition to_block_no :: "u64 \<Rightarrow> txn \<Rightarrow> u64" where
  "to_block_no inode_no t = ucast (sb_inode_start (sblock (snd t))) + of_nat (unat inode_no div INODE_PER_BLOCK)"

definition num_inodes :: "txn \<Rightarrow> u64" where
  "num_inodes t = ucast (sb_num_inodes (sblock (snd t)))"

section \<open>Allocation and synchronisation\<close>

definition zero_entry :: InodeEntry where
  "zero_entry = \<lparr>e_type = 0, major = 0, minor = 0, num_links = 0, num_bytes = 0,
     addrs = replicate INODE_NUM_DIRECT 0, indirect = 0\<rparr>"

fun ialloc_loop :: "u16 \<Rightarrow> nat list \<Rightarrow> txn \<Rightarrow> (u64 \<times> txn) res" where
  "ialloc_loop type [] t = Inl (Panic ''failed to allocate inode on disk'')"
| "ialloc_loop type (i # is) t =
     (let ino = of_nat i
      in bindE (t_acquire (to_block_no ino t) t) (\<lambda>(block, t).
         if e_type (get_entry (t_data t block) ino) = INODE_INVALID
         then bindE (t_sync block (t_store block (put_entry (t_data t block) ino (zero_entry\<lparr>e_type := type\<rparr>)) t)) (\<lambda>t.
              Inr (ino, t_release block t))
         else ialloc_loop type is (t_release block t)))"

definition inode_alloc :: "u16 \<Rightarrow> itree \<Rightarrow> (u64 \<times> itree) res" where
  "inode_alloc type s =
     bindE (assertE (type \<noteq> INODE_INVALID) ''type != INODE_INVALID'') (\<lambda>_.
     on_txn (ialloc_loop type [1 ..< unat (num_inodes (it_txn s))]) s)"

definition inode_sync :: "ptr \<Rightarrow> bool \<Rightarrow> itree \<Rightarrow> itree res" where
  "inode_sync ip do_write s =
     (let i = it_inode s ip; t = it_txn s
      in bindE (t_acquire (to_block_no (i_no i) t) t) (\<lambda>(block, t).
         if i_valid i \<and> do_write
         then bindE (t_sync block (t_store block (put_entry (t_data t block) (i_no i) (i_entry i)) t)) (\<lambda>t.
              Inr (s\<lparr>it_txn := t_release block t\<rparr>))
         else let s = s\<lparr>it_txn := t_release block t\<rparr>
              in Inr (if \<not> i_valid i
                      then upd_inode ip (\<lambda>i. i\<lparr>i_valid := True, i_entry := get_entry (t_data t block) (i_no i)\<rparr>) s
                      else s)))"

text \<open>
  \<^verbatim>\<open>inode_lock\<close> and \<^verbatim>\<open>inode_unlock\<close>: waiting for a held lock is \<open>Blocked\<close>.  The call of
  \<^verbatim>\<open>inode_sync\<close> with a null operation only loads the entry.
\<close>

definition referenced :: "ptr \<Rightarrow> itree \<Rightarrow> bool" where
  "referenced ip s \<longleftrightarrow> sint (count (i_rc (it_inode s ip))) > 0"

definition inode_lock :: "ptr \<Rightarrow> itree \<Rightarrow> itree res" where
  "inode_lock ip s =
     bindE (assertE (referenced ip s) ''inode->rc.count > 0'') (\<lambda>_.
     if i_locked (it_inode s ip) then Inl Blocked
     else let s = upd_inode ip (\<lambda>i. i\<lparr>i_locked := True\<rparr>) s
          in bindE (if \<not> i_valid (it_inode s ip) then inode_sync ip False s else Inr s) (\<lambda>s.
             bindE (assertE (e_type (entry s ip) \<noteq> INODE_INVALID) ''inode->entry.type != INODE_INVALID'') (\<lambda>_. Inr s)))"

definition inode_unlock :: "ptr \<Rightarrow> itree \<Rightarrow> itree res" where
  "inode_unlock ip s =
     bindE (assertE (i_locked (it_inode s ip)) ''holding_spinlock(&inode->lock)'') (\<lambda>_.
     bindE (assertE (referenced ip s) ''inode->rc.count > 0'') (\<lambda>_.
     Inr (upd_inode ip (\<lambda>i. i\<lparr>i_locked := False\<rparr>) s)))"

section \<open>References\<close>

definition init_inode :: "Inode \<Rightarrow> Inode" where
  "init_inode i = i\<lparr>i_locked := False, i_rc := init_rc (i_rc i), i_no := 0, i_valid := False\<rparr>"

definition tree_heap :: "itree \<Rightarrow> kheap" where
  "tree_heap s = kh (snd (it_txn s))"

definition set_tree_heap :: "kheap \<Rightarrow> itree \<Rightarrow> itree" where
  "set_tree_heap h s = s\<lparr>it_txn := (fst (it_txn s), (snd (it_txn s))\<lparr>kh := h\<rparr>)\<rparr>"

definition share_inode :: "Inode \<Rightarrow> Inode" where
  "share_inode i = i\<lparr>i_rc := increment_rc (i_rc i)\<rparr>"

definition inode_get :: "u64 \<Rightarrow> itree \<Rightarrow> (ptr \<times> itree) res" where
  "inode_get inode_no s =
     bindE (assertE (inode_no > 0) ''inode_no > 0'') (\<lambda>_.
     bindE (assertE (inode_no < num_inodes (it_txn s)) ''inode_no < sblock->num_inodes'') (\<lambda>_.
     case find (\<lambda>ip. referenced ip s \<and> i_no (it_inode s ip) = inode_no) (it_list s) of
       Some ip \<Rightarrow> Inr (ip, upd_inode ip share_inode s)
     | None \<Rightarrow>
         bindE (alloc_object (it_arena s) (tree_heap s)) (\<lambda>(ip, h).
         bindE (assertE (ip \<noteq> NULL) ''inode != NULL'') (\<lambda>_.
         let s = upd_inode ip (\<lambda>i. share_inode ((init_inode i)\<lparr>i_no := inode_no\<rparr>)) (set_tree_heap h s)
         in Inr (ip, s\<lparr>it_list := ip # it_list s\<rparr>)))))"

definition inode_share :: "ptr \<Rightarrow> itree \<Rightarrow> itree" where
  "inode_share ip s = upd_inode ip share_inode s"

fun free_addrs :: "u32 list \<Rightarrow> txn \<Rightarrow> txn res" where
  "free_addrs [] t = Inr t"
| "free_addrs (a # as) t = bindE (if a \<noteq> 0 then cache_free (ucast a) t else Inr t) (free_addrs as)"

definition inode_clear :: "ptr \<Rightarrow> itree \<Rightarrow> itree res" where
  "inode_clear ip s =
     (let e = entry s ip; iaddr = ucast (indirect e)
      in bindE (free_addrs (addrs e) (it_txn s)) (\<lambda>t.
         bindE (if iaddr \<noteq> 0
                then bindE (t_acquire iaddr t) (\<lambda>(block, t).
                     bindE (free_addrs (get_addrs (t_data t block)) t) (\<lambda>t.
                     cache_free iaddr (t_release block t)))
                else Inr t) (\<lambda>t.
         inode_sync ip True
           (set_entry ip (\<lambda>e. e\<lparr>num_bytes := 0, addrs := replicate INODE_NUM_DIRECT 0, indirect := 0\<rparr>)
             (s\<lparr>it_txn := t\<rparr>)))))"

definition inode_put :: "ptr \<Rightarrow> itree \<Rightarrow> itree res" where
  "inode_put ip s =
     bindE (if sint (count (i_rc (it_inode s ip))) \<le> 1 \<and> num_links (entry s ip) = 0
            then bindE (inode_lock ip s) (\<lambda>s.
                 bindE (inode_clear ip s) (\<lambda>s.
                 bindE (inode_sync ip True (set_entry ip (\<lambda>e. e\<lparr>e_type := INODE_INVALID\<rparr>) s)) (\<lambda>s.
                 inode_unlock ip s)))
            else Inr s) (\<lambda>s.
     let (unused, rc) = decrement_rc (i_rc (it_inode s ip));
         s = upd_inode ip (\<lambda>i. i\<lparr>i_rc := rc\<rparr>) s
     in if unused
        then bindE (free_object ip (tree_heap s)) (\<lambda>h.
             Inr (set_tree_heap h (s\<lparr>it_list := remove1 ip (it_list s)\<rparr>)))
        else Inr s)"

definition init_inodes :: "itree \<Rightarrow> itree res" where
  "init_inodes s =
     bindE (init_arena (it_arena s) sizeof_Inode (tree_heap s)) (\<lambda>h.
     let s = set_tree_heap h (s\<lparr>it_list := []\<rparr>)
     in if ROOT_INODE_NO < num_inodes (it_txn s)
        then bindE (inode_get ROOT_INODE_NO s) (\<lambda>(root, s). Inr (s\<lparr>it_root := root\<rparr>))
        else bindE (vprintf ''(warn) init_inodes: no root inode.\<newline>'' [] (it_console s)) (\<lambda>c.
             Inr (s\<lparr>it_console := c\<rparr>)))"

section \<open>File content\<close>

text \<open>
  \<^verbatim>\<open>inode_map\<close> works on the in-memory entry; its result is the block number, whether anything was
  allocated (the flag \<^verbatim>\<open>modified\<close>), and the entry.
\<close>

definition map_indirect :: "nat \<Rightarrow> bool \<Rightarrow> InodeEntry \<Rightarrow> txn \<Rightarrow> ((u64 \<times> bool \<times> InodeEntry) \<times> txn) res" where
  "map_indirect index m e t =
     bindE (t_acquire (ucast (indirect e)) t) (\<lambda>(block, t).
     if get_addrs (t_data t block) ! index = 0
     then bindE (cache_alloc t) (\<lambda>(n, t).
          let as = (get_addrs (t_data t block))[index := ucast n]
          in bindE (t_sync block (t_store block (put_addrs as) t)) (\<lambda>t.
             Inr ((ucast (as ! index), True, e), t_release block t)))
     else Inr ((ucast (get_addrs (t_data t block) ! index), m, e), t_release block t))"

definition inode_map :: "InodeEntry \<Rightarrow> nat \<Rightarrow> txn \<Rightarrow> ((u64 \<times> bool \<times> InodeEntry) \<times> txn) res" where
  "inode_map e offset t =
     (let index = offset div BLOCK_SIZE
      in if index < INODE_NUM_DIRECT
         then if addrs e ! index = 0
              then bindE (cache_alloc t) (\<lambda>(n, t).
                   let e = e\<lparr>addrs := (addrs e)[index := ucast n]\<rparr>
                   in Inr ((ucast (addrs e ! index), True, e), t))
              else Inr ((ucast (addrs e ! index), False, e), t)
         else let index = index - INODE_NUM_DIRECT
              in bindE (assertE (index < INODE_NUM_INDIRECT) ''index < INODE_NUM_INDIRECT'') (\<lambda>_.
                 bindE (if indirect e = 0
                        then bindE (cache_alloc t) (\<lambda>(n, t). Inr ((True, e\<lparr>indirect := ucast n\<rparr>), t))
                        else Inr ((False, e), t)) (\<lambda>((m, e), t).
                 map_indirect index m e t)))"

text \<open>The number of bytes of one round of the loops of \<^verbatim>\<open>inode_read\<close> and \<^verbatim>\<open>inode_write\<close>.\<close>

definition io_step :: "nat \<Rightarrow> nat \<Rightarrow> nat" where
  "io_step b n = min (n - b) (BLOCK_SIZE - b mod BLOCK_SIZE)"

lemma io_step_progress: "b < n \<Longrightarrow> 0 < io_step b n \<and> b + io_step b n \<le> n"
  by (simp add: io_step_def BLOCK_SIZE_def)

function file_read_loop :: "InodeEntry \<Rightarrow> nat \<Rightarrow> nat \<Rightarrow> txn \<Rightarrow> (u8 list \<times> txn) res" where
  "file_read_loop e b n t =
     (if b < n
      then bindE (inode_map e b t) (\<lambda>((block_no, modified, e), t).
           bindE (assertE (\<not> modified) ''!modified'') (\<lambda>_.
           bindE (t_acquire block_no t) (\<lambda>(block, t).
           let d = take (io_step b n) (drop (b mod BLOCK_SIZE) (t_data t block))
           in bindE (file_read_loop e (b + io_step b n) n (t_release block t)) (\<lambda>(ds, t). Inr (d @ ds, t)))))
      else Inr ([], t))"
  by pat_completeness auto
termination
  by (relation "measure (\<lambda>(e, b, n, t). n - b)") (use io_step_progress in \<open>auto simp: diff_less_mono2\<close>)

declare file_read_loop.simps [simp del]

function file_write_loop :: "u8 list \<Rightarrow> nat \<Rightarrow> nat \<Rightarrow> bool \<Rightarrow> InodeEntry \<Rightarrow> txn \<Rightarrow> ((bool \<times> InodeEntry) \<times> txn) res" where
  "file_write_loop src b n modified e t =
     (if b < n
      then bindE (inode_map e b t) (\<lambda>((block_no, m, e), t).
           bindE (t_acquire block_no t) (\<lambda>(block, t).
           let step = io_step b n
           in bindE (t_sync block (t_store block (splice (b mod BLOCK_SIZE) (take step src) (t_data t block)) t)) (\<lambda>t.
              file_write_loop (drop step src) (b + step) n (modified \<or> m) e (t_release block t))))
      else Inr ((modified, e), t))"
  by pat_completeness auto
termination
  by (relation "measure (\<lambda>(src, b, n, m, e, t). n - b)") (use io_step_progress in \<open>auto simp: diff_less_mono2\<close>)

declare file_write_loop.simps [simp del]

text \<open>Device inodes: the console is used without the lock of the inode.\<close>

definition console_read :: "ptr \<Rightarrow> u64 \<Rightarrow> itree \<Rightarrow> ((u64 \<times> u8 list) \<times> itree) res" where
  "console_read ip n s =
     bindE (inode_unlock ip s) (\<lambda>s.
     bindE (cons_read (it_killed s) (nat (sint n)) (it_console s)) (\<lambda>(r, c).
     bindE (inode_lock ip (s\<lparr>it_console := c\<rparr>)) (\<lambda>s.
     Inr (case r of None \<Rightarrow> (- 1, []) | Some cs \<Rightarrow> (of_nat (length cs), cs), s))))"

definition console_write :: "ptr \<Rightarrow> u8 list \<Rightarrow> itree \<Rightarrow> (u64 \<times> itree) res" where
  "console_write ip cs s =
     bindE (inode_unlock ip s) (\<lambda>s.
     bindE (inode_lock ip (s\<lparr>it_console := cons_write cs (it_console s)\<rparr>)) (\<lambda>s.
     Inr (of_nat (length cs), s)))"

text \<open>The result of \<^verbatim>\<open>inode_read\<close> is the returned count and the bytes stored to \<^verbatim>\<open>dest\<close>.\<close>

definition inode_read :: "ptr \<Rightarrow> u64 \<Rightarrow> u64 \<Rightarrow> itree \<Rightarrow> ((u64 \<times> u8 list) \<times> itree) res" where
  "inode_read ip offset cnt s =
     (let e = entry s ip
      in if e_type e = INODE_DEVICE
         then bindE (assertE (major e = 1) ''inode->entry.major == 1'') (\<lambda>_. console_read ip cnt s)
         else let size = ucast (num_bytes e);
                  cnt = (if cnt + offset > size then size - offset else cnt);
                  finish = offset + cnt
              in bindE (assertE (offset \<le> size) ''offset <= entry->num_bytes'') (\<lambda>_.
                 bindE (assertE (finish \<le> size) ''end <= entry->num_bytes'') (\<lambda>_.
                 bindE (assertE (offset \<le> finish) ''offset <= end'') (\<lambda>_.
                 bindE (on_txn (no_ctx (file_read_loop e (unat offset) (unat finish))) s) (\<lambda>(d, s).
                 Inr ((cnt, d), s))))))"

definition inode_write :: "ptr \<Rightarrow> u8 list \<Rightarrow> u64 \<Rightarrow> itree \<Rightarrow> (u64 \<times> itree) res" where
  "inode_write ip src offset s =
     (let e = entry s ip; cnt = of_nat (length src); finish = offset + cnt
      in if e_type e = INODE_DEVICE
         then bindE (assertE (major e = 1) ''inode->entry.major == 1'') (\<lambda>_. console_write ip src s)
         else bindE (assertE (offset \<le> ucast (num_bytes e)) ''offset <= entry->num_bytes'') (\<lambda>_.
              bindE (assertE (unat finish \<le> INODE_MAX_BYTES) ''end <= INODE_MAX_BYTES'') (\<lambda>_.
              bindE (assertE (offset \<le> finish) ''offset <= end'') (\<lambda>_.
              bindE (on_txn (file_write_loop src (unat offset) (unat finish) False e) s) (\<lambda>((modified, e), s).
              let grown = finish > ucast (num_bytes e);
                  e = (if grown then e\<lparr>num_bytes := ucast (ucast finish :: u16)\<rparr> else e);
                  s = set_entry ip (\<lambda>_. e) s
              in bindE (if modified \<or> grown then inode_sync ip True s else Inr s) (\<lambda>s. Inr (cnt, s)))))))"

section \<open>Directories\<close>

text \<open>
  A directory entry is the 16 bytes of a two-byte inode number and a name; names are passed as the
  characters before the terminator.  The local variable \<^verbatim>\<open>dentry\<close> keeps the bytes that a short read
  does not set; using it before it was filled is \<open>OutOfBounds\<close>.
\<close>

definition sizeof_DirEntry :: nat where
  "sizeof_DirEntry = 16"

definition dentry_no :: "u8 list \<Rightarrow> u16" where
  "dentry_no d = le_word (take 2 d)"

definition cstr :: "u8 list \<Rightarrow> buffer" where
  "cstr xs i = (if i < length xs then xs ! i else 0)"

definition dentry_name :: "u8 list \<Rightarrow> buffer" where
  "dentry_name d = cstr (drop 2 d)"

definition read_dentry :: "ptr \<Rightarrow> nat \<Rightarrow> u8 list \<Rightarrow> itree \<Rightarrow> (u8 list \<times> itree) res" where
  "read_dentry ip offset d s =
     bindE (inode_read ip (of_nat offset) (of_nat sizeof_DirEntry) s) (\<lambda>((_, new), s).
     let d = new @ drop (length new) d
     in if length d = sizeof_DirEntry then Inr (d, s) else Inl OutOfBounds)"

definition dir_offsets :: "ptr \<Rightarrow> itree \<Rightarrow> nat list" where
  "dir_offsets ip s = map ((*) sizeof_DirEntry) [0 ..< (unat (num_bytes (entry s ip)) + (sizeof_DirEntry - 1)) div sizeof_DirEntry]"

fun lookup_loop :: "ptr \<Rightarrow> u8 list \<Rightarrow> nat list \<Rightarrow> u8 list \<Rightarrow> itree \<Rightarrow> ((u64 \<times> u64 option) \<times> itree) res" where
  "lookup_loop ip name [] d s = Inr ((0, None), s)"
| "lookup_loop ip name (offset # os) d s =
     bindE (read_dentry ip offset d s) (\<lambda>(d, s).
     if dentry_no d \<noteq> 0 \<and> strncmp (cstr name) (dentry_name d) FILE_NAME_MAX_LENGTH = 0
     then Inr ((ucast (dentry_no d), Some (of_nat (offset div sizeof_DirEntry))), s)
     else lookup_loop ip name os d s)"

definition inode_lookup :: "ptr \<Rightarrow> u8 list \<Rightarrow> itree \<Rightarrow> ((u64 \<times> u64 option) \<times> itree) res" where
  "inode_lookup ip name s =
     bindE (assertE (e_type (entry s ip) = INODE_DIRECTORY) ''entry->type == INODE_DIRECTORY'') (\<lambda>_.
     lookup_loop ip name (dir_offsets ip s) [] s)"

text \<open>The search for a free entry; when there is none it ends behind the last offset.\<close>

fun free_dentry :: "ptr \<Rightarrow> nat list \<Rightarrow> nat \<Rightarrow> u8 list \<Rightarrow> itree \<Rightarrow> ((nat \<times> u8 list) \<times> itree) res" where
  "free_dentry ip [] past d s = Inr ((past, d), s)"
| "free_dentry ip (offset # os) past d s =
     bindE (read_dentry ip offset d s) (\<lambda>(d, s).
     if dentry_no d = 0 then Inr ((offset, d), s)
     else free_dentry ip os (offset + sizeof_DirEntry) d s)"

definition make_dentry :: "u64 \<Rightarrow> u8 list \<Rightarrow> u8 list \<Rightarrow> u8 list" where
  "make_dentry inode_no name d =
     le_bytes 2 (ucast inode_no :: u16)
       @ map (strncpy (dentry_name d) (cstr name) FILE_NAME_MAX_LENGTH) [0 ..< FILE_NAME_MAX_LENGTH]"

definition inode_insert :: "ptr \<Rightarrow> u8 list \<Rightarrow> u64 \<Rightarrow> itree \<Rightarrow> (u64 \<times> itree) res" where
  "inode_insert ip name inode_no s =
     bindE (assertE (e_type (entry s ip) = INODE_DIRECTORY) ''entry->type == INODE_DIRECTORY'') (\<lambda>_.
     bindE (free_dentry ip (dir_offsets ip s) 0 [] s) (\<lambda>((offset, d), s).
     bindE (inode_write ip (make_dentry inode_no name d) (of_nat offset) s) (\<lambda>(_, s).
     Inr (of_nat (offset div sizeof_DirEntry), s))))"

definition inode_remove :: "ptr \<Rightarrow> u64 \<Rightarrow> itree \<Rightarrow> itree res" where
  "inode_remove ip index s =
     bindE (assertE (e_type (entry s ip) = INODE_DIRECTORY) ''entry->type == INODE_DIRECTORY'') (\<lambda>_.
     let offset = index * of_nat sizeof_DirEntry
     in if offset \<ge> ucast (num_bytes (entry s ip)) then Inr s
        else bindE (inode_write ip (replicate sizeof_DirEntry 0) offset s) (\<lambda>(_, s). Inr s))"

section \<open>Paths\<close>

text \<open>The characters of a path before its terminator; 47 is the slash and 46 the dot.\<close>

definition skipelem :: "u8 list \<Rightarrow> (u8 list \<times> u8 list) option" where
  "skipelem path =
     (let path = dropWhile ((=) 47) path
      in if path = [] then None
         else let elem = takeWhile ((\<noteq>) 47) path; path = dropWhile ((\<noteq>) 47) path
              in Some (take FILE_NAME_MAX_LENGTH elem, dropWhile ((=) 47) path))"

lemma skipelem_shorter: "skipelem path = Some (name, rest) \<Longrightarrow> length rest < length path"
proof -
  assume *: "skipelem path = Some (name, rest)"
  let ?p = "dropWhile ((=) 47) path"
  obtain c p where p: "?p = c # p" using * by (cases ?p) (auto simp: skipelem_def)
  then have "c \<noteq> 47" using hd_dropWhile [of "(=) 47" path] by auto
  then have "rest = dropWhile ((=) 47) (dropWhile ((\<noteq>) 47) p)" using * p by (simp add: skipelem_def)
  then have "length rest \<le> length p" by (metis length_dropWhile_le le_trans)
  moreover have "length ?p \<le> length path" by (rule length_dropWhile_le)
  ultimately show ?thesis by (simp add: p)
qed

definition tree_begin_op :: "itree \<Rightarrow> itree res" where
  "tree_begin_op s = bindE (cache_begin_op (snd (it_txn s))) (\<lambda>(x, c). Inr (s\<lparr>it_txn := (Some x, c)\<rparr>))"

definition tree_end_op :: "itree \<Rightarrow> itree res" where
  "tree_end_op s =
     (case fst (it_txn s) of
        None \<Rightarrow> Inl NullDeref
      | Some x \<Rightarrow> bindE (cache_end_op x (snd (it_txn s))) (\<lambda>c. Inr (s\<lparr>it_txn := (Some x, c)\<rparr>)))"

definition put_in_op :: "ptr \<Rightarrow> itree \<Rightarrow> itree res" where
  "put_in_op ip s = bindE (tree_begin_op s) (\<lambda>s. bindE (inode_put ip s) tree_end_op)"

text \<open>The loop of \<^verbatim>\<open>namex\<close> from the inode \<open>ip\<close> on; the result is the inode, or null, and the last name.\<close>

function namex_loop :: "bool \<Rightarrow> u8 list \<Rightarrow> u8 list \<Rightarrow> ptr \<Rightarrow> itree \<Rightarrow> ((ptr \<times> u8 list) \<times> itree) res" where
  "namex_loop nameiparent path name ip s =
     (case skipelem path of
        None \<Rightarrow> if nameiparent then bindE (put_in_op ip s) (\<lambda>s. Inr ((NULL, name), s)) else Inr ((ip, name), s)
      | Some (name, path) \<Rightarrow>
          bindE (inode_lock ip s) (\<lambda>s.
          if e_type (entry s ip) \<noteq> INODE_DIRECTORY
          then bindE (inode_unlock ip s) (\<lambda>s. bindE (put_in_op ip s) (\<lambda>s. Inr ((NULL, name), s)))
          else if nameiparent \<and> path = [] \<or> path = [46]
          then bindE (inode_unlock ip s) (\<lambda>s. Inr ((ip, name), s))
          else bindE (inode_lookup ip name s) (\<lambda>((no, _), s).
               if no = 0
               then bindE (inode_unlock ip s) (\<lambda>s. bindE (inode_put ip s) (\<lambda>s. Inr ((NULL, name), s)))
               else bindE (inode_lookup ip name s) (\<lambda>((no, _), s).
                    bindE (inode_get no s) (\<lambda>(next, s).
                    bindE (inode_unlock ip s) (\<lambda>s.
                    bindE (inode_put ip s) (\<lambda>s.
                    namex_loop nameiparent path name next s)))))))"
  by pat_completeness auto
termination
  by (relation "measure (\<lambda>(b, path, name, ip, s). length path)") (auto dest: skipelem_shorter)

declare namex_loop.simps [simp del]

definition namex :: "u8 list \<Rightarrow> bool \<Rightarrow> itree \<Rightarrow> ((ptr \<times> u8 list) \<times> itree) res" where
  "namex path nameiparent s =
     bindE (if path \<noteq> [] \<and> hd path = 47 then inode_get 1 s else Inr (it_cwd s, inode_share (it_cwd s) s)) (\<lambda>(ip, s).
     namex_loop nameiparent path [] ip s)"

definition namei :: "u8 list \<Rightarrow> itree \<Rightarrow> (ptr \<times> itree) res" where
  "namei path s = bindE (namex path False s) (\<lambda>((ip, _), s). Inr (ip, s))"

definition nameiparent :: "u8 list \<Rightarrow> itree \<Rightarrow> ((ptr \<times> u8 list) \<times> itree) res" where
  "nameiparent path s = namex path True s"

text \<open>
  The members of \<^verbatim>\<open>struct stat\<close> that are set; the mode constants come from the C library and are
  arguments.
\<close>

record stat =
  st_dev :: u64
  st_ino :: u64
  st_nlink :: u32
  st_size :: u64
  st_mode :: u32

definition stati :: "u32 \<Rightarrow> u32 \<Rightarrow> Inode \<Rightarrow> stat res" where
  "stati S_IFREG S_IFDIR i =
     (let e = i_entry i;
          st = (\<lambda>mode. \<lparr>st_dev = 1, st_ino = i_no i, st_nlink = ucast (num_links e), st_size = ucast (num_bytes e), st_mode = mode\<rparr>)
      in if e_type e = INODE_REGULAR then Inr (st S_IFREG)
         else if e_type e = INODE_DIRECTORY then Inr (st S_IFDIR)
         else if e_type e = INODE_DEVICE then Inr (st 0)
         else Inl (Panic ''unexpected stat type''))"

section \<open>Codec lemmas\<close>

lemma length_concat_const: "(\<And>x. x \<in> set xs \<Longrightarrow> length (f x) = k) \<Longrightarrow> length (concat (map f xs)) = k * length xs"
  by (induction xs) auto

lemma length_put_addrs [simp]: "length (put_addrs as) = 4 * length as"
  by (simp add: put_addrs_def length_concat_const)

lemma length_get_addrs [simp]: "length (get_addrs d) = length d div 4"
  by (simp add: get_addrs_def length_chunks)

lemma get_put_addrs [simp]: "get_addrs (put_addrs as) = as"
proof -
  have "chunks 4 (put_addrs as) = map (le_bytes 4) as"
    unfolding put_addrs_def by (rule chunks_concat) auto
  moreover have "le_word (le_bytes 4 w) = w" for w :: u32 by (rule le_word_le_bytes) simp
  ultimately show ?thesis by (simp add: get_addrs_def comp_def)
qed

lemma length_entry_bytes [simp]: "length (addrs e) = 12 \<Longrightarrow> length (entry_bytes e) = 64"
  by (simp add: entry_bytes_def length_concat_const)

lemma entry_of_entry_bytes [simp]:
  assumes "length (addrs e) = 12"
  shows "entry_of_bytes (entry_bytes e) = e"
proof -
  let ?a = "concat (map (le_bytes 4) (addrs e))"
  have len: "length ?a = 48" using assms by (simp add: length_concat_const)
  have ch: "chunks 4 ?a = map (le_bytes 4) (addrs e)" by (rule chunks_concat) auto
  have w2: "le_word (le_bytes 2 w) = w" for w :: u16 by (rule le_word_le_bytes) simp
  have w4: "le_word (le_bytes 4 w) = w" for w :: u32 by (rule le_word_le_bytes) simp
  show ?thesis
    by (simp add: entry_of_bytes_def entry_bytes_def w2 w4 len ch comp_def INODE_NUM_DIRECT_def)
qed

lemma length_entry_addrs: "length d = 64 \<Longrightarrow> length (addrs (entry_of_bytes d)) = 12"
  by (simp add: entry_of_bytes_def length_chunks INODE_NUM_DIRECT_def)

lemma length_splice [simp]: "i + length xs \<le> length ys \<Longrightarrow> length (splice i xs ys) = length ys"
  by (simp add: splice_def)

lemma nth_splice:
  "i + length xs \<le> length ys \<Longrightarrow> j < length ys \<Longrightarrow>
     splice i xs ys ! j = (if i \<le> j \<and> j < i + length xs then xs ! (j - i) else ys ! j)"
  by (auto simp: splice_def nth_append)

lemma take_drop_splice: "i + length xs \<le> length ys \<Longrightarrow> take (length xs) (drop i (splice i xs ys)) = xs"
  by (simp add: splice_def)

lemma get_put_entry:
  assumes "length d = BLOCK_SIZE" and "length (addrs e) = 12"
  shows "length (put_entry d ino e) = BLOCK_SIZE" "get_entry (put_entry d ino e) ino = e"
    "unat ino' mod 8 \<noteq> unat ino mod 8 \<Longrightarrow> get_entry (put_entry d ino e) ino' = get_entry d ino'"
proof -
  let ?i = "64 * (unat ino mod 8)"
  have room: "?i + length (entry_bytes e) \<le> length d" using assms by (simp add: BLOCK_SIZE_def)
  show "length (put_entry d ino e) = BLOCK_SIZE"
    using room assms by (simp add: put_entry_def INODE_PER_BLOCK_def BLOCK_SIZE_def)
  show "get_entry (put_entry d ino e) ino = e"
    using take_drop_splice [OF room] assms by (simp add: put_entry_def get_entry_def INODE_PER_BLOCK_def BLOCK_SIZE_def)
  assume ne: "unat ino' mod 8 \<noteq> unat ino mod 8"
  have "take 64 (drop (64 * (unat ino' mod 8)) (splice ?i (entry_bytes e) d)) = take 64 (drop (64 * (unat ino' mod 8)) d)"
  proof (rule nth_equalityI)
    show "length (take 64 (drop (64 * (unat ino' mod 8)) (splice ?i (entry_bytes e) d)))
        = length (take 64 (drop (64 * (unat ino' mod 8)) d))" using room by simp
    fix j assume "j < length (take 64 (drop (64 * (unat ino' mod 8)) (splice ?i (entry_bytes e) d)))"
    then have j: "j < 64" "64 * (unat ino' mod 8) + j < length d" using room assms by auto
    have "\<not> (?i \<le> 64 * (unat ino' mod 8) + j \<and> 64 * (unat ino' mod 8) + j < ?i + 64)"
      using ne j(1) by linarith
    then show "take 64 (drop (64 * (unat ino' mod 8)) (splice ?i (entry_bytes e) d)) ! j = take 64 (drop (64 * (unat ino' mod 8)) d) ! j"
      using nth_splice [OF room j(2)] j assms room by auto
  qed
  then show "get_entry (put_entry d ino e) ino' = get_entry d ino'"
    by (simp add: put_entry_def get_entry_def INODE_PER_BLOCK_def BLOCK_SIZE_def)
qed

section \<open>Reading\<close>

text \<open>
  The block behind a block of a file, and its bytes, in a given content of the disk blocks.  Index 140,
  one more than a file can have, stands for the indirect block.
\<close>

definition file_block :: "(u64 \<Rightarrow> sector) \<Rightarrow> InodeEntry \<Rightarrow> nat \<Rightarrow> u64" where
  "file_block v e i =
     (if i < 12 then ucast (addrs e ! i)
      else if i = 140 \<or> indirect e = 0 then ucast (indirect e)
      else ucast (get_addrs (v (ucast (indirect e))) ! (i - 12)))"

definition file_byte :: "(u64 \<Rightarrow> sector) \<Rightarrow> InodeEntry \<Rightarrow> nat \<Rightarrow> u8" where
  "file_byte v e k = v (file_block v e (k div 512)) ! (k mod 512)"

definition content :: "(u64 \<Rightarrow> sector) \<Rightarrow> InodeEntry \<Rightarrow> u8 list" where
  "content v e = map (file_byte v e) [0 ..< unat (num_bytes e)]"

text \<open>The first \<open>n\<close> bytes are backed by blocks that are not in \<open>H\<close>.\<close>

definition backed :: "(u64 \<Rightarrow> sector) \<Rightarrow> u64 set \<Rightarrow> InodeEntry \<Rightarrow> nat \<Rightarrow> bool" where
  "backed v H e n \<longleftrightarrow> length (addrs e) = 12 \<and> n \<le> INODE_MAX_BYTES
     \<and> (\<forall>i. 512 * i < n \<longrightarrow> file_block v e i \<noteq> 0 \<and> file_block v e i \<notin> H)
     \<and> (12 * 512 < n \<longrightarrow> indirect e \<noteq> 0 \<and> ucast (indirect e) \<notin> H)"

definition io_rounds :: "nat \<Rightarrow> nat \<Rightarrow> nat" where
  "io_rounds b n = (if b < n then (n + 511) div 512 - b div 512 else 0)"

lemma INODE_MAX_BYTES_eq: "INODE_MAX_BYTES = 71680"
  by (simp add: inode_consts)

lemma inode_map_mapped:
  assumes ok: "txn_ok b (Suc k) t" and i: "off div 512 < 140" and fb: "file_block (t_view t) e (off div 512) \<noteq> 0"
    and ind: "12 \<le> off div 512 \<Longrightarrow> ucast (indirect e) \<notin> t_held t"
  obtains t' where "inode_map e off t = Inr ((file_block (t_view t) e (off div 512), False, e), t')"
    "txn_step b k t t'" "t_view t' = t_view t" "t_recs t' = t_recs t"
proof (cases "off div 512 < 12")
  case True
  have "txn_step b k t t" using bs.ok_mono [OF ok, of k] by (simp add: txn_step_refl)
  then show thesis
    using True fb by (intro that [of t]) (auto simp: inode_map_def inode_consts file_block_def Let_def)
next
  case False
  let ?i = "off div 512" and ?d = "t_view t (ucast (indirect e))"
  have nz: "get_addrs ?d ! (?i - 12) \<noteq> 0" "indirect e \<noteq> 0" using fb False i by (auto simp: file_block_def split: if_splits)
  have "ucast (indirect e) \<notin> t_held t" using ind False by simp
  with ok obtain p s' where s': "t_acquire (ucast (indirect e)) t = Inr (p, s')" "t_data s' p = ?d" "txn_step b k t (t_release p s')"
    "t_view (t_release p s') = t_view t" "t_recs (t_release p s') = t_recs t"
    by (rule txn_read)
  have "?i - 12 < 128" using i by linarith
  then show thesis
    using s' nz False i
    by (intro that [of "t_release p s'"]) (simp_all add: inode_map_def map_indirect_def inode_consts file_block_def Let_def)
qed

lemma inode_map_backed:
  assumes ok: "txn_ok b (Suc k) t" and B: "backed (t_view t) (t_held t) e n" and off: "off < n"
  obtains t' where "inode_map e off t = Inr ((file_block (t_view t) e (off div 512), False, e), t')"
    "txn_step b k t t'" "t_view t' = t_view t" "t_recs t' = t_recs t"
proof -
  have fb: "file_block (t_view t) e (off div 512) \<noteq> 0" and n: "n \<le> 71680" using B off by (simp_all add: backed_def INODE_MAX_BYTES_eq)
  have ind: "ucast (indirect e) \<notin> t_held t" if "12 \<le> off div 512"
    using B off that by (auto simp: backed_def)
  have "off div 512 < 140" using n off by (simp add: div_less_iff_less_mult)
  from ok this fb ind show thesis by (rule inode_map_mapped) (use that in auto)
qed

lemma block_offset:
  "b mod 512 + j < 512 \<Longrightarrow> (b + j) div 512 = b div 512" "b mod 512 + j < 512 \<Longrightarrow> (b + j) mod 512 = b mod 512 + j" for b j :: nat
  by (simp_all add: div_add1_eq [of b j] mod_add_eq [of b 512 j, symmetric])

lemma file_bytes_step:
  assumes "b < n" and "\<And>m. length (v m) = BLOCK_SIZE"
  shows "map (file_byte v e) [b ..< b + io_step b n] = take (io_step b n) (drop (b mod 512) (v (file_block v e (b div 512))))"
proof (rule nth_equalityI)
  show "length (map (file_byte v e) [b ..< b + io_step b n])
      = length (take (io_step b n) (drop (b mod 512) (v (file_block v e (b div 512)))))"
    using assms by (simp add: io_step_def BLOCK_SIZE_def)
  fix j assume "j < length (map (file_byte v e) [b ..< b + io_step b n])"
  then have j: "j < io_step b n" "b mod 512 + j < 512" by (auto simp: io_step_def BLOCK_SIZE_def)
  show "map (file_byte v e) [b ..< b + io_step b n] ! j
      = take (io_step b n) (drop (b mod 512) (v (file_block v e (b div 512)))) ! j"
    using j block_offset [OF j(2)] assms(2) by (simp add: file_byte_def BLOCK_SIZE_def)
qed

lemma io_rounds_step:
  assumes "b < n"
  shows "io_rounds b n = Suc (io_rounds (b + io_step b n) n)"
proof -
  define q r where "q = b div 512" and "r = b mod 512"
  have b: "b = 512 * q + r" "r < 512" by (simp_all add: q_def r_def)
  show ?thesis
  proof (cases "n \<le> 512 * q + 512")
    case True
    then have "(n + 511) div 512 = Suc q" using assms b
      by (intro div_nat_eqI) auto
    moreover have "io_step b n = n - b" using True b by (simp add: io_step_def BLOCK_SIZE_def)
    ultimately show ?thesis using assms by (simp add: io_rounds_def q_def)
  next
    case False
    then have "b + io_step b n = 512 * Suc q" using b by (simp add: io_step_def BLOCK_SIZE_def)
    moreover have "Suc q < (n + 511) div 512" using False by simp
    ultimately show ?thesis using False assms by (simp add: io_rounds_def q_def Suc_diff_Suc)
  qed
qed

lemma upt_step: "b < n \<Longrightarrow> [b ..< n] = [b ..< b + io_step b n] @ [b + io_step b n ..< n]"
  using io_step_progress [of b n] by (metis le_add1 upt_add_eq_append le_iff_add)

lemma file_read_loop_ok:
  assumes "txn_ok b (2 * io_rounds o1 n + k) t" and "backed (t_view t) (t_held t) e n"
  shows "\<exists>t'. file_read_loop e o1 n t = Inr (map (file_byte (t_view t) e) [o1 ..< n], t')
    \<and> txn_step b k t t' \<and> t_view t' = t_view t \<and> t_recs t' = t_recs t"
  using assms
proof (induction "io_rounds o1 n" arbitrary: o1 t)
  case 0
  then have "\<not> o1 < n" using io_rounds_step [of o1 n] by auto
  then show ?case using 0 by (auto simp: file_read_loop.simps [of e o1] io_rounds_def txn_step_refl)
next
  case (Suc r)
  let ?v = "t_view t" and ?o = "o1 + io_step o1 n" and ?m = "file_block (t_view t) e (o1 div 512)"
  have lt: "o1 < n" using Suc.hyps(2) by (auto simp: io_rounds_def split: if_splits)
  have r: "r = io_rounds ?o n" using Suc.hyps(2) io_rounds_step [OF lt] by simp
  have "txn_ok b (Suc (Suc (2 * r + k))) t" using Suc.prems(1) Suc.hyps(2) by (metis add_Suc mult_2 add_Suc_right)
  from this Suc.prems(2) lt obtain t1 where t1: "inode_map e o1 t = Inr ((?m, False, e), t1)"
    "txn_step b (Suc (2 * r + k)) t t1" "t_view t1 = ?v" "t_recs t1 = t_recs t"
    by (rule inode_map_backed)
  have ok1: "txn_ok b (Suc (2 * r + k)) t1" and H1: "t_held t1 = t_held t" using t1(2) by (simp_all add: txn_step_def)
  have "512 * (o1 div 512) < n" using lt by (simp add: le_less_trans [OF times_div_less_eq_dividend])
  then have "?m \<notin> t_held t1" using Suc.prems(2) H1 by (simp add: backed_def)
  with ok1 obtain p s' where s': "t_acquire ?m t1 = Inr (p, s')" "t_data s' p = t_view t1 ?m"
    "txn_step b (2 * r + k) t1 (t_release p s')" "t_view (t_release p s') = t_view t1" "t_recs (t_release p s') = t_recs t1"
    by (rule txn_read)
  let ?t2 = "t_release p s'"
  have st: "txn_step b (2 * r + k) t ?t2" using t1(2) s'(3) by (rule txn_step_trans)
  have "txn_ok b (2 * io_rounds ?o n + k) ?t2" "backed (t_view ?t2) (t_held ?t2) e n"
    using st Suc.prems(2) s'(4) t1(3) r by (simp_all add: txn_step_def)
  from Suc.hyps(1) [OF r this] obtain t' where t': "file_read_loop e ?o n ?t2 = Inr (map (file_byte ?v e) [?o ..< n], t')"
    "txn_step b k ?t2 t'" "t_view t' = ?v" "t_recs t' = t_recs t"
    using s'(4,5) t1(3,4) by auto
  have len: "\<And>m. length (?v m) = BLOCK_SIZE" using Suc.prems(1) by (rule txn_view_length)
  have "file_read_loop e o1 n t = Inr (map (file_byte ?v e) [o1 ..< n], t')"
    using lt t1(1) s'(1,2) t'(1) t1(3) file_bytes_step [OF lt len] upt_step [OF lt]
    by (simp add: file_read_loop.simps [of e o1] Let_def BLOCK_SIZE_def)
  moreover have "txn_step b k t t'" using st t'(2) by (rule txn_step_trans)
  ultimately show ?case using t'(3,4) by blast
qed

text \<open>A call that passes no operation can run in the middle of one.\<close>

lemma txn_ok_no_ctx: "txn_ok b k t \<Longrightarrow> txn_ok (snd t) k (None, snd t)"
  by (simp add: txn_ok_def same_log_refl)

lemma txn_step_no_ctx:
  assumes "txn_ok b k t" and "txn_step (snd t) j (None, snd t) t'"
  shows "txn_step b j t (fst t, snd t')"
proof -
  have t': "fst t' = None" "txn_ok (snd t) j t'" using assms(2) by (simp_all add: txn_step_def)
  then have "same_log b (snd t')" using assms(1) same_log_trans [of b "snd t" "snd t'"] by (simp add: txn_ok_def)
  then have "txn_ok b j (fst t, snd t')" using assms(1) t' by (simp add: txn_ok_def)
  moreover have "t_dirty (fst t, snd t') = t_dirty t'" "t_dirty (None, snd t) = t_dirty t" by (simp_all add: t_dirty_def)
  ultimately show ?thesis using assms(2) by (simp add: txn_step_def)
qed

lemma no_ctx_ok:
  assumes ok: "txn_ok b k t" and f: "f (None, snd t) = Inr (a, t')" "txn_step (snd t) j (None, snd t) t'"
  shows "no_ctx f t = Inr (a, (fst t, snd t'))" "txn_step b j t (fst t, snd t')" "t_recs (fst t, snd t') = t_recs t"
  using txn_step_no_ctx [OF ok f(2)] f(1) by (simp_all add: no_ctx_def t_recs_def)

lemma length_content [simp]: "length (content v e) = unat (num_bytes e)"
  by (simp add: content_def)

lemma content_slice:
  "n \<le> unat (num_bytes e) \<Longrightarrow> map (file_byte v e) [o1 ..< n] = take (n - o1) (drop o1 (content v e))"
  by (cases "o1 \<le> n") (simp_all add: content_def drop_map take_map take_upt)

lemma unat_ucast_u32: "unat (ucast (w :: u32) :: u64) = unat w"
proof -
  have "unat w < 2 ^ 64" using unsigned_less [of w] by (rule less_le_trans) simp
  then show ?thesis by (simp add: unsigned_ucast_eq take_bit_nat_eq_self)
qed

lemma inode_read_effect:
  assumes ty: "e_type (entry s ip) \<noteq> INODE_DEVICE" and off: "unat off \<le> unat (num_bytes (entry s ip))"
    and wrap: "unat off + unat cnt < 2 ^ 64"
    and n: "n = min (unat cnt) (unat (num_bytes (entry s ip)) - unat off)"
    and ok: "txn_ok b (2 * io_rounds (unat off) (unat off + n) + k) (it_txn s)"
    and B: "backed (t_view (it_txn s)) (t_held (it_txn s)) (entry s ip) (unat (num_bytes (entry s ip)))"
  obtains t' where "inode_read ip off cnt s
      = Inr ((of_nat n, take n (drop (unat off) (content (t_view (it_txn s)) (entry s ip)))), s\<lparr>it_txn := t'\<rparr>)"
    "txn_step b k (it_txn s) t'" "t_view t' = t_view (it_txn s)" "t_recs t' = t_recs (it_txn s)"
proof -
  let ?e = "entry s ip" and ?t = "it_txn s"
  let ?size = "ucast (num_bytes ?e) :: u64"
  define c where "c = (if cnt + off > ?size then ?size - off else cnt)"
  have size: "unat ?size = unat (num_bytes ?e)" by (rule unat_ucast_u32)
  have le: "off \<le> ?size" using off size by (simp add: word_le_nat_alt)
  have "unat (cnt + off) = unat cnt + unat off" using wrap by (subst unat_plus_ptr) auto
  then have c: "unat c = n" "c = of_nat n"
    using n size le by (auto simp: c_def word_less_nat_alt unat_sub word_le_nat_alt min_def)
  have fin: "unat (off + c) = unat off + n" using c n wrap by (subst unat_plus_ptr) auto
  have small: "unat off + n \<le> unat (num_bytes ?e)" using n off by simp
  then have B': "backed (t_view ?t) (t_held ?t) ?e (unat off + n)" using B by (auto simp: backed_def)
  have "txn_ok (snd ?t) (2 * io_rounds (unat off) (unat off + n) + k) (None, snd ?t)" using ok by (rule txn_ok_no_ctx)
  from file_read_loop_ok [OF this, of ?e] B' obtain t' where
    t': "file_read_loop ?e (unat off) (unat off + n) (None, snd ?t) = Inr (map (file_byte (t_view ?t) ?e) [unat off ..< unat off + n], t')"
      "txn_step (snd ?t) k (None, snd ?t) t'" "t_view t' = t_view ?t"
    by auto
  note r = no_ctx_ok [where f = "file_read_loop ?e (unat off) (unat off + n)", OF ok t'(1,2)]
  have "inode_read ip off cnt s = Inr ((of_nat n, map (file_byte (t_view ?t) ?e) [unat off ..< unat off + n]), s\<lparr>it_txn := (fst ?t, snd t')\<rparr>)"
    using ty le fin small size r(1) c
    by (simp add: inode_read_def Let_def c_def [symmetric] on_txn_def word_le_nat_alt)
  then show thesis
    using r(2,3) t'(3) content_slice [OF small] by (intro that [of "(fst ?t, snd t')"]) simp_all
qed

end
