(* ===== verification/File_Content.thy ===== *)
theory File_Content
  imports Inode
begin

text \<open>
  The content of files as a function of the disk blocks: reading returns it, writing splices into it,
  allocates what is missing and touches no other file.
\<close>

section \<open>Well-formed files\<close>

text \<open>
  The blocks of a file are allocated, outside the bitmap, not held, and pairwise different.
\<close>

definition file_blocks :: "(u64 \<Rightarrow> sector) \<Rightarrow> InodeEntry \<Rightarrow> u64 set" where
  "file_blocks v e = {file_block v e i | i. i \<le> 140 \<and> file_block v e i \<noteq> 0}"

definition wf_file :: "bcache \<Rightarrow> txn \<Rightarrow> InodeEntry \<Rightarrow> bool" where
  "wf_file b t e \<longleftrightarrow> length (addrs e) = 12
     \<and> file_blocks (t_view t) e \<subseteq> allocated (sblock b) (t_view t) - bitmap_blocks (sblock b) - t_held t
     \<and> (\<forall>i j. i \<le> 140 \<and> j \<le> 140 \<and> file_block (t_view t) e i \<noteq> 0
          \<and> file_block (t_view t) e i = file_block (t_view t) e j \<longrightarrow> i = j)"

definition free_blocks :: "bcache \<Rightarrow> txn \<Rightarrow> u64 set" where
  "free_blocks b t = {of_nat n | n. n < fs_blocks b} - allocated (sblock b) (t_view t)"

definition same_head :: "InodeEntry \<Rightarrow> InodeEntry \<Rightarrow> bool" where
  "same_head e e' \<longleftrightarrow> e_type e' = e_type e \<and> major e' = major e \<and> minor e' = minor e \<and> num_links e' = num_links e
     \<and> num_bytes e' = num_bytes e"

text \<open>
  What a change of the file \<open>e\<close> into \<open>e'\<close> leaves alone: every block mapped before stays where it is,
  new blocks were free, and allocated blocks that do not belong to the file keep their content.
\<close>

definition file_step :: "bcache \<Rightarrow> InodeEntry \<Rightarrow> txn \<Rightarrow> InodeEntry \<Rightarrow> txn \<Rightarrow> bool" where
  "file_step b e t e' t' \<longleftrightarrow> same_head e e'
     \<and> (\<forall>i \<le> 140. file_block (t_view t) e i \<noteq> 0 \<longrightarrow> file_block (t_view t') e' i = file_block (t_view t) e i)
     \<and> file_blocks (t_view t') e' \<inter> allocated (sblock b) (t_view t) \<subseteq> file_blocks (t_view t) e
     \<and> allocated (sblock b) (t_view t) \<subseteq> allocated (sblock b) (t_view t')
     \<and> (\<forall>n \<in> allocated (sblock b) (t_view t) - bitmap_blocks (sblock b) - file_blocks (t_view t) e. t_view t' n = t_view t n)"

lemma file_step_refl: "file_step b e t e t"
  by (auto simp: file_step_def same_head_def)

lemma file_step_trans:
  assumes 1: "file_step b e t e' t'" and 2: "file_step b e' t' e'' t''"
  shows "file_step b e t e'' t''"
proof -
  let ?A = "\<lambda>t. allocated (sblock b) (t_view t)" and ?F = "\<lambda>t e. file_blocks (t_view t) e"
  have mono: "?A t \<subseteq> ?A t'" "?A t' \<subseteq> ?A t''" and new: "?F t' e' \<inter> ?A t \<subseteq> ?F t e" "?F t'' e'' \<inter> ?A t' \<subseteq> ?F t' e'"
    using 1 2 by (simp_all add: file_step_def)
  have "\<forall>i \<le> 140. file_block (t_view t) e i \<noteq> 0 \<longrightarrow> file_block (t_view t'') e'' i = file_block (t_view t) e i"
    using 1 2 by (simp add: file_step_def)
  moreover have "t_view t'' n = t_view t n" if "n \<in> ?A t - bitmap_blocks (sblock b) - ?F t e" for n
  proof -
    have "n \<in> ?A t' - bitmap_blocks (sblock b) - ?F t' e'" using that mono new by blast
    then have "t_view t'' n = t_view t' n" using 2 unfolding file_step_def by blast
    moreover have "t_view t' n = t_view t n" using that 1 unfolding file_step_def by blast
    ultimately show ?thesis by simp
  qed
  moreover have "same_head e e''" using 1 2 by (simp add: file_step_def same_head_def)
  moreover have "?F t'' e'' \<inter> ?A t \<subseteq> ?F t e" "?A t \<subseteq> ?A t''" using mono new by blast+
  ultimately show ?thesis unfolding file_step_def by blast
qed

lemma ucast_u32_zero [simp]: "(ucast (w :: u32) :: u64) = 0 \<longleftrightarrow> w = 0"
  using unat_ucast_u32 [of w] by (metis unat_eq_zero unsigned_0)

section \<open>Allocating from inside a file operation\<close>

lemma mem_free_blocks:
  assumes "\<not> bitmap_at (sblock b) (t_view t) n" and "n < fs_blocks b"
  shows "of_nat n \<in> free_blocks b t"
  using assms unat_num_blocks [of "sblock b"] mem_allocated [of n "sblock b" "t_view t"]
  by (auto simp: free_blocks_def fs_blocks_def)

lemma free_blocks_bit: "free_blocks b t \<noteq> {} \<Longrightarrow> \<exists>n < fs_blocks b. \<not> bitmap_at (sblock b) (t_view t) n"
  using unat_num_blocks [of "sblock b"] mem_allocated [of _ "sblock b" "t_view t"]
  by (fastforce simp: free_blocks_def fs_blocks_def)

lemma finite_free_blocks: "finite (free_blocks b t)"
  by (simp add: free_blocks_def)

lemma card_free_blocks: "free_blocks b t' = free_blocks b t - {m} \<Longrightarrow> card (free_blocks b t) \<le> Suc (card (free_blocks b t'))"
  using card_Suc_Diff1 [OF finite_free_blocks, of m b t] by (cases "m \<in> free_blocks b t") auto

text \<open>The conditions under which an operation can allocate: the bitmap is usable and block 0 is taken.\<close>

definition can_alloc :: "bcache \<Rightarrow> txn \<Rightarrow> bool" where
  "can_alloc b t \<longleftrightarrow> bitmap_free_to_use b t \<and> fst t \<noteq> None \<and> 0 \<in> allocated (sblock b) (t_view t)"

lemma ucast_block: "unat (m :: u64) < fs_blocks b \<Longrightarrow> ucast (ucast m :: u32) = m"
proof -
  assume "unat m < fs_blocks b"
  then have "unat m < 2 ^ 32" using unat_num_blocks [of "sblock b"] by (simp add: fs_blocks_def)
  then show ?thesis by (simp add: word_unat_eq_iff unsigned_ucast_eq unsigned_take_bit_eq take_bit_nat_eq_self)
qed

lemma alloc_obtain:
  assumes ok: "txn_ok b (num_bitmaps b + Suc k) t" and can: "can_alloc b t" and free: "free_blocks b t \<noteq> {}"
    and room: "card (t_recs t \<union> bitmap_blocks (sblock b)) < OP_MAX_NUM_BLOCKS"
  obtains m t' where "cache_alloc t = Inr (m, t')" "txn_step b k t t'" "can_alloc b t'" "m \<in> free_blocks b t" "m \<noteq> 0"
    "m \<notin> bitmap_blocks (sblock b)" "ucast (ucast m :: u32) = m" "m \<notin> t_held t"
    "allocated (sblock b) (t_view t') = insert m (allocated (sblock b) (t_view t))" "free_blocks b t' = free_blocks b t - {m}"
    "t_view t' m = replicate BLOCK_SIZE 0"
    "\<And>n. n \<noteq> m \<Longrightarrow> n \<notin> bitmap_blocks (sblock b) \<Longrightarrow> t_view t' n = t_view t n"
    "t_recs t' \<subseteq> insert m (t_recs t \<union> bitmap_blocks (sblock b))"
proof -
  let ?sb = "sblock b"
  have use: "bitmap_free_to_use b t" and log: "fst t \<noteq> None" and zero: "0 \<in> allocated ?sb (t_view t)"
    using can by (simp_all add: can_alloc_def)
  from cache_alloc_effect [OF ok use log alloc_room_union [OF room]] free_blocks_bit [OF free]
  obtain m t' where m: "cache_alloc t = Inr (m, t')" "alloc_result b k t m t'" by auto
  then have r: "txn_step b k t t'" "m \<notin> allocated ?sb (t_view t)" "unat m < fs_blocks b"
    "allocated ?sb (t_view t') = insert m (allocated ?sb (t_view t))" "t_view t' m = replicate BLOCK_SIZE 0"
    "\<forall>n. n \<noteq> m \<and> n \<notin> bitmap_blocks ?sb \<longrightarrow> t_view t' n = t_view t n"
    "\<exists>q < num_bitmaps b. t_recs t' = insert m (insert (bitmap_no ?sb q) (t_recs t))"
    by (simp_all add: alloc_result_def)
  from r(7) obtain q where q: "q < num_bitmaps b" "t_recs t' = insert m (insert (bitmap_no ?sb q) (t_recs t))" by blast
  have "bitmap_no ?sb q \<in> bitmap_blocks ?sb" using q(1) by (auto simp: mem_bitmap_blocks num_bitmaps_def fs_blocks_def)
  then have recs: "t_recs t' \<subseteq> insert m (t_recs t \<union> bitmap_blocks ?sb)" using q(2) by auto
  have held: "t_held t' = t_held t" and log': "fst t' \<noteq> None" using r(1) log by (auto simp: txn_step_def)
  have can': "can_alloc b t'"
    using use zero held log' by (auto simp: can_alloc_def bitmap_free_to_use_def r(4))
  have "m = of_nat (unat m)" by simp
  then have mf: "m \<in> free_blocks b t" using r(2,3) unfolding free_blocks_def by blast
  have nb: "m \<notin> bitmap_blocks ?sb" "m \<noteq> 0" "m \<notin> t_held t" using use zero r(2) by (auto simp: bitmap_free_to_use_def)
  have fr: "free_blocks b t' = free_blocks b t - {m}" by (auto simp: free_blocks_def r(4))
  show thesis
    using m(1) r(1,5,6) can' mf nb fr recs ucast_block [OF r(3)] r(4) by (intro that) simp_all
qed

section \<open>Mapping an offset\<close>

lemma file_blocksI: "i \<le> 140 \<Longrightarrow> file_block v e i \<noteq> 0 \<Longrightarrow> file_block v e i \<in> file_blocks v e"
  by (auto simp: file_blocks_def)

text \<open>Entering one fresh block at an index of a file that was not mapped.\<close>

lemma add_block:
  assumes wf: "wf_file b t e" and i: "i \<le> 140" "file_block (t_view t) e i = 0"
    and m: "m \<noteq> 0" "m \<notin> allocated (sblock b) (t_view t)" "m \<notin> bitmap_blocks (sblock b)" "m \<notin> t_held t"
    and t': "t_held t' = t_held t" "allocated (sblock b) (t_view t') = insert m (allocated (sblock b) (t_view t))"
    and e': "length (addrs e') = 12" "same_head e e'"
    and new: "file_block (t_view t') e' i = m" "\<And>j. j \<le> 140 \<Longrightarrow> j \<noteq> i \<Longrightarrow> file_block (t_view t') e' j = file_block (t_view t) e j"
    and frame: "\<And>n. n \<in> allocated (sblock b) (t_view t) - bitmap_blocks (sblock b) - file_blocks (t_view t) e \<Longrightarrow> t_view t' n = t_view t n"
  shows "wf_file b t' e'" "file_step b e t e' t'"
proof -
  let ?A = "allocated (sblock b) (t_view t)" and ?F = "file_blocks (t_view t) e"
  have sub: "?F \<subseteq> ?A - bitmap_blocks (sblock b) - t_held t" using wf by (simp add: wf_file_def)
  have blocks: "file_blocks (t_view t') e' \<subseteq> insert m ?F"
  proof
    fix n assume "n \<in> file_blocks (t_view t') e'"
    then obtain j where j: "j \<le> 140" "n = file_block (t_view t') e' j" "n \<noteq> 0" by (auto simp: file_blocks_def)
    show "n \<in> insert m ?F"
      using new(1) new(2) [OF j(1)] j file_blocksI [OF j(1), of "t_view t" e] by (cases "j = i") auto
  qed
  have keep: "file_block (t_view t') e' j = file_block (t_view t) e j" if "j \<le> 140" "file_block (t_view t) e j \<noteq> 0" for j
    using new(2) [OF that(1)] i(2) that(2) by (cases "j = i") auto
  have inj: "j = l" if "j \<le> 140" "l \<le> 140" "file_block (t_view t') e' j \<noteq> 0" "file_block (t_view t') e' j = file_block (t_view t') e' l" for j l
  proof -
    have old: "file_block (t_view t) e l \<noteq> m" if "l \<le> 140" for l
      using file_blocksI [OF that, of "t_view t" e] sub m(1,2) by (cases "file_block (t_view t) e l = 0") auto
    show ?thesis
    proof (cases "j = i \<or> l = i")
      case True
      then show ?thesis using that new old by metis
    next
      case False
      then have "file_block (t_view t) e j \<noteq> 0" "file_block (t_view t) e j = file_block (t_view t) e l" using that new(2) by simp_all
      then show ?thesis using wf that(1,2) unfolding wf_file_def by blast
    qed
  qed
  show "wf_file b t' e'"
    using blocks sub m t' e'(1) inj unfolding wf_file_def by blast
  show "file_step b e t e' t'"
    using e'(2) keep blocks m(2) t'(2) frame unfolding file_step_def by blast
qed

lemma file_block_view:
  "(12 \<le> i \<Longrightarrow> i < 140 \<Longrightarrow> indirect e \<noteq> 0 \<Longrightarrow> v' (ucast (indirect e)) = v (ucast (indirect e))) \<Longrightarrow> i \<le> 140 \<Longrightarrow>
     file_block v' e i = file_block v e i"
  by (auto simp: file_block_def)

lemma indirect_block:
  assumes "wf_file b t e" and "indirect e \<noteq> 0"
  shows "ucast (indirect e) \<in> file_blocks (t_view t) e" "(ucast (indirect e) :: u64) \<noteq> 0"
    "ucast (indirect e) \<in> allocated (sblock b) (t_view t)" "ucast (indirect e) \<notin> bitmap_blocks (sblock b)"
    "ucast (indirect e) \<notin> t_held t"
proof -
  have ne: "(ucast (indirect e) :: u64) \<noteq> 0"
    using assms(2) unat_ucast_u32 [of "indirect e"] by (metis unat_eq_zero)
  then show "ucast (indirect e) \<in> file_blocks (t_view t) e" "(ucast (indirect e) :: u64) \<noteq> 0"
    using file_blocksI [of 140 "t_view t" e] by (simp_all add: file_block_def)
  then show "ucast (indirect e) \<in> allocated (sblock b) (t_view t)" "ucast (indirect e) \<notin> bitmap_blocks (sblock b)"
    "ucast (indirect e) \<notin> t_held t"
    using assms(1) by (auto simp: wf_file_def)
qed

text \<open>
  How much of the operation the file takes besides its data blocks: what is recorded, the bitmap, and
  the indirect block, counted once whether it exists or not.
\<close>

definition indirects :: "InodeEntry \<Rightarrow> u64 set" where
  "indirects e = (if indirect e = 0 then {} else {ucast (indirect e)})"

definition log_load :: "bcache \<Rightarrow> txn \<Rightarrow> InodeEntry \<Rightarrow> nat" where
  "log_load b t e = Suc (card (t_recs t \<union> bitmap_blocks (sblock b) - indirects e))"

lemma log_load_indirect:
  "card (t_recs t \<union> bitmap_blocks (sblock b)) \<le> log_load b t e"
  "indirect e \<noteq> 0 \<Longrightarrow> card (insert (ucast (indirect e)) (t_recs t \<union> bitmap_blocks (sblock b))) = log_load b t e"
  "indirect e = 0 \<Longrightarrow> Suc (card (t_recs t \<union> bitmap_blocks (sblock b))) = log_load b t e"
proof -
  let ?R = "t_recs t \<union> bitmap_blocks (sblock b)"
  show "indirect e \<noteq> 0 \<Longrightarrow> card (insert (ucast (indirect e)) ?R) = log_load b t e"
    using card_Suc_Diff1 [of "insert (ucast (indirect e)) ?R" "ucast (indirect e)"] by (simp add: log_load_def indirects_def)
  show "indirect e = 0 \<Longrightarrow> Suc (card ?R) = log_load b t e" by (simp add: log_load_def indirects_def)
  have "card ?R \<le> Suc (card (?R - {x}))" for x using card_Suc_Diff1 [of ?R x] by (cases "x \<in> ?R") auto
  then show "card ?R \<le> log_load b t e" by (simp add: log_load_def indirects_def)
qed

definition map_result :: "bcache \<Rightarrow> nat \<Rightarrow> InodeEntry \<Rightarrow> txn \<Rightarrow> nat \<Rightarrow> u64 \<Rightarrow> InodeEntry \<Rightarrow> txn \<Rightarrow> bool" where
  "map_result b k e t i m e' t' \<longleftrightarrow> txn_step b k t t' \<and> can_alloc b t' \<and> wf_file b t' e' \<and> file_step b e t e' t' \<and> m \<noteq> 0
     \<and> file_block (t_view t') e' i = m \<and> (\<forall>j < 140. j \<noteq> i \<longrightarrow> file_block (t_view t') e' j = file_block (t_view t) e j)
     \<and> (if file_block (t_view t) e i = 0 then t_view t' m = replicate BLOCK_SIZE 0 else t_view t' m = t_view t m)
     \<and> (\<forall>n \<in> file_blocks (t_view t) e. n \<noteq> ucast (indirect e) \<longrightarrow> t_view t' n = t_view t n)
     \<and> t_recs t' \<subseteq> insert m (indirects e' \<union> (t_recs t \<union> bitmap_blocks (sblock b)))
     \<and> card (free_blocks b t) \<le> card (free_blocks b t') + 2"

lemma map_direct_new:
  assumes ok: "txn_ok b (num_bitmaps b + Suc k) t" and can: "can_alloc b t" and free: "free_blocks b t \<noteq> {}"
    and room: "card (t_recs t \<union> bitmap_blocks (sblock b)) < OP_MAX_NUM_BLOCKS" and wf: "wf_file b t e" and i: "off div 512 < 12" "addrs e ! (off div 512) = 0"
  shows "\<exists>m e' t'. inode_map e off t = Inr ((m, True, e'), t') \<and> map_result b k e t (off div 512) m e' t'"
proof -
  let ?sb = "sblock b" and ?i = "off div 512"
  from ok can free room obtain m t' where m: "cache_alloc t = Inr (m, t')" "txn_step b k t t'" "can_alloc b t'" "m \<in> free_blocks b t" "m \<noteq> 0"
    "m \<notin> bitmap_blocks ?sb" "ucast (ucast m :: u32) = m" "m \<notin> t_held t"
    "allocated ?sb (t_view t') = insert m (allocated ?sb (t_view t))" "free_blocks b t' = free_blocks b t - {m}"
    "t_view t' m = replicate BLOCK_SIZE 0" "\<And>n. n \<noteq> m \<Longrightarrow> n \<notin> bitmap_blocks ?sb \<Longrightarrow> t_view t' n = t_view t n"
    "t_recs t' \<subseteq> insert m (t_recs t \<union> bitmap_blocks ?sb)"
    by (rule alloc_obtain) blast
  let ?e = "e\<lparr>addrs := (addrs e)[?i := ucast m]\<rparr>"
  have len: "length (addrs e) = 12" using wf by (simp add: wf_file_def)
  have fresh: "m \<notin> allocated ?sb (t_view t)" using m(4) by (simp add: free_blocks_def)
  have same: "t_view t' n = t_view t n" if "n \<in> allocated ?sb (t_view t)" "n \<notin> bitmap_blocks ?sb" for n
    using that fresh by (intro m(12)) auto
  have ind: "t_view t' (ucast (indirect e)) = t_view t (ucast (indirect e))" if "indirect e \<noteq> 0"
    using indirect_block [OF wf that] same by blast
  have fb: "file_block (t_view t') ?e ?i = m" "file_block (t_view t) e ?i = 0" using i m(7) len by (simp_all add: file_block_def)
  have others: "file_block (t_view t') ?e j = file_block (t_view t) e j" if "j \<le> 140" "j \<noteq> ?i" for j
    using that i ind by (auto simp: file_block_def)
  have "?i \<le> 140" using i by simp
  note ab = add_block [OF wf this fb(2) m(5) fresh m(6,8) _ m(9) _ _ fb(1) others same]
  have st: "wf_file b t' ?e" "file_step b e t ?e t'"
    using ab m(2) len by (auto simp: txn_step_def same_head_def)
  have "file_blocks (t_view t) e \<subseteq> allocated ?sb (t_view t) - bitmap_blocks ?sb" using wf by (auto simp: wf_file_def)
  then have "\<forall>n \<in> file_blocks (t_view t) e. t_view t' n = t_view t n" using same by blast
  moreover have "card (free_blocks b t) \<le> card (free_blocks b t') + 2"
    using card_free_blocks [OF m(10)] by simp
  ultimately have "map_result b k e t ?i m ?e t'"
    using m(2,3,5,11,13) st fb others by (auto simp: map_result_def)
  moreover have "inode_map e off t = Inr ((m, True, ?e), t')"
    using i m(1,7) len by (simp add: inode_map_def inode_consts Let_def)
  ultimately show ?thesis by blast
qed

lemma map_indirect_exec:
  assumes ok: "txn_ok b (Suc (num_bitmaps b + Suc k)) t" and can: "can_alloc b t" and free: "free_blocks b t \<noteq> {}"
    and room: "card (insert (ucast (indirect e)) (t_recs t \<union> bitmap_blocks (sblock b))) < OP_MAX_NUM_BLOCKS" and wf: "wf_file b t e" and ind: "indirect e \<noteq> 0"
    and i: "12 \<le> i" "i < 140" "file_block (t_view t) e i = 0"
  obtains m t' where "map_indirect (i - 12) f e t = Inr ((m, True, e), t')" "txn_step b k t t'" "m \<in> free_blocks b t" "m \<noteq> 0"
    "m \<notin> bitmap_blocks (sblock b)" "m \<notin> t_held t" "ucast (ucast m :: u32) = m"
    "allocated (sblock b) (t_view t') = insert m (allocated (sblock b) (t_view t))" "t_view t' m = replicate BLOCK_SIZE 0"
    "t_view t' (ucast (indirect e)) = put_addrs ((get_addrs (t_view t (ucast (indirect e))))[i - 12 := ucast m])"
    "\<And>n. n \<noteq> m \<Longrightarrow> n \<noteq> ucast (indirect e) \<Longrightarrow> n \<notin> bitmap_blocks (sblock b) \<Longrightarrow> t_view t' n = t_view t n"
    "t_recs t' \<subseteq> insert m (insert (ucast (indirect e)) (t_recs t \<union> bitmap_blocks (sblock b)))"
proof -
  let ?sb = "sblock b" and ?I = "ucast (indirect e) :: u64" and ?d = "t_view t (ucast (indirect e))"
  note I = indirect_block [OF wf ind]
  from ok I(5) obtain p s1 where s1: "t_acquire ?I t = Inr (p, s1)" "txn_ok b (num_bitmaps b + Suc k) s1" "t_view s1 = t_view t"
    "t_held s1 = insert ?I (t_held t)" "fst s1 = fst t" "t_dirty s1 = t_dirty t" "holds (snd s1) p ?I"
    by (rule txn_acquire) auto
  have recs1: "t_recs s1 = t_recs t" by (simp add: t_recs_def s1(5))
  have "can_alloc b s1" using can I(3,4) s1(3-5) by (auto simp: can_alloc_def bitmap_free_to_use_def)
  moreover have fb: "free_blocks b s1 = free_blocks b t" using s1(3) by (simp add: free_blocks_def)
  moreover have "card (t_recs s1 \<union> bitmap_blocks ?sb) < OP_MAX_NUM_BLOCKS"
    unfolding recs1 by (rule le_less_trans [OF card_mono room]) auto
  ultimately obtain m s2 where m: "cache_alloc s1 = Inr (m, s2)" "txn_step b k s1 s2" "can_alloc b s2" "m \<in> free_blocks b s1" "m \<noteq> 0"
    "m \<notin> bitmap_blocks ?sb" "ucast (ucast m :: u32) = m" "m \<notin> t_held s1"
    "allocated ?sb (t_view s2) = insert m (allocated ?sb (t_view s1))" "free_blocks b s2 = free_blocks b s1 - {m}"
    "t_view s2 m = replicate BLOCK_SIZE 0" "\<And>n. n \<noteq> m \<Longrightarrow> n \<notin> bitmap_blocks ?sb \<Longrightarrow> t_view s2 n = t_view s1 n"
    "t_recs s2 \<subseteq> insert m (t_recs s1 \<union> bitmap_blocks ?sb)"
    using alloc_obtain [OF s1(2)] free by blast
  have Im: "?I \<noteq> m" using I(3) m(4) by (auto simp: free_blocks_def s1(3))
  define as where "as = (get_addrs ?d)[i - 12 := ucast m]"
  have len: "length (get_addrs ?d) = 128" "length (put_addrs as) = BLOCK_SIZE"
    using txn_view_length [OF ok, of ?I] by (simp_all add: as_def BLOCK_SIZE_def)
  have h: "holds (snd s2) p ?I" "txn_ok b k s2" using m(2) s1(7) by (simp_all add: txn_step_def)
  then have data: "t_data s2 p = ?d" "t_data s1 p = ?d" using bs.data_law s1(2,3,7) m(12) [OF Im I(4)] by auto
  have "card (insert ?I (t_recs s2)) \<le> card (insert m (insert ?I (t_recs t \<union> bitmap_blocks ?sb)))"
    using m(13) recs1 by (intro card_mono) auto
  then have room2: "card (insert ?I (t_recs s2)) \<le> OP_MAX_NUM_BLOCKS"
    using room card_insert_Suc [of m "insert ?I (t_recs t \<union> bitmap_blocks ?sb)"] by linarith
  have log: "fst s2 \<noteq> None" using m(3) by (simp add: can_alloc_def)
  from ok I(5) s1(1) m(2) log room2 len(2) obtain s3 where s3: "t_sync p (t_store p (put_addrs as) s2) = Inr s3" "txn_step b k t (t_release p s3)"
    "t_view (t_release p s3) = (t_view s2)(?I := put_addrs as)" "t_recs (t_release p s3) = insert ?I (t_recs s2)"
    by (rule txn_finish)
  have "map_indirect (i - 12) f e t = Inr ((m, True, e), t_release p s3)"
    using s1(1) data m(1,7) s3(1) i ind len(1) by (simp add: map_indirect_def as_def [symmetric] file_block_def Let_def) (simp add: as_def)
  moreover have "allocated ?sb (t_view (t_release p s3)) = insert m (allocated ?sb (t_view t))"
    unfolding s3(3) allocated_other [OF I(4)] m(9) s1(3) ..
  ultimately show thesis
    using s3(2) m(4-8,11-13) fb s1(3,4) recs1 Im by (intro that [of m "t_release p s3"]) (auto simp: s3(3,4) as_def)
qed

lemma map_indirect_new:
  assumes ok: "txn_ok b (Suc (num_bitmaps b + Suc k)) t" and can: "can_alloc b t" and free: "free_blocks b t \<noteq> {}"
    and room: "card (insert (ucast (indirect e)) (t_recs t \<union> bitmap_blocks (sblock b))) < OP_MAX_NUM_BLOCKS" and wf: "wf_file b t e" and ind: "indirect e \<noteq> 0"
    and i: "12 \<le> i" "i < 140" "file_block (t_view t) e i = 0"
  shows "\<exists>m t'. map_indirect (i - 12) f e t = Inr ((m, True, e), t') \<and> map_result b k e t i m e t'
    \<and> card (free_blocks b t) \<le> Suc (card (free_blocks b t'))"
proof -
  let ?sb = "sblock b" and ?I = "ucast (indirect e) :: u64"
  from assms obtain m t' where m: "map_indirect (i - 12) f e t = Inr ((m, True, e), t')" "txn_step b k t t'" "m \<in> free_blocks b t" "m \<noteq> 0"
    "m \<notin> bitmap_blocks ?sb" "m \<notin> t_held t" "ucast (ucast m :: u32) = m"
    "allocated ?sb (t_view t') = insert m (allocated ?sb (t_view t))" "t_view t' m = replicate BLOCK_SIZE 0"
    "t_view t' ?I = put_addrs ((get_addrs (t_view t ?I))[i - 12 := ucast m])"
    "\<And>n. n \<noteq> m \<Longrightarrow> n \<noteq> ?I \<Longrightarrow> n \<notin> bitmap_blocks ?sb \<Longrightarrow> t_view t' n = t_view t n"
    "t_recs t' \<subseteq> insert m (insert ?I (t_recs t \<union> bitmap_blocks ?sb))"
    by (rule map_indirect_exec [of b k t e i f]) blast
  note I = indirect_block [OF wf ind]
  have fresh: "m \<notin> allocated ?sb (t_view t)" using m(3) by (simp add: free_blocks_def)
  have len: "length (get_addrs (t_view t ?I)) = 128" "length (addrs e) = 12"
    using txn_view_length [OF ok, of ?I] wf by (simp_all add: BLOCK_SIZE_def wf_file_def)
  have fb: "file_block (t_view t') e i = m" using i ind len(1) m(7,10) by (simp add: file_block_def)
  have others: "file_block (t_view t') e j = file_block (t_view t) e j" if "j \<le> 140" "j \<noteq> i" for j
    using that i(1) ind by (auto simp: file_block_def m(10))
  have frame: "t_view t' n = t_view t n" if "n \<in> allocated ?sb (t_view t)" "n \<notin> bitmap_blocks ?sb" "n \<noteq> ?I" for n
    using that fresh by (intro m(11)) auto
  have held: "t_held t' = t_held t" using m(2) by (simp add: txn_step_def)
  have "i \<le> 140" using i by simp
  have fr: "t_view t' n = t_view t n" if "n \<in> allocated ?sb (t_view t) - bitmap_blocks ?sb - file_blocks (t_view t) e" for n
    using that I(1) by (intro frame) auto
  note ab = add_block [OF wf \<open>i \<le> 140\<close> i(3) m(4) fresh m(5,6) held m(8) len(2) _ fb others fr]
  have st: "wf_file b t' e" "file_step b e t e t'" using ab by (simp_all add: same_head_def)
  have can': "can_alloc b t'"
    using can held m(8) m(2) by (auto simp: can_alloc_def bitmap_free_to_use_def txn_step_def)
  have "file_blocks (t_view t) e \<subseteq> allocated ?sb (t_view t) - bitmap_blocks ?sb" using wf by (auto simp: wf_file_def)
  then have keep: "\<forall>n \<in> file_blocks (t_view t) e. n \<noteq> ?I \<longrightarrow> t_view t' n = t_view t n" using frame by blast
  have "free_blocks b t' = free_blocks b t - {m}" by (auto simp: free_blocks_def m(8))
  note cf = card_free_blocks [OF this]
  have "map_result b k e t i m e t'"
    unfolding map_result_def using m(2,4,9,12) can' st fb others keep cf i(3) ind by (auto simp: indirects_def)
  then show ?thesis using cf m(1) by blast
qed

lemma alloc_indirect:
  assumes ok: "txn_ok b (num_bitmaps b + Suc k) t" and can: "can_alloc b t" and free: "free_blocks b t \<noteq> {}"
    and room: "card (t_recs t \<union> bitmap_blocks (sblock b)) < OP_MAX_NUM_BLOCKS" and wf: "wf_file b t e" and ind: "indirect e = 0"
  obtains n t' where "cache_alloc t = Inr (n, t')" "txn_step b k t t'" "can_alloc b t'" "(ucast n :: u32) \<noteq> 0"
    "wf_file b t' (e\<lparr>indirect := ucast n\<rparr>)" "file_step b e t (e\<lparr>indirect := ucast n\<rparr>) t'"
    "\<And>j. j < 140 \<Longrightarrow> file_block (t_view t') (e\<lparr>indirect := ucast n\<rparr>) j = file_block (t_view t) e j"
    "\<And>x. x \<in> file_blocks (t_view t) e \<Longrightarrow> t_view t' x = t_view t x \<and> x \<noteq> n" "ucast (ucast n :: u32) = n"
    "t_recs t' \<subseteq> insert n (t_recs t \<union> bitmap_blocks (sblock b))" "card (free_blocks b t) \<le> Suc (card (free_blocks b t'))"
proof -
  let ?sb = "sblock b"
  from ok can free room obtain n t' where n: "cache_alloc t = Inr (n, t')" "txn_step b k t t'" "can_alloc b t'" "n \<in> free_blocks b t" "n \<noteq> 0"
    "n \<notin> bitmap_blocks ?sb" "ucast (ucast n :: u32) = n" "n \<notin> t_held t"
    "allocated ?sb (t_view t') = insert n (allocated ?sb (t_view t))" "free_blocks b t' = free_blocks b t - {n}"
    "t_view t' n = replicate BLOCK_SIZE 0" "\<And>x. x \<noteq> n \<Longrightarrow> x \<notin> bitmap_blocks ?sb \<Longrightarrow> t_view t' x = t_view t x"
    "t_recs t' \<subseteq> insert n (t_recs t \<union> bitmap_blocks ?sb)"
    by (rule alloc_obtain) blast
  let ?e = "e\<lparr>indirect := ucast n\<rparr>"
  have nz: "(ucast n :: u32) \<noteq> 0" using n(5,7) by auto
  have fresh: "n \<notin> allocated ?sb (t_view t)" using n(4) by (simp add: free_blocks_def)
  have zeros: "get_addrs (t_view t' n) = replicate 128 0"
  proof -
    have "put_addrs (replicate 128 0) = replicate BLOCK_SIZE 0"
      by (simp add: put_addrs_def le_bytes_def BLOCK_SIZE_def map_replicate_const concat_replicate_trivial)
        (simp add: numeral_eq_Suc)
    then show ?thesis using n(11) get_put_addrs [of "replicate 128 0"] by metis
  qed
  have fb: "file_block (t_view t) e 140 = 0" "file_block (t_view t') ?e 140 = n" using ind n(7) by (simp_all add: file_block_def)
  have others: "file_block (t_view t') ?e j = file_block (t_view t) e j" if "j \<le> 140" "j \<noteq> 140" for j
    using that ind nz n(7) zeros by (auto simp: file_block_def)
  have same: "t_view t' x = t_view t x" if "x \<in> allocated ?sb (t_view t)" "x \<notin> bitmap_blocks ?sb" for x
    using that fresh by (intro n(12)) auto
  have len: "length (addrs ?e) = 12" using wf by (simp add: wf_file_def)
  have held: "t_held t' = t_held t" using n(2) by (simp add: txn_step_def)
  note ab = add_block [OF wf order_refl fb(1) n(5) fresh n(6,8) held n(9) len _ fb(2) others same]
  have "wf_file b t' ?e" "file_step b e t ?e t'" using ab by (auto simp: same_head_def)
  moreover have "t_view t' x = t_view t x \<and> x \<noteq> n" if "x \<in> file_blocks (t_view t) e" for x
    using same wf that fresh by (auto simp: wf_file_def)
  ultimately show thesis using n nz others card_free_blocks [OF n(10)] by (intro that) auto
qed

lemma wf_file_cong:
  assumes "wf_file b t e" and "t_view t' = t_view t" and "t_held t' = t_held t"
  shows "wf_file b t' e"
  unfolding wf_file_def assms(2,3) by (rule assms(1) [unfolded wf_file_def])

lemma file_step_blocks:
  assumes "file_step b e t e' t'"
  shows "file_blocks (t_view t) e \<subseteq> file_blocks (t_view t') e'"
proof
  fix x assume "x \<in> file_blocks (t_view t) e"
  then obtain i where i: "i \<le> 140" "x = file_block (t_view t) e i" "x \<noteq> 0" by (auto simp: file_blocks_def)
  then have "file_block (t_view t') e' i = x" using assms by (simp add: file_step_def)
  then show "x \<in> file_blocks (t_view t') e'" using file_blocksI [OF i(1), of "t_view t'" e'] i(3) by simp
qed

lemma can_alloc_cong: "can_alloc b t \<Longrightarrow> t_view t' = t_view t \<Longrightarrow> txn_step b k t t' \<Longrightarrow> can_alloc b t'"
  by (auto simp: can_alloc_def bitmap_free_to_use_def txn_step_def)

lemma map_result_mapped:
  assumes "txn_step b k t t'" and "t_view t' = t_view t" and "t_recs t' = t_recs t" and "can_alloc b t" and "wf_file b t e"
    and "file_block (t_view t) e i \<noteq> 0"
  shows "map_result b k e t i (file_block (t_view t) e i) e t'"
  using assms can_alloc_cong [OF assms(4,2,1)] wf_file_cong [OF assms(5,2)] file_step_refl [of b e t]
  by (auto simp: map_result_def txn_step_def file_step_def free_blocks_def)

lemma map_indirect_both:
  assumes ok: "txn_ok b (num_bitmaps b + Suc (Suc (num_bitmaps b + Suc k))) t" and can: "can_alloc b t"
    and free: "2 \<le> card (free_blocks b t)" and room: "log_load b t e < OP_MAX_NUM_BLOCKS" and wf: "wf_file b t e"
    and ind: "indirect e = 0" and i: "12 \<le> off div 512" "off div 512 < 140"
  shows "\<exists>m e' t'. inode_map e off t = Inr ((m, True, e'), t') \<and> map_result b k e t (off div 512) m e' t'"
proof -
  let ?sb = "sblock b" and ?i = "off div 512"
  have free': "free_blocks b t \<noteq> {}" and room': "card (t_recs t \<union> bitmap_blocks ?sb) < OP_MAX_NUM_BLOCKS"
    using free room log_load_indirect(1) [of t b e] by auto
  from ok can free' room' wf ind obtain n t1 where n: "cache_alloc t = Inr (n, t1)" "txn_step b (Suc (num_bitmaps b + Suc k)) t t1"
    "can_alloc b t1" "(ucast n :: u32) \<noteq> 0" "wf_file b t1 (e\<lparr>indirect := ucast n\<rparr>)" "file_step b e t (e\<lparr>indirect := ucast n\<rparr>) t1"
    "\<And>j. j < 140 \<Longrightarrow> file_block (t_view t1) (e\<lparr>indirect := ucast n\<rparr>) j = file_block (t_view t) e j"
    "\<And>x. x \<in> file_blocks (t_view t) e \<Longrightarrow> t_view t1 x = t_view t x \<and> x \<noteq> n" "ucast (ucast n :: u32) = n"
    "t_recs t1 \<subseteq> insert n (t_recs t \<union> bitmap_blocks ?sb)"
    "card (free_blocks b t) \<le> Suc (card (free_blocks b t1))"
    by (rule alloc_indirect) blast
  define e1 where "e1 = e\<lparr>indirect := ucast n\<rparr>"
  note n' = n(2,5,6,7) [folded e1_def]
  have zero: "file_block (t_view t) e ?i = 0" using ind i by (simp add: file_block_def)
  have "free_blocks b t1 \<noteq> {}" using n(11) free by auto
  moreover have "card (insert (ucast (indirect e1)) (t_recs t1 \<union> bitmap_blocks ?sb)) < OP_MAX_NUM_BLOCKS"
  proof -
    have "card (insert (ucast (indirect e1)) (t_recs t1 \<union> bitmap_blocks ?sb)) \<le> card (insert n (t_recs t \<union> bitmap_blocks ?sb))"
      using n(9,10) by (intro card_mono) (auto simp: e1_def)
    then show ?thesis
      using card_insert_Suc [of n "t_recs t \<union> bitmap_blocks ?sb"] log_load_indirect(3) [OF ind, of t b] room by linarith
  qed
  moreover have "indirect e1 \<noteq> 0" "file_block (t_view t1) e1 ?i = 0" using n(4) n'(4) zero i by (simp_all add: e1_def)
  ultimately obtain m t' where m: "map_indirect (?i - 12) True e1 t1 = Inr ((m, True, e1), t')" "map_result b k e1 t1 ?i m e1 t'"
    "card (free_blocks b t1) \<le> Suc (card (free_blocks b t'))"
    using map_indirect_new [OF txn_step_ok [OF n'(1)] n(3) _ _ n'(2) _ i, of True] by blast
  have lt: "?i - 12 < 128" using i by linarith
  have "inode_map e off t = Inr ((m, True, e1), t')"
    using n(1) m(1) ind i lt by (simp add: inode_map_def inode_consts Let_def e1_def [symmetric])
  moreover have "map_result b k e t ?i m e1 t'"
  proof -
    have "t_view t' x = t_view t x" if "x \<in> file_blocks (t_view t) e" for x
    proof -
      have "x \<in> file_blocks (t_view t1) e1" using file_step_blocks [OF n'(3)] that by blast
      then show ?thesis using m(2) n(8) [OF that] n(9) by (auto simp: map_result_def e1_def)
    qed
    then show ?thesis
      using m(2,3) n'(1,4) n(4,10,11) n(9) zero i txn_step_trans [OF n'(1)] file_step_trans [OF n'(3)]
      unfolding map_result_def by (auto simp: e1_def indirects_def)
  qed
  ultimately show ?thesis by blast
qed

definition map_cost :: "bcache \<Rightarrow> nat" where
  "map_cost b = 2 * num_bitmaps b + 3"

lemma inode_map_effect:
  assumes ok: "txn_ok b (map_cost b + k) t" and can: "can_alloc b t" and wf: "wf_file b t e" and i: "off div 512 < 140"
    and free: "2 \<le> card (free_blocks b t)" and room: "log_load b t e < OP_MAX_NUM_BLOCKS"
  shows "\<exists>m f e' t'. inode_map e off t = Inr ((m, f, e'), t') \<and> map_result b k e t (off div 512) m e' t' \<and> (f \<or> e' = e)"
proof -
  let ?i = "off div 512"
  have ne: "free_blocks b t \<noteq> {}" using free by auto
  have oks: "txn_ok b (Suc k) t" "txn_ok b (num_bitmaps b + Suc k) t" "txn_ok b (Suc (num_bitmaps b + Suc k)) t"
    "txn_ok b (num_bitmaps b + Suc (Suc (num_bitmaps b + Suc k))) t"
    using bs.ok_mono [OF ok] by (simp_all add: map_cost_def)
  consider (mapped) "file_block (t_view t) e ?i \<noteq> 0" | (direct) "file_block (t_view t) e ?i = 0" "?i < 12"
    | (slot) "file_block (t_view t) e ?i = 0" "12 \<le> ?i" "indirect e \<noteq> 0" | (both) "12 \<le> ?i" "indirect e = 0"
    by linarith
  then show ?thesis
  proof cases
    case mapped
    have "ucast (indirect e) \<notin> t_held t" if "12 \<le> ?i"
      using mapped that indirect_block(5) [OF wf] by (auto simp: file_block_def split: if_splits)
    from oks(1) i mapped this obtain t' where "inode_map e off t = Inr ((file_block (t_view t) e ?i, False, e), t')"
      "txn_step b k t t'" "t_view t' = t_view t" "t_recs t' = t_recs t"
      by (rule inode_map_mapped)
    then show ?thesis using map_result_mapped [OF _ _ _ can wf mapped] by blast
  next
    case direct
    then have "addrs e ! ?i = 0" by (simp add: file_block_def)
    then show ?thesis
      using map_direct_new [OF oks(2) can ne le_less_trans [OF log_load_indirect(1) room] wf direct(2)] by blast
  next
    case slot
    have "card (insert (ucast (indirect e)) (t_recs t \<union> bitmap_blocks (sblock b))) < OP_MAX_NUM_BLOCKS"
      using room log_load_indirect(2) [OF slot(3), of t b] by simp
    from map_indirect_new [OF oks(3) can ne this wf slot(3,2) i slot(1), of False]
    obtain m t' where m: "map_indirect (?i - 12) False e t = Inr ((m, True, e), t')" "map_result b k e t ?i m e t'" by blast
    moreover have "?i - 12 < 128" using i by linarith
    ultimately have "inode_map e off t = Inr ((m, True, e), t')"
      using slot i by (simp add: inode_map_def inode_consts Let_def)
    with m(2) show ?thesis by blast
  next
    case both
    from map_indirect_both [OF oks(4) can free room wf both(2,1) i] show ?thesis by blast
  qed
qed

section \<open>Writing\<close>

lemma file_block_inj:
  "wf_file b t e \<Longrightarrow> i \<le> 140 \<Longrightarrow> j \<le> 140 \<Longrightarrow> file_block (t_view t) e i \<noteq> 0 \<Longrightarrow>
     file_block (t_view t) e i = file_block (t_view t) e j \<Longrightarrow> i = j"
  unfolding wf_file_def by blast

lemma wf_file_block:
  assumes "wf_file b t e" and "i \<le> 140" and "file_block (t_view t) e i \<noteq> 0"
  shows "file_block (t_view t) e i \<in> allocated (sblock b) (t_view t)" "file_block (t_view t) e i \<notin> bitmap_blocks (sblock b)"
    "file_block (t_view t) e i \<notin> t_held t"
  using file_blocksI [OF assms(2,3)] assms(1) by (auto simp: wf_file_def)

lemma log_load_bound: "t_recs t \<subseteq> R \<union> indirects e \<Longrightarrow> finite R \<Longrightarrow> bitmap_blocks (sblock b) \<subseteq> R \<Longrightarrow>
    log_load b t e \<le> Suc (card (R - indirects e))"
  unfolding log_load_def by (auto intro!: card_mono)

lemma map_result_load:
  assumes "map_result b k e t i m e' t'"
  shows "log_load b t' e' \<le> Suc (log_load b t e)" "card (insert m (t_recs t')) \<le> Suc (log_load b t e)"
    "t_recs t'' = insert m (t_recs t') \<Longrightarrow> log_load b t'' e' \<le> Suc (log_load b t e)"
proof -
  let ?R = "t_recs t \<union> bitmap_blocks (sblock b)"
  have recs: "t_recs t' \<subseteq> insert m (indirects e' \<union> ?R)" and st: "file_step b e t e' t'" using assms by (simp_all add: map_result_def)
  have "file_block (t_view t) e 140 \<noteq> 0 \<longrightarrow> file_block (t_view t') e' 140 = file_block (t_view t) e 140"
    using st by (simp add: file_step_def)
  then have sub: "indirects e \<subseteq> indirects e'" by (auto simp: file_block_def indirects_def)
  have "card (insert m ?R - indirects e') \<le> card (insert m (?R - indirects e))" using sub by (intro card_mono) auto
  also have "\<dots> \<le> Suc (card (?R - indirects e))" by (rule card_insert_Suc)
  finally have card: "card (insert m ?R - indirects e') \<le> Suc (card (?R - indirects e))" .
  have load: "log_load b s e' \<le> Suc (log_load b t e)" if "t_recs s \<subseteq> insert m (t_recs t')" for s
  proof -
    have "t_recs s \<subseteq> insert m ?R \<union> indirects e'" using that recs by auto
    then have "log_load b s e' \<le> Suc (card (insert m ?R - indirects e'))" by (rule log_load_bound) auto
    then show ?thesis using card by (simp add: log_load_def)
  qed
  show "log_load b t' e' \<le> Suc (log_load b t e)" by (rule load) auto
  show "log_load b t'' e' \<le> Suc (log_load b t e)" if "t_recs t'' = insert m (t_recs t')" by (rule load) (simp add: that)
  have "card (insert m (t_recs t')) \<le> card (insert m ?R \<union> indirects e')" using recs by (intro card_mono) (auto simp: indirects_def)
  also have "\<dots> \<le> Suc (card (insert m ?R - indirects e'))"
    using card_insert_Suc [of "ucast (indirect e')" "insert m ?R - {ucast (indirect e')}"]
    by (simp add: indirects_def insert_commute)
  finally show "card (insert m (t_recs t')) \<le> Suc (log_load b t e)" using card by (simp add: log_load_def)
qed

text \<open>Changing the content of one block of the file.\<close>

lemma data_update:
  assumes wf: "wf_file b t e" and i: "i < 140" "file_block (t_view t) e i = m" "m \<noteq> 0"
    and t': "t_view t' = (t_view t)(m := d)" "t_held t' = t_held t"
  shows "wf_file b t' e" "file_step b e t e t'" "j \<le> 140 \<Longrightarrow> file_block (t_view t') e j = file_block (t_view t) e j"
    "k < 71680 \<Longrightarrow> file_byte (t_view t') e k = (if k div 512 = i then d ! (k mod 512) else file_byte (t_view t) e k)"
    "allocated (sblock b) (t_view t') = allocated (sblock b) (t_view t)"
proof -
  have i140: "i \<le> 140" "i \<noteq> 140" using i by auto
  note m = wf_file_block [OF wf i140(1), unfolded i(2), OF i(3)]
  have "ucast (indirect e) \<noteq> m"
    using file_block_inj [OF wf i140(1) order_refl] i i140(2) by (auto simp: file_block_def)
  then have fb: "file_block (t_view t') e j = file_block (t_view t) e j" if "j \<le> 140" for j
    using that by (intro file_block_view) (simp_all add: t'(1))
  then show "j \<le> 140 \<Longrightarrow> file_block (t_view t') e j = file_block (t_view t) e j" .
  show al: "allocated (sblock b) (t_view t') = allocated (sblock b) (t_view t)"
    unfolding t'(1) by (rule allocated_other [OF m(2)])
  have blocks: "file_blocks (t_view t') e = file_blocks (t_view t) e"
    unfolding file_blocks_def by (rule Collect_cong) (metis fb)
  show "wf_file b t' e"
    using wf unfolding wf_file_def blocks al t'(2) by (metis fb)
  have "m \<in> file_blocks (t_view t) e" using file_blocksI [OF i140(1), of "t_view t" e] i by simp
  then show "file_step b e t e t'"
    unfolding file_step_def blocks al using fb t'(1) by (auto simp: same_head_def)
  assume "k < 71680"
  then have "k div 512 \<le> 140" by (simp add: less_imp_le div_le_mono [of k 71679, simplified])
  then have f: "file_block (t_view t') e (k div 512) = file_block (t_view t) e (k div 512)"
    and ne: "k div 512 \<noteq> i \<Longrightarrow> file_block (t_view t) e (k div 512) \<noteq> m"
    using fb file_block_inj [OF wf i140(1), of "k div 512"] i(2,3) by auto
  have v: "t_view t' x = (if x = m then d else t_view t x)" for x by (simp add: t'(1))
  show "file_byte (t_view t') e k = (if k div 512 = i then d ! (k mod 512) else file_byte (t_view t) e k)"
    using ne i(2) by (simp add: file_byte_def f v)
qed

lemma map_result_byte:
  assumes res: "map_result b j e t i m e' t'" and wf: "wf_file b t e" and k: "k < 71680" "file_block (t_view t) e (k div 512) \<noteq> 0"
  shows "file_byte (t_view t') e' k = file_byte (t_view t) e k"
proof -
  have le: "k div 512 < 140" using k(1) by (simp add: div_less_iff_less_mult)
  let ?n = "file_block (t_view t) e (k div 512)"
  have "file_block (t_view t') e' (k div 512) = ?n" using res le k(2) by (simp add: map_result_def file_step_def)
  moreover have "file_block (t_view t) e 140 = ucast (indirect e)" by (simp add: file_block_def)
  then have "?n \<noteq> ucast (indirect e)"
    using file_block_inj [OF wf _ order_refl k(2)] le by auto
  then have "t_view t' ?n = t_view t ?n"
    using res file_blocksI [OF _ k(2)] le by (auto simp: map_result_def)
  ultimately show ?thesis by (simp add: file_byte_def)
qed

text \<open>One round of the loop of \<^verbatim>\<open>inode_write\<close>.\<close>

definition round_result :: "bcache \<Rightarrow> nat \<Rightarrow> InodeEntry \<Rightarrow> txn \<Rightarrow> nat \<Rightarrow> u8 list \<Rightarrow> InodeEntry \<Rightarrow> txn \<Rightarrow> bool" where
  "round_result b k e t off src e' t' \<longleftrightarrow> txn_step b k t t' \<and> can_alloc b t' \<and> wf_file b t' e' \<and> file_step b e t e' t'
     \<and> (\<forall>l < 71680. (off \<le> l \<and> l < off + length src \<longrightarrow>
            file_block (t_view t') e' (l div 512) \<noteq> 0 \<and> file_byte (t_view t') e' l = src ! (l - off))
          \<and> (\<not> (off \<le> l \<and> l < off + length src) \<and> file_block (t_view t) e (l div 512) \<noteq> 0 \<longrightarrow>
            file_byte (t_view t') e' l = file_byte (t_view t) e l))"

lemma round_result_trans:
  assumes 1: "round_result b j e t off xs e1 t1" and 2: "round_result b k e1 t1 (off + length xs) ys e2 t2"
  shows "round_result b k e t off (xs @ ys) e2 t2"
proof -
  have st: "file_step b e t e1 t1" "file_step b e1 t1 e2 t2" using 1 2 by (simp_all add: round_result_def)
  have keep: "file_block (t_view t2) e2 (l div 512) = file_block (t_view t1) e1 (l div 512)"
    if "file_block (t_view t1) e1 (l div 512) \<noteq> 0" "l < 71680" for l
    using st(2) that by (simp add: file_step_def div_le_mono [of l 71679, simplified])
  have keep1: "file_block (t_view t1) e1 (l div 512) = file_block (t_view t) e (l div 512)"
    if "file_block (t_view t) e (l div 512) \<noteq> 0" "l < 71680" for l
    using st(1) that by (simp add: file_step_def div_le_mono [of l 71679, simplified])
  have "(off \<le> l \<and> l < off + length (xs @ ys) \<longrightarrow>
        file_block (t_view t2) e2 (l div 512) \<noteq> 0 \<and> file_byte (t_view t2) e2 l = (xs @ ys) ! (l - off))
      \<and> (\<not> (off \<le> l \<and> l < off + length (xs @ ys)) \<and> file_block (t_view t) e (l div 512) \<noteq> 0 \<longrightarrow>
        file_byte (t_view t2) e2 l = file_byte (t_view t) e l)" if l: "l < 71680" for l
  proof -
    have a: "off \<le> l \<and> l < off + length xs \<longrightarrow> file_block (t_view t1) e1 (l div 512) \<noteq> 0 \<and> file_byte (t_view t1) e1 l = xs ! (l - off)"
        "\<not> (off \<le> l \<and> l < off + length xs) \<and> file_block (t_view t) e (l div 512) \<noteq> 0 \<longrightarrow> file_byte (t_view t1) e1 l = file_byte (t_view t) e l"
      and b: "off + length xs \<le> l \<and> l < off + length xs + length ys \<longrightarrow>
          file_block (t_view t2) e2 (l div 512) \<noteq> 0 \<and> file_byte (t_view t2) e2 l = ys ! (l - (off + length xs))"
        "\<not> (off + length xs \<le> l \<and> l < off + length xs + length ys) \<and> file_block (t_view t1) e1 (l div 512) \<noteq> 0 \<longrightarrow>
          file_byte (t_view t2) e2 l = file_byte (t_view t1) e1 l"
      using 1 2 l unfolding round_result_def by blast+
    consider "l < off" | "off \<le> l" "l < off + length xs" | "off + length xs \<le> l" "l < off + length xs + length ys"
      | "off + length xs + length ys \<le> l" by linarith
    then show ?thesis
      by cases (use a b keep [OF _ l] keep1 [OF _ l] in \<open>auto simp: nth_append\<close>)
  qed
  then show ?thesis
    using 1 2 txn_step_trans file_step_trans [OF st] unfolding round_result_def by blast
qed

lemma write_round:
  assumes ok: "txn_ok b (map_cost b + Suc k) t" and can: "can_alloc b t" and wf: "wf_file b t e" and i: "off div 512 < 140"
    and free: "2 \<le> card (free_blocks b t)" and room: "log_load b t e < OP_MAX_NUM_BLOCKS"
    and xs: "off mod 512 + length xs \<le> 512"
  obtains m f e' t1 p t2 t3 where "inode_map e off t = Inr ((m, f, e'), t1)" "f \<or> e' = e" "t_acquire m t1 = Inr (p, t2)"
    "t_sync p (t_store p (splice (off mod 512) xs (t_data t2 p)) t2) = Inr t3"
    "round_result b k e t off xs e' (t_release p t3)" "log_load b (t_release p t3) e' \<le> Suc (log_load b t e)"
    "card (free_blocks b t) \<le> card (free_blocks b (t_release p t3)) + 2"
proof -
  let ?i = "off div 512"
  obtain m f e' t1 where m: "inode_map e off t = Inr ((m, f, e'), t1)" "map_result b (Suc k) e t ?i m e' t1" "f \<or> e' = e"
    using inode_map_effect [OF ok can wf i free room] by blast
  have r: "txn_step b (Suc k) t t1" "can_alloc b t1" "wf_file b t1 e'" "file_step b e t e' t1" "m \<noteq> 0" "file_block (t_view t1) e' ?i = m"
    "card (free_blocks b t) \<le> card (free_blocks b t1) + 2"
    using m(2) by (simp_all add: map_result_def)
  let ?d = "splice (off mod 512) xs (t_view t1 m)"
  have ok1: "txn_ok b (Suc k) t1" using r(1) by (rule txn_step_ok)
  have len: "length (t_view t1 m) = 512" "length ?d = BLOCK_SIZE"
    using txn_view_length [OF ok1, of m] xs by (simp_all add: BLOCK_SIZE_def)
  have nh: "m \<notin> t_held t1" using wf_file_block(3) [OF r(3), of ?i] i r(5,6) by simp
  have log: "fst t1 \<noteq> None" using r(2) by (simp add: can_alloc_def)
  have crd: "card (insert m (t_recs t1)) \<le> OP_MAX_NUM_BLOCKS" using map_result_load(2) [OF m(2)] room by linarith
  from ok1 nh log crd len(2) obtain p t2 t3 where t3: "t_acquire m t1 = Inr (p, t2)" "t_data t2 p = t_view t1 m" "t_sync p (t_store p ?d t2) = Inr t3"
    "txn_step b k t1 (t_release p t3)" "t_view (t_release p t3) = (t_view t1)(m := ?d)" "t_recs (t_release p t3) = insert m (t_recs t1)"
    "sblock (snd t2) = sblock b"
    by (rule txn_write)
  let ?t = "t_release p t3"
  have "t_held ?t = t_held t1" using t3(4) by (simp add: txn_step_def)
  note u = data_update [OF r(3) i r(6,5) t3(5) this]
  have can': "can_alloc b ?t" using r(2) t3(4) u(5) by (auto simp: can_alloc_def bitmap_free_to_use_def txn_step_def)
  have byte: "file_byte (t_view ?t) e' l = xs ! (l - off)" "file_block (t_view ?t) e' (l div 512) \<noteq> 0"
    if "off \<le> l" "l < off + length xs" "l < 71680" for l
  proof -
    obtain r where r': "l = off + r" "r < length xs" using \<open>off \<le> l\<close> \<open>l < off + length xs\<close> by (auto simp: le_iff_add)
    have "off mod 512 + r < 512" using r' xs by linarith
    then have l: "l div 512 = ?i" "l mod 512 = off mod 512 + r" unfolding r'(1) by (rule block_offset)+
    show "file_byte (t_view ?t) e' l = xs ! (l - off)"
      using u(4) [OF that(3)] l r' nth_splice [of "off mod 512" xs "t_view t1 m" "off mod 512 + r"] len(1) xs by simp
    show "file_block (t_view ?t) e' (l div 512) \<noteq> 0" using u(3) [of ?i] i r(5,6) l by simp
  qed
  have other: "file_byte (t_view ?t) e' l = file_byte (t_view t) e l"
    if "\<not> (off \<le> l \<and> l < off + length xs)" "l < 71680" "file_block (t_view t) e (l div 512) \<noteq> 0" for l
  proof -
    have "\<not> (off mod 512 \<le> l mod 512 \<and> l mod 512 < off mod 512 + length xs)" if "l div 512 = ?i"
      using that \<open>\<not> (off \<le> l \<and> l < off + length xs)\<close> div_mult_mod_eq [of off 512] div_mult_mod_eq [of l 512] by linarith
    then have "file_byte (t_view ?t) e' l = file_byte (t_view t1) e' l"
      using u(4) [OF that(2)] nth_splice [of "off mod 512" xs "t_view t1 m" "l mod 512"] len(1) xs r(6)
      by (auto simp: file_byte_def)
    then show ?thesis using map_result_byte [OF m(2) wf that(2,3)] by simp
  qed
  have "round_result b k e t off xs e' ?t"
    unfolding round_result_def
    using txn_step_trans [OF r(1) t3(4)] can' u(1) file_step_trans [OF r(4) u(2)] byte other by blast
  moreover have "free_blocks b ?t = free_blocks b t1" by (simp add: free_blocks_def u(5))
  ultimately show thesis
    using m(1,3) t3(1-3) r(7) map_result_load(3) [OF m(2) t3(6)] by (intro that [of m f e' t1 p t2 t3]) simp_all
qed

lemma file_write_loop_effect:
  assumes "txn_ok b (io_rounds off n * Suc (map_cost b) + k) t" and "can_alloc b t" and "wf_file b t e" and "n \<le> 71680"
    and "2 * io_rounds off n \<le> card (free_blocks b t)" and "log_load b t e + io_rounds off n \<le> OP_MAX_NUM_BLOCKS"
    and "length src = n - off"
  shows "\<exists>f' e' t'. file_write_loop src off n f e t = Inr ((f', e'), t') \<and> round_result b k e t off src e' t'
    \<and> log_load b t' e' \<le> log_load b t e + io_rounds off n \<and> (f \<longrightarrow> f') \<and> (f' \<or> e' = e)"
  using assms
proof (induction "io_rounds off n" arbitrary: off src f e t)
  case 0
  then have ge: "\<not> off < n" using io_rounds_step [of off n] by auto
  then have "file_write_loop src off n f e t = Inr ((f, e), t)" by (subst file_write_loop.simps) simp
  moreover have "src = []" using ge "0.prems"(7) by simp
  moreover have "txn_ok b k t" using "0.prems"(1) "0.hyps" by simp
  ultimately show ?case
    using "0.prems"(2,3) by (auto simp: round_result_def txn_step_refl file_step_refl)
next
  case (Suc r)
  let ?s = "io_step off n" and ?off = "off + io_step off n"
  have lt: "off < n" using Suc.hyps(2) by (auto simp: io_rounds_def split: if_splits)
  have r: "r = io_rounds ?off n" "io_rounds off n = Suc r" using Suc.hyps(2) io_rounds_step [OF lt] by simp_all
  have step: "?s \<le> n - off" "off mod 512 + ?s \<le> 512" by (auto simp: io_step_def BLOCK_SIZE_def)
  let ?xs = "take ?s src" and ?ys = "drop ?s src"
  have xs: "length ?xs = ?s" using Suc.prems(7) step by simp
  have "txn_ok b (map_cost b + Suc (r * Suc (map_cost b) + k)) t" using Suc.prems(1) r(2) by (simp add: algebra_simps)
  moreover have "off div 512 < 140" using lt Suc.prems(4) by (simp add: div_less_iff_less_mult)
  moreover have "2 \<le> card (free_blocks b t)" "log_load b t e < OP_MAX_NUM_BLOCKS" "off mod 512 + length ?xs \<le> 512"
    using Suc.prems(5,6) r(2) xs step by simp_all
  ultimately obtain m f' e1 t1 p t2 t3 where w: "inode_map e off t = Inr ((m, f', e1), t1)" "f' \<or> e1 = e" "t_acquire m t1 = Inr (p, t2)"
    "t_sync p (t_store p (splice (off mod 512) ?xs (t_data t2 p)) t2) = Inr t3"
    "round_result b (r * Suc (map_cost b) + k) e t off ?xs e1 (t_release p t3)" "log_load b (t_release p t3) e1 \<le> Suc (log_load b t e)"
    "card (free_blocks b t) \<le> card (free_blocks b (t_release p t3)) + 2"
    using write_round [OF _ Suc.prems(2,3)] by metis
  let ?t = "t_release p t3"
  have "txn_ok b (io_rounds ?off n * Suc (map_cost b) + k) ?t" "can_alloc b ?t" "wf_file b ?t e1"
    using w(5) r by (simp_all add: round_result_def txn_step_def)
  moreover have "2 * io_rounds ?off n \<le> card (free_blocks b ?t)" "log_load b ?t e1 + io_rounds ?off n \<le> OP_MAX_NUM_BLOCKS"
    "length ?ys = n - ?off"
    using w(6,7) Suc.prems(5-7) r step by simp_all
  ultimately obtain f2 e2 t4 where loop: "file_write_loop ?ys ?off n (f \<or> f') e1 ?t = Inr ((f2, e2), t4)" "round_result b k e1 ?t ?off ?ys e2 t4"
    "log_load b t4 e2 \<le> log_load b ?t e1 + io_rounds ?off n" "f \<or> f' \<longrightarrow> f2" "f2 \<or> e2 = e1"
    using Suc.hyps(1) [OF r(1), of ?t e1 ?ys "f \<or> f'"] Suc.prems(4) by blast
  have "round_result b k e t off src e2 t4"
    using round_result_trans [OF w(5), unfolded xs, OF loop(2)] by simp
  moreover have "file_write_loop src off n f e t = Inr ((f2, e2), t4)"
    using lt w(1,3,4) loop(1) by (simp add: file_write_loop.simps [of src] BLOCK_SIZE_def Let_def)
  ultimately show ?case using loop(3-5) w(2,6) r by auto
qed

section \<open>The inode table\<close>

definition inode_block :: "bcache \<Rightarrow> u64 \<Rightarrow> u64" where
  "inode_block b ino = ucast (sb_inode_start (sblock b)) + of_nat (unat ino div 8)"

lemma to_block_no_eq: "txn_ok b k t \<Longrightarrow> to_block_no ino t = inode_block b ino"
  by (simp add: to_block_no_def inode_block_def txn_sblock INODE_PER_BLOCK_def BLOCK_SIZE_def)

lemma inode_sync_write:
  assumes ok: "txn_ok b (Suc k) (it_txn s)" and valid: "i_valid (it_inode s ip)" and log: "fst (it_txn s) \<noteq> None"
    and B: "B = inode_block b (i_no (it_inode s ip))" "B \<notin> t_held (it_txn s)"
    and room: "card (insert B (t_recs (it_txn s))) \<le> OP_MAX_NUM_BLOCKS" and len: "length (addrs (entry s ip)) = 12"
  obtains t' where "inode_sync ip True s = Inr (s\<lparr>it_txn := t'\<rparr>)" "txn_step b k (it_txn s) t'"
    "t_view t' = (t_view (it_txn s))(B := put_entry (t_view (it_txn s) B) (i_no (it_inode s ip)) (entry s ip))"
    "t_recs t' = insert B (t_recs (it_txn s))"
proof -
  let ?t = "it_txn s" and ?i = "it_inode s ip"
  have "length (put_entry (t_view ?t B) (i_no ?i) (i_entry ?i)) = BLOCK_SIZE"
    using get_put_entry(1) [OF txn_view_length [OF ok] len] .
  from ok B(2) log room this obtain p t1 t2 where t: "t_acquire B ?t = Inr (p, t1)" "t_data t1 p = t_view ?t B"
    "t_sync p (t_store p (put_entry (t_view ?t B) (i_no ?i) (i_entry ?i)) t1) = Inr t2" "txn_step b k ?t (t_release p t2)"
    "t_view (t_release p t2) = (t_view ?t)(B := put_entry (t_view ?t B) (i_no ?i) (i_entry ?i))"
    "t_recs (t_release p t2) = insert B (t_recs ?t)" "sblock (snd t1) = sblock b"
    by (rule txn_write)
  then have "inode_sync ip True s = Inr (s\<lparr>it_txn := t_release p t2\<rparr>)"
    using valid B(1) to_block_no_eq [OF ok] by (simp add: inode_sync_def Let_def)
  then show thesis using t(4-6) by (intro that)
qed

lemma upd_inode_simps [simp]:
  "it_txn (upd_inode ip f s) = it_txn s" "it_inode (upd_inode ip f s) = (it_inode s)(ip := f (it_inode s ip))"
  "it_list (upd_inode ip f s) = it_list s" "it_arena (upd_inode ip f s) = it_arena s" "it_console (upd_inode ip f s) = it_console s"
  by (simp_all add: upd_inode_def)

lemma ucast_u16: "ucast (ucast (w :: u64) :: u16) = (of_nat (unat w mod 65536) :: u32)"
proof -
  have "unat w mod 65536 = take_bit 16 (unat w)" by (simp add: take_bit_eq_mod)
  then show ?thesis by (auto intro!: bit_word_eqI simp: bit_simps)
qed

text \<open>A block that does not belong to the file can change without changing the file.\<close>

lemma outside_update:
  assumes wf: "wf_file b t e" and B: "B \<notin> file_blocks (t_view t) e" "B \<notin> bitmap_blocks (sblock b)"
    and t': "t_view t' = (t_view t)(B := d)" "t_held t' = t_held t"
  shows "wf_file b t' e" "i \<le> 140 \<Longrightarrow> file_block (t_view t') e i = file_block (t_view t) e i"
    "k < 71680 \<Longrightarrow> file_block (t_view t) e (k div 512) \<noteq> 0 \<Longrightarrow> file_byte (t_view t') e k = file_byte (t_view t) e k"
    "allocated (sblock b) (t_view t') = allocated (sblock b) (t_view t)"
proof -
  show al: "allocated (sblock b) (t_view t') = allocated (sblock b) (t_view t)"
    unfolding t'(1) by (rule allocated_other [OF B(2)])
  have "indirect e \<noteq> 0 \<Longrightarrow> ucast (indirect e) \<noteq> B" using indirect_block(1) [OF wf] B(1) by auto
  then have fb: "file_block (t_view t') e i = file_block (t_view t) e i" if "i \<le> 140" for i
    using that by (intro file_block_view) (simp_all add: t'(1))
  then show "i \<le> 140 \<Longrightarrow> file_block (t_view t') e i = file_block (t_view t) e i" .
  have blocks: "file_blocks (t_view t') e = file_blocks (t_view t) e"
    unfolding file_blocks_def by (rule Collect_cong) (metis fb)
  show "wf_file b t' e" using wf unfolding wf_file_def blocks al t'(2) by (metis fb)
  assume k: "k < 71680" "file_block (t_view t) e (k div 512) \<noteq> 0"
  then have le: "k div 512 \<le> 140" by (simp add: div_le_mono [of k 71679, simplified])
  have "file_block (t_view t) e (k div 512) \<noteq> B" using file_blocksI [OF le k(2)] B(1) by auto
  then show "file_byte (t_view t') e k = file_byte (t_view t) e k"
    unfolding file_byte_def fb [OF le] by (simp add: t'(1))
qed

lemma same_addrs:
  assumes "addrs e' = addrs e" and "indirect e' = indirect e"
  shows "file_block v e' = file_block v e" "file_byte v e' = file_byte v e" "file_blocks v e' = file_blocks v e"
    "wf_file b t e' = wf_file b t e" "indirects e' = indirects e" "log_load b t e' = log_load b t e"
proof -
  show fb: "file_block v e' = file_block v e" for v using assms by (simp add: file_block_def fun_eq_iff)
  show "file_byte v e' = file_byte v e" by (simp add: file_byte_def fun_eq_iff fb)
  show bl: "file_blocks v e' = file_blocks v e" for v unfolding file_blocks_def fb ..
  show "wf_file b t e' = wf_file b t e" unfolding wf_file_def fb bl assms ..
  show "indirects e' = indirects e" "log_load b t e' = log_load b t e" using assms by (simp_all add: indirects_def log_load_def)
qed

section \<open>The write operation\<close>

text \<open>
  What a write of the bytes from \<open>off\<close> to \<open>n\<close> needs: a loaded inode of a well-formed file without
  holes that is not a device, free blocks, memory for the cached blocks, and an operation that can
  still record the blocks concerned.
\<close>

definition write_ready :: "bcache \<Rightarrow> nat \<Rightarrow> itree \<Rightarrow> ptr \<Rightarrow> nat \<Rightarrow> nat \<Rightarrow> bool" where
  "write_ready b k s ip off n \<longleftrightarrow>
     e_type (entry s ip) \<noteq> INODE_DEVICE \<and> i_valid (it_inode s ip)
     \<and> txn_ok b (io_rounds off n * Suc (map_cost b) + Suc k) (it_txn s) \<and> can_alloc b (it_txn s) \<and> wf_file b (it_txn s) (entry s ip)
     \<and> off \<le> unat (num_bytes (entry s ip)) \<and> off \<le> n \<and> n \<le> INODE_MAX_BYTES
     \<and> unat (num_bytes (entry s ip)) \<le> INODE_MAX_BYTES
     \<and> (\<forall>i. 512 * i < unat (num_bytes (entry s ip)) \<longrightarrow> file_block (t_view (it_txn s)) (entry s ip) i \<noteq> 0)
     \<and> 2 * io_rounds off n \<le> card (free_blocks b (it_txn s)) \<and> log_load b (it_txn s) (entry s ip) + io_rounds off n < OP_MAX_NUM_BLOCKS
     \<and> inode_block b (i_no (it_inode s ip)) \<in> allocated (sblock b) (t_view (it_txn s)) - bitmap_blocks (sblock b)
         - file_blocks (t_view (it_txn s)) (entry s ip) - t_held (it_txn s)"

definition grown :: "InodeEntry \<Rightarrow> nat \<Rightarrow> u32" where
  "grown e n = (if unat (num_bytes e) < n then of_nat (n mod 65536) else num_bytes e)"

lemma file_write_loop_ready:
  assumes ready: "write_ready b k s ip off n" and n: "n = off + length src"
  obtains f e' t' where "file_write_loop src off n False (entry s ip) (it_txn s) = Inr ((f, e'), t')"
    "round_result b (Suc k) (entry s ip) (it_txn s) off src e' t'" "f \<or> e' = entry s ip"
    "log_load b t' e' < OP_MAX_NUM_BLOCKS"
proof -
  let ?e = "entry s ip" and ?t = "it_txn s"
  have "txn_ok b (io_rounds off n * Suc (map_cost b) + Suc k) ?t" "can_alloc b ?t" "wf_file b ?t ?e" "n \<le> 71680"
    "2 * io_rounds off n \<le> card (free_blocks b ?t)" "log_load b ?t ?e + io_rounds off n \<le> OP_MAX_NUM_BLOCKS"
    "log_load b ?t ?e + io_rounds off n < OP_MAX_NUM_BLOCKS" "length src = n - off"
    using ready n by (simp_all add: write_ready_def INODE_MAX_BYTES_eq)
  note r = this
  from file_write_loop_effect [OF r(1-6,8), of False] obtain f e' t' where
    "file_write_loop src off n False ?e ?t = Inr ((f, e'), t')" "round_result b (Suc k) ?e ?t off src e' t'" "f \<or> e' = ?e"
    "log_load b t' e' \<le> log_load b ?t ?e + io_rounds off n" by blast
  then show thesis using r(7) le_less_trans by (intro that)
qed

text \<open>The outcome: the entry \<open>e'\<close> in memory, and the blocks as seen through the cache.\<close>

definition write_result :: "bcache \<Rightarrow> nat \<Rightarrow> itree \<Rightarrow> ptr \<Rightarrow> nat \<Rightarrow> u8 list \<Rightarrow> InodeEntry \<Rightarrow> txn \<Rightarrow> bool" where
  "write_result b k s ip off src e' t' \<longleftrightarrow>
     (let e = entry s ip; t = it_txn s; ino = i_no (it_inode s ip); B = inode_block b ino
      in txn_step b k t t' \<and> can_alloc b t' \<and> wf_file b t' e' \<and> num_bytes e' = grown e (off + length src)
         \<and> e_type e' = e_type e \<and> num_links e' = num_links e
         \<and> (\<forall>l < 71680. (off \<le> l \<and> l < off + length src \<longrightarrow>
                file_block (t_view t') e' (l div 512) \<noteq> 0 \<and> file_byte (t_view t') e' l = src ! (l - off))
              \<and> (\<not> (off \<le> l \<and> l < off + length src) \<and> file_block (t_view t) e (l div 512) \<noteq> 0 \<longrightarrow>
                file_block (t_view t') e' (l div 512) \<noteq> 0 \<and> file_byte (t_view t') e' l = file_byte (t_view t) e l))
         \<and> (\<forall>x \<in> allocated (sblock b) (t_view t) - bitmap_blocks (sblock b) - file_blocks (t_view t) e - {B}. t_view t' x = t_view t x)
         \<and> (get_entry (t_view t B) ino = e \<longrightarrow> get_entry (t_view t' B) ino = e')
         \<and> (\<forall>j. unat j mod 8 \<noteq> unat ino mod 8 \<longrightarrow> get_entry (t_view t' B) j = get_entry (t_view t B) j))"

lemma round_write_result:
  assumes r: "round_result b j (entry s ip) (it_txn s) off src e1 t1" and same: "addrs e' = addrs e1" "indirect e' = indirect e1"
    "e_type e' = e_type e1" "num_links e' = num_links e1" "num_bytes e' = grown (entry s ip) (off + length src)"
    and B: "B = inode_block b (i_no (it_inode s ip))"
      "B \<in> allocated (sblock b) (t_view (it_txn s)) - bitmap_blocks (sblock b) - file_blocks (t_view (it_txn s)) (entry s ip)"
    and t': "txn_step b k t1 t'" "t_view t' = (t_view t1)(B := d)"
    and d: "get_entry (t_view t1 B) (i_no (it_inode s ip)) = entry s ip \<longrightarrow> get_entry d (i_no (it_inode s ip)) = e'"
      "\<And>j. unat j mod 8 \<noteq> unat (i_no (it_inode s ip)) mod 8 \<Longrightarrow> get_entry d j = get_entry (t_view t1 B) j"
  shows "write_result b k s ip off src e' t'"
proof -
  let ?e = "entry s ip" and ?t = "it_txn s"
  have r': "txn_step b j ?t t1" "can_alloc b t1" "wf_file b t1 e1" "file_step b ?e ?t e1 t1" using r by (simp_all add: round_result_def)
  have out: "B \<notin> file_blocks (t_view t1) e1" "B \<notin> bitmap_blocks (sblock b)" "t_view t1 B = t_view ?t B"
    using r'(4) B(2) by (auto simp: file_step_def)
  have held: "t_held t' = t_held t1" using t'(1) by (simp add: txn_step_def)
  note u = outside_update [OF r'(3) out(1,2) t'(2) held]
  note sa = same_addrs [OF same(1,2)]
  have can: "can_alloc b t'" using r'(2) t'(1) u(4) by (auto simp: can_alloc_def bitmap_free_to_use_def txn_step_def)
  have head: "e_type e1 = e_type ?e" "num_links e1 = num_links ?e" using r'(4) by (simp_all add: file_step_def same_head_def)
  have bytes: "(off \<le> l \<and> l < off + length src \<longrightarrow>
        file_block (t_view t') e' (l div 512) \<noteq> 0 \<and> file_byte (t_view t') e' l = src ! (l - off))
      \<and> (\<not> (off \<le> l \<and> l < off + length src) \<and> file_block (t_view ?t) ?e (l div 512) \<noteq> 0 \<longrightarrow>
        file_block (t_view t') e' (l div 512) \<noteq> 0 \<and> file_byte (t_view t') e' l = file_byte (t_view ?t) ?e l)" if l: "l < 71680" for l
  proof -
    have le: "l div 512 \<le> 140" using l by (simp add: div_le_mono [of l 71679, simplified])
    have "file_block (t_view ?t) ?e (l div 512) \<noteq> 0 \<longrightarrow> file_block (t_view t1) e1 (l div 512) \<noteq> 0"
      using r'(4) le by (simp add: file_step_def)
    then show ?thesis
      using r l u(2) [OF le] u(3) [OF l] unfolding sa round_result_def by auto
  qed
  have frame: "t_view t' x = t_view ?t x"
    if "x \<in> allocated (sblock b) (t_view ?t) - bitmap_blocks (sblock b) - file_blocks (t_view ?t) ?e - {B}" for x
    using r'(4) that by (simp add: file_step_def t'(2))
  have "t_view t' B = d" by (simp add: t'(2))
  then show ?thesis
    unfolding write_result_def Let_def B(1) [symmetric]
    using txn_step_trans [OF r'(1) t'(1)] can u(1) sa(4) same(3-5) head bytes frame d out(3) by simp
qed

lemma inode_write_effect:
  assumes ready: "write_ready b k s ip (unat off) (unat off + length src)"
  obtains e' t' where "inode_write ip src off s = Inr (of_nat (length src), (set_entry ip (\<lambda>_. e') s)\<lparr>it_txn := t'\<rparr>)"
    "write_result b k s ip (unat off) src e' t'"
proof -
  let ?e = "entry s ip" and ?t = "it_txn s" and ?n = "unat off + length src" and ?ino = "i_no (it_inode s ip)"
  let ?B = "inode_block b ?ino"
  from ready refl obtain f e1 t1 where w: "file_write_loop src (unat off) ?n False ?e ?t = Inr ((f, e1), t1)"
    "round_result b (Suc k) ?e ?t (unat off) src e1 t1" "f \<or> e1 = ?e" "log_load b t1 e1 < OP_MAX_NUM_BLOCKS"
    by (rule file_write_loop_ready)
  have B: "?B \<in> allocated (sblock b) (t_view ?t) - bitmap_blocks (sblock b) - file_blocks (t_view ?t) ?e" "?B \<notin> t_held ?t"
    and pre: "e_type ?e \<noteq> INODE_DEVICE" "i_valid (it_inode s ip)" "unat off \<le> unat (num_bytes ?e)" "?n \<le> INODE_MAX_BYTES"
    using ready by (simp_all add: write_ready_def)
  have r: "txn_step b (Suc k) ?t t1" "can_alloc b t1" "wf_file b t1 e1" "file_step b ?e ?t e1 t1" using w(2) by (simp_all add: round_result_def)
  have nb: "num_bytes e1 = num_bytes ?e" using r(4) by (simp add: file_step_def same_head_def)
  have small: "?n < 2 ^ 64" using pre(4) by (simp add: INODE_MAX_BYTES_eq)
  then have fin: "unat (off + of_nat (length src)) = ?n" by (subst unat_plus_ptr) (simp_all add: unat_of_nat_ptr)
  define g where "g \<longleftrightarrow> unat (num_bytes ?e) < ?n"
  define e' where "e' = (if g then e1\<lparr>num_bytes := ucast (ucast (off + of_nat (length src)) :: u16)\<rparr> else e1)"
  have e': "addrs e' = addrs e1" "indirect e' = indirect e1" "e_type e' = e_type e1" "num_links e' = num_links e1" "num_bytes e' = grown ?e ?n"
    using nb by (simp_all add: e'_def g_def grown_def ucast_u16 fin)
  note res = round_write_result [OF w(2) e' refl B(1)]
  define s1 where "s1 = set_entry ip (\<lambda>_. e') (s\<lparr>it_txn := t1\<rparr>)"
  have eq: "inode_write ip src off s = bindE (if f \<or> g then inode_sync ip True s1 else Inr s1) (\<lambda>s. Inr (of_nat (length src), s))"
    using pre w(1) fin nb unat_ucast_u32 [of "num_bytes ?e"] small
    by (simp add: inode_write_def Let_def on_txn_def word_le_nat_alt word_less_nat_alt g_def e'_def s1_def)
  have s1: "s1\<lparr>it_txn := t'\<rparr> = (set_entry ip (\<lambda>_. e') s)\<lparr>it_txn := t'\<rparr>" "it_txn s1 = t1" "entry s1 ip = e'" "i_no (it_inode s1 ip) = ?ino"
    "i_valid (it_inode s1 ip)" for t'
    using pre(2) by (simp_all add: s1_def set_entry_def upd_inode_def)
  show thesis
  proof (cases "f \<or> g")
    case True
    have "?B \<notin> t_held t1" "fst t1 \<noteq> None" using B(2) r(1,2) by (simp_all add: txn_step_def can_alloc_def)
    moreover have "card (insert ?B (t_recs t1)) \<le> OP_MAX_NUM_BLOCKS"
    proof -
      have "card (t_recs t1) \<le> card (t_recs t1 \<union> bitmap_blocks (sblock b))" by (rule card_mono) auto
      then show ?thesis using card_insert_Suc [of ?B "t_recs t1"] log_load_indirect(1) [of t1 b e1] w(4) by linarith
    qed
    moreover have len: "length (addrs e') = 12" using r(3) e'(1) by (simp add: wf_file_def)
    ultimately obtain t' where t': "inode_sync ip True s1 = Inr (s1\<lparr>it_txn := t'\<rparr>)" "txn_step b k t1 t'"
      "t_view t' = (t_view t1)(?B := put_entry (t_view t1 ?B) ?ino e')"
      using inode_sync_write [of b k s1 ip ?B] txn_step_ok [OF r(1)] s1 by metis
    have "length (t_view t1 ?B) = BLOCK_SIZE" by (rule txn_view_length [OF txn_step_ok [OF r(1)]])
    note gp = get_put_entry [OF this len]
    have "write_result b k s ip (unat off) src e' t'" by (rule res [OF t'(2,3)]) (simp_all add: gp)
    moreover have "inode_write ip src off s = Inr (of_nat (length src), (set_entry ip (\<lambda>_. e') s)\<lparr>it_txn := t'\<rparr>)"
      unfolding eq using True t'(1) s1(1) by simp
    ultimately show thesis by (rule that [rotated])
  next
    case False
    then have same: "e' = ?e" using w(3) by (simp add: e'_def)
    have "write_result b k s ip (unat off) src e' t1"
      by (rule res [where d = "t_view t1 ?B"])
        (use same txn_step_refl [OF bs.ok_mono [OF txn_step_ok [OF r(1)]], of k] in auto)
    moreover have "s1 = (set_entry ip (\<lambda>_. e') s)\<lparr>it_txn := t1\<rparr>" using s1(1) [of t1] s1(2) by (simp add: s1_def set_entry_def upd_inode_def)
    then have "inode_write ip src off s = Inr (of_nat (length src), (set_entry ip (\<lambda>_. e') s)\<lparr>it_txn := t1\<rparr>)"
      unfolding eq using False by simp
    ultimately show thesis by (rule that [rotated])
  qed
qed

lemma unat_grown:
  "unat (grown e n) = (if unat (num_bytes e) < n then n mod 65536 else unat (num_bytes e))"
proof -
  have "n mod 65536 < 2 ^ 32" by (rule less_trans [OF mod_less_divisor]) simp_all
  then have "unat (of_nat (n mod 65536) :: u32) = n mod 65536" by (simp add: unat_of_nat take_bit_nat_eq_self)
  then show ?thesis by (simp add: grown_def)
qed

definition patched :: "'a list \<Rightarrow> nat \<Rightarrow> 'a list \<Rightarrow> 'a list" where
  "patched xs off src = take off xs @ src @ drop (off + length src) xs"

lemma length_patched [simp]: "off \<le> length xs \<Longrightarrow> length (patched xs off src) = max (length xs) (off + length src)"
  by (simp add: patched_def)

lemma write_content_size:
  assumes ready: "write_ready b k s ip off (off + length src)" and res: "write_result b k s ip off src e' t'"
  shows "content (t_view t') e' = take (unat (num_bytes e')) (patched (content (t_view (it_txn s)) (entry s ip)) off src)"
proof (rule nth_equalityI)
  let ?e = "entry s ip" and ?v = "t_view (it_txn s)" and ?n = "off + length src"
  have pre: "off \<le> unat (num_bytes ?e)" "unat (num_bytes ?e) \<le> 71680"
    "\<And>i. 512 * i < unat (num_bytes ?e) \<Longrightarrow> file_block ?v ?e i \<noteq> 0"
    using ready by (simp_all add: write_ready_def INODE_MAX_BYTES_eq)
  have "num_bytes e' = grown ?e ?n" using res by (simp add: write_result_def Let_def)
  moreover have "?n mod 65536 \<le> ?n" by simp
  ultimately have size: "unat (num_bytes e') \<le> max (unat (num_bytes ?e)) ?n"
    by (simp add: unat_grown le_max_iff_disj)
  show "length (content (t_view t') e') = length (take (unat (num_bytes e')) (patched (content ?v ?e) off src))"
    using pre(1) size by simp
  fix l assume "l < length (content (t_view t') e')"
  then have l: "l < unat (num_bytes ?e) \<or> l < ?n" "l < 71680" "l < unat (num_bytes e')" using size ready by (auto simp: write_ready_def INODE_MAX_BYTES_eq)
  have "file_byte (t_view t') e' l = (if off \<le> l \<and> l < ?n then src ! (l - off) else file_byte ?v ?e l)"
  proof (cases "off \<le> l \<and> l < ?n")
    case True
    then show ?thesis using res l(2) by (simp add: write_result_def Let_def)
  next
    case False
    then have "l < unat (num_bytes ?e)" using l(1) pre(1) by auto
    then have "512 * (l div 512) < unat (num_bytes ?e)" by (rule le_less_trans [OF times_div_less_eq_dividend])
    then show ?thesis using False res l(2) pre(3) by (auto simp: write_result_def Let_def)
  qed
  then show "content (t_view t') e' ! l = take (unat (num_bytes e')) (patched (content ?v ?e) off src) ! l"
    using l size pre(1) by (auto simp: patched_def content_def nth_append min_def)
qed

lemma write_content_eq:
  assumes ready: "write_ready b k s ip off (off + length src)" and res: "write_result b k s ip off src e' t'"
  shows "content (t_view t') e' = (if 65536 \<le> off + length src \<and> unat (num_bytes (entry s ip)) < off + length src
      then take (off + length src - 65536) (patched (content (t_view (it_txn s)) (entry s ip)) off src)
      else patched (content (t_view (it_txn s)) (entry s ip)) off src)"
proof -
  have e: "num_bytes e' = grown (entry s ip) (off + length src)" using res by (simp add: write_result_def Let_def)
  have pre: "off \<le> unat (num_bytes (entry s ip))" "off + length src \<le> 71680" using ready by (simp_all add: write_ready_def INODE_MAX_BYTES_eq)
  from pre(2) have "65536 \<le> off + length src \<Longrightarrow> (off + length src) mod 65536 = off + length src - 65536" by (simp add: mod_if)
  then show ?thesis using pre(1) by (simp add: write_content_size [OF assms] e unat_grown)
qed

lemma write_content:
  assumes ready: "write_ready b k s ip off (off + length src)" and res: "write_result b k s ip off src e' t'" and n: "off + length src < 65536"
  shows "content (t_view t') e' = take off (content (t_view (it_txn s)) (entry s ip)) @ src
      @ drop (off + length src) (content (t_view (it_txn s)) (entry s ip))"
  using n by (simp add: write_content_eq [OF ready res] patched_def)

section \<open>A sample file system\<close>

text \<open>Eight free pages, and an arena for blocks and one for inodes.\<close>

definition roomy_heap :: kheap where
  "roomy_heap = \<lparr>phys = \<lparr>fl_next = 0x8000, page_word = \<lambda>p. p - 0x1000\<rparr>, nodes = \<lparr>prev = id, next = id\<rparr>,
     apage = \<lambda>_. \<lparr>page_arena = 0, page_used = replicate 4 0, page_count = 0\<rparr>,
     arena_at = \<lambda>a. \<lparr>object_size = if a = 0x100 then 584 else 128, max_count = if a = 0x100 then 6 else 31, pages = NULL,
       num_objects = 0, num_pages = 0\<rparr>\<rparr>"

lemma roomy_rep:
  "kheap_rep roomy_heap [0x8000, 0x7000, 0x6000, 0x5000, 0x4000, 0x3000, 0x2000, 0x1000] {0x100, 0x200} (\<lambda>_. [])"
proof -
  have "arena_rep roomy_heap a []" if "a = 0x100 \<or> a = 0x200" for a
    using that by (auto simp: arena_rep_def arena_core_def arena_shape_def) (simp_all add: roomy_heap_def arena_consts)
  then show ?thesis
    by (simp add: kheap_rep_def free_pages_def) (simp add: roomy_heap_def)
qed

lemma roomy_objs: "arena_objs 0x100 {0x100, 0x200} roomy_heap {} 48"
proof -
  have "slots roomy_heap 0x100 = 6" by (simp add: slots_def roomy_heap_def)
  then show ?thesis
    unfolding arena_objs_def using roomy_rep by (intro exI conjI) (assumption | simp add: live_def avail_def)+
qed

definition sample_file :: InodeEntry where
  "sample_file = zero_entry\<lparr>e_type := INODE_REGULAR, num_links := 1\<rparr>"

definition sample_tree :: itree where
  "sample_tree = \<lparr>it_txn = (Some sample_op, sample_fs\<lparr>kh := roomy_heap\<rparr>), it_arena = 0x200, it_list = [0x9000],
     it_inode = \<lambda>_. \<lparr>i_locked = True, i_rc = \<lparr>count = 1\<rparr>, i_no = 5, i_valid = True, i_entry = sample_file\<rparr>,
     it_root = 0, it_console = sample_console, it_killed = False, it_cwd = 0\<rparr>"

lemma sample_tree_ok: "txn_ok sample_fs 48 (it_txn sample_tree)"
proof -
  let ?c = "sample_fs\<lparr>kh := roomy_heap\<rparr>"
  have "cache_inv ?c" using sample_fs_ok by (simp add: txn_ok_def cache_inv_def block_inv_def)
  moreover have "cache_mem ?c 48"
    unfolding cache_mem_def using roomy_objs
    by (rule_tac exI [of _ "{0x100, 0x200}"], rule_tac exI [of _ "{}"], rule_tac exI [of _ 48])
      (simp add: sample_fs_def sample_cache_def)
  moreover have "pins ?c = pins sample_fs" by (simp add: pins_def)
  ultimately show ?thesis
    using sample_fs_ok by (simp add: txn_ok_def sample_tree_def same_log_def)
qed

lemma sample_tree_view:
  "t_view (it_txn sample_tree) = sample_disk" "t_held (it_txn sample_tree) = {}" "t_recs (it_txn sample_tree) = {}"
  "t_dirty (it_txn sample_tree) = {}" "fst (it_txn sample_tree) \<noteq> None"
  by (simp_all add: sample_tree_def cview_def held_def fun_eq_iff t_recs_def t_dirty_def sample_op_def ctx_nos_def sample_fs_def)

lemma sample_allocated:
  "n < 1000 \<Longrightarrow> of_nat n \<in> allocated (sblock sample_fs) sample_disk \<longleftrightarrow> n < 100"
proof -
  assume n: "n < 1000"
  have "bitmap_at (sblock sample_fs) sample_disk n \<longleftrightarrow> bit (sample_bitmap ! (n div 8)) (n mod 8)"
    using sample_fs_bits(4) [OF n] by (simp add: sample_fs_view(1))
  moreover have "bit (sample_bitmap ! (n div 8)) (n mod 8) \<longleftrightarrow> n < 100"
  proof -
    have m: "n = 8 * (n div 8) + n mod 8" "n mod 8 < 8" by simp_all
    have ff: "bit (255 :: u8) (n mod 8)" using bit_mask_iff [of 8 "n mod 8", where 'a = u8] by (simp add: mask_eq_exp_minus_1)
    have f: "bit (15 :: u8) (n mod 8) \<longleftrightarrow> n mod 8 < 4" using bit_mask_iff [of 4 "n mod 8", where 'a = u8] by (auto simp: mask_eq_exp_minus_1)
    consider "n div 8 < 12" | "n div 8 = 12" | "12 < n div 8" "n div 8 < 512" using n by linarith
    then show ?thesis
      by cases (use ff f m in \<open>auto simp: sample_bitmap_def nth_append\<close>)
  qed
  ultimately show ?thesis
    using sample_fs_bits(2) n by (subst mem_allocated) (simp_all add: fs_blocks_def)
qed

lemma sample_free: "100 \<le> n \<Longrightarrow> n < 1000 \<Longrightarrow> of_nat n \<in> free_blocks sample_fs (it_txn sample_tree)"
  unfolding free_blocks_def sample_tree_view(1) sample_fs_bits(2) using sample_allocated [of n] by auto

lemma sample_zero_file: "file_block v sample_file i = 0" "file_blocks v sample_file = {}"
  by (simp_all add: file_blocks_def file_block_def sample_file_def zero_entry_def INODE_NUM_DIRECT_def)

lemma sample_write_ready: "n \<le> 512 \<Longrightarrow> write_ready sample_fs 40 sample_tree 0x9000 0 n"
proof -
  assume n: "n \<le> 512"
  let ?t = "it_txn sample_tree"
  have e: "entry sample_tree 0x9000 = sample_file" "i_no (it_inode sample_tree 0x9000) = 5" "i_valid (it_inode sample_tree 0x9000)"
    by (simp_all add: sample_tree_def)
  have r: "io_rounds 0 n \<le> 1" using n by (auto simp: io_rounds_def)
  have ok: "txn_ok sample_fs (io_rounds 0 n * Suc (map_cost sample_fs) + Suc 40) ?t"
    using r by (intro bs.ok_mono [OF sample_tree_ok]) (auto simp: map_cost_def sample_fs_bits(1) le_Suc_eq)
  have "bitmap_free_to_use sample_fs ?t"
    using sample_fs_use sample_tree_view by (simp add: bitmap_free_to_use_def sample_fs_view)
  moreover have "of_nat 0 \<in> allocated (sblock sample_fs) sample_disk" by (subst sample_allocated) simp_all
  ultimately have can: "can_alloc sample_fs ?t" using sample_tree_view by (simp add: can_alloc_def)
  have wf: "wf_file sample_fs ?t sample_file"
    by (simp add: wf_file_def sample_zero_file) (simp add: sample_file_def zero_entry_def INODE_NUM_DIRECT_def)
  have "{of_nat 100, of_nat 101} \<subseteq> free_blocks sample_fs ?t"
    using sample_free [of 100] sample_free [of 101] by simp
  then have "card {of_nat 100, of_nat 101 :: u64} \<le> card (free_blocks sample_fs ?t)" by (rule card_mono [OF finite_free_blocks])
  then have free: "2 * io_rounds 0 n \<le> card (free_blocks sample_fs ?t)" using r by simp
  have load: "log_load sample_fs ?t sample_file + io_rounds 0 n < OP_MAX_NUM_BLOCKS"
    using r by (simp add: log_load_def sample_tree_view sample_fs_bits(3) indirects_def sample_file_def zero_entry_def OP_MAX_NUM_BLOCKS_def)
  have "inode_block sample_fs 5 = of_nat 66" by (simp add: inode_block_def sample_fs_view(4)) (simp add: sample_cache_def)
  moreover have "of_nat 66 \<in> allocated (sblock sample_fs) sample_disk" by (subst sample_allocated) simp_all
  ultimately have B: "inode_block sample_fs 5 \<in> allocated (sblock sample_fs) sample_disk - bitmap_blocks (sblock sample_fs)"
    by (simp add: sample_fs_bits(3))
  show ?thesis
    unfolding write_ready_def e
    using ok can wf free load B n e(3)
    by (auto simp: sample_zero_file(2) sample_tree_view(1,2) INODE_MAX_BYTES_eq)
      (simp_all add: sample_file_def zero_entry_def inode_consts)
qed

lemma write_backed:
  assumes ready: "write_ready b k s ip off (off + length src)" and res: "write_result b k s ip off src e' t'" and n: "off + length src < 65536"
  shows "backed (t_view t') (t_held t') e' (unat (num_bytes e'))"
proof -
  let ?e = "entry s ip" and ?v = "t_view (it_txn s)" and ?n = "off + length src"
  have pre: "off \<le> unat (num_bytes ?e)" "unat (num_bytes ?e) \<le> 71680"
    "\<And>i. 512 * i < unat (num_bytes ?e) \<Longrightarrow> file_block ?v ?e i \<noteq> 0"
    using ready by (simp_all add: write_ready_def INODE_MAX_BYTES_eq)
  have r: "wf_file b t' e'" "num_bytes e' = grown ?e ?n" using res by (simp_all add: write_result_def Let_def)
  have size: "unat (num_bytes e') = max (unat (num_bytes ?e)) ?n" unfolding r(2) using n by (auto simp: unat_grown)
  have fb: "file_block (t_view t') e' i \<noteq> 0" if "512 * i < unat (num_bytes e')" for i
  proof -
    have i: "512 * i < 71680" using that size pre(2) n by auto
    show ?thesis
    proof (cases "off \<le> 512 * i \<and> 512 * i < ?n")
      case True
      then show ?thesis using res i by (auto simp: write_result_def Let_def dest: spec [of _ "512 * i"])
    next
      case False
      then have "512 * i < unat (num_bytes ?e)" using that size pre(1) by auto
      with pre(3) show ?thesis using False res i by (auto simp: write_result_def Let_def dest: spec [of _ "512 * i"])
    qed
  qed
  have le: "i < 140" if "512 * i < unat (num_bytes e')" for i using that size pre(2) n by auto
  have "file_block (t_view t') e' i \<notin> t_held t'" if "512 * i < unat (num_bytes e')" for i
    using wf_file_block(3) [OF r(1)] fb [OF that] le [OF that] by simp
  moreover have "indirect e' \<noteq> 0 \<and> ucast (indirect e') \<notin> t_held t'" if "12 * 512 < unat (num_bytes e')"
  proof -
    have "indirect e' \<noteq> 0" using fb [of 12] that by (auto simp: file_block_def)
    then show ?thesis using indirect_block(5) [OF r(1)] by blast
  qed
  ultimately show ?thesis
    using r(1) fb size pre(2) n by (auto simp: backed_def wf_file_def INODE_MAX_BYTES_eq)
qed

section \<open>Properties\<close>



text \<open>
  C8: what was written is what is read: after a write that \<^verbatim>\<open>inode_write\<close> is ready for and that ends below 64 KiB, reading the same
  range returns the written bytes.
\<close>

theorem inode_write_read:
  assumes "write_ready b (2 * io_rounds (unat off) (unat off + length src) + k) s ip (unat off) (unat off + length src)"
    and "unat off + length src < 65536"
  shows "\<exists>s1 s2. inode_write ip src off s = Inr (of_nat (length src), s1)
    \<and> inode_read ip off (of_nat (length src)) s1 = Inr ((of_nat (length src), src), s2)"
proof -
  let ?n = "unat off + length src"
  from assms(1) obtain e' t' where w: "inode_write ip src off s = Inr (of_nat (length src), (set_entry ip (\<lambda>_. e') s)\<lparr>it_txn := t'\<rparr>)"
    "write_result b (2 * io_rounds (unat off) ?n + k) s ip (unat off) src e' t'" by (rule inode_write_effect)
  let ?s = "(set_entry ip (\<lambda>_. e') s)\<lparr>it_txn := t'\<rparr>"
  have s: "entry ?s ip = e'" "it_txn ?s = t'" by (simp_all add: set_entry_def upd_inode_def)
  note B = write_backed [OF assms(1) w(2) assms(2)] and C = write_content [OF assms(1) w(2) assms(2)]
  have e': "num_bytes e' = grown (entry s ip) ?n" "e_type e' \<noteq> INODE_DEVICE" "txn_ok b (2 * io_rounds (unat off) ?n + k) t'"
    and off: "unat off \<le> unat (num_bytes (entry s ip))"
    using w(2) assms(1) by (simp_all add: write_result_def write_ready_def Let_def txn_step_def)
  have size: "?n \<le> unat (num_bytes e')" unfolding e'(1) using assms(2) by (simp add: unat_grown)
  have cnt: "unat (of_nat (length src) :: u64) = length src" using assms(2) by (intro unat_of_nat_ptr) simp
  have "e_type (entry ?s ip) \<noteq> INODE_DEVICE" "unat off \<le> unat (num_bytes (entry ?s ip))"
    "unat off + unat (of_nat (length src) :: u64) < 2 ^ 64"
    "length src = min (unat (of_nat (length src) :: u64)) (unat (num_bytes (entry ?s ip)) - unat off)"
    "txn_ok b (2 * io_rounds (unat off) ?n + k) (it_txn ?s)"
    "backed (t_view (it_txn ?s)) (t_held (it_txn ?s)) (entry ?s ip) (unat (num_bytes (entry ?s ip)))"
    unfolding s cnt using e'(2,3) B size assms(2) by simp_all
  then obtain t2 where "inode_read ip off (of_nat (length src)) ?s
      = Inr ((of_nat (length src), take (length src) (drop (unat off) (content (t_view (it_txn ?s)) (entry ?s ip)))), ?s\<lparr>it_txn := t2\<rparr>)"
    by (rule inode_read_effect)
  moreover have "take (length src) (drop (unat off) (content (t_view t') e')) = src"
    unfolding C using off by simp
  ultimately show ?thesis using w(1) unfolding s by auto
qed

theorem inode_write_read_witness:
  "\<exists>s1 s2. inode_write 0x9000 [1, 2, 3] 0 sample_tree = Inr (3, s1) \<and> inode_read 0x9000 0 3 s1 = Inr ((3, [1, 2, 3]), s2)"
proof -
  have "io_rounds 0 3 = 1" by (simp add: io_rounds_def)
  then show ?thesis
    using inode_write_read [of sample_fs 0 "[1, 2, 3]" 38 sample_tree "0x9000"] sample_write_ready [of "length [1, 2, 3 :: u8]"]
    by (simp add: numeral_3_eq_3 [symmetric] del: split_paired_Ex)
qed

end
