(* ===== verification/Directory.thy ===== *)
theory Directory
  imports File_Content
begin

text \<open>
  Directories and paths: lookup, insertion and removal in a directory against a list of entries, and
  the splitting of paths into elements.
\<close>

section \<open>Directories as lists of entries\<close>

definition dentries :: "u8 list \<Rightarrow> u8 list list" where
  "dentries c = chunks 16 c"

definition name_matches :: "u8 list \<Rightarrow> u8 list \<Rightarrow> bool" where
  "name_matches name d \<longleftrightarrow> dentry_no d \<noteq> 0 \<and> strncmp (cstr name) (dentry_name d) 14 = 0"

definition dir_find :: "u8 list \<Rightarrow> u8 list list \<Rightarrow> nat option" where
  "dir_find name ds = find_from (\<lambda>i. name_matches name (ds ! i)) 0 (length ds)"

definition dir_slot :: "u8 list list \<Rightarrow> nat" where
  "dir_slot ds = (case find_from (\<lambda>i. dentry_no (ds ! i) = 0) 0 (length ds) of Some i \<Rightarrow> i | None \<Rightarrow> length ds)"

definition dir_put :: "nat \<Rightarrow> u8 list \<Rightarrow> u8 list list \<Rightarrow> u8 list list" where
  "dir_put i d ds = (if i < length ds then ds[i := d] else ds @ [d])"

text \<open>A directory whose inode is loaded and whose blocks can be read.\<close>

definition dir_ready :: "bcache \<Rightarrow> nat \<Rightarrow> itree \<Rightarrow> ptr \<Rightarrow> bool" where
  "dir_ready b k s ip \<longleftrightarrow> e_type (entry s ip) = INODE_DIRECTORY \<and> 16 dvd unat (num_bytes (entry s ip))
     \<and> txn_ok b (2 * (unat (num_bytes (entry s ip)) div 16) + k) (it_txn s)
     \<and> backed (t_view (it_txn s)) (t_held (it_txn s)) (entry s ip) (unat (num_bytes (entry s ip)))"

definition dir_of :: "itree \<Rightarrow> ptr \<Rightarrow> u8 list list" where
  "dir_of s ip = dentries (content (t_view (it_txn s)) (entry s ip))"

lemma length_dir_of: "length (dir_of s ip) = unat (num_bytes (entry s ip)) div 16"
  by (simp add: dir_of_def dentries_def length_chunks)

lemma nth_dir_of:
  "i < unat (num_bytes (entry s ip)) div 16 \<Longrightarrow> dir_of s ip ! i = take 16 (drop (16 * i) (content (t_view (it_txn s)) (entry s ip)))"
  by (simp add: dir_of_def dentries_def nth_chunks)

lemma io_rounds_dentry: "io_rounds (16 * i) (16 * i + 16) = 1"
proof -
  define q r where "q = i div 32" and "r = i mod 32"
  have "i = 32 * q + r" "r < 32" by (simp_all add: q_def r_def)
  then have "16 * i = 512 * q + 16 * r" "16 * r + 16 \<le> 512" by simp_all
  then have "(16 * i + 16 + 511) div 512 = Suc q" "16 * i div 512 = q" by (simp_all add: div_nat_eqI)
  then show ?thesis by (simp add: io_rounds_def)
qed

lemma read_dentry_ok:
  assumes ty: "e_type (entry s ip) = INODE_DIRECTORY" and i: "i < unat (num_bytes (entry s ip)) div 16"
    and ok: "txn_ok b (Suc (Suc k)) (it_txn s)" and d: "length d \<le> 16"
    and B: "backed (t_view (it_txn s)) (t_held (it_txn s)) (entry s ip) (unat (num_bytes (entry s ip)))"
  obtains t' where "read_dentry ip (16 * i) d s = Inr (dir_of s ip ! i, s\<lparr>it_txn := t'\<rparr>)"
    "txn_step b k (it_txn s) t'" "t_view t' = t_view (it_txn s)" "t_recs t' = t_recs (it_txn s)"
proof -
  have sz: "16 * i + 16 \<le> unat (num_bytes (entry s ip))" "unat (num_bytes (entry s ip)) \<le> 71680"
    using i B by (auto simp: backed_def INODE_MAX_BYTES_eq)
  have off: "unat (of_nat (16 * i) :: u64) = 16 * i" "unat (of_nat 16 :: u64) = 16"
    using sz by (intro unat_of_nat_ptr; simp)+
  have "e_type (entry s ip) \<noteq> INODE_DEVICE" "unat (of_nat (16 * i) :: u64) \<le> unat (num_bytes (entry s ip))"
    "unat (of_nat (16 * i) :: u64) + unat (of_nat 16 :: u64) < 2 ^ 64"
    "16 = min (unat (of_nat 16 :: u64)) (unat (num_bytes (entry s ip)) - unat (of_nat (16 * i) :: u64))"
    "txn_ok b (2 * io_rounds (unat (of_nat (16 * i) :: u64)) (unat (of_nat (16 * i) :: u64) + 16) + k) (it_txn s)"
    unfolding off io_rounds_dentry using ty ok sz by (simp_all add: inode_consts)
  from this B obtain t' where t': "inode_read ip (of_nat (16 * i)) (of_nat 16) s
      = Inr ((of_nat 16, take 16 (drop (unat (of_nat (16 * i) :: u64)) (content (t_view (it_txn s)) (entry s ip)))), s\<lparr>it_txn := t'\<rparr>)"
    "txn_step b k (it_txn s) t'" "t_view t' = t_view (it_txn s)" "t_recs t' = t_recs (it_txn s)"
    by (rule inode_read_effect)
  have eq: "take 16 (drop (16 * i) (content (t_view (it_txn s)) (entry s ip))) = dir_of s ip ! i" using nth_dir_of [OF i] by simp
  have len: "length (dir_of s ip ! i) = 16" unfolding nth_dir_of [OF i] using sz by simp
  have "read_dentry ip (16 * i) d s = Inr (dir_of s ip ! i, s\<lparr>it_txn := t'\<rparr>)"
    unfolding read_dentry_def sizeof_DirEntry_def t'(1) off(1) eq using len d by simp
  then show thesis using t'(2-4) by (rule that)
qed

text \<open>What the loops over a directory leave alone, and their result.\<close>

lemma lookup_loop_ok:
  assumes "e_type (entry s ip) = INODE_DIRECTORY" and "j + r = unat (num_bytes (entry s ip)) div 16"
    and "txn_ok b (2 * r + k) (it_txn s)" and "length d \<le> 16"
    and "backed (t_view (it_txn s)) (t_held (it_txn s)) (entry s ip) (unat (num_bytes (entry s ip)))"
  shows "\<exists>t'. lookup_loop ip name (map ((*) 16) [j ..< j + r]) d s
      = Inr ((case find_from (\<lambda>i. name_matches name (dir_of s ip ! i)) j (j + r) of
          Some i \<Rightarrow> (ucast (dentry_no (dir_of s ip ! i)), Some (of_nat i)) | None \<Rightarrow> (0, None)), s\<lparr>it_txn := t'\<rparr>)
    \<and> txn_step b k (it_txn s) t' \<and> t_view t' = t_view (it_txn s) \<and> t_recs t' = t_recs (it_txn s)"
  using assms
proof (induction r arbitrary: j d s)
  case 0
  then show ?case by (intro exI [of _ "it_txn s"]) (simp add: txn_step_refl)
next
  case (Suc r)
  have j: "j < unat (num_bytes (entry s ip)) div 16" using Suc.prems(2) by simp
  have ok: "txn_ok b (Suc (Suc (2 * r + k))) (it_txn s)" using Suc.prems(3) by simp
  from Suc.prems(1) j ok Suc.prems(4,5) obtain t1 where t1: "read_dentry ip (16 * j) d s = Inr (dir_of s ip ! j, s\<lparr>it_txn := t1\<rparr>)"
    "txn_step b (2 * r + k) (it_txn s) t1" "t_view t1 = t_view (it_txn s)" "t_recs t1 = t_recs (it_txn s)"
    by (rule read_dentry_ok)
  let ?s = "s\<lparr>it_txn := t1\<rparr>" and ?P = "\<lambda>i. name_matches name (dir_of s ip ! i)"
  have len: "length (dir_of s ip ! j) \<le> 16" unfolding nth_dir_of [OF j] by simp
  have dir: "dir_of ?s ip = dir_of s ip" by (simp add: dir_of_def t1(3))
  have upt: "[j ..< j + Suc r] = j # [Suc j ..< Suc j + r]" by (simp add: upt_rec)
  have fnd: "find_from ?P j (j + Suc r) = (if ?P j then Some j else find_from ?P (Suc j) (Suc j + r))"
    by (simp add: find_from.simps [of _ j])
  have eq: "lookup_loop ip name (map ((*) 16) [j ..< j + Suc r]) d s
      = (if ?P j then Inr ((ucast (dentry_no (dir_of s ip ! j)), Some (of_nat j)), ?s)
         else lookup_loop ip name (map ((*) 16) [Suc j ..< Suc j + r]) (dir_of s ip ! j) ?s)"
    unfolding upt by (simp add: t1(1) name_matches_def FILE_NAME_MAX_LENGTH_def sizeof_DirEntry_def)
  show ?case
  proof (cases "?P j")
    case True
    then show ?thesis unfolding eq fnd using t1(3,4) txn_step_mono [OF t1(2), of k] by (intro exI [of _ t1]) simp
  next
    case False
    have p: "e_type (entry ?s ip) = INODE_DIRECTORY" "Suc j + r = unat (num_bytes (entry ?s ip)) div 16" "txn_ok b (2 * r + k) (it_txn ?s)"
      "length (dir_of s ip ! j) \<le> 16"
      "backed (t_view (it_txn ?s)) (t_held (it_txn ?s)) (entry ?s ip) (unat (num_bytes (entry ?s ip)))"
      using Suc.prems(1,2,5) t1(2,3) len by (simp_all add: txn_step_def)
    from Suc.IH [OF p] obtain t' where t': "lookup_loop ip name (map ((*) 16) [Suc j ..< Suc j + r]) (dir_of s ip ! j) ?s
        = Inr ((case find_from ?P (Suc j) (Suc j + r) of
            Some i \<Rightarrow> (ucast (dentry_no (dir_of s ip ! i)), Some (of_nat i)) | None \<Rightarrow> (0, None)), ?s\<lparr>it_txn := t'\<rparr>)"
      "txn_step b k (it_txn ?s) t'" "t_view t' = t_view (it_txn ?s)" "t_recs t' = t_recs (it_txn ?s)"
      unfolding dir by blast
    have "txn_step b k (it_txn s) t'" using t1(2) t'(2) by (auto intro: txn_step_trans)
    then show ?thesis
      unfolding eq fnd t'(1) using False t1(3,4) t'(3,4) by (intro exI [of _ t']) simp
  qed
qed

lemma dir_offsets_eq: "16 dvd unat (num_bytes (entry s ip)) \<Longrightarrow> dir_offsets ip s = map ((*) 16) [0 ..< unat (num_bytes (entry s ip)) div 16]"
  by (auto simp: dir_offsets_def sizeof_DirEntry_def)

lemma inode_lookup_effect:
  assumes "dir_ready b k s ip"
  obtains t' where "inode_lookup ip name s
      = Inr ((case dir_find name (dir_of s ip) of
          Some i \<Rightarrow> (ucast (dentry_no (dir_of s ip ! i)), Some (of_nat i)) | None \<Rightarrow> (0, None)), s\<lparr>it_txn := t'\<rparr>)"
    "txn_step b k (it_txn s) t'" "t_view t' = t_view (it_txn s)" "t_recs t' = t_recs (it_txn s)"
proof -
  let ?n = "unat (num_bytes (entry s ip)) div 16"
  have r: "e_type (entry s ip) = INODE_DIRECTORY" "16 dvd unat (num_bytes (entry s ip))" "txn_ok b (2 * ?n + k) (it_txn s)"
    "backed (t_view (it_txn s)) (t_held (it_txn s)) (entry s ip) (unat (num_bytes (entry s ip)))"
    using assms by (simp_all add: dir_ready_def)
  have l: "length ([] :: u8 list) \<le> 16" "0 + ?n = ?n" by simp_all
  from lookup_loop_ok [OF r(1) l(2) r(3) l(1) r(4), of name] obtain t' where
    t': "lookup_loop ip name (map ((*) 16) [0 ..< 0 + ?n]) [] s
      = Inr ((case find_from (\<lambda>i. name_matches name (dir_of s ip ! i)) 0 (0 + ?n) of
          Some i \<Rightarrow> (ucast (dentry_no (dir_of s ip ! i)), Some (of_nat i)) | None \<Rightarrow> (0, None)), s\<lparr>it_txn := t'\<rparr>)"
    "txn_step b k (it_txn s) t'" "t_view t' = t_view (it_txn s)" "t_recs t' = t_recs (it_txn s)" by blast
  have "inode_lookup ip name s
      = Inr ((case dir_find name (dir_of s ip) of
          Some i \<Rightarrow> (ucast (dentry_no (dir_of s ip ! i)), Some (of_nat i)) | None \<Rightarrow> (0, None)), s\<lparr>it_txn := t'\<rparr>)"
    using t'(1) r(1,2) by (simp add: inode_lookup_def dir_offsets_eq dir_find_def length_dir_of)
  then show thesis using t'(2-4) by (rule that)
qed

lemma free_dentry_ok:
  assumes "e_type (entry s ip) = INODE_DIRECTORY" and "j + r = unat (num_bytes (entry s ip)) div 16"
    and "txn_ok b (2 * r + k) (it_txn s)" and "length d \<le> 16"
    and "backed (t_view (it_txn s)) (t_held (it_txn s)) (entry s ip) (unat (num_bytes (entry s ip)))"
  shows "\<exists>d' t'. free_dentry ip (map ((*) 16) [j ..< j + r]) (16 * j) d s
      = Inr ((16 * (case find_from (\<lambda>i. dentry_no (dir_of s ip ! i) = 0) j (j + r) of Some i \<Rightarrow> i | None \<Rightarrow> j + r), d'), s\<lparr>it_txn := t'\<rparr>)
    \<and> txn_step b k (it_txn s) t' \<and> t_view t' = t_view (it_txn s) \<and> t_recs t' = t_recs (it_txn s)"
  using assms
proof (induction r arbitrary: j d s)
  case 0
  then show ?case by (intro exI [of _ d] exI [of _ "it_txn s"]) (simp add: txn_step_refl)
next
  case (Suc r)
  have j: "j < unat (num_bytes (entry s ip)) div 16" using Suc.prems(2) by simp
  have ok: "txn_ok b (Suc (Suc (2 * r + k))) (it_txn s)" using Suc.prems(3) by simp
  from Suc.prems(1) j ok Suc.prems(4,5) obtain t1 where t1: "read_dentry ip (16 * j) d s = Inr (dir_of s ip ! j, s\<lparr>it_txn := t1\<rparr>)"
    "txn_step b (2 * r + k) (it_txn s) t1" "t_view t1 = t_view (it_txn s)" "t_recs t1 = t_recs (it_txn s)"
    by (rule read_dentry_ok)
  let ?s = "s\<lparr>it_txn := t1\<rparr>" and ?P = "\<lambda>i. dentry_no (dir_of s ip ! i) = 0"
  have len: "length (dir_of s ip ! j) \<le> 16" unfolding nth_dir_of [OF j] by simp
  have dir: "dir_of ?s ip = dir_of s ip" by (simp add: dir_of_def t1(3))
  have upt: "[j ..< j + Suc r] = j # [Suc j ..< Suc j + r]" by (simp add: upt_rec)
  have fnd: "find_from ?P j (j + Suc r) = (if ?P j then Some j else find_from ?P (Suc j) (Suc j + r))"
    by (simp add: find_from.simps [of _ j])
  have eq: "free_dentry ip (map ((*) 16) [j ..< j + Suc r]) (16 * j) d s
      = (if ?P j then Inr ((16 * j, dir_of s ip ! j), ?s)
         else free_dentry ip (map ((*) 16) [Suc j ..< Suc j + r]) (16 * Suc j) (dir_of s ip ! j) ?s)"
    unfolding upt by (simp add: t1(1) sizeof_DirEntry_def add.commute)
  show ?case
  proof (cases "?P j")
    case True
    then show ?thesis
      unfolding eq fnd using t1(3,4) txn_step_mono [OF t1(2), of k] by (intro exI [of _ "dir_of s ip ! j"] exI [of _ t1]) simp
  next
    case False
    have p: "e_type (entry ?s ip) = INODE_DIRECTORY" "Suc j + r = unat (num_bytes (entry ?s ip)) div 16" "txn_ok b (2 * r + k) (it_txn ?s)"
      "length (dir_of s ip ! j) \<le> 16"
      "backed (t_view (it_txn ?s)) (t_held (it_txn ?s)) (entry ?s ip) (unat (num_bytes (entry ?s ip)))"
      using Suc.prems(1,2,5) t1(2,3) len by (simp_all add: txn_step_def)
    from Suc.IH [OF p] obtain d' t' where t': "free_dentry ip (map ((*) 16) [Suc j ..< Suc j + r]) (16 * Suc j) (dir_of s ip ! j) ?s
        = Inr ((16 * (case find_from ?P (Suc j) (Suc j + r) of Some i \<Rightarrow> i | None \<Rightarrow> Suc j + r), d'), ?s\<lparr>it_txn := t'\<rparr>)"
      "txn_step b k (it_txn ?s) t'" "t_view t' = t_view (it_txn ?s)" "t_recs t' = t_recs (it_txn ?s)"
      unfolding dir by blast
    have "txn_step b k (it_txn s) t'" using t1(2) t'(2) by (auto intro: txn_step_trans)
    then show ?thesis
      unfolding eq fnd t'(1) using False t1(3,4) t'(3,4) by (intro exI [of _ d'] exI [of _ t']) (simp split: option.split)
  qed
qed

section \<open>Changing an entry\<close>

lemma take_concat_uniform:
  "(\<And>x. x \<in> set xs \<Longrightarrow> length x = m) \<Longrightarrow> take (m * i) (concat xs) = concat (take i xs) \<and> drop (m * i) (concat xs) = concat (drop i xs)"
proof (induction xs arbitrary: i)
  case (Cons x xs)
  then show ?case by (cases i) (auto simp: take_append drop_append)
qed simp

lemma dentries_put:
  assumes c: "16 dvd length c" and d: "length d = 16" and i: "16 * i \<le> length c"
  shows "dentries (take (16 * i) c @ d @ drop (16 * i + 16) c) = dir_put i d (dentries c)"
proof -
  define ds where "ds = dentries c"
  have len: "x \<in> set ds \<Longrightarrow> length x = 16" for x unfolding ds_def dentries_def by (rule length_chunks_member)
  have cat: "c = concat ds" using concat_chunks [OF c] by (simp add: ds_def dentries_def)
  have n: "i \<le> length ds" using i c by (auto simp: ds_def dentries_def length_chunks)
  have "drop (16 * i + 16) c = concat (drop (Suc i) ds)"
    using take_concat_uniform [of ds 16 "Suc i"] len unfolding cat by (simp add: add.commute)
  moreover have "take (16 * i) c = concat (take i ds)" using take_concat_uniform [of ds 16 i] len unfolding cat by simp
  ultimately have "take (16 * i) c @ d @ drop (16 * i + 16) c = concat (take i ds @ d # drop (Suc i) ds)" by simp
  moreover have "chunks 16 (concat (take i ds @ d # drop (Suc i) ds)) = take i ds @ d # drop (Suc i) ds"
    using len d by (intro chunks_concat) (auto dest: in_set_takeD in_set_dropD)
  moreover have "take i ds @ d # drop (Suc i) ds = dir_put i d ds"
    using n by (auto simp: dir_put_def upd_conv_take_nth_drop)
  ultimately show ?thesis by (simp add: dentries_def [of "_ @ _"] ds_def)
qed

text \<open>Writing one entry of a directory.\<close>

lemma write_dentry:
  assumes dir: "16 dvd unat (num_bytes (entry s ip))" and ready: "write_ready b k s ip (16 * i) (16 * i + 16)"
    and d: "length d = 16" and small: "16 * i + 16 < 65536"
  obtains e' t' where "inode_write ip d (of_nat (16 * i)) s = Inr (16, (set_entry ip (\<lambda>_. e') s)\<lparr>it_txn := t'\<rparr>)"
    "write_result b k s ip (16 * i) d e' t'" "dir_of ((set_entry ip (\<lambda>_. e') s)\<lparr>it_txn := t'\<rparr>) ip = dir_put i d (dir_of s ip)"
proof -
  have off: "unat (of_nat (16 * i) :: u64) = 16 * i" using small by (intro unat_of_nat_ptr) simp
  have ready': "write_ready b k s ip (unat (of_nat (16 * i) :: u64)) (unat (of_nat (16 * i) :: u64) + length d)"
    unfolding off d by (rule ready)
  then obtain e' t' where w: "inode_write ip d (of_nat (16 * i)) s = Inr (of_nat (length d), (set_entry ip (\<lambda>_. e') s)\<lparr>it_txn := t'\<rparr>)"
    "write_result b k s ip (unat (of_nat (16 * i) :: u64)) d e' t'" by (rule inode_write_effect)
  have "content (t_view t') e' = take (16 * i) (content (t_view (it_txn s)) (entry s ip)) @ d
      @ drop (16 * i + 16) (content (t_view (it_txn s)) (entry s ip))"
    using write_content [OF ready' w(2)] small unfolding off d by simp
  moreover have "16 * i \<le> unat (num_bytes (entry s ip))" using ready by (simp add: write_ready_def)
  ultimately have "dentries (content (t_view t') e') = dir_put i d (dir_of s ip)"
    using dentries_put [OF _ d, of "content (t_view (it_txn s)) (entry s ip)" i] dir by (simp add: dir_of_def)
  then have "dir_of ((set_entry ip (\<lambda>_. e') s)\<lparr>it_txn := t'\<rparr>) ip = dir_put i d (dir_of s ip)"
    by (simp add: dir_of_def set_entry_def upd_inode_def)
  then show thesis using w off d by (intro that) simp_all
qed

lemma write_ready_step:
  assumes "write_ready b k s ip off n" and "txn_step b (io_rounds off n * Suc (map_cost b) + Suc k) (it_txn s) t'"
    and "t_view t' = t_view (it_txn s)" and "t_recs t' = t_recs (it_txn s)"
  shows "write_ready b k (s\<lparr>it_txn := t'\<rparr>) ip off n"
proof -
  have st: "t_held t' = t_held (it_txn s)" "txn_ok b (io_rounds off n * Suc (map_cost b) + Suc k) t'" using assms(2) by (simp_all add: txn_step_def)
  have "can_alloc b t'" using can_alloc_cong [OF _ assms(3,2)] assms(1) by (simp add: write_ready_def)
  moreover have "wf_file b t' (entry s ip)" using wf_file_cong [OF _ assms(3) st(1)] assms(1) by (simp add: write_ready_def)
  ultimately show ?thesis
    using assms(1) st by (simp add: write_ready_def free_blocks_def log_load_def assms(3,4))
qed

section \<open>Insertion and removal\<close>

lemma make_dentry_props:
  "length (make_dentry no name d) = 16" "dentry_no (make_dentry no name d) = ucast no"
  "strncmp x (dentry_name (make_dentry no name d)) 14 = 0 \<longleftrightarrow> strncmp x (cstr name) 14 = 0"
proof -
  show "length (make_dentry no name d) = 16" by (simp add: make_dentry_def FILE_NAME_MAX_LENGTH_def)
  have "le_word (le_bytes 2 w) = w" for w :: u16 by (rule le_word_le_bytes) simp
  then show "dentry_no (make_dentry no name d) = ucast no" by (simp add: make_dentry_def dentry_no_def)
  have "dentry_name (make_dentry no name d) i = strncpy (dentry_name d) (cstr name) 14 i" if "i < 14" for i
    using that by (simp add: make_dentry_def dentry_name_def cstr_def FILE_NAME_MAX_LENGTH_def)
  then have "strncmp x (dentry_name (make_dentry no name d)) 14 = 0 \<longleftrightarrow> strncmp x (strncpy (dentry_name d) (cstr name) 14) 14 = 0"
    by (simp add: strncmp_zero)
  then show "strncmp x (dentry_name (make_dentry no name d)) 14 = 0 \<longleftrightarrow> strncmp x (cstr name) 14 = 0"
    by (simp add: strncmp_strncpy)
qed

lemma dir_slot_le: "dir_slot ds \<le> length ds"
  by (cases "find_from (\<lambda>i. dentry_no (ds ! i) = 0) 0 (length ds)") (auto simp: dir_slot_def dest: find_from_Some [THEN iffD1])

lemma dir_slot_free: "dir_slot ds < length ds \<Longrightarrow> dentry_no (ds ! dir_slot ds) = 0"
  by (cases "find_from (\<lambda>i. dentry_no (ds ! i) = 0) 0 (length ds)") (auto simp: dir_slot_def dest: find_from_Some [THEN iffD1])

lemma dir_find_cong:
  assumes "length ds' = length ds" and "\<And>j. j < length ds \<Longrightarrow> name_matches x (ds' ! j) \<longleftrightarrow> name_matches x (ds ! j)"
  shows "dir_find x ds' = dir_find x ds"
proof -
  have "find_from (\<lambda>i. name_matches x (ds' ! i)) i (length ds) = find_from (\<lambda>i. name_matches x (ds ! i)) i (length ds)" for i
    using assms(2)
  proof (induction "length ds - i" arbitrary: i)
    case 0
    then show ?case by (simp add: find_from.simps [of _ i])
  next
    case (Suc r)
    then have "find_from (\<lambda>i. name_matches x (ds' ! i)) (Suc i) (length ds) = find_from (\<lambda>i. name_matches x (ds ! i)) (Suc i) (length ds)" by simp
    then show ?case using Suc.prems by (simp add: find_from.simps [of _ i])
  qed
  then show ?thesis using assms(1) by (simp add: dir_find_def)
qed

lemma dir_find_Some: "dir_find x ds = Some i \<longleftrightarrow> i < length ds \<and> name_matches x (ds ! i) \<and> (\<forall>j < i. \<not> name_matches x (ds ! j))"
  by (auto simp: dir_find_def find_from_Some)

lemma dir_find_None: "dir_find x ds = None \<longleftrightarrow> (\<forall>j < length ds. \<not> name_matches x (ds ! j))"
  by (auto simp: dir_find_def find_from_None)

text \<open>Entering a new name at the free slot makes it visible and leaves the other names where they are.\<close>

lemma dir_find_put:
  assumes new: "dir_find name ds = None" and no: "(ucast no :: u16) \<noteq> 0"
  shows "dir_find x (dir_put (dir_slot ds) (make_dentry no name d) ds)
    = (if strncmp (cstr x) (cstr name) 14 = 0 then Some (dir_slot ds) else dir_find x ds)"
proof -
  let ?i = "dir_slot ds" and ?d = "make_dentry no name d"
  let ?ds = "dir_put ?i ?d ds"
  have match: "name_matches x ?d \<longleftrightarrow> strncmp (cstr x) (cstr name) 14 = 0" for x
    using no by (simp add: name_matches_def make_dentry_props)
  have old: "j \<noteq> ?i \<Longrightarrow> j < length ds \<Longrightarrow> ?ds ! j = ds ! j" "?ds ! ?i = ?d" for j
    using dir_slot_le [of ds] by (auto simp: dir_put_def nth_append)
  have len: "?i < length ?ds" "j < length ?ds \<Longrightarrow> j = ?i \<or> j < length ds" "j < length ds \<Longrightarrow> j < length ?ds" for j
    using dir_slot_le [of ds] by (auto simp: dir_put_def split: if_splits)
  have slot: "\<not> name_matches x (ds ! ?i)" if "?i < length ds" for x
    using dir_slot_free [OF that] by (simp add: name_matches_def)
  show ?thesis
  proof (cases "strncmp (cstr x) (cstr name) 14 = 0")
    case True
    then have "name_matches x d' \<longleftrightarrow> name_matches name d'" for d' using strncmp_cong [OF True] by (simp add: name_matches_def)
    then have "\<not> name_matches x (ds ! j)" if "j < length ds" for j using new that by (simp add: dir_find_None)
    then have "\<not> name_matches x (?ds ! j)" if "j < ?i" for j using that old(1) [of j] dir_slot_le [of ds] by simp
    then have "dir_find x ?ds = Some ?i" using len(1) old(2) match True by (simp add: dir_find_Some)
    then show ?thesis using True by simp
  next
    case False
    have eq: "name_matches x (?ds ! j) \<longleftrightarrow> j < length ds \<and> name_matches x (ds ! j)" if "j < length ?ds" for j
      using old match False slot len(2) [OF that] by (cases "j = ?i") auto
    show ?thesis
    proof (cases "dir_find x ds")
      case None
      then have "dir_find x ?ds = None" using eq by (simp add: dir_find_None)
      then show ?thesis using False None by simp
    next
      case (Some i)
      then have "i < length ?ds" "name_matches x (?ds ! i)" "\<forall>j < i. \<not> name_matches x (?ds ! j)"
        using eq len(3) by (auto simp: dir_find_Some)
      then have "dir_find x ?ds = Some i" by (simp add: dir_find_Some)
      then show ?thesis using False Some by simp
    qed
  qed
qed

text \<open>The operation and memory that inserting an entry and looking up another afterwards need.\<close>

definition insert_ready :: "bcache \<Rightarrow> nat \<Rightarrow> itree \<Rightarrow> ptr \<Rightarrow> bool" where
  "insert_ready b k s ip \<longleftrightarrow>
     (let i = dir_slot (dir_of s ip); K = 2 * Suc (length (dir_of s ip)) + k
      in dir_ready b (Suc (map_cost b) + Suc K) s ip \<and> write_ready b K s ip (16 * i) (16 * i + 16)
         \<and> unat (num_bytes (entry s ip)) + 16 < 65536)"

lemma inode_insert_effect:
  assumes "insert_ready b k s ip"
  obtains e' t' d where "inode_insert ip name no s
      = Inr (of_nat (dir_slot (dir_of s ip)), (set_entry ip (\<lambda>_. e') s)\<lparr>it_txn := t'\<rparr>)"
    "dir_of ((set_entry ip (\<lambda>_. e') s)\<lparr>it_txn := t'\<rparr>) ip = dir_put (dir_slot (dir_of s ip)) (make_dentry no name d) (dir_of s ip)"
    "dir_ready b k ((set_entry ip (\<lambda>_. e') s)\<lparr>it_txn := t'\<rparr>) ip"
proof -
  let ?i = "dir_slot (dir_of s ip)" and ?K = "2 * Suc (length (dir_of s ip)) + k" and ?n = "unat (num_bytes (entry s ip)) div 16"
  have r: "dir_ready b (Suc (map_cost b) + Suc ?K) s ip" "write_ready b ?K s ip (16 * ?i) (16 * ?i + 16)"
    "unat (num_bytes (entry s ip)) + 16 < 65536"
    using assms by (simp_all add: insert_ready_def Let_def)
  have d: "e_type (entry s ip) = INODE_DIRECTORY" "16 dvd unat (num_bytes (entry s ip))"
    "txn_ok b (2 * ?n + (Suc (map_cost b) + Suc ?K)) (it_txn s)"
    "backed (t_view (it_txn s)) (t_held (it_txn s)) (entry s ip) (unat (num_bytes (entry s ip)))"
    using r(1) by (simp_all add: dir_ready_def)
  have l: "length ([] :: u8 list) \<le> 16" "0 + ?n = ?n" by simp_all
  from free_dentry_ok [OF d(1) l(2) d(3) l(1) d(4)] obtain d' t1 where
    t1: "free_dentry ip (map ((*) 16) [0 ..< 0 + ?n]) (16 * 0) [] s
        = Inr ((16 * (case find_from (\<lambda>i. dentry_no (dir_of s ip ! i) = 0) 0 (0 + ?n) of Some i \<Rightarrow> i | None \<Rightarrow> 0 + ?n), d'), s\<lparr>it_txn := t1\<rparr>)"
      "txn_step b (Suc (map_cost b) + Suc ?K) (it_txn s) t1" "t_view t1 = t_view (it_txn s)" "t_recs t1 = t_recs (it_txn s)" by blast
  let ?s1 = "s\<lparr>it_txn := t1\<rparr>" and ?d = "make_dentry no name d'"
  have slot: "free_dentry ip (dir_offsets ip s) 0 [] s = Inr ((16 * ?i, d'), ?s1)"
    using t1(1) by (simp add: dir_offsets_eq [OF d(2)] dir_slot_def length_dir_of cong: option.case_cong)
  have i: "?i \<le> ?n" using dir_slot_le [of "dir_of s ip"] by (simp add: length_dir_of)
  have small: "16 * ?i + 16 < 65536" using i d(2) r(3) by auto
  have ready: "write_ready b ?K ?s1 ip (16 * ?i) (16 * ?i + 16)"
    using write_ready_step [OF r(2) _ t1(3,4)] t1(2) by (simp add: io_rounds_dentry)
  have dir1: "dir_of ?s1 ip = dir_of s ip" by (simp add: dir_of_def t1(3))
  have dvd1: "16 dvd unat (num_bytes (entry ?s1 ip))" using d(2) by simp
  from dvd1 ready make_dentry_props(1) small obtain e' t' where
    w: "inode_write ip ?d (of_nat (16 * ?i)) ?s1 = Inr (16, (set_entry ip (\<lambda>_. e') ?s1)\<lparr>it_txn := t'\<rparr>)"
      "write_result b ?K ?s1 ip (16 * ?i) ?d e' t'" "dir_of ((set_entry ip (\<lambda>_. e') ?s1)\<lparr>it_txn := t'\<rparr>) ip = dir_put ?i ?d (dir_of ?s1 ip)"
    by (rule write_dentry)
  have eq: "(set_entry ip (\<lambda>_. e') ?s1)\<lparr>it_txn := t'\<rparr> = (set_entry ip (\<lambda>_. e') s)\<lparr>it_txn := t'\<rparr>"
    by (simp add: set_entry_def upd_inode_def)
  have "inode_insert ip name no s = Inr (of_nat ?i, (set_entry ip (\<lambda>_. e') s)\<lparr>it_txn := t'\<rparr>)"
    unfolding inode_insert_def using d(1) slot w(1) eq by (simp add: sizeof_DirEntry_def)
  moreover have "dir_ready b k ((set_entry ip (\<lambda>_. e') s)\<lparr>it_txn := t'\<rparr>) ip"
  proof -
    have small': "16 * ?i + length ?d < 65536" using small by (simp add: make_dentry_props)
    have "write_ready b ?K ?s1 ip (16 * ?i) (16 * ?i + length ?d)" using ready by (simp add: make_dentry_props)
    note B = write_backed [OF this w(2) small']
    have e': "e_type e' = INODE_DIRECTORY" "num_bytes e' = grown (entry s ip) (16 * ?i + 16)" "txn_ok b ?K t'"
      using w(2) d(1) by (simp_all add: write_result_def Let_def txn_step_def make_dentry_props)
    have sz: "unat (num_bytes e') = max (unat (num_bytes (entry s ip))) (16 * ?i + 16)"
      unfolding e'(2) using small by (auto simp: unat_grown)
    have "unat (num_bytes e') div 16 \<le> Suc (length (dir_of s ip))" "16 dvd unat (num_bytes e')"
      unfolding sz length_dir_of using i d(2) by (auto simp: max_def)
    then show ?thesis
      using B e'(1) bs.ok_mono [OF e'(3), of "2 * (unat (num_bytes e') div 16) + k"] by (simp add: dir_ready_def set_entry_def upd_inode_def)
  qed
  ultimately show thesis using w(3) unfolding eq dir1 by (intro that [of t' e' d'])
qed

lemma inode_remove_effect:
  assumes "dir_ready b 0 s ip" and "write_ready b k s ip (16 * i) (16 * i + 16)" and "i < length (dir_of s ip)"
    and "unat (num_bytes (entry s ip)) < 65536"
  obtains s' where "inode_remove ip (of_nat i) s = Inr s'" "dir_of s' ip = (dir_of s ip)[i := replicate 16 0]"
proof -
  let ?n = "unat (num_bytes (entry s ip))"
  have d: "e_type (entry s ip) = INODE_DIRECTORY" "16 dvd ?n" using assms(1) by (simp_all add: dir_ready_def)
  have i: "16 * i + 16 \<le> ?n" using assms(3) unfolding length_dir_of by auto
  then have small: "16 * i + 16 < 65536" using assms(4) by simp
  have off: "(of_nat i :: u64) * of_nat sizeof_DirEntry = of_nat (16 * i)" by (simp add: sizeof_DirEntry_def)
  have "unat (of_nat (16 * i) :: u64) = 16 * i" using small by (intro unat_of_nat_ptr) simp
  then have "\<not> (of_nat (16 * i) :: u64) \<ge> ucast (num_bytes (entry s ip))"
    using i by (simp add: word_le_nat_alt unat_ucast_u32 del: of_nat_mult)
  moreover from d(2) assms(2) length_replicate small obtain e' t' where
    "inode_write ip (replicate 16 0) (of_nat (16 * i)) s = Inr (16, (set_entry ip (\<lambda>_. e') s)\<lparr>it_txn := t'\<rparr>)"
    "dir_of ((set_entry ip (\<lambda>_. e') s)\<lparr>it_txn := t'\<rparr>) ip = dir_put i (replicate 16 0) (dir_of s ip)"
    by (rule write_dentry)
  ultimately show thesis
    using d(1) assms(3) off by (intro that [of "(set_entry ip (\<lambda>_. e') s)\<lparr>it_txn := t'\<rparr>"])
      (simp_all add: inode_remove_def dir_put_def sizeof_DirEntry_def del: of_nat_mult)
qed

text \<open>Clearing the entry of a name that occurs once hides that name and no other.\<close>

lemma dir_find_clear:
  assumes i: "dir_find name ds = Some i" and once: "\<And>j. j < length ds \<Longrightarrow> name_matches name (ds ! j) \<Longrightarrow> j = i"
  shows "dir_find x (ds[i := replicate 16 0]) = (if strncmp (cstr x) (cstr name) 14 = 0 then None else dir_find x ds)"
proof -
  let ?ds = "ds[i := replicate 16 0]"
  have zero: "\<not> name_matches y (replicate 16 0)" for y
    by (simp add: name_matches_def dentry_no_def numeral_2_eq_2)
  have m: "name_matches name (ds ! i)" "i < length ds" using i by (simp_all add: dir_find_Some)
  have eq: "name_matches x (?ds ! j) \<longleftrightarrow> j \<noteq> i \<and> name_matches x (ds ! j)" if "j < length ds" for j
    using that zero by (cases "j = i") auto
  show ?thesis
  proof (cases "strncmp (cstr x) (cstr name) 14 = 0")
    case True
    then have "name_matches x d \<longleftrightarrow> name_matches name d" for d using strncmp_cong [OF True] by (simp add: name_matches_def)
    then have "dir_find x ?ds = None" using eq once by (auto simp: dir_find_None)
    with True show ?thesis by simp
  next
    case False
    have "\<not> name_matches x (ds ! i)"
      using m(1) False strncmp_cong [of "cstr name" "dentry_name (ds ! i)" 14 "cstr x"] strncmp_cong [of "cstr x" "dentry_name (ds ! i)" 14 "cstr name"]
        strncmp_cong [of "cstr name" "dentry_name (ds ! i)" 14 "cstr name"]
        strncmp_cong [of "cstr x" "dentry_name (ds ! i)" 14 "cstr x"]
      by (auto simp: name_matches_def)
    then have "dir_find x ?ds = dir_find x ds" using eq by (intro dir_find_cong) auto
    with False show ?thesis by simp
  qed
qed

section \<open>Splitting paths\<close>

text \<open>The elements of a path: what is left of its pieces between slashes when the empty ones are dropped.\<close>

fun split_path :: "u8 list \<Rightarrow> u8 list list" where
  "split_path [] = [[]]"
| "split_path (c # cs) = (if c = 47 then [] # split_path cs else (c # hd (split_path cs)) # tl (split_path cs))"

definition path_elems :: "u8 list \<Rightarrow> u8 list list" where
  "path_elems path = filter (\<lambda>e. e \<noteq> []) (split_path path)"

lemma split_path_nonempty [simp]: "split_path p \<noteq> []"
  by (induction p) auto

lemma path_elems_slash [simp]: "path_elems (47 # p) = path_elems p"
  by (simp add: path_elems_def)

lemma path_elems_skip: "path_elems (dropWhile ((=) 47) p) = path_elems p"
  by (induction p) auto

lemma split_path_elem:
  "split_path p = takeWhile ((\<noteq>) 47) p # (case dropWhile ((\<noteq>) 47) p of [] \<Rightarrow> [] | _ # q \<Rightarrow> split_path q)"
  by (induction p) auto

lemma path_elems_elem: "takeWhile ((\<noteq>) 47) p \<noteq> [] \<Longrightarrow> path_elems p = takeWhile ((\<noteq>) 47) p # path_elems (dropWhile ((\<noteq>) 47) p)"
proof -
  assume *: "takeWhile ((\<noteq>) 47) p \<noteq> []"
  show ?thesis
  proof (cases "dropWhile ((\<noteq>) 47) p")
    case Nil
    have "split_path p = [takeWhile ((\<noteq>) 47) p]" by (subst split_path_elem) (simp only: Nil list.case)
    then show ?thesis unfolding path_elems_def Nil using * by simp
  next
    case (Cons c q)
    then have "c = 47" using hd_dropWhile [of "(\<noteq>) 47" p] by auto
    then show ?thesis using * Cons split_path_elem [of p] by (simp add: path_elems_def)
  qed
qed

lemma skipelem_elems:
  "case skipelem path of None \<Rightarrow> path_elems path = []
   | Some (name, rest) \<Rightarrow> \<exists>e. path_elems path = e # path_elems rest \<and> name = take 14 e"
proof (cases "dropWhile ((=) 47) path = []")
  case True
  then have "skipelem path = None" "path_elems path = []"
    using path_elems_skip [of path] by (simp_all only: skipelem_def Let_def if_True) (simp_all add: path_elems_def)
  then show ?thesis by simp
next
  case False
  let ?p = "dropWhile ((=) 47) path"
  have "takeWhile ((\<noteq>) 47) ?p \<noteq> []" using False hd_dropWhile [OF False] by (cases ?p) auto
  then have "path_elems path = takeWhile ((\<noteq>) 47) ?p # path_elems (dropWhile ((=) 47) (dropWhile ((\<noteq>) 47) ?p))"
    using path_elems_elem [of ?p] unfolding path_elems_skip by blast
  moreover have "skipelem path = Some (take 14 (takeWhile ((\<noteq>) 47) ?p), dropWhile ((=) 47) (dropWhile ((\<noteq>) 47) ?p))"
    using False by (simp only: skipelem_def Let_def FILE_NAME_MAX_LENGTH_def if_False)
  ultimately show ?thesis by simp
qed

text \<open>The names that repeated calls yield, as the loop of \<^verbatim>\<open>namex\<close> makes them.\<close>

fun names_of :: "nat \<Rightarrow> u8 list \<Rightarrow> u8 list list option" where
  "names_of 0 path = None"
| "names_of (Suc n) path = (case skipelem path of None \<Rightarrow> Some [] | Some (name, rest) \<Rightarrow> map_option ((#) name) (names_of n rest))"

section \<open>Properties\<close>

text \<open>A directory with room for entries, in the sample file system.\<close>

definition sample_dir :: itree where
  "sample_dir = set_entry 0x9000 (\<lambda>e. e\<lparr>e_type := INODE_DIRECTORY\<rparr>) sample_tree"

lemma sample_dir_simps:
  "it_txn sample_dir = it_txn sample_tree" "entry sample_dir 0x9000 = sample_file\<lparr>e_type := INODE_DIRECTORY\<rparr>"
  "dir_of sample_dir 0x9000 = []"
proof -
  show e: "it_txn sample_dir = it_txn sample_tree" "entry sample_dir 0x9000 = sample_file\<lparr>e_type := INODE_DIRECTORY\<rparr>"
    by (simp_all add: sample_dir_def set_entry_def upd_inode_def sample_tree_def)
  have "length (dir_of sample_dir 0x9000) = 0" unfolding length_dir_of e by (simp add: sample_file_def zero_entry_def)
  then show "dir_of sample_dir 0x9000 = []" by simp
qed

lemma file_block_type [simp]:
  "file_block v (e\<lparr>e_type := y\<rparr>) = file_block v e" "file_blocks v (e\<lparr>e_type := y\<rparr>) = file_blocks v e"
  "log_load b t (e\<lparr>e_type := y\<rparr>) = log_load b t e"
  by (simp_all add: file_block_def fun_eq_iff file_blocks_def log_load_def indirects_def)

lemma wf_file_type:
  assumes "wf_file b t e"
  shows "wf_file b t (e\<lparr>e_type := y\<rparr>)"
proof -
  have same: "addrs (e\<lparr>e_type := y\<rparr>) = addrs e" by simp
  show ?thesis unfolding wf_file_def file_block_type same by (rule assms [unfolded wf_file_def])
qed

lemma write_ready_type:
  assumes "write_ready b k s ip off n" and "y \<noteq> INODE_DEVICE"
  shows "write_ready b k (set_entry ip (\<lambda>e. e\<lparr>e_type := y\<rparr>) s) ip off n"
proof -
  let ?s = "set_entry ip (\<lambda>e. e\<lparr>e_type := y\<rparr>) s"
  have s: "it_txn ?s = it_txn s" "entry ?s ip = (entry s ip)\<lparr>e_type := y\<rparr>" "i_no (it_inode ?s ip) = i_no (it_inode s ip)"
    "i_valid (it_inode ?s ip) = i_valid (it_inode s ip)" "num_bytes ((entry s ip)\<lparr>e_type := y\<rparr>) = num_bytes (entry s ip)"
    "e_type ((entry s ip)\<lparr>e_type := y\<rparr>) = y"
    by (simp_all add: set_entry_def upd_inode_def)
  show ?thesis unfolding write_ready_def s file_block_type
    using assms wf_file_type [of b "it_txn s" "entry s ip" y] unfolding write_ready_def by blast
qed

lemma sample_dir_ready: "insert_ready sample_fs 38 sample_dir 0x9000"
proof -
  have slot: "dir_slot [] = 0" by (simp add: dir_slot_def)
  have W: "write_ready sample_fs 40 sample_tree 0x9000 0 16" by (rule sample_write_ready) simp
  have "INODE_DIRECTORY \<noteq> INODE_DEVICE" by (simp add: inode_consts)
  then have W': "write_ready sample_fs 40 sample_dir 0x9000 0 16"
    unfolding sample_dir_def by (rule write_ready_type [OF W])
  have "txn_ok sample_fs (Suc (map_cost sample_fs) + Suc 40) (it_txn sample_tree)"
    by (rule bs.ok_mono [OF sample_tree_ok]) (simp add: map_cost_def sample_fs_bits(1))
  moreover have "backed v H (sample_file\<lparr>e_type := INODE_DIRECTORY\<rparr>) 0" for v H
    by (simp add: backed_def sample_file_def zero_entry_def INODE_NUM_DIRECT_def)
  ultimately have "dir_ready sample_fs (Suc (map_cost sample_fs) + Suc 40) sample_dir 0x9000"
    unfolding dir_ready_def sample_dir_simps by (simp add: sample_file_def zero_entry_def)
  then show ?thesis
    using W' unfolding insert_ready_def sample_dir_simps slot Let_def by (simp add: sample_file_def zero_entry_def)
qed

text \<open>
  C9: entering a new name in a directory that is ready for it returns the index of the first free slot, or
  of a new one, and afterwards a lookup of that name (of the same first 14 characters) finds
  the inode number at that index, while the lookup of any other name gives what it gave before.
\<close>

theorem inode_insert_lookup:
  assumes "insert_ready b k s ip" and "dir_find name (dir_of s ip) = None" and "(ucast no :: u16) \<noteq> 0"
  shows "\<exists>s1. inode_insert ip name no s = Inr (of_nat (dir_slot (dir_of s ip)), s1)
    \<and> (\<forall>x. \<exists>s2. inode_lookup ip x s1 = Inr (
          (if strncmp (cstr x) (cstr name) 14 = 0 then (ucast (ucast no :: u16), Some (of_nat (dir_slot (dir_of s ip))))
           else case dir_find x (dir_of s ip) of
             Some i \<Rightarrow> (ucast (dentry_no (dir_of s ip ! i)), Some (of_nat i)) | None \<Rightarrow> (0, None)), s2))"
proof -
  let ?ds = "dir_of s ip"
  from assms(1) obtain e' t' d where r: "inode_insert ip name no s
      = Inr (of_nat (dir_slot ?ds), (set_entry ip (\<lambda>_. e') s)\<lparr>it_txn := t'\<rparr>)"
    "dir_of ((set_entry ip (\<lambda>_. e') s)\<lparr>it_txn := t'\<rparr>) ip = dir_put (dir_slot ?ds) (make_dentry no name d) ?ds"
    "dir_ready b k ((set_entry ip (\<lambda>_. e') s)\<lparr>it_txn := t'\<rparr>) ip"
    by (rule inode_insert_effect)
  let ?s1 = "(set_entry ip (\<lambda>_. e') s)\<lparr>it_txn := t'\<rparr>" and ?new = "dir_put (dir_slot ?ds) (make_dentry no name d) ?ds"
  have at: "?new ! dir_slot ?ds = make_dentry no name d" using dir_slot_le [of ?ds] by (auto simp: dir_put_def nth_append)
  have old: "?new ! i = ?ds ! i" if "dir_find x ?ds = Some i" for x i
    using that dir_slot_free [of ?ds] by (auto simp: dir_find_Some name_matches_def dir_put_def nth_append nth_list_update)
  have "\<exists>s2. inode_lookup ip x ?s1 = Inr (
          (if strncmp (cstr x) (cstr name) 14 = 0 then (ucast (ucast no :: u16), Some (of_nat (dir_slot ?ds)))
           else case dir_find x ?ds of
             Some i \<Rightarrow> (ucast (dentry_no (?ds ! i)), Some (of_nat i)) | None \<Rightarrow> (0, None)), s2)" for x
  proof -
    from r(3) obtain t2 where "inode_lookup ip x ?s1 = Inr ((case dir_find x ?new of
          Some i \<Rightarrow> (ucast (dentry_no (?new ! i)), Some (of_nat i)) | None \<Rightarrow> (0, None)), ?s1\<lparr>it_txn := t2\<rparr>)"
      unfolding r(2) [symmetric] by (rule inode_lookup_effect)
    then show ?thesis
      using old [of x] unfolding dir_find_put [OF assms(2,3)]
      by (intro exI [of _ "?s1\<lparr>it_txn := t2\<rparr>"]) (auto simp: at make_dentry_props split: option.split)
  qed
  then show ?thesis using r(1) by blast
qed

theorem inode_insert_lookup_witness:
  "\<exists>s1. inode_insert 0x9000 [97, 98] 7 sample_dir = Inr (0, s1) \<and> (\<exists>s2. inode_lookup 0x9000 [97, 98] s1 = Inr ((7, Some 0), s2))"
proof -
  have none: "dir_find [97, 98] (dir_of sample_dir 0x9000) = None" "dir_slot [] = 0"
    by (simp_all add: sample_dir_simps dir_find_def dir_slot_def)
  have "(ucast (7 :: u64) :: u16) \<noteq> 0" "(ucast (ucast (7 :: u64) :: u16) :: u64) = 7" by simp_all
  then show ?thesis
    using inode_insert_lookup [OF sample_dir_ready none(1), of 7] none(2) unfolding sample_dir_simps
    by (auto dest: spec [of _ "[97, 98]"])
qed

text \<open>
  C10: repeated calls of \<^verbatim>\<open>skipelem\<close>, until it reports that no element is left, yield the elements of the path,
  the pieces between runs of slashes, each cut to 14 characters, after at most as many
  calls as the path has characters and one more.
\<close>

theorem skipelem_splits: "names_of (Suc (length path)) path = Some (map (take 14) (path_elems path))"
proof -
  have "length path < n \<Longrightarrow> names_of n path = Some (map (take 14) (path_elems path))" for n
  proof (induction n arbitrary: path)
    case (Suc n)
    show ?case
    proof (cases "skipelem path")
      case None
      then have "path_elems path = []" using skipelem_elems [of path] by simp
      with None show ?thesis by simp
    next
      case (Some p)
      obtain name rest where p: "p = (name, rest)" by fastforce
      obtain e where "path_elems path = e # path_elems rest" "name = take 14 e" using skipelem_elems [of path] Some p by auto
      moreover have "length rest < n" using skipelem_shorter [of path name rest] Some p Suc.prems by simp
      ultimately show ?thesis using Some p Suc.IH [of rest] by simp
    qed
  qed simp
  then show ?thesis by (simp del: names_of.simps)
qed

end
