(* ===== verification/Mkfs.thy ===== *)
theory Mkfs
  imports Directory
begin

text \<open>
  The program \<^verbatim>\<open>user/mkfs/main.c\<close>, which builds the image of a file system on the host.  The image is a file of sectors, here a
  function from sector numbers with the number of sectors written so far; the calls on it do not fail for reasons of the host.  An input file is
  its path and its bytes, or nothing when it cannot be opened.  Shown: appending to a file extends the content the kernel reads and
  touches no other file, and the finished image holds the given files under the given names, with exactly the blocks in use marked.
\<close>

section \<open>Layout\<close>

definition FSSIZE :: nat where
  "FSSIZE = 1000"

definition NINODES :: nat where
  "NINODES = 200"

definition nbitmap :: nat where
  "nbitmap = FSSIZE div (BLOCK_SIZE * 8) + 1"

definition ninodeblocks :: nat where
  "ninodeblocks = NINODES div INODE_PER_BLOCK + 1"

definition num_log_blocks :: nat where
  "num_log_blocks = LOG_MAX_SIZE"

definition nmeta :: nat where
  "nmeta = 2 + num_log_blocks + ninodeblocks + nbitmap"

lemmas layout_consts = FSSIZE_def NINODES_def nbitmap_def ninodeblocks_def num_log_blocks_def nmeta_def BLOCK_SIZE_def LOG_MAX_SIZE_def
  INODE_PER_BLOCK_def

text \<open>The numbers in the order of their bytes on the disk.\<close>

definition xshort :: "u16 \<Rightarrow> u16" where
  "xshort x = le_word [ucast x, ucast (drop_bit 8 x)]"

definition xint :: "u32 \<Rightarrow> u32" where
  "xint x = le_word [ucast x, ucast (drop_bit 8 x), ucast (drop_bit 16 x), ucast (drop_bit 24 x)]"

definition mk_super :: SuperBlock where
  "mk_super = \<lparr>sb_num_blocks = xint (of_nat FSSIZE), sb_num_data_blocks = xint (of_nat (FSSIZE - nmeta)), sb_num_inodes = xint (of_nat NINODES),
     sb_num_log_blocks = xint (of_nat num_log_blocks), sb_log_start = xint 2, sb_inode_start = xint (of_nat (2 + num_log_blocks)),
     sb_bitmap_start = xint (of_nat (2 + num_log_blocks + ninodeblocks))\<rparr>"

text \<open>The super block as bytes, and the view of a buffer as one.\<close>

definition super_bytes :: "SuperBlock \<Rightarrow> u8 list" where
  "super_bytes sb = concat (map (le_bytes 4) [sb_num_blocks sb, sb_num_data_blocks sb, sb_num_inodes sb, sb_num_log_blocks sb,
     sb_log_start sb, sb_inode_start sb, sb_bitmap_start sb])"

section \<open>Sectors and inodes\<close>

record mkfs =
  mk_disk :: "u64 \<Rightarrow> sector"
  mk_size :: nat
  freeinode :: u32
  freeblock :: u32

definition wsect :: "u32 \<Rightarrow> sector \<Rightarrow> mkfs \<Rightarrow> mkfs" where
  "wsect sec buf s = s\<lparr>mk_disk := (mk_disk s)(ucast sec := buf), mk_size := max (mk_size s) (unat sec + 1)\<rparr>"

definition rsect :: "u32 \<Rightarrow> mkfs \<Rightarrow> sector res" where
  "rsect sec s = (if unat sec < mk_size s then Inr (mk_disk s (ucast sec)) else Inl (Panic ''read''))"

definition IBLOCK :: "u32 \<Rightarrow> u32" where
  "IBLOCK i = i div of_nat INODE_PER_BLOCK + sb_inode_start mk_super"

definition rinode :: "u32 \<Rightarrow> mkfs \<Rightarrow> InodeEntry res" where
  "rinode inum s = bindE (rsect (IBLOCK inum) s) (\<lambda>buf. Inr (get_entry buf (ucast inum)))"

definition winode :: "u32 \<Rightarrow> InodeEntry \<Rightarrow> mkfs \<Rightarrow> mkfs res" where
  "winode inum e s = bindE (rsect (IBLOCK inum) s) (\<lambda>buf. Inr (wsect (IBLOCK inum) (put_entry buf (ucast inum) e) s))"

definition ialloc :: "u16 \<Rightarrow> mkfs \<Rightarrow> (u32 \<times> mkfs) res" where
  "ialloc type s =
     (let inum = freeinode s
      in bindE (winode inum (zero_entry\<lparr>e_type := xshort type, num_links := xshort 1, num_bytes := xint 0\<rparr>) (s\<lparr>freeinode := inum + 1\<rparr>)) (\<lambda>s.
         Inr (inum, s)))"

definition take_block :: "mkfs \<Rightarrow> u32 \<times> mkfs" where
  "take_block s = (xint (freeblock s), s\<lparr>freeblock := freeblock s + 1\<rparr>)"

text \<open>The sector behind block \<open>fbn\<close> of a file, allocated when there is none.\<close>

definition append_map :: "nat \<Rightarrow> InodeEntry \<Rightarrow> mkfs \<Rightarrow> ((u32 \<times> InodeEntry) \<times> mkfs) res" where
  "append_map fbn din s =
     (if fbn < INODE_NUM_DIRECT
      then let (a, s) = (if xint (addrs din ! fbn) = 0 then take_block s else (addrs din ! fbn, s))
           in Inr ((xint a, din\<lparr>addrs := (addrs din)[fbn := a]\<rparr>), s)
      else let (a, s) = (if xint (indirect din) = 0 then take_block s else (indirect din, s)); din = din\<lparr>indirect := a\<rparr>
           in bindE (rsect (xint a) s) (\<lambda>buf.
              let tab = get_addrs buf; i = fbn - INODE_NUM_DIRECT
              in if tab ! i = 0
                 then let (x, s) = take_block s in Inr ((xint x, din), wsect (xint a) (put_addrs (tab[i := x])) s)
                 else Inr ((xint (tab ! i), din), s)))"

function append_loop :: "u8 list \<Rightarrow> u32 \<Rightarrow> InodeEntry \<Rightarrow> mkfs \<Rightarrow> ((u32 \<times> InodeEntry) \<times> mkfs) res" where
  "append_loop p off din s =
     (if p = [] then Inr ((off, din), s)
      else let fbn = unat off div BLOCK_SIZE
           in bindE (assertE (fbn < INODE_MAX_BLOCKS) ''fbn < INODE_MAX_BLOCKS'') (\<lambda>_.
              bindE (append_map fbn din s) (\<lambda>((x, din), s).
              let n1 = min (length p) ((fbn + 1) * BLOCK_SIZE - unat off)
              in bindE (rsect x s) (\<lambda>buf.
                 append_loop (drop n1 p) (off + of_nat n1) din
                   (wsect x (splice (unat off - fbn * BLOCK_SIZE) (take n1 p) buf) s)))))"
  by pat_completeness auto
termination
  by (relation "measure (\<lambda>(p, off, din, s). length p)") (auto simp: BLOCK_SIZE_def dividend_less_div_times)

declare append_loop.simps [simp del]

definition iappend :: "u32 \<Rightarrow> u8 list \<Rightarrow> mkfs \<Rightarrow> mkfs res" where
  "iappend inum p s =
     bindE (rinode inum s) (\<lambda>din.
     bindE (append_loop p (xint (num_bytes din)) din s) (\<lambda>((off, din), s).
     winode inum (din\<lparr>num_bytes := xint off\<rparr>) s))"

section \<open>The bitmap and the whole image\<close>

definition balloc :: "nat \<Rightarrow> mkfs \<Rightarrow> mkfs res" where
  "balloc used s =
     bindE (assertE (used < BLOCK_SIZE * 8) ''used < BSIZE * 8'') (\<lambda>_.
     Inr (wsect (sb_bitmap_start mk_super)
       (fold (\<lambda>i buf. buf[i div 8 := buf ! (i div 8) OR push_bit (i mod 8) 1]) [0 ..< used] (replicate BLOCK_SIZE 0)) s))"

definition mk_dirent :: "u32 \<Rightarrow> u8 list \<Rightarrow> u8 list" where
  "mk_dirent inum name = le_bytes 2 (xshort (ucast inum)) @ take FILE_NAME_MAX_LENGTH (name @ replicate FILE_NAME_MAX_LENGTH 0)"

text \<open>The name under which a path is entered: what follows the last slash, without a leading underscore.\<close>

definition SLASH :: u8 where
  "SLASH = 47"

fun base_name :: "u8 list \<Rightarrow> u8 list" where
  "base_name [] = []"
| "base_name (c # cs) = (if SLASH \<in> set (c # cs) then base_name cs else c # cs)"

definition skip_underscore :: "u8 list \<Rightarrow> u8 list" where
  "skip_underscore name = (case name of [] \<Rightarrow> [] | c # cs \<Rightarrow> if c = 95 then cs else c # cs)"

text \<open>The reads of a whole file with a buffer of one block.\<close>

function pieces :: "u8 list \<Rightarrow> u8 list list" where
  "pieces bs = (if bs = [] then [] else take BLOCK_SIZE bs # pieces (drop BLOCK_SIZE bs))"
  by pat_completeness auto
termination
  by (relation "measure length") (auto simp: BLOCK_SIZE_def)

declare pieces.simps [simp del]

fun append_pieces :: "u32 \<Rightarrow> u8 list list \<Rightarrow> mkfs \<Rightarrow> mkfs res" where
  "append_pieces inum [] s = Inr s"
| "append_pieces inum (p # ps) s = bindE (iappend inum p s) (append_pieces inum ps)"

definition add_file :: "u32 \<Rightarrow> u8 list \<times> u8 list option \<Rightarrow> mkfs \<Rightarrow> mkfs res" where
  "add_file rootino arg s =
     (let name = base_name (fst arg)
      in bindE (assertE (SLASH \<notin> set name) ''index(argv[i], SLASH) == 0'') (\<lambda>_.
         case snd arg of
           None \<Rightarrow> Inl (Panic ''open'')
         | Some bytes \<Rightarrow>
             bindE (ialloc INODE_REGULAR s) (\<lambda>(inum, s).
             bindE (iappend rootino (mk_dirent inum (skip_underscore name)) s) (\<lambda>s.
             append_pieces inum (pieces bytes) s))))"

fun add_files :: "u32 \<Rightarrow> (u8 list \<times> u8 list option) list \<Rightarrow> mkfs \<Rightarrow> mkfs res" where
  "add_files rootino [] s = Inr s"
| "add_files rootino (x # xs) s = bindE (add_file rootino x s) (add_files rootino xs)"

definition blank :: mkfs where
  "blank = fold (\<lambda>i. wsect (of_nat i) (replicate BLOCK_SIZE 0)) [0 ..< FSSIZE]
     \<lparr>mk_disk = \<lambda>_. [], mk_size = 0, freeinode = 1, freeblock = of_nat nmeta\<rparr>"

definition fix_root :: "u32 \<Rightarrow> mkfs \<Rightarrow> mkfs res" where
  "fix_root rootino s =
     bindE (rinode rootino s) (\<lambda>din.
     let off = xint (num_bytes din); off = (off div of_nat BLOCK_SIZE + 1) * of_nat BLOCK_SIZE
     in winode rootino (din\<lparr>num_bytes := xint off\<rparr>) s)"

definition make_fs :: "(u8 list \<times> u8 list option) list \<Rightarrow> mkfs res" where
  "make_fs args =
     (let s = wsect 1 (splice 0 (super_bytes mk_super) (replicate BLOCK_SIZE 0)) blank
      in bindE (ialloc INODE_DIRECTORY s) (\<lambda>(rootino, s).
         bindE (assertE (ucast rootino = ROOT_INODE_NO) ''rootino == ROOT_INODE_NO'') (\<lambda>_.
         bindE (iappend rootino (mk_dirent rootino [46]) s) (\<lambda>s.
         bindE (iappend rootino (mk_dirent rootino [46, 46]) s) (\<lambda>s.
         bindE (add_files rootino args s) (\<lambda>s.
         bindE (fix_root rootino s) (\<lambda>s.
         balloc (unat (freeblock s)) s)))))))"

section \<open>Byte order\<close>

lemma xint_id [simp]: "xint x = x"
proof -
  have "[ucast x, ucast (drop_bit 8 x), ucast (drop_bit 16 x), ucast (drop_bit 24 x)] = le_bytes 4 x"
    by (simp add: le_bytes_def upt_conv_Cons)
  then show ?thesis
    by (simp add: xint_def le_word_le_bytes)
qed

lemma xshort_id [simp]: "xshort x = x"
proof -
  have "[ucast x, ucast (drop_bit 8 x)] = le_bytes 2 x"
    by (simp add: le_bytes_def upt_conv_Cons)
  then show ?thesis
    by (simp add: xshort_def le_word_le_bytes)
qed

section \<open>The files of an image\<close>

text \<open>The number of blocks a file of \<open>n\<close> bytes takes, its indirect block included.\<close>

definition blocks_of :: "nat \<Rightarrow> nat" where
  "blocks_of n = (n + 511) div 512 + (if 6144 < n then 1 else 0)"

text \<open>
  A file in an image whose blocks below \<open>fb\<close> are in use: its blocks are among them and no two indices share one.  Blocks not in
  use are zero.
\<close>

definition mapped_ok :: "(u64 \<Rightarrow> sector) \<Rightarrow> InodeEntry \<Rightarrow> nat \<Rightarrow> bool" where
  "mapped_ok v e fb \<longleftrightarrow> length (addrs e) = 12
     \<and> (\<forall>k \<le> 140. file_block v e k \<noteq> 0 \<longrightarrow> nmeta \<le> unat (file_block v e k) \<and> unat (file_block v e k) < fb)
     \<and> (\<forall>k q. k \<le> 140 \<and> q \<le> 140 \<and> file_block v e k \<noteq> 0 \<and> file_block v e k = file_block v e q \<longrightarrow> k = q)"

definition good_disk :: "(u64 \<Rightarrow> sector) \<Rightarrow> nat \<Rightarrow> bool" where
  "good_disk v fb \<longleftrightarrow> nmeta \<le> fb \<and> fb \<le> FSSIZE \<and> (\<forall>b. unat b < FSSIZE \<longrightarrow> length (v b) = 512)
     \<and> (\<forall>b. fb \<le> unat b \<and> unat b < FSSIZE \<longrightarrow> v b = replicate 512 0)"

definition new_blocks :: "nat \<Rightarrow> nat \<Rightarrow> u64 set" where
  "new_blocks fb fb' = of_nat ` {fb ..< fb'}"

definition map_out :: "(u64 \<Rightarrow> sector) \<Rightarrow> InodeEntry \<Rightarrow> nat \<Rightarrow> nat set \<Rightarrow> (u64 \<Rightarrow> sector) \<Rightarrow> InodeEntry \<Rightarrow> nat \<Rightarrow> bool" where
  "map_out v e fb K v' e' fb' \<longleftrightarrow> mapped_ok v' e' fb' \<and> good_disk v' fb' \<and> fb \<le> fb' \<and> same_head e e'
     \<and> (\<forall>q \<le> 140. file_block v e q \<noteq> 0 \<longrightarrow> file_block v' e' q = file_block v e q)
     \<and> (\<forall>q \<le> 140. file_block v' e' q \<noteq> 0 \<longleftrightarrow> file_block v e q \<noteq> 0 \<or> q \<in> K)
     \<and> file_blocks v' e' \<subseteq> file_blocks v e \<union> new_blocks fb fb'
     \<and> (\<forall>b. v' b \<noteq> v b \<longrightarrow> b \<noteq> 0 \<and> b = file_block v' e' 140)"

lemma FSSIZE_nmeta: "FSSIZE = 1000" "nmeta = 92"
  by (simp_all add: layout_consts)

lemma unat_small: "n < 1000 \<Longrightarrow> unat (of_nat n :: u64) = n" "n < 1000 \<Longrightarrow> unat (of_nat n :: u32) = n"
  by (simp_all add: unat_of_nat)

lemma ucast_small: "n < 1000 \<Longrightarrow> ucast (of_nat n :: u32) = (of_nat n :: u64)"
  by (simp add: unsigned_of_nat take_bit_nat_eq_self)

lemma new_blocksI: "fb \<le> n \<Longrightarrow> n < fb' \<Longrightarrow> of_nat n \<in> new_blocks fb fb'"
  by (auto simp: new_blocks_def)

lemma map_out_refl: "mapped_ok v e fb \<Longrightarrow> good_disk v fb \<Longrightarrow> (\<forall>q \<in> K. q \<le> 140 \<longrightarrow> file_block v e q \<noteq> 0) \<Longrightarrow> map_out v e fb K v e fb"
  by (auto simp: map_out_def same_head_def)

lemma map_out_trans:
  assumes "map_out v e fb K v' e' fb'" "map_out v' e' fb' L v'' e'' fb''"
  shows "map_out v e fb (K \<union> L) v'' e'' fb''"
proof -
  have le: "fb \<le> fb'" "fb' \<le> fb''"
    using assms by (auto simp: map_out_def)
  have keep: "file_block v'' e'' q = file_block v e q" if "q \<le> 140" "file_block v e q \<noteq> 0" for q
    using assms(1,2) that by (simp add: map_out_def)
  have change: "b \<noteq> 0 \<and> b = file_block v'' e'' 140" if "v'' b \<noteq> v b" for b
  proof (cases "v'' b = v' b")
    case True
    with that have "b = file_block v' e' 140" "b \<noteq> 0"
      using assms(1) by (auto simp: map_out_def)
    then show ?thesis
      using assms(2) by (simp add: map_out_def)
  qed (use assms(2) in \<open>simp add: map_out_def\<close>)
  have "file_blocks v'' e'' \<subseteq> file_blocks v e \<union> (new_blocks fb fb' \<union> new_blocks fb' fb'')"
    using assms(1,2) unfolding map_out_def by blast
  also have "new_blocks fb fb' \<union> new_blocks fb' fb'' = new_blocks fb fb''"
    using ivl_disj_un_two(3) [OF le] by (simp add: new_blocks_def image_Un [symmetric])
  finally have "file_blocks v'' e'' \<subseteq> file_blocks v e \<union> new_blocks fb fb''" .
  moreover have "same_head e e''"
    using assms(1,2) by (simp add: map_out_def same_head_def)
  moreover have "file_block v'' e'' q \<noteq> 0 \<longleftrightarrow> file_block v e q \<noteq> 0 \<or> q \<in> K \<union> L" if "q \<le> 140" for q
    using assms(1,2) that by (auto simp: map_out_def)
  ultimately show ?thesis
    using le keep change assms(2) by (simp add: map_out_def)
qed

lemma add_fresh:
  assumes ok: "mapped_ok v e fb" and d: "good_disk v fb" and i: "i \<le> 140" "file_block v e i = 0" "fb < FSSIZE"
    and e': "length (addrs e') = 12" "same_head e e'" and d': "good_disk v' (fb + 1)" "\<forall>b. v' b \<noteq> v b \<longrightarrow> b \<noteq> 0 \<and> b = file_block v' e' 140"
    and new: "\<And>j. j \<le> 140 \<Longrightarrow> file_block v' e' j = (if j = i then of_nat fb else file_block v e j)"
  shows "map_out v e fb {i} v' e' (fb + 1)"
proof -
  have fb: "unat (of_nat fb :: u64) = fb" "(of_nat fb :: u64) \<noteq> 0" "nmeta \<le> fb"
    using d i(3) unat_small(1) [of fb] by (auto simp: FSSIZE_nmeta good_disk_def word_unat_eq_iff)
  have old: "file_block v e j \<noteq> of_nat fb" if "j \<le> 140" for j
    using ok that fb by (auto simp: mapped_ok_def)
  have inj: "j = l" if "j \<le> 140" "l \<le> 140" "file_block v' e' j \<noteq> 0" "file_block v' e' j = file_block v' e' l" for j l
    using that new old ok unfolding mapped_ok_def by (cases "j = i"; cases "l = i") (auto dest: sym)
  have "nmeta \<le> unat (file_block v' e' k) \<and> unat (file_block v' e' k) < fb + 1" if "k \<le> 140" "file_block v' e' k \<noteq> 0" for k
    using that ok fb by (auto simp: new mapped_ok_def less_Suc_eq)
  then have "mapped_ok v' e' (fb + 1)"
    using e'(1) inj unfolding mapped_ok_def by blast
  moreover have "file_blocks v' e' \<subseteq> file_blocks v e \<union> new_blocks fb (fb + 1)"
    using new_blocksI [of fb fb "fb + 1"] new by (auto simp: file_blocks_def split: if_splits)
  ultimately show ?thesis
    using e' d' i fb by (auto simp: map_out_def new)
qed

lemma good_disk_next: "good_disk v fb \<Longrightarrow> fb < FSSIZE \<Longrightarrow> good_disk v (fb + 1)"
  by (simp add: good_disk_def)

lemma mapped_addr:
  assumes "mapped_ok v e fb" "good_disk v fb" "k \<le> 140" "file_block v e k \<noteq> 0"
  shows "unat (file_block v e k) < FSSIZE" "nmeta \<le> unat (file_block v e k)"
  using assms by (auto simp: mapped_ok_def good_disk_def intro: less_le_trans)

lemma append_map_direct:
  assumes ok: "mapped_ok v e fb" "good_disk v fb" "k < 12" and s: "mk_disk s = v" "freeblock s = of_nat fb"
    and room: "file_block v e k = 0 \<Longrightarrow> fb < FSSIZE"
  obtains x e' fb' where "append_map k e s = Inr ((x, e'), s\<lparr>freeblock := of_nat fb'\<rparr>)" "ucast x = file_block v e' k"
    "map_out v e fb {k} v e' fb'" "fb' = fb + (if file_block v e k = 0 then 1 else 0)"
proof (cases "addrs e ! k = 0")
  case True
  then have zero: "file_block v e k = 0" and fb: "fb < FSSIZE" and len: "length (addrs e) = 12"
    using ok room by (auto simp: file_block_def mapped_ok_def)
  let ?e = "e\<lparr>addrs := (addrs e)[k := of_nat fb]\<rparr>"
  have blk: "file_block v ?e j = (if j = k then of_nat fb else file_block v e j)" if "j \<le> 140" for j
    using ok(3) len fb that by (auto simp: file_block_def FSSIZE_nmeta ucast_small)
  have "map_out v e fb {k} v ?e (fb + 1)"
    by (rule add_fresh [OF ok(1,2) _ zero fb]) (use ok(3) len good_disk_next [OF ok(2) fb] blk in \<open>auto simp: same_head_def\<close>)
  moreover have "append_map k e s = Inr ((of_nat fb, ?e), s\<lparr>freeblock := of_nat (fb + 1)\<rparr>)"
    using True ok(3) s by (simp add: append_map_def take_block_def INODE_NUM_DIRECT_def)
  ultimately show ?thesis
    using that [of "of_nat fb" ?e "fb + 1"] zero blk [of k] ok(3) fb by (simp add: FSSIZE_nmeta ucast_small)
next
  case False
  then have nz: "file_block v e k \<noteq> 0" "ucast (addrs e ! k) = file_block v e k"
    using ok(3) by (simp_all add: file_block_def)
  have "append_map k e s = Inr ((addrs e ! k, e), s\<lparr>freeblock := of_nat fb\<rparr>)"
    using False ok(3) s by (simp add: append_map_def INODE_NUM_DIRECT_def)
  then show ?thesis
    using that [of "addrs e ! k" e fb] nz map_out_refl [OF ok(1,2), of "{k}"] by simp
qed

lemma concat_zeros: "concat (replicate n (replicate m x)) = replicate (n * m) x"
  by (induction n) (auto simp: replicate_add)

lemma addrs_of_zeros: "get_addrs (replicate 512 0) = replicate 128 (0 :: u32)"
proof -
  have "le_bytes 4 (0 :: u32) = replicate 4 0"
    by (simp add: le_bytes_def upt_conv_Cons numeral_eq_Suc)
  then have "put_addrs (replicate 128 0) = replicate 512 (0 :: u8)"
    by (simp add: put_addrs_def concat_zeros)
  then show ?thesis
    by (metis get_put_addrs)
qed

text \<open>The indirect block, created when there is none.\<close>

lemma append_indirect:
  assumes ok: "mapped_ok v e fb" "good_disk v fb" and room: "indirect e = 0 \<Longrightarrow> fb < FSSIZE"
  defines "a \<equiv> if indirect e = 0 then of_nat fb else indirect e" and "fb1 \<equiv> fb + (if indirect e = 0 then 1 else 0)"
  shows "map_out v e fb {140} v (e\<lparr>indirect := a\<rparr>) fb1 \<and> a \<noteq> 0 \<and> unat a < FSSIZE
     \<and> (\<forall>q < 140. file_block v (e\<lparr>indirect := a\<rparr>) q = file_block v e q)"
proof (cases "indirect e = 0")
  case True
  then have fb: "fb < FSSIZE" "unat (of_nat fb :: u32) = fb" "nmeta \<le> fb"
    using room unat_small(2) [of fb] ok by (auto simp: FSSIZE_nmeta good_disk_def)
  then have a: "a = of_nat fb" "a \<noteq> 0" "unat a < FSSIZE" "ucast a = (of_nat fb :: u64)"
    using True unat_small by (auto simp: a_def FSSIZE_nmeta ucast_small word_unat_eq_iff)
  have "v (of_nat fb) = replicate 512 0"
    using ok(2) fb unat_small(1) [of fb] by (auto simp: good_disk_def FSSIZE_nmeta)
  then have blk: "file_block v (e\<lparr>indirect := a\<rparr>) q = (if q = 140 then of_nat fb else file_block v e q)" if "q \<le> 140" for q
    using that a True by (auto simp: file_block_def addrs_of_zeros)
  have "file_block v e 140 = 0"
    using True by (simp add: file_block_def)
  then have "map_out v e fb {140} v (e\<lparr>indirect := a\<rparr>) (fb + 1)"
    by (intro add_fresh [OF ok _ _ fb(1)]) (use ok good_disk_next [OF ok(2) fb(1)] blk in \<open>auto simp: same_head_def mapped_ok_def\<close>)
  then show ?thesis
    using a blk True by (auto simp: fb1_def)
next
  case False
  then have nz: "file_block v e 140 \<noteq> 0" "unat (indirect e) = unat (file_block v e 140)"
    by (simp_all add: file_block_def unat_ucast_u32)
  then show ?thesis
    using False mapped_addr(1) [OF ok _ nz(1)] map_out_refl [OF ok, of "{140}"] by (simp add: a_def fb1_def)
qed

lemma append_map_indirect:
  assumes ok: "mapped_ok v e fb" "good_disk v fb" "12 \<le> k" "k < 140" and s: "mk_disk s = v" "freeblock s = of_nat fb" "mk_size s = FSSIZE"
    and fb': "fb' = fb + (if indirect e = 0 then 1 else 0) + (if file_block v e k = 0 then 1 else 0)" "fb' \<le> FSSIZE"
  obtains x v' e' where "append_map k e s = Inr ((x, e'), s\<lparr>mk_disk := v', freeblock := of_nat fb'\<rparr>)" "ucast x = file_block v' e' k"
    "map_out v e fb {140, k} v' e' fb'"
proof -
  define a where "a = (if indirect e = 0 then of_nat fb else indirect e)"
  define fb1 where "fb1 = fb + (if indirect e = 0 then 1 else 0)"
  let ?e = "e\<lparr>indirect := a\<rparr>" and ?tab = "get_addrs (v (ucast a))"
  have "indirect e = 0 \<Longrightarrow> fb < FSSIZE"
    using fb' by (auto split: if_splits)
  from append_indirect [OF ok(1,2) this] have i: "map_out v e fb {140} v ?e fb1" "a \<noteq> 0" "unat a < FSSIZE"
      "\<And>q. q < 140 \<Longrightarrow> file_block v ?e q = file_block v e q"
    by (simp_all add: a_def fb1_def)
  have len: "length (v (ucast a)) = 512"
    using ok(2) i(3) by (simp add: good_disk_def unat_ucast_u32)
  have tab: "length ?tab = 128" "file_block v ?e k = ucast (?tab ! (k - 12))"
    using len i(2) ok by (simp_all add: file_block_def)
  have run: "append_map k e s =
      (if ?tab ! (k - 12) = 0 then Inr ((of_nat fb1, ?e), wsect a (put_addrs (?tab[k - 12 := of_nat fb1])) (s\<lparr>freeblock := of_nat (fb1 + 1)\<rparr>))
       else Inr ((?tab ! (k - 12), ?e), s\<lparr>freeblock := of_nat fb1\<rparr>))"
    using s ok(3) i(3)
    by (cases "indirect e = 0") (simp_all add: append_map_def INODE_NUM_DIRECT_def take_block_def rsect_def a_def fb1_def add.commute)
  show ?thesis
  proof (cases "file_block v e k = 0")
    case True
    then have zero: "?tab ! (k - 12) = 0" "file_block v ?e k = 0" and fb1: "fb' = fb1 + 1" "fb1 < FSSIZE"
      using tab i(4) ok(4) fb' by (auto simp: fb1_def)
    let ?v = "v(ucast a := put_addrs (?tab[k - 12 := of_nat fb1]))"
    have blk: "file_block ?v ?e j = (if j = k then of_nat fb1 else file_block v ?e j)" if "j \<le> 140" for j
      using that ok i(2) tab fb1 by (auto simp: file_block_def FSSIZE_nmeta ucast_small nth_list_update)
    have m1: "mapped_ok v ?e fb1" "good_disk v fb1"
      using i(1) by (auto simp: map_out_def)
    have ind: "file_block w ?e 140 = ucast a" for w
      by (simp add: file_block_def)
    have low: "unat (ucast a :: u64) < fb1"
      using m1(1) i(2) ind unfolding mapped_ok_def by (metis order_refl ucast_u32_zero)
    have "good_disk ?v (fb1 + 1)"
      using good_disk_next [OF m1(2) fb1(2)] low tab by (auto simp: good_disk_def)
    moreover have "\<forall>b. ?v b \<noteq> v b \<longrightarrow> b \<noteq> 0 \<and> b = file_block ?v ?e 140"
      using i(2) by (simp add: ind)
    moreover have "length (addrs ?e) = 12" "same_head ?e ?e" "k \<le> 140"
      using m1 ok by (simp_all add: mapped_ok_def same_head_def)
    ultimately have "map_out v ?e fb1 {k} ?v ?e (fb1 + 1)"
      using add_fresh [OF m1 _ zero(2) fb1(2)] blk by blast
    then have "map_out v e fb {140, k} ?v ?e fb'"
      using map_out_trans [OF i(1)] fb1 by simp
    moreover have "append_map k e s = Inr ((of_nat fb1, ?e), s\<lparr>mk_disk := ?v, freeblock := of_nat fb'\<rparr>)"
      using run zero s i(3) fb1 by (simp add: wsect_def)
    ultimately show ?thesis
      using that [of "of_nat fb1" ?e ?v] blk [of k] ok(4) fb1(2) by (simp add: FSSIZE_nmeta ucast_small)
  next
    case False
    then have nz: "?tab ! (k - 12) \<noteq> 0" "file_block v ?e k \<noteq> 0" "fb' = fb1"
      using tab i(4) ok(4) fb' by (auto simp: fb1_def)
    then have "map_out v e fb {140, k} v ?e fb'"
      using i(1) i(4) False ok(4) by (auto simp: map_out_def)
    then show ?thesis
      using that [of "?tab ! (k - 12)" ?e v] run nz s tab by simp
  qed
qed

lemma append_map_ok:
  assumes ok: "mapped_ok v e fb" "good_disk v fb" "k < 140" and s: "mk_disk s = v" "freeblock s = of_nat fb" "mk_size s = FSSIZE"
    and fb': "fb' = fb + (if 12 \<le> k \<and> indirect e = 0 then 1 else 0) + (if file_block v e k = 0 then 1 else 0)" "fb' \<le> FSSIZE"
  obtains x v' e' where "append_map k e s = Inr ((x, e'), s\<lparr>mk_disk := v', freeblock := of_nat fb'\<rparr>)" "ucast x = file_block v' e' k"
    "map_out v e fb (if k < 12 then {k} else {140, k}) v' e' fb'"
proof (cases "k < 12")
  case True
  have "file_block v e k = 0 \<Longrightarrow> fb < FSSIZE"
    using fb' by (simp split: if_splits)
  from append_map_direct [OF ok(1,2) True s(1,2) this]
  obtain x e' c where c: "append_map k e s = Inr ((x, e'), s\<lparr>freeblock := of_nat c\<rparr>)" "ucast x = file_block v e' k" "map_out v e fb {k} v e' c"
      "c = fb + (if file_block v e k = 0 then 1 else 0)"
    by blast
  moreover have "c = fb'"
    using True by (simp add: c(4) fb'(1))
  ultimately show ?thesis
    using that [of x e' v] True s by simp
next
  case False
  then have k: "12 \<le> k" and c: "fb' = fb + (if indirect e = 0 then 1 else 0) + (if file_block v e k = 0 then 1 else 0)"
    using fb'(1) by simp_all
  from append_map_indirect [OF ok(1,2) k ok(3) s c fb'(2)]
  obtain x v' e' where "append_map k e s = Inr ((x, e'), s\<lparr>mk_disk := v', freeblock := of_nat fb'\<rparr>)" "ucast x = file_block v' e' k"
      "map_out v e fb {140, k} v' e' fb'"
    by blast
  then show ?thesis
    using that [of x e' v'] False by simp
qed

text \<open>
  A file of \<open>n\<close> bytes: exactly the blocks it needs are mapped, and the bytes between its end and the end of its last block are zero.
\<close>

definition covered :: "nat \<Rightarrow> nat" where
  "covered n = 512 * ((n + 511) div 512)"

definition good_file :: "(u64 \<Rightarrow> sector) \<Rightarrow> InodeEntry \<Rightarrow> nat \<Rightarrow> nat \<Rightarrow> bool" where
  "good_file v e n fb \<longleftrightarrow> mapped_ok v e fb \<and> n \<le> 71680
     \<and> (\<forall>k < 140. file_block v e k \<noteq> 0 \<longleftrightarrow> 512 * k < n) \<and> (indirect e \<noteq> 0 \<longleftrightarrow> 6144 < n)
     \<and> (\<forall>i. n \<le> i \<and> i < covered n \<longrightarrow> file_byte v e i = 0)"

definition file_bytes :: "(u64 \<Rightarrow> sector) \<Rightarrow> InodeEntry \<Rightarrow> nat \<Rightarrow> u8 list" where
  "file_bytes v e n = map (file_byte v e) [0 ..< n]"

lemma covered_div:
  assumes "i < covered n"
  shows "512 * (i div 512) < n" "n \<le> 71680 \<Longrightarrow> i div 512 < 140"
proof -
  have "i div 512 < (n + 511) div 512"
    using assms less_mult_imp_div_less [of i "(n + 511) div 512" 512] by (simp add: covered_def mult.commute)
  then have "512 * (i div 512) + 512 \<le> 512 * ((n + 511) div 512)"
    by linarith
  then show *: "512 * (i div 512) < n"
    using times_div_less_eq_dividend [of 512 "n + 511"] by linarith
  then show "n \<le> 71680 \<Longrightarrow> i div 512 < 140"
    by linarith
qed

lemma covered_block: "n = 512 * k + r \<Longrightarrow> 0 < r \<Longrightarrow> r \<le> 512 \<Longrightarrow> covered n = 512 * (k + 1)"
proof -
  assume "n = 512 * k + r" "0 < r" "r \<le> 512"
  then have "(n + 511) div 512 = k + 1"
    by (intro div_nat_eqI) auto
  then show ?thesis
    by (simp add: covered_def)
qed

lemma covered_le: "n \<le> covered n"
  using dividend_less_div_times [of 512 "n + 511"] by (simp add: covered_def)

text \<open>The file \<open>e\<close> of \<open>n\<close> bytes has become \<open>e'\<close> with the bytes \<open>p\<close> behind the old ones; only its own blocks have changed.\<close>

definition app_out :: "(u64 \<Rightarrow> sector) \<Rightarrow> InodeEntry \<Rightarrow> nat \<Rightarrow> nat \<Rightarrow> u8 list \<Rightarrow> (u64 \<Rightarrow> sector) \<Rightarrow> InodeEntry \<Rightarrow> nat \<Rightarrow> bool" where
  "app_out v e n fb p v' e' fb' \<longleftrightarrow> good_file v' e' (n + length p) fb' \<and> good_disk v' fb' \<and> same_head e e'
     \<and> file_bytes v' e' (n + length p) = file_bytes v e n @ p
     \<and> fb' + blocks_of n = fb + blocks_of (n + length p)
     \<and> file_blocks v e \<subseteq> file_blocks v' e' \<and> file_blocks v' e' \<subseteq> file_blocks v e \<union> new_blocks fb fb'
     \<and> (\<forall>b. b \<notin> file_blocks v' e' \<longrightarrow> v' b = v b)"

lemma blocks_of_mono: "n \<le> m \<Longrightarrow> blocks_of n \<le> blocks_of m"
  using div_le_mono [of "n + 511" "m + 511" 512] by (auto simp: blocks_of_def)

lemma blocks_of_step:
  assumes "n < m" "m \<le> 512 * (n div 512 + 1)"
  shows "blocks_of m = blocks_of n + (if n mod 512 = 0 then 1 else 0) + (if n = 6144 then 1 else 0)"
proof -
  define k r where "k = n div 512" and "r = n mod 512"
  then have n: "n = 512 * k + r" "r < 512"
    by simp_all
  have "(m + 511) div 512 = k + 1"
    using assms n by (intro div_nat_eqI) (auto simp: k_def [symmetric])
  moreover have "(n + 511) div 512 = k + (if r = 0 then 0 else 1)"
    using n by (intro div_nat_eqI) auto
  moreover have "6144 < m \<longleftrightarrow> 6144 \<le> n"
    using assms n by (cases "12 \<le> k") (auto simp: k_def [symmetric])
  ultimately show ?thesis
    by (auto simp: blocks_of_def r_def)
qed

lemma app_out_refl: "good_file v e n fb \<Longrightarrow> good_disk v fb \<Longrightarrow> app_out v e n fb [] v e fb"
  by (simp add: app_out_def same_head_def)

lemma app_out_trans:
  assumes 1: "app_out v e n fb p v' e' fb'" and 2: "app_out v' e' (n + length p) fb' q v'' e'' fb''"
  shows "app_out v e n fb (p @ q) v'' e'' fb''"
proof -
  have le: "fb \<le> fb'" "fb' \<le> fb''"
    using 1 2 blocks_of_mono [of n "n + length p"] blocks_of_mono [of "n + length p" "n + length p + length q"] by (auto simp: app_out_def)
  then have "new_blocks fb fb' \<union> new_blocks fb' fb'' = new_blocks fb fb''"
    using ivl_disj_un_two(3) [OF le] by (simp add: new_blocks_def image_Un [symmetric])
  moreover have "file_blocks v'' e'' \<subseteq> file_blocks v e \<union> (new_blocks fb fb' \<union> new_blocks fb' fb'')"
    using 1 2 unfolding app_out_def by blast
  moreover have "v'' b = v b" if "b \<notin> file_blocks v'' e''" for b
    using 1 2 that unfolding app_out_def by (metis subsetD)
  ultimately show ?thesis
    using 1 2 by (auto simp: app_out_def same_head_def add.assoc)
qed

lemma block_range:
  fixes l :: nat
  assumes "n = 512 * k + r" "0 < l" "r + l \<le> 512"
  shows "512 * j < n \<or> j = k \<longleftrightarrow> 512 * j < n + l" "6144 < n \<or> 12 \<le> k \<longleftrightarrow> 6144 < n + l"
proof -
  show "512 * j < n \<or> j = k \<longleftrightarrow> 512 * j < n + l"
    using assms by (cases j k rule: linorder_cases) auto
  show "6144 < n \<or> 12 \<le> k \<longleftrightarrow> 6144 < n + l"
    using assms by (cases "12 \<le> k") auto
qed

lemma add_in_block:
  assumes "n mod 512 + i < (512 :: nat)"
  shows "(n + i) div 512 = n div 512" "(n + i) mod 512 = n mod 512 + i"
proof -
  define a r where "a = n div 512" and "r = n mod 512"
  then have e: "n + i = r + i + 512 * a" "r + i < 512"
    using assms by simp_all
  then show "(n + i) div 512 = n div 512"
    by (simp flip: a_def r_def)
  show "(n + i) mod 512 = n mod 512 + i"
    unfolding e(1) mod_mult_self2 r_def [symmetric] using e(2) by simp
qed

lemma map_out_data:
  assumes m: "map_out v e fb K v1 e' fb'" and k: "k < 140" "file_block v1 e' k \<noteq> 0"
  defines "b \<equiv> file_block v1 e' k"
  shows "b \<noteq> file_block v1 e' 140" "unat b < FSSIZE" "unat b < fb'" "length (v1 b) = 512" "v1 b = v b"
    "good_disk v fb \<Longrightarrow> file_block v e k = 0 \<Longrightarrow> v b = replicate 512 0"
proof -
  have mapped: "mapped_ok v1 e' fb'" and disk: "good_disk v1 fb'"
    using m by (simp_all add: map_out_def)
  show ne: "b \<noteq> file_block v1 e' 140"
    using mapped k unfolding mapped_ok_def b_def by (metis less_imp_le nat_less_le order_refl)
  show r: "unat b < FSSIZE" "unat b < fb'" "length (v1 b) = 512"
    using k mapped_addr [OF mapped disk, of k] mapped disk by (auto simp: mapped_ok_def good_disk_def b_def)
  show "v1 b = v b"
    using m ne by (auto simp: map_out_def)
  assume d: "good_disk v fb" and z: "file_block v e k = 0"
  have "b \<notin> file_blocks v e"
  proof
    assume "b \<in> file_blocks v e"
    then obtain j where j: "j \<le> 140" "file_block v e j = b" "b \<noteq> 0"
      by (auto simp: file_blocks_def)
    then have "file_block v1 e' j = b"
      using m by (simp add: map_out_def)
    then have "j = k"
      using mapped j k unfolding mapped_ok_def b_def by (metis less_imp_le)
    then show False
      using j z by simp
  qed
  moreover have "b \<in> file_blocks v1 e'"
    using k file_blocksI [of k v1 e'] by (simp add: b_def)
  ultimately have "b \<in> new_blocks fb fb'"
    using m unfolding map_out_def by blast
  then have "fb \<le> unat b"
    using disk unat_small(1) by (auto simp: new_blocks_def good_disk_def FSSIZE_nmeta)
  then show "v b = replicate 512 0"
    using d r(1) by (simp add: good_disk_def)
qed

lemma block_room: "n mod 512 + l \<le> (512 :: nat) \<longleftrightarrow> n + l \<le> 512 * (n div 512 + 1)"
proof -
  define k r where "k = n div 512" and "r = n mod 512"
  then have "n = 512 * k + r"
    by simp
  then show ?thesis
    unfolding k_def [symmetric] r_def [symmetric] by auto
qed

lemma block_cut:
  assumes "n1 = min l ((n div 512 + 1) * 512 - n)" "0 < (l :: nat)"
  shows "0 < n1" "n1 \<le> l" "n mod 512 + n1 \<le> 512"
  using assms dividend_less_div_times [of 512 n] unfolding block_room by (auto simp: min_def)

text \<open>The bytes \<open>q\<close> are stored behind the end of a file, in the block \<open>append_map\<close> gave for index \<open>k\<close>.\<close>

definition stored :: "(u64 \<Rightarrow> sector) \<Rightarrow> InodeEntry \<Rightarrow> nat \<Rightarrow> nat \<Rightarrow> nat set \<Rightarrow> (u64 \<Rightarrow> sector) \<Rightarrow> InodeEntry \<Rightarrow> nat \<Rightarrow> nat \<Rightarrow> u8 list
    \<Rightarrow> (u64 \<Rightarrow> sector) \<Rightarrow> bool" where
  "stored v e n fb K v1 e' fb' k q v2 \<longleftrightarrow> good_file v e n fb \<and> good_disk v fb \<and> map_out v e fb K v1 e' fb'
     \<and> k = n div 512 \<and> k < 140 \<and> k \<in> K \<and> K \<subseteq> {k, 140} \<and> (12 \<le> k \<longleftrightarrow> 140 \<in> K) \<and> q \<noteq> [] \<and> n mod 512 + length q \<le> 512
     \<and> v2 = v1(file_block v1 e' k := splice (n mod 512) q (v1 (file_block v1 e' k)))"

lemma storedD:
  assumes "stored v e n fb K v1 e' fb' k q v2"
  shows "good_file v e n fb" "good_disk v fb" "map_out v e fb K v1 e' fb'" "k < 140" "n = 512 * k + n mod 512" "0 < length q"
    "n mod 512 + length q \<le> 512" "mapped_ok v1 e' fb'" "good_disk v1 fb'" "file_block v1 e' k \<noteq> 0"
    "j \<le> 140 \<Longrightarrow> file_block v2 e' j = file_block v1 e' j" "file_blocks v2 e' = file_blocks v1 e'"
    "v2 c = (if c = file_block v1 e' k then splice (n mod 512) q (v1 c) else v1 c)"
proof -
  let ?b = "file_block v1 e' k"
  show f: "good_file v e n fb" "good_disk v fb" "map_out v e fb K v1 e' fb'" "k < 140" "n = 512 * k + n mod 512" "0 < length q"
      "n mod 512 + length q \<le> 512" "mapped_ok v1 e' fb'" "good_disk v1 fb'" "?b \<noteq> 0"
    using assms by (auto simp: stored_def map_out_def)
  show v2: "v2 c = (if c = ?b then splice (n mod 512) q (v1 c) else v1 c)" for c
    using assms by (simp add: stored_def)
  have "?b \<noteq> file_block v1 e' 140"
    by (rule map_out_data(1) [OF f(3,4,10)])
  then show same: "file_block v2 e' j = file_block v1 e' j" if "j \<le> 140" for j
    using that by (intro file_block_view) (auto simp: file_block_def v2)
  then show "file_blocks v2 e' = file_blocks v1 e'"
    unfolding file_blocks_def by (metis (lifting))
qed

lemma stored_old:
  assumes st: "stored v e n fb K v1 e' fb' k q v2" and i: "i < n"
  shows "file_byte v2 e' i = file_byte v e i"
proof -
  note d = storedD [OF st]
  let ?j = "i div 512" let ?c = "file_block v e ?j"
  have j: "?j < 140" "512 * ?j < n"
    using i d(1) covered_div [of i n] covered_le [of n] by (auto simp: good_file_def)
  then have c: "?c \<noteq> 0" "file_block v1 e' ?j = ?c"
    using d(1,3) by (auto simp: good_file_def map_out_def)
  then have v1: "v1 ?c = v ?c"
    using map_out_data(5) [OF d(3) j(1)] by simp
  have "v2 ?c ! (i mod 512) = v ?c ! (i mod 512)"
  proof (cases "?j = k")
    case True
    then have "i mod 512 < n mod 512"
      using i d(5) by (metis add_less_cancel_left mult_div_mod_eq)
    then show ?thesis
      using True c v1 map_out_data(4) [OF d(3,4,10)] d(7) by (simp add: d(13) nth_splice)
  next
    case False
    then have "?c \<noteq> file_block v1 e' k"
      using c d(4,8) j(1) unfolding mapped_ok_def by (metis less_imp_le)
    then show ?thesis
      using v1 by (simp add: d(13))
  qed
  then show ?thesis
    using c d(11) [of ?j] j(1) by (simp add: file_byte_def)
qed

lemma stored_new:
  assumes st: "stored v e n fb K v1 e' fb' k q v2" and i: "i < length q"
  shows "file_byte v2 e' (n + i) = q ! i"
proof -
  note d = storedD [OF st]
  have "n mod 512 + i < 512"
    using d(7) i by linarith
  then have "(n + i) div 512 = k" "(n + i) mod 512 = n mod 512 + i"
    using add_in_block [of n i] st by (auto simp: stored_def)
  then show ?thesis
    using d(4,7) d(11) [of k] map_out_data(4) [OF d(3,4,10)] i by (simp add: file_byte_def d(13) nth_splice)
qed

lemma stored_tail:
  assumes st: "stored v e n fb K v1 e' fb' k q v2" and i: "n + length q \<le> i" "i < covered (n + length q)"
  shows "file_byte v2 e' i = 0"
proof -
  note d = storedD [OF st]
  note b = map_out_data [OF d(3,4,10)]
  let ?b = "file_block v1 e' k"
  have c: "512 * k \<le> n" "covered (n + length q) = 512 * (k + 1)" "512 * k < n \<Longrightarrow> covered n = 512 * (k + 1)"
    using covered_block [OF d(5)] covered_block [of "n + length q" k "n mod 512 + length q"] d(5-7) by auto
  then have k: "i div 512 = k" "i mod 512 = i - 512 * k" "i mod 512 < 512"
    using i minus_mult_div_eq_mod [of i 512] div_nat_eqI [of 512 k i] by auto
  have "n mod 512 + length q \<le> i mod 512"
    using i(1) d(5) k(2) by linarith
  then have "file_byte v2 e' i = v ?b ! (i mod 512)"
    using k d(4,7) d(11) [of k] b(4,5) by (simp add: file_byte_def d(13) nth_splice)
  also have "\<dots> = 0"
  proof (cases "file_block v e k = 0")
    case True
    then show ?thesis
      using b(6) [OF d(2)] k by simp
  next
    case False
    then have "512 * k < n" "?b = file_block v e k"
      using d(1,3,4) by (auto simp: good_file_def map_out_def)
    then have "file_byte v e i = 0"
      using d(1) i c by (auto simp: good_file_def)
    then show ?thesis
      using \<open>?b = file_block v e k\<close> k by (simp add: file_byte_def)
  qed
  finally show ?thesis .
qed

lemma stored_file:
  assumes st: "stored v e n fb K v1 e' fb' k q v2"
  shows "good_file v2 e' (n + length q) fb'"
proof -
  note d = storedD [OF st]
  have "file_block v2 e' j \<noteq> 0 \<longleftrightarrow> 512 * j < n + length q" if "j < 140" for j
  proof -
    have "file_block v1 e' j \<noteq> 0 \<longleftrightarrow> 512 * j < n \<or> j = k"
      using d(1,3) that st by (auto simp: map_out_def good_file_def stored_def)
    then show ?thesis
      using block_range(1) [OF d(5-7), of j] d(11) [of j] that by simp
  qed
  moreover have "indirect e' \<noteq> 0 \<longleftrightarrow> 6144 < n + length q"
  proof -
    have "indirect e' \<noteq> 0 \<longleftrightarrow> file_block v1 e' 140 \<noteq> 0" "indirect e \<noteq> 0 \<longleftrightarrow> file_block v e 140 \<noteq> 0"
      by (simp_all add: file_block_def)
    then have "indirect e' \<noteq> 0 \<longleftrightarrow> 6144 < n \<or> 12 \<le> k"
      using d(1,3) st by (auto simp: map_out_def good_file_def stored_def)
    then show ?thesis
      using block_range(2) [OF d(5-7)] by simp
  qed
  moreover have "mapped_ok v2 e' fb'"
    using d(8,11) by (auto simp: mapped_ok_def)
  moreover have "n + length q \<le> 71680"
    using d(4,5,7) by linarith
  ultimately show ?thesis
    using stored_tail [OF st] by (simp add: good_file_def)
qed

lemma map_out_mono: "map_out v e fb K v1 e' fb' \<Longrightarrow> file_blocks v e \<subseteq> file_blocks v1 e'"
proof
  fix c assume m: "map_out v e fb K v1 e' fb'" and "c \<in> file_blocks v e"
  then obtain j where j: "j \<le> 140" "c = file_block v e j" "c \<noteq> 0"
    by (auto simp: file_blocks_def)
  then have "file_block v1 e' j = c"
    using m by (simp add: map_out_def)
  then show "c \<in> file_blocks v1 e'"
    using file_blocksI [of j v1 e'] j by simp
qed

lemma store_bytes:
  assumes st: "stored v e n fb K v1 e' fb' k q v2" and fb': "fb' + blocks_of n = fb + blocks_of (n + length q)"
  shows "app_out v e n fb q v2 e' fb'"
proof -
  note d = storedD [OF st]
  note b = map_out_data [OF d(3,4,10)]
  have "good_disk v2 fb'"
    using d(7,9) b(3,4) by (auto simp: good_disk_def d(13))
  moreover have "v2 c = v c" if "c \<notin> file_blocks v2 e'" for c
  proof -
    have "c \<noteq> file_block v1 e' k" "v1 c \<noteq> v c \<Longrightarrow> c \<in> file_blocks v1 e'"
      using that d(3,4,10,12) file_blocksI [of k v1 e'] file_blocksI [of 140 v1 e'] by (auto simp: map_out_def)
    then show ?thesis
      using that d(12) by (auto simp: d(13))
  qed
  moreover have "file_bytes v2 e' (n + length q) = file_bytes v e n @ q"
  proof -
    have "[n ..< n + length q] = map (\<lambda>i. n + i) [0 ..< length q]"
      using map_add_upt [of n "length q"] by (simp add: add.commute)
    then have "file_bytes v2 e' (n + length q) = map (file_byte v2 e') [0 ..< n] @ map (\<lambda>i. file_byte v2 e' (n + i)) [0 ..< length q]"
      using upt_add_eq_append [of 0 n "length q"] by (simp add: file_bytes_def)
    also have "map (\<lambda>i. file_byte v2 e' (n + i)) [0 ..< length q] = map ((!) q) [0 ..< length q]"
      using stored_new [OF st] by simp
    finally show ?thesis
      using stored_old [OF st] by (simp add: file_bytes_def map_nth)
  qed
  ultimately show ?thesis
    using stored_file [OF st] fb' d(3,12) map_out_mono [OF d(3)] by (simp add: app_out_def map_out_def)
qed

lemma append_round:
  assumes g: "good_file v e n fb" "good_disk v fb" and s: "mk_disk s = v" "freeblock s = of_nat fb" "mk_size s = FSSIZE"
    and q: "q \<noteq> []" "n mod 512 + length q \<le> 512" "n < 71680"
    and fb': "fb' + blocks_of n = fb + blocks_of (n + length q)" "fb' \<le> FSSIZE"
  obtains x v1 e' v2 where "append_map (n div 512) e s = Inr ((x, e'), s\<lparr>mk_disk := v1, freeblock := of_nat fb'\<rparr>)"
    "unat x < FSSIZE" "v2 = v1(ucast x := splice (n mod 512) q (v1 (ucast x)))" "app_out v e n fb q v2 e' fb'"
proof -
  let ?k = "n div 512" and ?K = "if n div 512 < 12 then {n div 512} else {140, n div 512}"
  have k: "?k < 140"
    using q(3) by simp
  have n: "n = 512 * ?k + n mod 512" "n mod 512 < 512"
    by simp_all
  have z: "file_block v e ?k = 0 \<longleftrightarrow> n mod 512 = 0" "12 \<le> ?k \<and> indirect e = 0 \<longleftrightarrow> n = 6144"
  proof -
    have "512 * ?k < n \<longleftrightarrow> n mod 512 \<noteq> 0" "12 \<le> ?k \<longleftrightarrow> 6144 \<le> n"
      using n by linarith+
    then show "file_block v e ?k = 0 \<longleftrightarrow> n mod 512 = 0" "12 \<le> ?k \<and> indirect e = 0 \<longleftrightarrow> n = 6144"
      using g(1) k by (auto simp: good_file_def)
  qed
  have "n + length q \<le> 512 * (?k + 1)"
    using q(2) unfolding block_room .
  moreover have "n < n + length q"
    using q(1) by simp
  ultimately have "blocks_of (n + length q) = blocks_of n + (if n mod 512 = 0 then 1 else 0) + (if n = 6144 then 1 else 0)"
    using blocks_of_step by blast
  with fb'(1) have c: "fb' = fb + (if 12 \<le> ?k \<and> indirect e = 0 then 1 else 0) + (if file_block v e ?k = 0 then 1 else 0)"
    by (simp only: z)
  have mapped: "mapped_ok v e fb"
    using g(1) by (simp add: good_file_def)
  from append_map_ok [OF mapped g(2) k s c fb'(2)] obtain x v1 e' where
    r: "append_map ?k e s = Inr ((x, e'), s\<lparr>mk_disk := v1, freeblock := of_nat fb'\<rparr>)" "ucast x = file_block v1 e' ?k"
      "map_out v e fb ?K v1 e' fb'"
    by blast
  have "app_out v e n fb q (v1(ucast x := splice (n mod 512) q (v1 (ucast x)))) e' fb'"
    by (rule store_bytes [of _ _ _ _ ?K v1 _ _ ?k]) (use g r(2,3) k q fb' in \<open>auto simp: stored_def\<close>)
  moreover have "unat x < FSSIZE"
    using mapped_addr(1) [of v1 e' fb' ?k] r(2,3) k unat_ucast_u32 [of x] by (auto simp: map_out_def)
  ultimately show ?thesis
    using that [OF r(1)] by simp
qed

lemma append_loop_ok:
  assumes "good_file v e n fb" "good_disk v fb" "mk_disk s = v" "freeblock s = of_nat fb" "mk_size s = FSSIZE"
    "n + length p \<le> 71680" "fb' + blocks_of n = fb + blocks_of (n + length p)" "fb' \<le> FSSIZE"
  shows "\<exists>v' e'. append_loop p (of_nat n) e s = Inr ((of_nat (n + length p), e'), s\<lparr>mk_disk := v', freeblock := of_nat fb'\<rparr>)
     \<and> app_out v e n fb p v' e' fb'"
  using assms
proof (induction p arbitrary: v e n fb s rule: length_induct)
  case (1 p)
  show ?case
  proof (cases "p = []")
    case True
    then show ?thesis
      using 1 app_out_refl [of v e n fb] by (auto simp: append_loop.simps intro!: exI [of _ v] exI [of _ e])
  next
    case False
    define n1 where "n1 = min (length p) ((n div 512 + 1) * 512 - n)"
    have len: "0 < length p"
      using False by simp
    then have n: "n < 71680"
      using "1.prems"(6) by linarith
    have unat: "unat (of_nat n :: u32) = n"
      using n by (simp add: unat_of_nat)
    have n1: "0 < n1" "n1 \<le> length p" "n mod 512 + n1 \<le> 512"
      using block_cut [OF n1_def len] by simp_all
    let ?q = "take n1 p" and ?p = "drop n1 p"
    define fb1 where "fb1 = fb + blocks_of (n + n1) - blocks_of n"
    have fb1: "fb1 + blocks_of n = fb + blocks_of (n + length ?q)" "fb' + blocks_of (n + n1) = fb1 + blocks_of (n + n1 + length ?p)" "fb1 \<le> FSSIZE"
      using "1.prems"(7,8) n1 blocks_of_mono [of n "n + n1"] blocks_of_mono [of "n + n1" "n + length p"] by (simp_all add: fb1_def)
    have "?q \<noteq> []" "n mod 512 + length ?q \<le> 512"
      using n1 False by auto
    then obtain x v1 e1 v2 where
      m: "append_map (n div 512) e s = Inr ((x, e1), s\<lparr>mk_disk := v1, freeblock := of_nat fb1\<rparr>)" "unat x < FSSIZE"
        "v2 = v1(ucast x := splice (n mod 512) ?q (v1 (ucast x)))" "app_out v e n fb ?q v2 e1 fb1"
      by (rule append_round [OF "1.prems"(1-5) _ _ n fb1(1,3)])
    let ?s = "s\<lparr>mk_disk := v2, freeblock := of_nat fb1\<rparr>"
    have "good_file v2 e1 (n + n1) fb1" "good_disk v2 fb1"
      using m(4) n1 by (simp_all add: app_out_def)
    then have "\<exists>v' e'. append_loop ?p (of_nat (n + n1)) e1 ?s = Inr ((of_nat (n + n1 + length ?p), e'), ?s\<lparr>mk_disk := v', freeblock := of_nat fb'\<rparr>)
        \<and> app_out v2 e1 (n + n1) fb1 ?p v' e' fb'"
      by (intro "1.IH" [rule_format]) (use "1.prems"(5,6,8) n1 fb1(2) len in simp_all)
    then obtain v' e' where
      r: "append_loop ?p (of_nat (n + n1)) e1 ?s = Inr ((of_nat (n + n1 + length ?p), e'), ?s\<lparr>mk_disk := v', freeblock := of_nat fb'\<rparr>)"
        "app_out v2 e1 (n + n1) fb1 ?p v' e' fb'"
      by blast
    have "append_loop p (of_nat n) e s = append_loop ?p (of_nat (n + n1)) e1 ?s"
    proof -
      have "n div 512 < INODE_MAX_BLOCKS" "n - n div 512 * 512 = n mod 512"
        using n by (simp_all add: inode_consts minus_div_mult_eq_mod)
      moreover have "wsect x d (s\<lparr>mk_disk := v1, freeblock := of_nat fb1\<rparr>) = s\<lparr>mk_disk := v1(ucast x := d), freeblock := of_nat fb1\<rparr>" for d
        using m(2) "1.prems"(5) by (simp add: wsect_def)
      ultimately show ?thesis
        using False m(1-3) "1.prems"(5)
        by (subst append_loop.simps) (simp add: unat BLOCK_SIZE_def rsect_def n1_def Let_def mult.commute [of _ 512])
    qed
    then show ?thesis
      using r app_out_trans [OF m(4), of ?p v' e' fb'] n1 by (intro exI [of _ v'] exI [of _ e']) (simp del: of_nat_add)
  qed
qed

text \<open>A file is not affected by changes outside its blocks.\<close>

lemma file_frame:
  assumes "\<forall>b \<in> file_blocks v e. v' b = v b"
  shows "k \<le> 140 \<Longrightarrow> file_block v' e k = file_block v e k" "file_blocks v' e = file_blocks v e" "mapped_ok v' e fb = mapped_ok v e fb"
    "good_file v' e n fb = good_file v e n fb" "good_file v e n fb \<Longrightarrow> file_bytes v' e n = file_bytes v e n"
proof -
  have ind: "indirect e \<noteq> 0 \<Longrightarrow> v' (ucast (indirect e)) = v (ucast (indirect e))"
    using assms file_blocksI [of 140 v e] by (simp add: file_block_def)
  show *: "file_block v' e k = file_block v e k" if "k \<le> 140" for k
    using ind that by (intro file_block_view) auto
  then show "file_blocks v' e = file_blocks v e"
    unfolding file_blocks_def by (metis (lifting))
  show m: "mapped_ok v' e fb = mapped_ok v e fb"
    using * by (simp add: mapped_ok_def cong: conj_cong)
  have byte: "file_byte v' e i = file_byte v e i" if "file_block v e (i div 512) \<noteq> 0" "i div 512 < 140" for i
    using assms file_blocksI [of "i div 512" v e] * [of "i div 512"] that by (simp add: file_byte_def)
  then have tail: "(\<forall>i. n \<le> i \<and> i < covered n \<longrightarrow> file_byte v' e i = 0) = (\<forall>i. n \<le> i \<and> i < covered n \<longrightarrow> file_byte v e i = 0)"
    if "n \<le> 71680" "\<forall>k < 140. file_block v e k \<noteq> 0 \<longleftrightarrow> 512 * k < n"
    using that covered_div [of _ n] by auto
  then show "good_file v' e n fb = good_file v e n fb"
    using * m unfolding good_file_def by auto
  assume g: "good_file v e n fb"
  then have "file_byte v' e i = file_byte v e i" if "i < n" for i
    using that covered_div [of i n] covered_le [of n] byte [of i] by (auto simp: good_file_def)
  then show "file_bytes v' e n = file_bytes v e n"
    by (simp add: file_bytes_def)
qed

lemma good_file_mono: "good_file v e n fb \<Longrightarrow> fb \<le> fb' \<Longrightarrow> good_file v e n fb'"
  by (auto simp: good_file_def mapped_ok_def)

section \<open>Inodes of an image\<close>

definition MAXI :: nat where
  "MAXI = 208"

definition inode_sect :: "nat \<Rightarrow> u64" where
  "inode_sect j = of_nat (65 + j div 8)"

definition mk_entry :: "mkfs \<Rightarrow> nat \<Rightarrow> InodeEntry" where
  "mk_entry s j = get_entry (mk_disk s (inode_sect j)) (of_nat j)"

definition mk_content :: "mkfs \<Rightarrow> nat \<Rightarrow> u8 list" where
  "mk_content s j = content (mk_disk s) (mk_entry s j)"

definition mk_used :: "mkfs \<Rightarrow> nat \<Rightarrow> u64 set" where
  "mk_used s j = file_blocks (mk_disk s) (mk_entry s j)"

definition mk_inv :: "mkfs \<Rightarrow> bool" where
  "mk_inv s \<longleftrightarrow> mk_size s = FSSIZE \<and> good_disk (mk_disk s) (unat (freeblock s))
     \<and> (\<forall>j < MAXI. good_file (mk_disk s) (mk_entry s j) (length (mk_content s j)) (unat (freeblock s)))
     \<and> (\<forall>i < MAXI. \<forall>j < MAXI. i \<noteq> j \<longrightarrow> mk_used s i \<inter> mk_used s j = {})"

lemma content_bytes: "content v e = file_bytes v e (unat (num_bytes e))"
  by (simp add: content_def file_bytes_def)

lemma length_mk_content [simp]: "length (mk_content s j) = unat (num_bytes (mk_entry s j))"
  by (simp add: mk_content_def content_def)

lemma unat_inum: "j < MAXI \<Longrightarrow> unat (of_nat j :: u32) = j" "j < MAXI \<Longrightarrow> unat (of_nat j :: u64) = j"
  "j < MAXI \<Longrightarrow> ucast (of_nat j :: u32) = (of_nat j :: u64)"
  by (simp_all add: unat_of_nat MAXI_def unsigned_of_nat take_bit_nat_eq_self)

lemma inode_start: "sb_inode_start mk_super = 65" "sb_bitmap_start mk_super = 91"
  by (simp_all add: mk_super_def layout_consts)

lemma IBLOCK_eq:
  assumes "j < MAXI"
  shows "IBLOCK (of_nat j) = of_nat (65 + j div 8)" "unat (IBLOCK (of_nat j)) = 65 + j div 8" "ucast (IBLOCK (of_nat j)) = inode_sect j"
proof -
  have d: "65 + j div 8 < 1000"
    using assms by (simp add: MAXI_def)
  have "unat (of_nat j div 8 :: u32) = j div 8"
    using assms by (simp add: unat_div unat_inum)
  then have "unat (of_nat j div 8 + 65 :: u32) = 65 + j div 8"
    using d unat_add_lem [of "of_nat j div 8 :: u32" 65] by simp
  then show i: "IBLOCK (of_nat j) = of_nat (65 + j div 8)"
    using unat_small(2) [OF d] by (simp add: IBLOCK_def inode_start INODE_PER_BLOCK_def BLOCK_SIZE_def word_unat_eq_iff del: of_nat_add)
  show "unat (IBLOCK (of_nat j)) = 65 + j div 8" "ucast (IBLOCK (of_nat j)) = inode_sect j"
    unfolding i inode_sect_def using unat_small(2) [OF d] ucast_small [OF d] by simp_all
qed

lemma inode_sect_small: "j < MAXI \<Longrightarrow> 65 + j div 8 < 91" "j < MAXI \<Longrightarrow> 66 + j div 8 \<le> FSSIZE"
  using less_mult_imp_div_less [of j 26 8] by (auto simp: MAXI_def FSSIZE_nmeta)

lemma unat_inode_sect: "j < MAXI \<Longrightarrow> unat (inode_sect j) = 65 + j div 8"
  unfolding inode_sect_def by (rule unat_small) (simp add: MAXI_def)

lemma inode_sect_inj: "i < MAXI \<Longrightarrow> j < MAXI \<Longrightarrow> inode_sect i = inode_sect j \<longleftrightarrow> i div 8 = j div 8"
  unfolding word_unat_eq_iff by (simp add: unat_inode_sect)

lemma rsect_inode:
  assumes "mk_size s = FSSIZE" "j < MAXI"
  shows "rsect (IBLOCK (of_nat j)) s = Inr (mk_disk s (inode_sect j))"
  using assms IBLOCK_eq(2,3) [OF assms(2)] inode_sect_small [OF assms(2)] by (simp add: rsect_def)

lemma rinode_eq: "mk_size s = FSSIZE \<Longrightarrow> j < MAXI \<Longrightarrow> rinode (of_nat j) s = Inr (mk_entry s j)"
  by (simp add: rinode_def rsect_inode mk_entry_def unat_inum)

lemma winode_eq:
  assumes "mk_size s = FSSIZE" "j < MAXI"
  shows "winode (of_nat j) e s = Inr (s\<lparr>mk_disk := (mk_disk s)(inode_sect j := put_entry (mk_disk s (inode_sect j)) (of_nat j) e)\<rparr>)"
proof -
  have "max FSSIZE (66 + j div 8) = FSSIZE"
    using inode_sect_small [OF assms(2)] by simp
  then show ?thesis
    using assms IBLOCK_eq(2,3) [OF assms(2)] by (simp add: winode_def rsect_inode wsect_def unat_inum)
qed

text \<open>Writing an inode changes that inode and no other.\<close>

lemma winode_entry:
  assumes len: "length (mk_disk s (inode_sect j)) = 512" "length (addrs e) = 12" and ij: "j < MAXI" "i < MAXI"
    and s': "mk_disk s' = v'(inode_sect j := put_entry (mk_disk s (inode_sect j)) (of_nat j) e)" and same: "\<And>b. unat b < 91 \<Longrightarrow> v' b = mk_disk s b"
  shows "mk_entry s' i = (if i = j then e else mk_entry s i)"
proof (cases "i div 8 = j div 8")
  case True
  then have "inode_sect i = inode_sect j"
    using ij inode_sect_inj by blast
  moreover have "i \<noteq> j \<Longrightarrow> i mod 8 \<noteq> j mod 8"
    using True by (metis div_mult_mod_eq)
  ultimately show ?thesis
    using get_put_entry [of "mk_disk s (inode_sect j)" e "of_nat j"] get_put_entry(3) [of "mk_disk s (inode_sect j)" e "of_nat i" "of_nat j"] len ij s'
    by (auto simp: mk_entry_def BLOCK_SIZE_def unat_inum)
next
  case False
  then have "inode_sect i \<noteq> inode_sect j" "v' (inode_sect i) = mk_disk s (inode_sect i)"
    using ij inode_sect_inj same [of "inode_sect i"] unat_inode_sect [of i] inode_sect_small [of i] by auto
  then show ?thesis
    using s' False by (auto simp: mk_entry_def)
qed

lemma num_bytes_irrelevant [simp]:
  "file_block v (e\<lparr>num_bytes := x\<rparr>) k = file_block v e k" "file_blocks v (e\<lparr>num_bytes := x\<rparr>) = file_blocks v e"
  "good_file v (e\<lparr>num_bytes := x\<rparr>) n fb = good_file v e n fb" "file_bytes v (e\<lparr>num_bytes := x\<rparr>) n = file_bytes v e n"
  by (simp_all add: file_block_def file_blocks_def good_file_def mapped_ok_def file_bytes_def file_byte_def)

text \<open>The bytes \<open>p\<close> have been appended to file \<open>j\<close>.\<close>

definition mk_step :: "mkfs \<Rightarrow> nat \<Rightarrow> u8 list \<Rightarrow> mkfs \<Rightarrow> bool" where
  "mk_step s j p s' \<longleftrightarrow> mk_content s' j = mk_content s j @ p \<and> e_type (mk_entry s' j) = e_type (mk_entry s j)
     \<and> num_links (mk_entry s' j) = num_links (mk_entry s j)
     \<and> (\<forall>i < MAXI. i \<noteq> j \<longrightarrow> mk_entry s' i = mk_entry s i \<and> mk_content s' i = mk_content s i)
     \<and> unat (freeblock s') + blocks_of (length (mk_content s j)) = unat (freeblock s) + blocks_of (length (mk_content s' j))
     \<and> freeinode s' = freeinode s \<and> (\<forall>b. unat b < 65 \<or> unat b = 91 \<longrightarrow> mk_disk s' b = mk_disk s b)"

lemma mk_invD:
  assumes "mk_inv s"
  shows "mk_size s = FSSIZE" "good_disk (mk_disk s) (unat (freeblock s))"
    "j < MAXI \<Longrightarrow> good_file (mk_disk s) (mk_entry s j) (unat (num_bytes (mk_entry s j))) (unat (freeblock s))"
    "i < MAXI \<Longrightarrow> j < MAXI \<Longrightarrow> i \<noteq> j \<Longrightarrow> mk_used s i \<inter> mk_used s j = {}"
  using assms by (simp_all add: mk_inv_def)

lemma file_blocks_range: "good_file v e n fb \<Longrightarrow> b \<in> file_blocks v e \<Longrightarrow> 92 \<le> unat b \<and> unat b < fb"
  by (auto simp: good_file_def mapped_ok_def file_blocks_def FSSIZE_nmeta)

lemma new_blocks_range: "fb' \<le> FSSIZE \<Longrightarrow> b \<in> new_blocks fb fb' \<Longrightarrow> fb \<le> unat b"
  using unat_small(1) by (auto simp: new_blocks_def FSSIZE_nmeta)

text \<open>The effect of storing the grown inode of one file.\<close>

lemma store_file:
  assumes inv: "mk_inv s" and j: "j < MAXI" and n: "n = unat (num_bytes (mk_entry s j))" "n + length p \<le> 71680"
    and out: "app_out (mk_disk s) (mk_entry s j) n (unat (freeblock s)) p v' e' fb'"
    and s': "s' = s\<lparr>mk_disk := v'(inode_sect j := put_entry (v' (inode_sect j)) (of_nat j) (e'\<lparr>num_bytes := of_nat (n + length p)\<rparr>)),
       freeblock := of_nat fb'\<rparr>"
  shows "mk_inv s'" "mk_step s j p s'"
proof -
  let ?v = "mk_disk s" and ?fb = "unat (freeblock s)" and ?e = "e'\<lparr>num_bytes := of_nat (n + length p)\<rparr>"
  note inv = mk_invD [OF inv]
  have o: "good_file v' e' (n + length p) fb'" "good_disk v' fb'" "file_bytes v' e' (n + length p) = file_bytes ?v (mk_entry s j) n @ p"
      "same_head (mk_entry s j) e'" "file_blocks v' e' \<subseteq> mk_used s j \<union> new_blocks ?fb fb'" "\<And>b. b \<notin> file_blocks v' e' \<Longrightarrow> v' b = ?v b"
      "fb' + blocks_of n = ?fb + blocks_of (n + length p)"
    using out by (auto simp: app_out_def mk_used_def)
  have fb': "unat (of_nat fb' :: u32) = fb'" "?fb \<le> fb'" "fb' \<le> FSSIZE"
    using o(2,7) blocks_of_mono [of n "n + length p"] by (auto simp: good_disk_def FSSIZE_nmeta unat_of_nat)
  have low: "v' b = ?v b" if "unat b < 92" for b
    using o(6) file_blocks_range [OF o(1)] that by force
  have sect: "unat (inode_sect j) < 91"
    using unat_inode_sect [OF j] inode_sect_small [OF j] by simp
  have len: "length (?v (inode_sect j)) = 512" "length (addrs ?e) = 12"
    using inv(2) sect o(1) by (auto simp: good_disk_def FSSIZE_nmeta good_file_def mapped_ok_def)
  have disk: "mk_disk s' b = v' b" if "b \<noteq> inode_sect j" for b
    using that by (simp add: s')
  have entry: "mk_entry s' i = (if i = j then ?e else mk_entry s i)" if "i < MAXI" for i
    by (rule winode_entry [OF len j that, of s' v']) (use low [of "inode_sect j"] sect low in \<open>auto simp: s'\<close>)
  have same: "mk_disk s' b = v' b" if "92 \<le> unat b" for b
    using disk [of b] sect that by fastforce
  have num: "unat (num_bytes ?e) = n + length p"
    using n(2) by (simp add: unat_of_nat del: of_nat_add)
  have "\<forall>b \<in> file_blocks v' e'. mk_disk s' b = v' b"
    using same file_blocks_range [OF o(1)] by blast
  note own = file_frame [OF this]
  have other: "mk_disk s' b = ?v b" if "i < MAXI" "i \<noteq> j" "b \<in> mk_used s i" for i b
  proof -
    have b: "92 \<le> unat b" "unat b < ?fb"
      using file_blocks_range [OF inv(3) [OF that(1)]] that(3) by (auto simp: mk_used_def)
    then have "b \<notin> file_blocks v' e'"
      using o(5) inv(4) [OF that(1) j that(2)] that(3) new_blocks_range [OF fb'(3)] by fastforce
    then show ?thesis
      using same [OF b(1)] o(6) by simp
  qed
  then have "\<forall>b \<in> file_blocks ?v (mk_entry s i). mk_disk s' b = ?v b" if "i < MAXI" "i \<noteq> j" for i
    using that by (simp add: mk_used_def)
  note frame = file_frame [OF this]
  have content: "mk_content s' j = mk_content s j @ p" "i < MAXI \<Longrightarrow> i \<noteq> j \<Longrightarrow> mk_content s' i = mk_content s i" for i
    using entry j num o(3) own(5) [OF o(1)] frame(5) [OF _ _ inv(3)] n(1) by (simp_all add: mk_content_def content_bytes)
  have used: "mk_used s' i = (if i = j then file_blocks v' e' else mk_used s i)" if "i < MAXI" for i
    using entry [OF that] own(2) frame(2) [OF that] that by (simp add: mk_used_def)
  have "good_disk (mk_disk s') fb'"
    using o(2) sect len low [of "inode_sect j"] get_put_entry(1) [of "?v (inode_sect j)" ?e "of_nat j"]
    by (auto simp: good_disk_def s' FSSIZE_nmeta BLOCK_SIZE_def)
  moreover have "good_file (mk_disk s') (mk_entry s' i) (unat (num_bytes (mk_entry s' i))) fb'" if "i < MAXI" for i
    using entry [OF that] num own(4) o(1) frame(4) [OF that] good_file_mono [OF inv(3) [OF that] fb'(2)] by simp
  moreover have "mk_used s' i \<inter> mk_used s' k = {}" if "i < MAXI" "k < MAXI" "i \<noteq> k" for i k
  proof -
    have "x \<notin> new_blocks ?fb fb'" if "x \<in> mk_used s k" "k < MAXI" for x k
      using new_blocks_range [OF fb'(3), of x ?fb] file_blocks_range [OF inv(3) [OF that(2)], of x] that(1) by (auto simp: mk_used_def)
    then have "file_blocks v' e' \<inter> mk_used s k = {}" if "k < MAXI" "k \<noteq> j" for k
      using o(5) inv(4) [OF that(1) j that(2)] that(1) by blast
    then show ?thesis
      using used that inv(4) by (auto simp: Int_commute)
  qed
  ultimately show "mk_inv s'"
    using inv(1) fb'(1) by (simp add: mk_inv_def s')
  have "unat b < 65 \<or> unat b = 91 \<Longrightarrow> mk_disk s' b = ?v b" for b
    using disk [of b] low [of b] unat_inode_sect [OF j] sect by fastforce
  then show "mk_step s j p s'"
    using content entry j o(4,7) fb' num n(1) by (simp add: mk_step_def same_head_def s')
qed

lemma iappend_ok:
  assumes inv: "mk_inv s" and j: "j < MAXI" and len: "length (mk_content s j) + length p \<le> 71680"
    and room: "unat (freeblock s) + blocks_of (length (mk_content s j) + length p) \<le> FSSIZE + blocks_of (length (mk_content s j))"
  shows "\<exists>s'. iappend (of_nat j) p s = Inr s' \<and> mk_inv s' \<and> mk_step s j p s'"
proof -
  note i = mk_invD [OF inv]
  define n where "n = unat (num_bytes (mk_entry s j))"
  define fb' where "fb' = unat (freeblock s) + blocks_of (n + length p) - blocks_of n"
  have n: "n + length p \<le> 71680" "fb' + blocks_of n = unat (freeblock s) + blocks_of (n + length p)" "fb' \<le> FSSIZE"
    using len room blocks_of_mono [of n "n + length p"] by (auto simp: n_def fb'_def)
  from append_loop_ok [OF i(3) [OF j] i(2) refl _ i(1), folded n_def, OF _ n] obtain v' e' where
    l: "append_loop p (of_nat n) (mk_entry s j) s = Inr ((of_nat (n + length p), e'), s\<lparr>mk_disk := v', freeblock := of_nat fb'\<rparr>)"
      "app_out (mk_disk s) (mk_entry s j) n (unat (freeblock s)) p v' e' fb'"
    by auto
  let ?s = "s\<lparr>mk_disk := v', freeblock := of_nat fb'\<rparr>"
  let ?e = "e'\<lparr>num_bytes := of_nat (n + length p)\<rparr>"
  let ?s' = "s\<lparr>mk_disk := v'(inode_sect j := put_entry (v' (inode_sect j)) (of_nat j) ?e), freeblock := of_nat fb'\<rparr>"
  have "iappend (of_nat j) p s = Inr ?s'"
    using rinode_eq [OF i(1) j] l(1) winode_eq [of ?s j ?e] i(1) j by (simp add: iappend_def n_def)
  then show ?thesis
    using store_file [OF inv j n_def n(1) l(2) refl] by blast
qed

lemma mk_step_trans:
  "mk_step s j p s' \<Longrightarrow> mk_step s' j q s'' \<Longrightarrow> mk_step s j (p @ q) s''"
  by (auto simp: mk_step_def simp del: length_mk_content)

lemma append_pieces_ok:
  assumes "mk_inv s" "j < MAXI" "length (mk_content s j) + length (concat ps) \<le> 71680"
    "unat (freeblock s) + blocks_of (length (mk_content s j) + length (concat ps)) \<le> FSSIZE + blocks_of (length (mk_content s j))"
  shows "\<exists>s'. append_pieces (of_nat j) ps s = Inr s' \<and> mk_inv s' \<and> mk_step s j (concat ps) s'"
  using assms
proof (induction ps arbitrary: s)
  case Nil
  then show ?case
    by (simp add: mk_step_def)
next
  case (Cons p ps)
  let ?n = "length (mk_content s j)"
  have "blocks_of (?n + length p) \<le> blocks_of (?n + length (concat (p # ps)))"
    by (rule blocks_of_mono) simp
  with Cons.prems iappend_ok [of s j p] obtain s1 where s1: "iappend (of_nat j) p s = Inr s1" "mk_inv s1" "mk_step s j p s1"
    by auto
  have "length (mk_content s1 j) = ?n + length p" "unat (freeblock s1) + blocks_of ?n = unat (freeblock s) + blocks_of (?n + length p)"
    using s1(3) by (simp_all add: mk_step_def del: length_mk_content)
  with Cons.IH [OF s1(2) Cons.prems(2)] Cons.prems obtain s' where
    s': "append_pieces (of_nat j) ps s1 = Inr s'" "mk_inv s'" "mk_step s1 j (concat ps) s'"
    by (auto simp: add.assoc simp del: length_mk_content)
  then show ?case
    using s1 mk_step_trans [OF s1(3) s'(3)] by simp
qed

lemma concat_pieces: "concat (pieces bs) = bs"
  by (induction bs rule: pieces.induct) (subst pieces.simps, simp)

text \<open>A new inode is empty and leaves the files alone.\<close>

definition mk_new :: "mkfs \<Rightarrow> nat \<Rightarrow> u16 \<Rightarrow> mkfs \<Rightarrow> bool" where
  "mk_new s j type s' \<longleftrightarrow> mk_entry s' j = zero_entry\<lparr>e_type := type, num_links := 1\<rparr> \<and> mk_content s' j = []
     \<and> (\<forall>i < MAXI. i \<noteq> j \<longrightarrow> mk_entry s' i = mk_entry s i \<and> mk_content s' i = mk_content s i)
     \<and> freeblock s' = freeblock s \<and> freeinode s' = of_nat (j + 1) \<and> (\<forall>b. unat b < 65 \<or> unat b = 91 \<longrightarrow> mk_disk s' b = mk_disk s b)"

lemma ialloc_ok:
  assumes inv: "mk_inv s" and j: "freeinode s = of_nat j" "j < MAXI"
  shows "\<exists>s'. ialloc type s = Inr (of_nat j, s') \<and> mk_inv s' \<and> mk_new s j type s'"
proof -
  let ?v = "mk_disk s" and ?e = "zero_entry\<lparr>e_type := type, num_links := 1\<rparr>"
  note i = mk_invD [OF inv]
  define s' where "s' = s\<lparr>freeinode := of_nat (j + 1), mk_disk := ?v(inode_sect j := put_entry (?v (inode_sect j)) (of_nat j) ?e)\<rparr>"
  have run: "ialloc type s = Inr (of_nat j, s')"
  proof -
    have "zero_entry\<lparr>e_type := type, num_links := 1, num_bytes := 0\<rparr> = ?e"
      by (simp add: zero_entry_def)
    then show ?thesis
      using winode_eq [of "s\<lparr>freeinode := of_nat (j + 1)\<rparr>" j ?e] i(1) j by (simp add: ialloc_def s'_def Let_def add.commute)
  qed
  have sect: "65 \<le> unat (inode_sect j)" "unat (inode_sect j) < 91"
    using unat_inode_sect [OF j(2)] inode_sect_small [OF j(2)] by simp_all
  have len: "length (?v (inode_sect j)) = 512" "length (addrs ?e) = 12"
    using i(2) sect by (auto simp: good_disk_def FSSIZE_nmeta zero_entry_def INODE_NUM_DIRECT_def)
  have entry: "mk_entry s' k = (if k = j then ?e else mk_entry s k)" if "k < MAXI" for k
    by (rule winode_entry [OF len j(2) that, of s' ?v]) (simp_all add: s'_def)
  have zero: "file_block v ?e k = 0" if "k \<le> 140" for v k
    using that by (auto simp: file_block_def zero_entry_def INODE_NUM_DIRECT_def)
  then have empty: "file_blocks v ?e = {}" "good_file v ?e 0 fb" for v fb
    by (auto simp: file_blocks_def good_file_def mapped_ok_def zero_entry_def INODE_NUM_DIRECT_def covered_def)
  have "\<forall>b \<in> file_blocks ?v (mk_entry s k). mk_disk s' b = ?v b" if "k < MAXI" for k
    using file_blocks_range [OF i(3) [OF that]] sect by (fastforce simp: s'_def)
  note frame = file_frame [OF this]
  have content: "mk_content s' j = []" "k < MAXI \<Longrightarrow> k \<noteq> j \<Longrightarrow> mk_content s' k = mk_content s k" for k
    using entry j(2) frame(5) [OF _ i(3)] by (simp_all add: mk_content_def content_bytes file_bytes_def zero_entry_def)
  have "good_disk (mk_disk s') (unat (freeblock s))"
    using i(2) sect len get_put_entry(1) [of "?v (inode_sect j)" ?e "of_nat j"]
    by (auto simp: good_disk_def s'_def FSSIZE_nmeta BLOCK_SIZE_def)
  moreover have "good_file (mk_disk s') (mk_entry s' k) (unat (num_bytes (mk_entry s' k))) (unat (freeblock s))" if "k < MAXI" for k
    using entry [OF that] empty(2) frame(4) [OF that] i(3) [OF that] by (auto simp: zero_entry_def)
  moreover have "mk_used s' k = (if k = j then {} else mk_used s k)" if "k < MAXI" for k
    using entry [OF that] empty(1) frame(2) [OF that] by (simp add: mk_used_def)
  ultimately have "mk_inv s'"
    using i(1,4) by (auto simp: mk_inv_def s'_def)
  moreover have "mk_new s j type s'"
    using entry content j(2) sect by (auto simp: mk_new_def s'_def)
  ultimately show ?thesis
    using run by blast
qed

section \<open>The files given to the program\<close>

lemma length_mk_dirent [simp]: "length (mk_dirent i name) = 16"
  by (simp add: mk_dirent_def FILE_NAME_MAX_LENGTH_def)

lemma base_name_slash: "SLASH \<notin> set (base_name path)"
  by (induction path) auto

text \<open>The directory entries of a list of files, the first with inode number \<open>j\<close>.\<close>

fun dirents_of :: "nat \<Rightarrow> (u8 list \<times> u8 list) list \<Rightarrow> u8 list" where
  "dirents_of j [] = []"
| "dirents_of j (x # xs) = mk_dirent (of_nat j) (skip_underscore (base_name (fst x))) @ dirents_of (Suc j) xs"

lemma length_dirents_of [simp]: "length (dirents_of j xs) = 16 * length xs"
  by (induction xs arbitrary: j) auto

text \<open>The files \<open>xs\<close> have been added with numbers from \<open>j\<close> on.\<close>

definition mk_added :: "mkfs \<Rightarrow> nat \<Rightarrow> (u8 list \<times> u8 list) list \<Rightarrow> mkfs \<Rightarrow> bool" where
  "mk_added s j xs s' \<longleftrightarrow> mk_content s' 1 = mk_content s 1 @ dirents_of j xs \<and> e_type (mk_entry s' 1) = e_type (mk_entry s 1)
     \<and> (\<forall>k < length xs. mk_content s' (j + k) = snd (xs ! k) \<and> e_type (mk_entry s' (j + k)) = INODE_REGULAR)
     \<and> (\<forall>i < j. i \<noteq> 1 \<longrightarrow> mk_entry s' i = mk_entry s i \<and> mk_content s' i = mk_content s i)
     \<and> freeinode s' = of_nat (j + length xs) \<and> (\<forall>b. unat b < 65 \<or> unat b = 91 \<longrightarrow> mk_disk s' b = mk_disk s b)"

definition fits :: "mkfs \<Rightarrow> nat \<Rightarrow> (u8 list \<times> u8 list) list \<Rightarrow> bool" where
  "fits s j xs \<longleftrightarrow> 2 \<le> j \<and> j + length xs \<le> MAXI \<and> freeinode s = of_nat j \<and> (\<forall>x \<in> set xs. length (snd x) \<le> 71680)
     \<and> length (mk_content s 1) + 16 * length xs \<le> 71680
     \<and> unat (freeblock s) + sum_list (map (\<lambda>x. blocks_of (length (snd x))) xs) + blocks_of (length (mk_content s 1) + 16 * length xs)
         \<le> FSSIZE + blocks_of (length (mk_content s 1))"

lemma add_file_ok:
  assumes inv: "mk_inv s" and fits: "fits s j (x # xs)"
  shows "\<exists>s'. add_file 1 (fst x, Some (snd x)) s = Inr s' \<and> mk_inv s' \<and> fits s' (Suc j) xs \<and> mk_added s j [x] s'"
proof -
  let ?n = "length (mk_content s 1)" and ?b = "snd x" and ?d = "mk_dirent (of_nat j) (skip_underscore (base_name (fst x)))"
  have f: "2 \<le> j" "j < MAXI" "freeinode s = of_nat j" "length ?b \<le> 71680" "1 < MAXI"
    using fits by (auto simp: fits_def MAXI_def)
  from ialloc_ok [OF inv f(3,2)] obtain s1 where
    s1: "ialloc INODE_REGULAR s = Inr (of_nat j, s1)" "mk_inv s1" "mk_new s j INODE_REGULAR s1"
    by blast
  have c1: "mk_content s1 1 = mk_content s 1" "mk_content s1 j = []" "freeblock s1 = freeblock s"
    using s1(3) f by (auto simp: mk_new_def)
  have m: "blocks_of (?n + 16) \<le> blocks_of (?n + 16 * length (x # xs))"
    by (rule blocks_of_mono) simp
  have "\<exists>s2. iappend (of_nat 1) ?d s1 = Inr s2 \<and> mk_inv s2 \<and> mk_step s1 1 ?d s2"
    by (rule iappend_ok) (use s1(2) f(5) fits m in \<open>simp_all add: c1 fits_def del: length_mk_content One_nat_def\<close>)
  then obtain s2 where s2: "iappend 1 ?d s1 = Inr s2" "mk_inv s2" "mk_step s1 1 ?d s2"
    by auto
  have c2: "mk_content s2 1 = mk_content s 1 @ ?d" "mk_content s2 j = []" "unat (freeblock s2) + blocks_of ?n = unat (freeblock s) + blocks_of (?n + 16)"
    using s2(3) f c1 by (auto simp: mk_step_def simp del: length_mk_content One_nat_def)
  have b: "blocks_of 0 = 0"
    by (simp add: blocks_of_def)
  have "\<exists>s3. append_pieces (of_nat j) (pieces ?b) s2 = Inr s3 \<and> mk_inv s3 \<and> mk_step s2 j (concat (pieces ?b)) s3"
    by (rule append_pieces_ok) (use s2(2) f fits m c2(3) in \<open>simp_all add: c2(1,2) b concat_pieces fits_def del: length_mk_content One_nat_def\<close>)
  then obtain s3 where s3: "append_pieces (of_nat j) (pieces ?b) s2 = Inr s3" "mk_inv s3" "mk_step s2 j ?b s3"
    by (auto simp: concat_pieces)
  have "add_file 1 (fst x, Some ?b) s = Inr s3"
    using s1(1) s2(1) s3(1) base_name_slash [of "fst x"] by (simp add: add_file_def)
  moreover have "mk_added s j [x] s3"
    using s1(3) s2(3) s3(3) c2 f unfolding mk_added_def mk_step_def mk_new_def by (auto simp del: length_mk_content One_nat_def)
  moreover have "fits s3 (Suc j) xs"
  proof -
    have c3: "mk_content s3 1 = mk_content s 1 @ ?d" "freeinode s3 = of_nat (Suc j)"
        "unat (freeblock s3) = unat (freeblock s2) + blocks_of (length ?b)"
      using s1(3) s2(3) s3(3) c2 f b by (auto simp: mk_step_def mk_new_def simp del: length_mk_content One_nat_def)
    then show ?thesis
      using fits c2(3) by (auto simp: fits_def add.assoc simp del: length_mk_content One_nat_def)
  qed
  ultimately show ?thesis
    using s3(2) by blast
qed

lemma add_files_ok:
  assumes "mk_inv s" "fits s j xs"
  shows "\<exists>s'. add_files 1 (map (\<lambda>x. (fst x, Some (snd x))) xs) s = Inr s' \<and> mk_inv s' \<and> mk_added s j xs s'"
  using assms
proof (induction xs arbitrary: s j)
  case Nil
  then show ?case
    by (simp add: mk_added_def fits_def)
next
  case (Cons x xs)
  from add_file_ok [OF Cons.prems] obtain s1 where
    s1: "add_file 1 (fst x, Some (snd x)) s = Inr s1" "mk_inv s1" "fits s1 (Suc j) xs" "mk_added s j [x] s1"
    by blast
  from Cons.IH [OF s1(2,3)] obtain s' where
    s': "add_files 1 (map (\<lambda>x. (fst x, Some (snd x))) xs) s1 = Inr s'" "mk_inv s'" "mk_added s1 (Suc j) xs s'"
    by blast
  have "2 \<le> j"
    using Cons.prems(2) by (simp add: fits_def)
  then have "mk_content s' (j + k) = snd ((x # xs) ! k) \<and> e_type (mk_entry s' (j + k)) = INODE_REGULAR" if "k < length (x # xs)" for k
    using s1(4) s'(3) that by (cases k) (auto simp: mk_added_def)
  moreover have "i < j \<Longrightarrow> i \<noteq> 1 \<Longrightarrow> mk_entry s' i = mk_entry s i \<and> mk_content s' i = mk_content s i" for i
    using s1(4) s'(3) by (simp add: mk_added_def)
  ultimately have "mk_added s j (x # xs) s'"
    using s1(4) s'(3) unfolding mk_added_def by (simp del: length_mk_content)
  then show ?case
    using s1(1) s'(1,2) by simp
qed

section \<open>The finished image\<close>

lemma bitmap_fold:
  fixes used :: nat
  assumes "used \<le> 4096"
  defines "buf \<equiv> fold (\<lambda>i (buf :: u8 list). buf[i div 8 := buf ! (i div 8) OR push_bit (i mod 8) 1]) [0 ..< used] (replicate 512 0)"
  shows "length buf = 512 \<and> (\<forall>i < 4096. bit (buf ! (i div 8)) (i mod 8) \<longleftrightarrow> i < used)"
  using assms(1) unfolding buf_def
proof (induction used)
  case (Suc u)
  let ?b = "fold (\<lambda>i (buf :: u8 list). buf[i div 8 := buf ! (i div 8) OR push_bit (i mod 8) 1]) [0 ..< u] (replicate 512 0)"
  have ih: "length ?b = 512" "\<And>i. i < 4096 \<Longrightarrow> bit (?b ! (i div 8)) (i mod 8) \<longleftrightarrow> i < u"
    using Suc by auto
  have u: "u div 8 < 512"
    using Suc.prems by (simp add: less_mult_imp_div_less)
  have "bit (?b[u div 8 := ?b ! (u div 8) OR push_bit (u mod 8) 1] ! (i div 8)) (i mod 8) \<longleftrightarrow> i < Suc u" if "i < 4096" for i
  proof (cases "i div 8 = u div 8")
    case True
    have "i mod 8 = u mod 8 \<longleftrightarrow> i = u"
      using True by (metis div_mult_mod_eq)
    then show ?thesis
      using True u ih(1) ih(2) [OF that] by (auto simp: bit_or_iff bit_exp_iff less_Suc_eq)
  next
    case False
    then show ?thesis
      using ih(1) ih(2) [OF that] by (auto simp: nth_list_update less_Suc_eq)
  qed
  then show ?case
    using ih(1) by simp
qed simp

lemma blank_eq: "blank = \<lparr>mk_disk = \<lambda>b. if unat b < 1000 then replicate 512 0 else [], mk_size = 1000, freeinode = 1, freeblock = 92\<rparr>"
proof -
  let ?s = "\<lambda>n. \<lparr>mk_disk = \<lambda>b. if unat b < n then replicate 512 0 else [], mk_size = n, freeinode = 1, freeblock = 92\<rparr>"
  have "fold (\<lambda>i. wsect (of_nat i) (replicate 512 0)) [0 ..< n] (?s 0) = ?s n" if "n \<le> 1000" for n
    using that
  proof (induction n)
    case (Suc n)
    then have "unat (of_nat n :: u32) = n" "ucast (of_nat n :: u32) = (of_nat n :: u64)" "unat (of_nat n :: u64) = n"
      using unat_small [of n] ucast_small [of n] by simp_all
    with Suc show ?case
      by (auto simp: wsect_def fun_eq_iff less_Suc_eq word_unat_eq_iff)
  qed simp
  from this [of 1000] show ?thesis
    by (simp add: blank_def FSSIZE_nmeta BLOCK_SIZE_def)
qed

lemma le_bytes_zero: "le_bytes n (0 :: 'a::len word) = replicate n 0"
  by (simp add: le_bytes_def map_replicate_const)

lemma get_zero_entry: "get_entry (replicate 512 0) j = zero_entry"
proof -
  have z: "entry_bytes zero_entry = replicate 64 0"
    by (simp add: entry_bytes_def zero_entry_def le_bytes_zero concat_zeros INODE_NUM_DIRECT_def flip: replicate_add)
  have "take 64 (drop (64 * (unat j mod 8)) (replicate 512 0)) = replicate 64 (0 :: u8)"
    using mod_less_divisor [of 8 "unat j"] by (simp add: min_def)
  then have "get_entry (replicate 512 0) j = entry_of_bytes (entry_bytes zero_entry)"
    by (simp add: get_entry_def INODE_PER_BLOCK_def BLOCK_SIZE_def z)
  then show ?thesis
    by (simp add: zero_entry_def INODE_NUM_DIRECT_def)
qed

text \<open>The image before the first inode is made: every inode is free.\<close>

definition mk_start :: mkfs where
  "mk_start = wsect 1 (splice 0 (super_bytes mk_super) (replicate BLOCK_SIZE 0)) blank"

lemma super_sector:
  "splice 0 (super_bytes mk_super) (replicate BLOCK_SIZE 0) = super_bytes mk_super @ replicate 484 0" "length (super_bytes mk_super) = 28"
  by (simp_all add: splice_def super_bytes_def BLOCK_SIZE_def)

lemma mk_start_inv: "mk_inv mk_start" "freeinode mk_start = of_nat 1" "unat (freeblock mk_start) = 92"
  "mk_disk mk_start 1 = super_bytes mk_super @ replicate 484 0"
proof -
  have d: "mk_disk mk_start b = (if b = 1 then super_bytes mk_super @ replicate 484 0 else if unat b < 1000 then replicate 512 0 else [])" for b
    by (simp add: mk_start_def wsect_def blank_eq super_sector)
  have s: "mk_size mk_start = 1000" "freeinode mk_start = of_nat 1" "freeblock mk_start = 92"
    by (simp_all add: mk_start_def wsect_def blank_eq)
  have e: "mk_entry mk_start j = zero_entry" if "j < MAXI" for j
  proof -
    have "65 \<le> unat (inode_sect j)" "unat (inode_sect j) < 91"
      using unat_inode_sect [OF that] inode_sect_small [OF that] by simp_all
    then have "inode_sect j \<noteq> 1" "unat (inode_sect j) < 1000"
      by auto
    then show ?thesis
      by (simp add: mk_entry_def d get_zero_entry)
  qed
  have "file_block v zero_entry k = 0" if "k \<le> 140" for v k
    using that by (auto simp: file_block_def zero_entry_def INODE_NUM_DIRECT_def)
  then have empty: "file_blocks v zero_entry = {}" "good_file v zero_entry 0 fb" for v fb
    by (auto simp: file_blocks_def good_file_def mapped_ok_def zero_entry_def INODE_NUM_DIRECT_def covered_def)
  have "good_disk (mk_disk mk_start) 92"
    by (auto simp: good_disk_def FSSIZE_nmeta d super_sector)
  then show "mk_inv mk_start"
    using s e empty by (simp add: mk_inv_def FSSIZE_nmeta mk_used_def) (simp add: zero_entry_def)
  show "freeinode mk_start = of_nat 1" "unat (freeblock mk_start) = 92" "mk_disk mk_start 1 = super_bytes mk_super @ replicate 484 0"
    by (simp_all add: s d)
qed

lemma balloc_allocated:
  assumes "used \<le> 1000"
  shows "\<exists>s'. balloc used s = Inr s' \<and> allocated mk_super (mk_disk s') = of_nat ` {..< used} \<and> (\<forall>b. b \<noteq> 91 \<longrightarrow> mk_disk s' b = mk_disk s b)
     \<and> freeblock s' = freeblock s \<and> length (mk_disk s' 91) = 512"
proof -
  define buf :: "u8 list" where "buf = fold (\<lambda>i buf. buf[i div 8 := buf ! (i div 8) OR push_bit (i mod 8) 1]) [0 ..< used] (replicate 512 0)"
  have buf: "length buf = 512" "\<And>i. i < 4096 \<Longrightarrow> bit (buf ! (i div 8)) (i mod 8) \<longleftrightarrow> i < used"
    using bitmap_fold [of used] assms unfolding buf_def by auto
  have run: "balloc used s = Inr (wsect 91 buf s)"
    using assms by (simp add: balloc_def inode_start BLOCK_SIZE_def buf_def)
  have "bitmap_at mk_super (mk_disk (wsect 91 buf s)) n \<longleftrightarrow> n < used" if "n < 1000" for n
    using buf that bitmap_get_bytes [of buf n] by (simp add: bitmap_at_def inode_start wsect_def BIT_PER_BLOCK_def BLOCK_SIZE_def)
  moreover have "unat (sb_num_blocks mk_super) = 1000"
    by (simp add: mk_super_def FSSIZE_nmeta)
  ultimately have "allocated mk_super (mk_disk (wsect 91 buf s)) = of_nat ` {..< used}"
    using assms by (auto simp: allocated_def)
  then show ?thesis
    using run buf(1) by (auto simp: wsect_def)
qed

lemma covered_rounded: "n mod 512 \<noteq> 0 \<Longrightarrow> (n div 512 + 1) * 512 = covered n"
proof -
  assume "n mod 512 \<noteq> 0"
  define k r where "k = n div 512" and "r = n mod 512"
  have "n = r + 512 * k" "r < 512" "r \<noteq> 0"
    using \<open>n mod 512 \<noteq> 0\<close> by (simp_all add: k_def r_def)
  then have "(n + 511) div 512 = k + 1"
    by (simp add: div_nat_eqI)
  then show ?thesis
    by (simp add: covered_def k_def)
qed

lemma le_covered: "m \<le> covered m"
  by (simp add: covered_def)

lemma good_backed:
  assumes "good_file v e m fb" and "unat (num_bytes e') \<le> covered m" and "\<And>i. file_block v e' i = file_block v e i" "addrs e' = addrs e" "indirect e' = indirect e"
  shows "backed v {} e' (unat (num_bytes e'))"
proof -
  have m: "m \<le> 71680" "length (addrs e) = 12" "\<And>k. k < 140 \<Longrightarrow> file_block v e k \<noteq> 0 \<longleftrightarrow> 512 * k < m" "indirect e \<noteq> 0 \<longleftrightarrow> 6144 < m"
    using assms(1) by (auto simp: good_file_def mapped_ok_def)
  have low: "512 * i < m \<and> i < 140" if "512 * i < unat (num_bytes e')" for i
    using covered_div [of "512 * i" m] that assms(2) m(1) by simp
  have "unat (num_bytes e') \<le> 71680"
    using assms(2) m(1) div_le_mono [of "m + 511" "71680 + 511" 512] by (simp add: covered_def)
  then show ?thesis
    using m low low [of 12] by (auto simp: backed_def assms(3-5) INODE_MAX_BYTES_eq)
qed

lemma backed_frame:
  assumes "backed v H e n" and "\<forall>b \<in> file_blocks v e. v' b = v b"
  shows "backed v' H e n" "n = unat (num_bytes e) \<Longrightarrow> content v' e = content v e"
proof -
  have n: "n \<le> 71680" using assms(1) by (simp add: backed_def INODE_MAX_BYTES_eq)
  have low: "file_block v' e i = file_block v e i \<and> file_block v e i \<in> file_blocks v e" if "512 * i < n" for i
    using file_frame(1) [OF assms(2), of i] file_blocksI [of i v e] that n assms(1) by (simp add: backed_def)
  then show "backed v' H e n" using assms(1) by (simp add: backed_def)
  show "content v' e = content v e" if "n = unat (num_bytes e)"
    unfolding content_def
  proof (rule map_cong [OF refl])
    fix k assume "k \<in> set [0 ..< unat (num_bytes e)]"
    then have "512 * (k div 512) < n" using that le_less_trans [OF times_div_less_eq_dividend] by auto
    then show "file_byte v' e k = file_byte v e k" using low [of "k div 512"] assms(2) by (simp add: file_byte_def)
  qed
qed

lemma fix_root_ok:
  assumes inv: "mk_inv s" and n: "n = length (mk_content s 1)" "n mod 512 \<noteq> 0"
  shows "\<exists>s'. fix_root 1 s = Inr s' \<and> mk_content s' 1 = mk_content s 1 @ replicate (covered n - n) 0
    \<and> e_type (mk_entry s' 1) = e_type (mk_entry s 1) \<and> (\<forall>i < MAXI. mk_used s' i = mk_used s i)
    \<and> (\<forall>i < MAXI. i \<noteq> 1 \<longrightarrow> mk_entry s' i = mk_entry s i \<and> mk_content s' i = mk_content s i)
    \<and> freeblock s' = freeblock s \<and> (\<forall>b. unat b < 65 \<longrightarrow> mk_disk s' b = mk_disk s b)
    \<and> (\<forall>i < MAXI. backed (mk_disk s') {} (mk_entry s' i) (unat (num_bytes (mk_entry s' i))))
    \<and> (\<forall>b. unat b < FSSIZE \<longrightarrow> length (mk_disk s' b) = 512)"
proof -
  let ?e = "(mk_entry s 1)\<lparr>num_bytes := of_nat (covered n)\<rparr>" and ?v = "mk_disk s"
  define s' where "s' = s\<lparr>mk_disk := ?v(inode_sect 1 := put_entry (?v (inode_sect 1)) (of_nat 1) ?e)\<rparr>"
  note i = mk_invD [OF inv]
  have j: "1 < MAXI"
    by (simp add: MAXI_def)
  have n': "unat (num_bytes (mk_entry s 1)) = n" "n \<le> 71680" "n \<le> covered n"
    using i(3) [OF j] n by (auto simp: good_file_def covered_def)
  have "covered n \<le> 71680"
    using covered_div(2) [of "covered n - 1" n] n' n(2) by (auto simp: covered_def)
  then have num: "unat (of_nat (covered n) :: u32) = covered n"
    by (simp add: unat_of_nat)
  have "num_bytes (mk_entry s 1) div 512 = of_nat (n div 512)"
    using n'(1,2) by (simp add: word_unat_eq_iff unat_div unat_of_nat)
  then have "(num_bytes (mk_entry s 1) div 512 + 1) * 512 = of_nat (covered n)"
    using arg_cong [OF covered_rounded [OF n(2)], of "of_nat :: nat \<Rightarrow> u32"] by (simp add: add.commute)
  then have run: "fix_root 1 s = Inr s'"
    using rinode_eq [OF i(1) j] winode_eq [OF i(1) j, of ?e] by (simp add: fix_root_def s'_def BLOCK_SIZE_def)
  have sect: "65 \<le> unat (inode_sect 1)" "unat (inode_sect 1) < 91"
    using unat_inode_sect [OF j] by simp_all
  have len: "length (?v (inode_sect 1)) = 512" "length (addrs ?e) = 12"
    using i(2) sect i(3) [OF j] by (auto simp: good_disk_def FSSIZE_nmeta good_file_def mapped_ok_def)
  have entry: "mk_entry s' k = (if k = 1 then ?e else mk_entry s k)" if "k < MAXI" for k
    by (rule winode_entry [OF len j that, of s' ?v]) (simp_all add: s'_def)
  have "\<forall>b \<in> file_blocks ?v (mk_entry s k). mk_disk s' b = ?v b" if "k < MAXI" for k
    using file_blocks_range [OF i(3) [OF that]] sect by (fastforce simp: s'_def)
  note frame = file_frame [OF this]
  have content: "k < MAXI \<Longrightarrow> k \<noteq> 1 \<Longrightarrow> mk_content s' k = mk_content s k" for k
    using entry frame(5) [OF _ i(3)] by (simp add: mk_content_def content_bytes)
  have "good_file (mk_disk s') (mk_entry s 1) n (unat (freeblock s))"
    using frame(4) [OF j] i(3) [OF j] n'(1) by simp
  then have "map (file_byte (mk_disk s') (mk_entry s 1)) [n ..< covered n] = replicate (covered n - n) 0"
    by (intro replicate_eqI) (auto simp: good_file_def)
  then have "file_bytes (mk_disk s') (mk_entry s 1) (covered n) = file_bytes ?v (mk_entry s 1) n @ replicate (covered n - n) 0"
    using frame(5) [OF j i(3) [OF j]] n' upt_add_eq_append [of 0 n "covered n - n"] by (simp add: file_bytes_def)
  then have "mk_content s' 1 = mk_content s 1 @ replicate (covered n - n) 0"
    using entry [OF j] n'(1) num by (simp add: mk_content_def content_bytes)
  moreover have "mk_used s' k = mk_used s k" if "k < MAXI" for k
    using entry [OF that] frame(2) [OF that] by (auto simp: mk_used_def)
  moreover have "backed (mk_disk s') {} (mk_entry s' k) (unat (num_bytes (mk_entry s' k)))" if "k < MAXI" for k
  proof (rule good_backed)
    show "good_file (mk_disk s') (mk_entry s k) (unat (num_bytes (mk_entry s k))) (unat (freeblock s))"
      using frame(4) [OF that] i(3) [OF that] by simp
    show "unat (num_bytes (mk_entry s' k)) \<le> covered (unat (num_bytes (mk_entry s k)))"
      using entry [OF that] num n'(1) le_covered by simp
  qed (simp_all add: entry [OF that] file_block_def)
  moreover have "length (mk_disk s' b) = 512" if "unat b < FSSIZE" for b
    using i(2) that get_put_entry(1) [OF len [folded BLOCK_SIZE_def]] by (simp add: s'_def good_disk_def BLOCK_SIZE_def)
  ultimately show ?thesis
    using run entry content j sect by (auto simp: s'_def)
qed

text \<open>The names in the root directory, in order, and the entries that hold them.\<close>

definition root_names :: "(u8 list \<times> u8 list) list \<Rightarrow> u8 list list" where
  "root_names xs = [46] # [46, 46] # map (\<lambda>x. skip_underscore (base_name (fst x))) xs"

definition root_inums :: "(u8 list \<times> u8 list) list \<Rightarrow> u32 list" where
  "root_inums xs = 1 # 1 # map of_nat [2 ..< 2 + length xs]"

definition root_entries :: "(u8 list \<times> u8 list) list \<Rightarrow> u8 list list" where
  "root_entries xs = map2 mk_dirent (root_inums xs) (root_names xs)"

lemma dirents_of_concat:
  "dirents_of j xs = concat (map2 mk_dirent (map of_nat [j ..< j + length xs]) (map (\<lambda>x. skip_underscore (base_name (fst x))) xs))"
proof (induction xs arbitrary: j)
  case (Cons x xs)
  have "[j ..< j + length (x # xs)] = j # [Suc j ..< Suc j + length xs]"
    by (simp add: upt_conv_Cons del: upt_Suc)
  then show ?case
    using Cons.IH [of "Suc j"] by (simp del: upt_Suc)
qed simp

lemma root_entries_concat: "mk_dirent 1 [46] @ mk_dirent 1 [46, 46] @ dirents_of 2 xs = concat (root_entries xs)"
  by (simp add: root_entries_def root_inums_def root_names_def dirents_of_concat del: upt_Suc)

lemma root_entries_props:
  "length (root_entries xs) = length xs + 2" "d \<in> set (root_entries xs) \<Longrightarrow> length d = 16"
  "i < length xs + 2 \<Longrightarrow> root_entries xs ! i = mk_dirent (root_inums xs ! i) (root_names xs ! i)"
proof -
  have l: "length (root_inums xs) = length xs + 2" "length (root_names xs) = length xs + 2"
    by (simp_all add: root_inums_def root_names_def del: upt_Suc)
  show "length (root_entries xs) = length xs + 2" "d \<in> set (root_entries xs) \<Longrightarrow> length d = 16"
    "i < length xs + 2 \<Longrightarrow> root_entries xs ! i = mk_dirent (root_inums xs ! i) (root_names xs ! i)"
    unfolding root_entries_def using l by auto
qed

lemma mk_dirent_props:
  "dentry_no (mk_dirent i name) = ucast i" "name_matches x (mk_dirent i name) \<longleftrightarrow> (ucast i :: u16) \<noteq> 0 \<and> strncmp (cstr x) (cstr name) 14 = 0"
proof -
  have "le_word (le_bytes 2 w) = w" for w :: u16 by (rule le_word_le_bytes) simp
  then show no: "dentry_no (mk_dirent i name) = ucast i"
    by (simp add: mk_dirent_def dentry_no_def)
  have "dentry_name (mk_dirent i name) k = cstr name k" if "k < 14" for k
    using that by (simp add: mk_dirent_def dentry_name_def cstr_def FILE_NAME_MAX_LENGTH_def nth_append) arith
  then show "name_matches x (mk_dirent i name) \<longleftrightarrow> (ucast i :: u16) \<noteq> 0 \<and> strncmp (cstr x) (cstr name) 14 = 0"
    by (simp add: name_matches_def no strncmp_zero)
qed

text \<open>The files and the root directory fit on the image.\<close>

definition image_fits :: "(u8 list \<times> u8 list) list \<Rightarrow> bool" where
  "image_fits xs \<longleftrightarrow> length xs + 2 \<le> NINODES \<and> (\<forall>x \<in> set xs. length (snd x) \<le> INODE_MAX_BYTES)
     \<and> nmeta + sum_list (map (\<lambda>x. blocks_of (length (snd x))) xs) + blocks_of (16 * (length xs + 2)) \<le> FSSIZE"

text \<open>What the finished image holds.\<close>

definition image_of :: "(u8 list \<times> u8 list) list \<Rightarrow> mkfs \<Rightarrow> bool" where
  "image_of xs s \<longleftrightarrow>
     take 28 (mk_disk s 1) = super_bytes mk_super
     \<and> e_type (mk_entry s 1) = INODE_DIRECTORY
     \<and> (\<exists>pad. dentries (mk_content s 1) = root_entries xs @ replicate pad (replicate 16 0)) 
     \<and> unat (num_bytes (mk_entry s 1)) = covered (16 * (length xs + 2))
     \<and> (\<forall>k < length xs. e_type (mk_entry s (2 + k)) = INODE_REGULAR \<and> mk_content s (2 + k) = snd (xs ! k))
     \<and> allocated mk_super (mk_disk s) = of_nat ` {..< unat (freeblock s)}
     \<and> unat (freeblock s) \<le> FSSIZE \<and> (\<forall>b. unat b < FSSIZE \<longrightarrow> length (mk_disk s b) = BLOCK_SIZE)
     \<and> (\<forall>i < NINODES. backed (mk_disk s) {} (mk_entry s i) (unat (num_bytes (mk_entry s i))))
     \<and> (\<forall>i < NINODES. mk_used s i \<subseteq> of_nat ` {nmeta ..< unat (freeblock s)})
     \<and> (\<forall>i < NINODES. \<forall>j < NINODES. i \<noteq> j \<longrightarrow> mk_used s i \<inter> mk_used s j = {})"

lemma dentries_padded:
  assumes "\<And>d. d \<in> set ds \<Longrightarrow> length d = 16" "n = length (concat ds)"
  shows "\<exists>pad. dentries (concat ds @ replicate (covered n - n) 0) = ds @ replicate pad (replicate 16 0)"
proof -
  have "n = 16 * length ds"
    using assms by (induction ds arbitrary: n) auto
  then have "covered n - n = (32 * ((n + 511) div 512) - length ds) * 16"
    by (simp add: covered_def diff_mult_distrib)
  then have "concat ds @ replicate (covered n - n) 0 = concat (ds @ replicate (32 * ((n + 511) div 512) - length ds) (replicate 16 0))"
    by (simp add: concat_zeros)
  moreover have "chunks 16 (concat (ds @ replicate k (replicate 16 0))) = ds @ replicate k (replicate 16 0)" for k
    using assms(1) by (intro chunks_concat) auto
  ultimately show ?thesis
    unfolding dentries_def by metis
qed

lemma used_new_blocks:
  assumes "good_file v e n fb"
  shows "file_blocks v e \<subseteq> of_nat ` {92 ..< fb}"
proof
  fix b assume "b \<in> file_blocks v e"
  then have "b = of_nat (unat b)" "unat b \<in> {92 ..< fb}"
    using file_blocks_range [OF assms] by auto
  then show "b \<in> of_nat ` {92 ..< fb}"
    by blast
qed

text \<open>The root directory with its two own entries.\<close>

lemma make_root:
  "\<exists>s1 s2 s3. ialloc INODE_DIRECTORY mk_start = Inr (1, s1) \<and> iappend 1 (mk_dirent 1 [46]) s1 = Inr s2 \<and> iappend 1 (mk_dirent 1 [46, 46]) s2 = Inr s3
     \<and> mk_inv s3 \<and> mk_content s3 1 = mk_dirent 1 [46] @ mk_dirent 1 [46, 46] \<and> e_type (mk_entry s3 1) = INODE_DIRECTORY
     \<and> unat (freeblock s3) = 93 \<and> freeinode s3 = of_nat 2 \<and> mk_disk s3 1 = mk_disk mk_start 1"
proof -
  have one: "1 < MAXI" "(of_nat 1 :: u32) = 1"
    by (simp_all add: MAXI_def)
  have b: "blocks_of 0 = 0" "blocks_of 16 = 1" "blocks_of 32 = 1"
    by (simp_all add: blocks_of_def)
  from ialloc_ok [OF mk_start_inv(1,2) one(1), of INODE_DIRECTORY] obtain s1 where
    s1: "ialloc INODE_DIRECTORY mk_start = Inr (1, s1)" "mk_inv s1" "mk_new mk_start 1 INODE_DIRECTORY s1"
    unfolding one(2) by blast
  have c1: "mk_content s1 1 = []" "unat (freeblock s1) = 92"
    using s1(3) mk_start_inv(3) by (simp_all add: mk_new_def)
  from iappend_ok [OF s1(2) one(1), of "mk_dirent 1 [46]"] obtain s2 where
    s2: "iappend 1 (mk_dirent 1 [46]) s1 = Inr s2" "mk_inv s2" "mk_step s1 1 (mk_dirent 1 [46]) s2"
    unfolding one(2) c1 by (auto simp: b FSSIZE_nmeta)
  have c2: "mk_content s2 1 = mk_dirent 1 [46]" "unat (freeblock s2) = 93"
    using s2(3) c1 b by (auto simp: mk_step_def simp del: length_mk_content)
  from iappend_ok [OF s2(2) one(1), of "mk_dirent 1 [46, 46]"] obtain s3 where
    s3: "iappend 1 (mk_dirent 1 [46, 46]) s2 = Inr s3" "mk_inv s3" "mk_step s2 1 (mk_dirent 1 [46, 46]) s3"
    unfolding one(2) c2 by (auto simp: b FSSIZE_nmeta)
  have "unat (freeblock s3) = 93"
    using s3(3) c2 b by (auto simp: mk_step_def simp del: length_mk_content)
  moreover have "e_type (mk_entry s3 1) = INODE_DIRECTORY" "freeinode s3 = of_nat 2"
    using s1(3) s2(3) s3(3) by (simp_all add: mk_new_def mk_step_def zero_entry_def)
  moreover have "mk_content s3 1 = mk_dirent 1 [46] @ mk_dirent 1 [46, 46]" "mk_disk s3 1 = mk_disk mk_start 1"
    using s1(3) s2(3) s3(3) c2 by (simp_all add: mk_new_def mk_step_def)
  ultimately show ?thesis
    using s1(1) s2(1) s3(1,2) by blast
qed

lemma bitmap_write_frame:
  assumes off: "\<forall>b. b \<noteq> 91 \<longrightarrow> mk_disk s' b = mk_disk s b" and i: "i < MAXI" and used: "91 \<notin> mk_used s i" and n: "length (mk_content s i) \<le> 71680"
  shows "mk_entry s' i = mk_entry s i" "mk_content s' i = mk_content s i" "mk_used s' i = mk_used s i"
proof -
  let ?v = "mk_disk s" and ?e = "mk_entry s i"
  have "inode_sect i \<noteq> 91"
    using unat_inode_sect [OF i] inode_sect_small(1) [OF i] by (auto simp: word_unat_eq_iff)
  then show e: "mk_entry s' i = ?e"
    using off by (simp add: mk_entry_def)
  have same: "\<forall>b \<in> file_blocks ?v ?e. mk_disk s' b = ?v b"
    using off used unfolding mk_used_def by metis
  show "mk_used s' i = mk_used s i"
    using file_frame(2) [OF same] by (simp add: mk_used_def e)
  have "file_byte (mk_disk s') ?e k = file_byte ?v ?e k" if "k < unat (num_bytes ?e)" for k
  proof -
    have k: "k div 512 < 140"
      using that n less_mult_imp_div_less [of k 140 512] by simp
    then have "file_block ?v ?e (k div 512) \<noteq> 91"
      using used file_blocksI [of "k div 512" ?v ?e] by (auto simp: mk_used_def)
    then show ?thesis
      using off file_frame(1) [OF same, of "k div 512"] k by (simp add: file_byte_def)
  qed
  then show "mk_content s' i = mk_content s i"
    by (simp add: mk_content_def content_def e)
qed

text \<open>Rounding the root directory up and writing the bitmap.\<close>

lemma finish_ok:
  assumes inv: "mk_inv s" and n: "n = length (mk_content s 1)" "n mod 512 \<noteq> 0" "n \<le> 3200"
  shows "\<exists>s1 s'. fix_root 1 s = Inr s1 \<and> balloc (unat (freeblock s1)) s1 = Inr s'
    \<and> mk_content s' 1 = mk_content s 1 @ replicate (covered n - n) 0 \<and> e_type (mk_entry s' 1) = e_type (mk_entry s 1)
    \<and> (\<forall>i < MAXI. i \<noteq> 1 \<longrightarrow> mk_entry s' i = mk_entry s i \<and> mk_content s' i = mk_content s i)
    \<and> (\<forall>i < MAXI. mk_used s' i = mk_used s i) \<and> freeblock s' = freeblock s
    \<and> allocated mk_super (mk_disk s') = of_nat ` {..< unat (freeblock s)} \<and> (\<forall>b. unat b < 65 \<longrightarrow> mk_disk s' b = mk_disk s b)
    \<and> unat (freeblock s) \<le> FSSIZE \<and> (\<forall>i < MAXI. backed (mk_disk s') {} (mk_entry s' i) (unat (num_bytes (mk_entry s' i))))
    \<and> (\<forall>b. unat b < FSSIZE \<longrightarrow> length (mk_disk s' b) = 512)"
proof -
  from fix_root_ok [OF inv n(1,2)] obtain s1 where s1: "fix_root 1 s = Inr s1" "mk_content s1 1 = mk_content s 1 @ replicate (covered n - n) 0"
      "e_type (mk_entry s1 1) = e_type (mk_entry s 1)" "\<forall>i < MAXI. mk_used s1 i = mk_used s i"
      "\<forall>i < MAXI. i \<noteq> 1 \<longrightarrow> mk_entry s1 i = mk_entry s i \<and> mk_content s1 i = mk_content s i"
      "freeblock s1 = freeblock s" "\<forall>b. unat b < 65 \<longrightarrow> mk_disk s1 b = mk_disk s b"
      "\<forall>i < MAXI. backed (mk_disk s1) {} (mk_entry s1 i) (unat (num_bytes (mk_entry s1 i)))" "\<forall>b. unat b < FSSIZE \<longrightarrow> length (mk_disk s1 b) = 512"
    by blast
  note i = mk_invD [OF inv]
  have "unat (freeblock s1) \<le> 1000"
    using i(2) s1(6) by (simp add: good_disk_def FSSIZE_nmeta)
  from balloc_allocated [OF this, of s1] obtain s' where s': "balloc (unat (freeblock s1)) s1 = Inr s'"
      "allocated mk_super (mk_disk s') = of_nat ` {..< unat (freeblock s1)}" "\<forall>b. b \<noteq> 91 \<longrightarrow> mk_disk s' b = mk_disk s1 b" "freeblock s' = freeblock s1"
      "length (mk_disk s' 91) = 512"
    by blast
  have used: "91 \<notin> mk_used s1 k \<and> length (mk_content s1 k) \<le> 71680" if "k < MAXI" for k
  proof -
    have "length (mk_content s k) \<le> 71680" "covered n \<le> 71680"
      using i(3) [OF that] n(3) by (simp_all add: good_file_def covered_def)
    moreover have "91 \<notin> mk_used s1 k"
      using file_blocks_range [OF i(3) [OF that], of 91] s1(4) that by (auto simp: mk_used_def)
    ultimately show ?thesis
      using s1(2,5) that n(1) by (cases "k = 1") (auto simp del: length_mk_content One_nat_def)
  qed
  then have frame: "mk_entry s' k = mk_entry s1 k" "mk_content s' k = mk_content s1 k" "mk_used s' k = mk_used s1 k" if "k < MAXI" for k
    using bitmap_write_frame [OF s'(3) that] that by blast+
  have "backed (mk_disk s') {} (mk_entry s' k) (unat (num_bytes (mk_entry s' k)))" if "k < MAXI" for k
    unfolding frame(1) [OF that]
  proof (rule backed_frame(1))
    show "backed (mk_disk s1) {} (mk_entry s1 k) (unat (num_bytes (mk_entry s1 k)))" using s1(8) that by blast
    show "\<forall>b \<in> file_blocks (mk_disk s1) (mk_entry s1 k). mk_disk s' b = mk_disk s1 b"
      using used [OF that] s'(3) unfolding mk_used_def by metis
  qed
  moreover have "length (mk_disk s' b) = 512" if "unat b < FSSIZE" for b
    using s'(3,5) s1(9) that by (cases "b = 91") auto
  moreover have "unat (freeblock s) \<le> FSSIZE" using i(2) by (simp add: good_disk_def)
  moreover have "unat b < 65 \<Longrightarrow> mk_disk s' b = mk_disk s b" for b
    using s'(3) s1(7) by (cases "b = 91") auto
  moreover have "1 < MAXI"
    by (simp add: MAXI_def)
  ultimately show ?thesis
    using s1 s' frame by (simp del: length_mk_content One_nat_def)
qed

lemma make_fs_image:
  assumes fit: "image_fits xs" and full: "(length xs + 2) mod 32 \<noteq> 0"
  shows "\<exists>s. make_fs (map (\<lambda>x. (fst x, Some (snd x))) xs) = Inr s \<and> image_of xs s"
proof -
  let ?n = "16 * (length xs + 2)"
  from make_root obtain s1 s2 s3 where root: "ialloc INODE_DIRECTORY mk_start = Inr (1, s1)" "iappend 1 (mk_dirent 1 [46]) s1 = Inr s2"
      "iappend 1 (mk_dirent 1 [46, 46]) s2 = Inr s3"
    and s3: "mk_inv s3" "mk_content s3 1 = mk_dirent 1 [46] @ mk_dirent 1 [46, 46]" "e_type (mk_entry s3 1) = INODE_DIRECTORY"
      "unat (freeblock s3) = 93" "freeinode s3 = of_nat 2" "mk_disk s3 1 = mk_disk mk_start 1"
    by blast
  have l3: "length (mk_content s3 1) = 32"
    by (simp add: s3(2) del: length_mk_content One_nat_def)
  have len: "?n \<le> 3200" "?n mod 512 \<noteq> 0"
    using fit full mod_mult_mult1 [of 16 "length xs + 2" 32] by (auto simp: image_fits_def NINODES_def)
  have "fits s3 2 xs"
    using fit len s3(4,5) unfolding fits_def l3 by (auto simp: image_fits_def MAXI_def FSSIZE_nmeta INODE_MAX_BYTES_eq blocks_of_def)
  from add_files_ok [OF s3(1) this] obtain s4 where s4: "add_files 1 (map (\<lambda>x. (fst x, Some (snd x))) xs) s3 = Inr s4" "mk_inv s4" "mk_added s3 2 xs s4"
    by blast
  have c4: "mk_content s4 1 = concat (root_entries xs)"
    using s4(3) s3(2) by (simp add: mk_added_def flip: root_entries_concat)
  have n4: "?n = length (mk_content s4 1)"
    unfolding c4 root_entries_concat [symmetric] by simp
  from finish_ok [OF s4(2) n4 len(2,1)] obtain s5 s where s: "fix_root 1 s4 = Inr s5" "balloc (unat (freeblock s5)) s5 = Inr s"
      "mk_content s 1 = mk_content s4 1 @ replicate (covered ?n - ?n) 0" "e_type (mk_entry s 1) = e_type (mk_entry s4 1)"
      "\<forall>i < MAXI. i \<noteq> 1 \<longrightarrow> mk_entry s i = mk_entry s4 i \<and> mk_content s i = mk_content s4 i" "\<forall>i < MAXI. mk_used s i = mk_used s4 i"
      "freeblock s = freeblock s4" "allocated mk_super (mk_disk s) = of_nat ` {..< unat (freeblock s4)}" "\<forall>b. unat b < 65 \<longrightarrow> mk_disk s b = mk_disk s4 b"
      "unat (freeblock s4) \<le> FSSIZE" "\<forall>i < MAXI. backed (mk_disk s) {} (mk_entry s i) (unat (num_bytes (mk_entry s i)))"
      "\<forall>b. unat b < FSSIZE \<longrightarrow> length (mk_disk s b) = 512"
    by blast
  note i = mk_invD [OF s4(2)]
  have run: "make_fs (map (\<lambda>x. (fst x, Some (snd x))) xs) = Inr s"
    using root s4(1) s(1,2) unfolding make_fs_def mk_start_def [symmetric] by (simp add: ROOT_INODE_NO_def)
  have "take 28 (mk_disk s 1) = super_bytes mk_super" "e_type (mk_entry s 1) = INODE_DIRECTORY"
    using s(4,9) s4(3) s3(3,6) mk_start_inv(4) by (simp_all add: mk_added_def super_sector)
  moreover have "\<exists>pad. dentries (mk_content s 1) = root_entries xs @ replicate pad (replicate 16 0)"
    using dentries_padded [of "root_entries xs" ?n] s(3) c4 n4 root_entries_props(2) by simp
  moreover have "unat (num_bytes (mk_entry s 1)) = covered ?n"
    using arg_cong [OF s(3), of length] n4 le_covered [of ?n] by simp
  moreover have "\<forall>k < length xs. e_type (mk_entry s (2 + k)) = INODE_REGULAR \<and> mk_content s (2 + k) = snd (xs ! k)"
    using s(5) s4(3) len(1) by (auto simp: mk_added_def MAXI_def simp del: length_mk_content)
  moreover have "mk_used s4 k \<subseteq> of_nat ` {nmeta ..< unat (freeblock s)}" if "k < MAXI" for k
    using used_new_blocks [OF i(3) [OF that]] s(7) by (simp add: mk_used_def FSSIZE_nmeta)
  moreover have "NINODES \<le> MAXI"
    by (simp add: MAXI_def NINODES_def)
  ultimately have "image_of xs s"
    using s(6,7,8,10,11,12) i(4) unfolding image_of_def BLOCK_SIZE_def by auto
  then show ?thesis
    using run by blast
qed

section \<open>Properties\<close>

text \<open>
  C14: mkfs builds a correct image.  For files that fit, when the entries of the root directory do not fill whole blocks (in that case
  the rounding of the root's size at the end adds a block that does not exist), it returns, block 1 holds the super block, the
  root inode is a directory whose entries as the kernel reads them are the two dots and the names given, followed by free ones,
  each file's inode has the file's bytes as content, no file has a hole, the bitmap marks exactly the blocks handed out, and
  no two inodes share a block.
\<close>

theorem mkfs_image:
  assumes "image_fits xs" and "(length xs + 2) mod 32 \<noteq> 0"
  shows "\<exists>s. make_fs (map (\<lambda>x. (fst x, Some (snd x))) xs) = Inr s \<and> image_of xs s"
  using assms by (rule make_fs_image)

definition sample_files :: "(u8 list \<times> u8 list) list" where
  "sample_files = [([46, 46, 47, 95, 108, 115], replicate 700 7), ([115, 104], [1, 2, 3])]"

lemma sample_files_fit: "image_fits sample_files" "(length sample_files + 2) mod 32 \<noteq> 0"
  by (simp_all add: image_fits_def sample_files_def NINODES_def FSSIZE_nmeta blocks_of_def INODE_MAX_BYTES_eq)

theorem mkfs_image_witness:
  "\<exists>s. make_fs [([46, 46, 47, 95, 108, 115], Some (replicate 700 7)), ([115, 104], Some [1, 2, 3])] = Inr s \<and> image_of sample_files s"
  using mkfs_image [OF sample_files_fit] by (simp add: sample_files_def)

text \<open>The entries of the root directory, and searching them.\<close>

definition names_differ :: "(u8 list \<times> u8 list) list \<Rightarrow> bool" where
  "names_differ xs \<longleftrightarrow> (\<forall>j < length xs + 2. \<forall>i < j. strncmp (cstr (root_names xs ! j)) (cstr (root_names xs ! i)) 14 \<noteq> 0)"

lemma image_dir_find:
  assumes im: "image_of xs s" and fit: "image_fits xs" and names: "names_differ xs" and k: "k < length xs"
  shows "dir_find (skip_underscore (base_name (fst (xs ! k)))) (dentries (mk_content s 1)) = Some (2 + k)"
    "dentry_no (dentries (mk_content s 1) ! (2 + k)) = of_nat (2 + k)"
proof -
  let ?name = "skip_underscore (base_name (fst (xs ! k)))"
  from im obtain pad where d: "dentries (mk_content s 1) = root_entries xs @ replicate pad (replicate 16 0)"
    by (auto simp: image_of_def)
  have name: "root_names xs ! (2 + k) = ?name" "root_inums xs ! (2 + k) = of_nat (2 + k)"
    using k by (simp_all add: root_names_def root_inums_def del: upt_Suc)
  have nth: "dentries (mk_content s 1) ! i = mk_dirent (root_inums xs ! i) (root_names xs ! i)" if "i < length xs + 2" for i
    using that by (simp add: d nth_append root_entries_props del: One_nat_def)
  define n where "n = 2 + k"
  have n: "n < 65536" "0 < n"
    using fit k by (simp_all add: image_fits_def NINODES_def n_def)
  then have "unat (of_nat n :: u16) = n" "unat (ucast (of_nat n :: u32) :: u16) = n"
    by (simp_all add: unsigned_of_nat unsigned_ucast_eq take_bit_nat_eq_self)
  then have no: "(ucast (of_nat (2 + k) :: u32) :: u16) = of_nat (2 + k)" "(of_nat (2 + k) :: u16) \<noteq> 0"
    unfolding n_def [symmetric] word_unat_eq_iff using n(2) by simp_all
  have "name_matches ?name (dentries (mk_content s 1) ! (2 + k))"
    using nth [of "2 + k"] k name no by (simp add: mk_dirent_props strncmp_zero del: of_nat_add)
  moreover have "\<not> name_matches ?name (dentries (mk_content s 1) ! i)" if "i < 2 + k" for i
    using nth [of i] names [unfolded names_differ_def, rule_format, of "2 + k" i] k that unfolding name(1) by (simp add: mk_dirent_props)
  moreover have "2 + k < length (dentries (mk_content s 1))"
    using k by (simp add: d root_entries_props del: One_nat_def)
  ultimately show "dir_find ?name (dentries (mk_content s 1)) = Some (2 + k)"
    by (simp add: dir_find_Some)
  show "dentry_no (dentries (mk_content s 1) ! (2 + k)) = of_nat (2 + k)"
    using nth [of "2 + k"] k name no by (simp add: mk_dirent_props del: of_nat_add)
qed

text \<open>The kernel sees the image as its disk, and has loaded the root's inode at \<open>ip\<close> and the inode of file \<open>k\<close> at \<open>ip'\<close>.\<close>

definition mounted :: "mkfs \<Rightarrow> ptr \<Rightarrow> ptr \<Rightarrow> nat \<Rightarrow> itree \<Rightarrow> bool" where
  "mounted s ip ip' k t \<longleftrightarrow> (\<forall>b. unat b < FSSIZE \<longrightarrow> t_view (it_txn t) b = mk_disk s b) \<and> t_held (it_txn t) = {}
     \<and> entry t ip = mk_entry s 1 \<and> entry t ip' = mk_entry s (2 + k)"

lemma mounted_file:
  assumes "image_of xs s" and "mounted s ip ip' k t" and "j < NINODES" and "e = mk_entry s j"
  shows "backed (t_view (it_txn t)) (t_held (it_txn t)) e (unat (num_bytes e))" "content (t_view (it_txn t)) e = mk_content s j"
proof -
  have B: "backed (mk_disk s) {} e (unat (num_bytes e))" using assms(1,3,4) by (simp add: image_of_def)
  have "mk_used s j \<subseteq> of_nat ` {nmeta ..< unat (freeblock s)}" "unat (freeblock s) \<le> FSSIZE"
    using assms(1,3) by (simp_all add: image_of_def)
  then have "unat b < FSSIZE" if "b \<in> file_blocks (mk_disk s) e" for b
    using that assms(4) unat_small(1) by (fastforce simp: mk_used_def FSSIZE_nmeta)
  then have same: "\<forall>b \<in> file_blocks (mk_disk s) e. t_view (it_txn t) b = mk_disk s b" using assms(2) by (simp add: mounted_def)
  show "backed (t_view (it_txn t)) (t_held (it_txn t)) e (unat (num_bytes e))"
    using backed_frame(1) [OF B same] assms(2) by (simp add: mounted_def)
  show "content (t_view (it_txn t)) e = mk_content s j"
    using backed_frame(2) [OF B same] assms(4) by (simp add: mk_content_def)
qed

text \<open>
  C15: the kernel finds in the image what mkfs entered.  When no two names of the root directory agree in their first 14 bytes, and the
  root's entries do not fill whole blocks, then in a kernel whose disk is the image \<^verbatim>\<open>inode_lookup\<close> of a file's name in the root
  directory returns that file's inode number and the index of its entry, and \<^verbatim>\<open>inode_read\<close> of that inode returns the
  bytes of the file.
\<close>

theorem mkfs_lookup:
  assumes "image_fits xs" and "(length xs + 2) mod 32 \<noteq> 0" and "names_differ xs"
    and "make_fs (map (\<lambda>x. (fst x, Some (snd x))) xs) = Inr s" and "k < length xs" and "mounted s ip ip' k t"
    and "txn_ok b (2 * (unat (num_bytes (mk_entry s 1)) div 16) + 2 * io_rounds 0 (length (snd (xs ! k)))) (it_txn t)"
  shows "\<exists>t1 t2. inode_lookup ip (skip_underscore (base_name (fst (xs ! k)))) t = Inr ((of_nat (2 + k), Some (of_nat (2 + k))), t1)
    \<and> inode_read ip' 0 (of_nat (length (snd (xs ! k)))) t1 = Inr ((of_nat (length (snd (xs ! k))), snd (xs ! k)), t2)"
proof -
  let ?n = "length (snd (xs ! k))" and ?name = "skip_underscore (base_name (fst (xs ! k)))"
  have im: "image_of xs s" using make_fs_image [OF assms(1,2)] assms(4) by simp
  have e: "entry t ip = mk_entry s 1" "entry t ip' = mk_entry s (2 + k)" using assms(6) by (simp_all add: mounted_def)
  have k: "2 + k < NINODES" "1 < NINODES" using assms(1,5) by (simp_all add: image_fits_def NINODES_def)
  note root = mounted_file [OF im assms(6) k(2) e(1)] and fil = mounted_file [OF im assms(6) k(1) e(2)]
  have small: "?n \<le> 71680" using assms(1) nth_mem [OF assms(5)] by (auto simp: image_fits_def INODE_MAX_BYTES_eq)
  have size: "unat (num_bytes (mk_entry s (2 + k))) = ?n" "mk_content s (2 + k) = snd (xs ! k)"
    "e_type (mk_entry s (2 + k)) = INODE_REGULAR" "e_type (mk_entry s 1) = INODE_DIRECTORY"
    using im assms(5) length_mk_content [of s "2 + k"] by (simp_all add: image_of_def del: length_mk_content)
  have "16 dvd unat (num_bytes (mk_entry s 1))" using im by (simp add: image_of_def covered_def)
  then have "dir_ready b (2 * io_rounds 0 ?n) t ip" using root(1) assms(7) size(4) by (simp add: dir_ready_def e)
  then obtain t1 where l: "inode_lookup ip ?name t = Inr ((case dir_find ?name (dir_of t ip) of
        Some i \<Rightarrow> (ucast (dentry_no (dir_of t ip ! i)), Some (of_nat i)) | None \<Rightarrow> (0, None)), t\<lparr>it_txn := t1\<rparr>)"
      "txn_step b (2 * io_rounds 0 ?n) (it_txn t) t1" "t_view t1 = t_view (it_txn t)"
    by (rule inode_lookup_effect)
  have dir: "dir_of t ip = dentries (mk_content s 1)" using root(2) by (simp add: dir_of_def e)
  have no: "ucast (of_nat (2 + k) :: u16) = (of_nat (2 + k) :: u64)"
  proof -
    define n where "n = 2 + k"
    have "n < 65536" using k(1) by (simp add: n_def NINODES_def)
    then show ?thesis
      unfolding n_def [symmetric] by (simp add: word_unat_eq_iff unsigned_ucast_eq unsigned_of_nat take_bit_nat_eq_self)
  qed
  have lookup: "inode_lookup ip ?name t = Inr ((of_nat (2 + k), Some (of_nat (2 + k))), t\<lparr>it_txn := t1\<rparr>)"
    using l(1) no image_dir_find [OF im assms(1,3,5)] unfolding dir by (simp del: of_nat_add)
  let ?t = "t\<lparr>it_txn := t1\<rparr>"
  have n: "unat (of_nat ?n :: u64) = ?n" using small by (intro unat_of_nat_ptr) simp
  have "t_held t1 = {}" "txn_ok b (2 * io_rounds 0 ?n + 0) t1" using l(2) assms(6) by (simp_all add: txn_step_def mounted_def)
  then have "e_type (entry ?t ip') \<noteq> INODE_DEVICE" "unat (0 :: u64) \<le> unat (num_bytes (entry ?t ip'))" "unat (0 :: u64) + unat (of_nat ?n :: u64) < 2 ^ 64"
    "?n = min (unat (of_nat ?n :: u64)) (unat (num_bytes (entry ?t ip')) - unat (0 :: u64))" "txn_ok b (2 * io_rounds (unat (0 :: u64)) (unat (0 :: u64) + ?n) + 0) (it_txn ?t)"
    "backed (t_view (it_txn ?t)) (t_held (it_txn ?t)) (entry ?t ip') (unat (num_bytes (entry ?t ip')))"
    using size small n fil(1) assms(6) l(3) by (simp_all add: e mounted_def INODE_DEVICE_def INODE_REGULAR_def)
  then obtain t2 where "inode_read ip' 0 (of_nat ?n) ?t
      = Inr ((of_nat ?n, take ?n (drop (unat (0 :: u64)) (content (t_view (it_txn ?t)) (entry ?t ip')))), ?t\<lparr>it_txn := t2\<rparr>)"
    by (rule inode_read_effect)
  then have "inode_read ip' 0 (of_nat ?n) ?t = Inr ((of_nat ?n, snd (xs ! k)), ?t\<lparr>it_txn := t2\<rparr>)"
    using fil(2) size(2) l(3) by (simp add: e)
  with lookup show ?thesis by blast
qed

text \<open>A kernel with twelve free pages whose disk is an image, the root's inode at 0xD040 and that of the first file at 0xD0C0.\<close>

definition image_heap :: kheap where
  "image_heap = roomy_heap\<lparr>phys := \<lparr>fl_next = 0xC000, page_word = \<lambda>p. p - 0x1000\<rparr>\<rparr>"

definition image_tree :: "mkfs \<Rightarrow> itree" where
  "image_tree s = sample_tree\<lparr>
     it_txn := (None, sample_fs\<lparr>kh := image_heap, disk := \<lambda>b. if unat b < FSSIZE then mk_disk s b else replicate 512 0\<rparr>),
     it_list := [0xD040, 0xD0C0],
     it_inode := \<lambda>p. \<lparr>i_locked = True, i_rc = \<lparr>count = 1\<rparr>, i_no = if p = 0xD040 then 1 else 2, i_valid = True,
       i_entry = if p = 0xD040 then mk_entry s 1 else mk_entry s 2\<rparr>\<rparr>"

lemma image_objs: "arena_objs 0x100 {0x100, 0x200} image_heap {} 72"
proof -
  have "arena_rep image_heap a []" if "a = 0x100 \<or> a = 0x200" for a
    using that by (auto simp: arena_rep_def arena_core_def arena_shape_def) (simp_all add: image_heap_def roomy_heap_def arena_consts)
  then have "kheap_rep image_heap [0xC000, 0xB000, 0xA000, 0x9000, 0x8000, 0x7000, 0x6000, 0x5000, 0x4000, 0x3000, 0x2000, 0x1000]
      {0x100, 0x200} (\<lambda>_. [])"
    by (simp add: kheap_rep_def free_pages_def) (simp add: image_heap_def roomy_heap_def)
  moreover have "slots image_heap 0x100 = 6" by (simp add: slots_def image_heap_def roomy_heap_def)
  ultimately show ?thesis
    unfolding arena_objs_def by (intro exI conjI) (assumption | simp add: live_def avail_def)+
qed

lemma image_tree_ok:
  assumes "image_of xs s"
  shows "txn_ok (snd (it_txn (image_tree s))) 72 (it_txn (image_tree s))" "mounted s 0xD040 0xD0C0 0 (image_tree s)"
proof -
  have "cache_inv (snd (it_txn (image_tree s)))"
    using assms by (simp add: cache_inv_def image_tree_def sample_fs_def image_of_def BLOCK_SIZE_def)
  moreover have "cache_mem (snd (it_txn (image_tree s))) 72"
    unfolding cache_mem_def using image_objs
    by (rule_tac exI [of _ "{0x100, 0x200}"], rule_tac exI [of _ "{}"], rule_tac exI [of _ 72])
      (simp add: image_tree_def sample_fs_def sample_cache_def)
  ultimately show "txn_ok (snd (it_txn (image_tree s))) 72 (it_txn (image_tree s))"
    by (simp add: txn_ok_def same_log_def image_tree_def)
  show "mounted s 0xD040 0xD0C0 0 (image_tree s)"
    by (simp add: mounted_def image_tree_def cview_def held_def sample_fs_def)
qed

theorem mkfs_lookup_witness:
  "\<exists>s t1 t2. make_fs (map (\<lambda>x. (fst x, Some (snd x))) sample_files) = Inr s
     \<and> inode_lookup 0xD040 [108, 115] (image_tree s) = Inr ((2, Some 2), t1) \<and> inode_read 0xD0C0 0 700 t1 = Inr ((700, replicate 700 7), t2)"
proof -
  from make_fs_image [OF sample_files_fit] obtain s where
    run: "make_fs (map (\<lambda>x. (fst x, Some (snd x))) sample_files) = Inr s" and im: "image_of sample_files s" by blast
  have "root_names sample_files = [[46], [46, 46], [108, 115], [115, 104]]"
    by (simp add: root_names_def sample_files_def skip_underscore_def SLASH_def)
  moreover have "strncmp (cstr [46, 46]) (cstr [46]) 14 \<noteq> 0" "strncmp (cstr [108, 115]) (cstr [46]) 14 \<noteq> 0"
    "strncmp (cstr [108, 115]) (cstr [46, 46]) 14 \<noteq> 0" "strncmp (cstr [115, 104]) (cstr [46]) 14 \<noteq> 0"
    "strncmp (cstr [115, 104]) (cstr [46, 46]) 14 \<noteq> 0" "strncmp (cstr [115, 104]) (cstr [108, 115]) 14 \<noteq> 0"
    by code_simp+
  ultimately have names: "names_differ sample_files"
    by (simp add: names_differ_def sample_files_def All_less_Suc)
  have "unat (num_bytes (mk_entry s 1)) = 512"
    using im by (simp add: image_of_def sample_files_def covered_def)
  then have "txn_ok (snd (it_txn (image_tree s))) (2 * (unat (num_bytes (mk_entry s 1)) div 16) + 2 * io_rounds 0 700) (it_txn (image_tree s))"
    using bs.ok_mono [OF image_tree_ok(1) [OF im]] by (simp add: io_rounds_def)
  with mkfs_lookup [OF sample_files_fit names run _ image_tree_ok(2) [OF im]] show ?thesis
    using run by (simp add: sample_files_def skip_underscore_def SLASH_def del: split_paired_Ex)
qed

end
