(* ===== verification/File_Table.thy ===== *)
theory File_Table
  imports Directory
begin

text \<open>
  Open files, \<^verbatim>\<open>fs/file.c\<close>: the table of file structures with their reference counts and offsets, on top of the
  inode layer.  A pointer to a file structure is its address in the table.  Each operation that begins its own atomic operation has a
  context of its own, and the one of its caller is untouched.
\<close>

section \<open>State\<close>

datatype fdtype = FD_NONE | FD_PIPE | FD_INODE

definition NFILE :: nat where
  "NFILE = 100"

record File =
  f_type :: fdtype
  f_ref :: u32
  f_readable :: u8
  f_writable :: u8
  f_pipe :: ptr
  f_ip :: ptr
  f_off :: u64

definition sizeof_File :: nat where
  "sizeof_File = 40"

record fsys =
  fs_tree :: itree
  ft_base :: ptr
  ft_file :: "ptr \<Rightarrow> File"

definition file_addr :: "ptr \<Rightarrow> nat \<Rightarrow> ptr" where
  "file_addr base i = base + of_nat (sizeof_File * i)"

definition upd_file :: "ptr \<Rightarrow> (File \<Rightarrow> File) \<Rightarrow> fsys \<Rightarrow> fsys" where
  "upd_file f g s = s\<lparr>ft_file := (ft_file s)(f := g (ft_file s f))\<rparr>"

definition on_tree :: "(itree \<Rightarrow> ('a \<times> itree) res) \<Rightarrow> fsys \<Rightarrow> ('a \<times> fsys) res" where
  "on_tree m s = bindE (m (fs_tree s)) (\<lambda>(r, t). Inr (r, s\<lparr>fs_tree := t\<rparr>))"

text \<open>A call between \<^verbatim>\<open>begin_op\<close> and \<^verbatim>\<open>end_op\<close> with a context of its own.\<close>

definition with_op :: "(itree \<Rightarrow> ('a \<times> itree) res) \<Rightarrow> itree \<Rightarrow> ('a \<times> itree) res" where
  "with_op body s =
     bindE (tree_begin_op s) (\<lambda>s1.
     bindE (body s1) (\<lambda>(r, s2).
     bindE (tree_end_op s2) (\<lambda>s3.
     Inr (r, s3\<lparr>it_txn := (fst (it_txn s), snd (it_txn s3))\<rparr>))))"

section \<open>Operations\<close>

definition filealloc :: "fsys \<Rightarrow> ptr \<times> fsys" where
  "filealloc s =
     (case find_from (\<lambda>i. f_ref (ft_file s (file_addr (ft_base s) i)) = 0) 0 NFILE of
        Some i \<Rightarrow> (let f = file_addr (ft_base s) i in (f, upd_file f (\<lambda>x. x\<lparr>f_ref := 1\<rparr>) s))
      | None \<Rightarrow> (NULL, s))"

definition filedup :: "ptr \<Rightarrow> fsys \<Rightarrow> fsys res" where
  "filedup f s =
     bindE (assertE (\<not> sint (f_ref (ft_file s f)) < 1) ''filedup'') (\<lambda>_.
     Inr (upd_file f (\<lambda>x. x\<lparr>f_ref := f_ref x + 1\<rparr>) s))"

definition fileclose :: "ptr \<Rightarrow> fsys \<Rightarrow> fsys res" where
  "fileclose f s =
     bindE (assertE (\<not> sint (f_ref (ft_file s f)) < 1) ''fileclose'') (\<lambda>_.
     let s = upd_file f (\<lambda>x. x\<lparr>f_ref := f_ref x - 1\<rparr>) s; ff = ft_file s f
     in if sint (f_ref ff) > 0 then Inr s
        else let s = upd_file f (\<lambda>x. x\<lparr>f_ref := 0, f_type := FD_NONE\<rparr>) s
             in if f_type ff = FD_INODE
                then bindE (on_tree (with_op (\<lambda>t. bindE (inode_put (f_ip ff) t) (\<lambda>t. Inr ((), t)))) s) (\<lambda>(_, s). Inr s)
                else Inr s)"

definition filestat :: "u32 \<Rightarrow> u32 \<Rightarrow> ptr \<Rightarrow> fsys \<Rightarrow> (stat option \<times> fsys) res" where
  "filestat S_IFREG S_IFDIR f s =
     (let ff = ft_file s f
      in if f_type ff = FD_INODE
         then on_tree (\<lambda>t.
                bindE (inode_lock (f_ip ff) t) (\<lambda>t.
                bindE (stati S_IFREG S_IFDIR (it_inode t (f_ip ff))) (\<lambda>st.
                bindE (inode_unlock (f_ip ff) t) (\<lambda>t. Inr (Some st, t))))) s
         else Inr (None, s))"

text \<open>The result is the returned number and the bytes stored at \<^verbatim>\<open>addr\<close>.\<close>

definition fileread :: "ptr \<Rightarrow> u64 \<Rightarrow> fsys \<Rightarrow> ((u64 \<times> u8 list) \<times> fsys) res" where
  "fileread f n s =
     (let ff = ft_file s f
      in if f_readable ff = 0 then Inr ((- 1, []), s)
         else if f_type ff = FD_INODE
         then bindE (on_tree (\<lambda>t.
                bindE (inode_lock (f_ip ff) t) (\<lambda>t.
                bindE (inode_read (f_ip ff) (f_off ff) n t) (\<lambda>(r, t).
                bindE (inode_unlock (f_ip ff) t) (\<lambda>t. Inr (r, t))))) s) (\<lambda>((r, bytes), s).
              Inr ((r, bytes), upd_file f (\<lambda>x. x\<lparr>f_off := f_off x + r\<rparr>) s))
         else Inl (Panic ''fileread''))"

definition MAX_WRITE :: nat where
  "MAX_WRITE = (INODE_MAX_BLOCKS - 1 - 1 - 2) div 2 * 512"

definition write_chunk :: "ptr \<Rightarrow> u8 list \<Rightarrow> fsys \<Rightarrow> (u64 \<times> fsys) res" where
  "write_chunk f src s =
     (let ff = ft_file s f
      in bindE (on_tree (with_op (\<lambda>t.
           bindE (inode_lock (f_ip ff) t) (\<lambda>t.
           bindE (inode_write (f_ip ff) src (f_off ff) t) (\<lambda>(r, t).
           bindE (inode_unlock (f_ip ff) t) (\<lambda>t. Inr (r, t)))))) s) (\<lambda>(r, s).
         Inr (r, upd_file f (\<lambda>x. x\<lparr>f_off := f_off x + r\<rparr>) s)))"

text \<open>The loop of \<^verbatim>\<open>filewrite\<close> over the bytes not yet written; the result says whether all were.\<close>

function write_loop :: "ptr \<Rightarrow> u8 list \<Rightarrow> fsys \<Rightarrow> (bool \<times> fsys) res" where
  "write_loop f src s =
     (if src = [] then Inr (True, s)
      else let n1 = min (length src) MAX_WRITE
           in bindE (write_chunk f (take n1 src) s) (\<lambda>(r, s).
              if sint r < 0 then Inr (False, s)
              else if r \<noteq> of_nat n1 then Inl (Panic ''short filewrite'')
              else write_loop f (drop n1 src) s))"
  by pat_completeness auto
termination
  by (relation "measure (\<lambda>(f, src, s). length src)") (auto simp: MAX_WRITE_def inode_consts)

declare write_loop.simps [simp del]

text \<open>\<open>n\<close> is the signed count and \<open>src\<close> the bytes at \<^verbatim>\<open>addr\<close>, none when the count is negative.\<close>

definition filewrite :: "ptr \<Rightarrow> u64 \<Rightarrow> u8 list \<Rightarrow> fsys \<Rightarrow> (u64 \<times> fsys) res" where
  "filewrite f n src s =
     (let ff = ft_file s f
      in if f_writable ff = 0 then Inr (- 1, s)
         else if f_type ff = FD_INODE
         then if sint n < 0 then Inr (- 1, s)
              else bindE (write_loop f src s) (\<lambda>(whole, s). Inr (if whole then n else - 1, s))
         else Inl (Panic ''filewrite''))"

section \<open>Reference counts\<close>

text \<open>
  The count of a file is the number of descriptors that name it: those of one process, \<open>fds\<close>, and those held elsewhere.
\<close>

definition NOFILE :: nat where
  "NOFILE = 8"

definition balanced :: "(ptr \<Rightarrow> nat) \<Rightarrow> ptr set \<Rightarrow> ptr list \<Rightarrow> (ptr \<Rightarrow> nat) \<Rightarrow> bool" where
  "balanced refs files fds others \<longleftrightarrow>
     length fds = NOFILE \<and> set fds \<subseteq> insert NULL files \<and>
     (\<forall>f \<in> files. refs f = count_list fds f + others f \<and> others f + NOFILE < 2 ^ 31)"

lemma count_list_update:
  "i < length xs \<Longrightarrow> count_list (xs[i := y]) z + (if xs ! i = z then 1 else 0) = count_list xs z + (if y = z then 1 else 0)"
proof (induction xs arbitrary: i)
  case (Cons x xs)
  show ?case
  proof (cases i)
    case (Suc j)
    then show ?thesis
      using Cons.IH [of j] Cons.prems by (auto split: if_splits)
  qed simp
qed simp

lemma balanced_update:
  assumes b: "balanced r F fds others" and "i < NOFILE" "y \<in> insert NULL F"
    and r': "\<And>g. g \<in> F \<Longrightarrow> r' g + (if fds ! i = g then 1 else 0) = r g + (if y = g then 1 else 0)"
  shows "balanced r' F (fds[i := y]) others"
proof -
  have "set (fds[i := y]) \<subseteq> insert NULL F"
    using b assms(3) set_update_subset_insert [of fds i y] unfolding balanced_def by blast
  moreover have "r' g = count_list (fds[i := y]) g + others g" if "g \<in> F" for g
    using b r' [OF that] that count_list_update [of i fds y g] assms(2) unfolding balanced_def by fastforce
  ultimately show ?thesis
    using b by (simp add: balanced_def)
qed

lemma balanced_mem:
  assumes "balanced r F fds others" "f \<in> set fds" "f \<noteq> NULL"
  shows "f \<in> F" "0 < r f"
proof -
  show "f \<in> F"
    using assms by (auto simp: balanced_def)
  moreover have "0 < count_list fds f"
    using assms(2) by (metis count_list_0_iff gr0I)
  ultimately show "0 < r f"
    using assms by (simp add: balanced_def)
qed

text \<open>What the descriptors rely on: a table that hands out unused files and counts references exactly.\<close>

locale ref_table =
  fixes alloc :: "'s \<Rightarrow> ptr \<times> 's"
    and dup :: "ptr \<Rightarrow> 's \<Rightarrow> 's res"
    and close :: "ptr \<Rightarrow> 's \<Rightarrow> 's res"
    and ok :: "'s \<Rightarrow> bool"
    and files :: "'s \<Rightarrow> ptr set"
    and refs :: "'s \<Rightarrow> ptr \<Rightarrow> nat"
  assumes null: "ok s \<Longrightarrow> NULL \<notin> files s"
    and alloc_some: "ok s \<Longrightarrow> alloc s = (f, s') \<Longrightarrow> f \<noteq> NULL \<Longrightarrow>
      f \<in> files s \<and> refs s f = 0 \<and> ok s' \<and> files s' = files s \<and> (\<forall>g \<in> files s. refs s' g = (if g = f then 1 else refs s g))"
    and alloc_none: "ok s \<Longrightarrow> alloc s = (NULL, s') \<Longrightarrow> s' = s \<and> (\<forall>g \<in> files s. refs s g \<noteq> 0)"
    and dup_some: "ok s \<Longrightarrow> f \<in> files s \<Longrightarrow> 0 < refs s f \<Longrightarrow> refs s f + 1 < 2 ^ 31 \<Longrightarrow>
      \<exists>s'. dup f s = Inr s' \<and> ok s' \<and> files s' = files s \<and> (\<forall>g \<in> files s. refs s' g = (if g = f then refs s f + 1 else refs s g))"
    and close_some: "ok s \<Longrightarrow> f \<in> files s \<Longrightarrow> 0 < refs s f \<Longrightarrow> close f s = Inr s' \<Longrightarrow>
      ok s' \<and> files s' = files s \<and> (\<forall>g \<in> files s. refs s' g = (if g = f then refs s f - 1 else refs s g))"
begin

lemma open_balanced:
  assumes "ok s" "balanced (refs s) (files s) fds others" "alloc s = (f, s')" "f \<noteq> NULL" "i < NOFILE" "fds ! i = NULL"
  shows "ok s' \<and> balanced (refs s') (files s') (fds[i := f]) others"
proof -
  note a = alloc_some [OF assms(1,3,4)]
  have "balanced (refs s') (files s) (fds[i := f]) others"
    by (rule balanced_update [OF assms(2,5)]) (use a null [OF assms(1)] assms(6) in auto)
  with a show ?thesis
    by simp
qed

lemma alloc_close:
  assumes "ok s" "balanced (refs s) (files s) fds others" "alloc s = (f, s')" "f \<noteq> NULL" "close f s' = Inr s''"
  shows "ok s'' \<and> balanced (refs s'') (files s'') fds others"
proof -
  note a = alloc_some [OF assms(1,3,4)]
  then have "ok s'' \<and> files s'' = files s \<and> (\<forall>g \<in> files s. refs s'' g = refs s g)"
    using close_some [of s' f s''] assms(5) by simp
  then show ?thesis
    using assms(2) by (simp add: balanced_def)
qed

lemma dup_balanced:
  assumes "ok s" "balanced (refs s) (files s) fds others" "f \<in> set fds" "f \<noteq> NULL" "i < NOFILE" "fds ! i = NULL"
  shows "\<exists>s'. dup f s = Inr s' \<and> ok s' \<and> balanced (refs s') (files s') (fds[i := f]) others"
proof -
  note f = balanced_mem [OF assms(2-4)]
  have "count_list (fds[i := f]) f \<le> NOFILE"
    using count_le_length [of "fds[i := f]" f] assms(2) by (simp add: balanced_def)
  then have "count_list fds f < NOFILE"
    using count_list_update [of i fds f f] assms by (simp add: balanced_def)
  then have "refs s f + 1 < 2 ^ 31"
    using f(1) assms(2) by (auto simp: balanced_def)
  from dup_some [OF assms(1) f this] obtain s' where s': "dup f s = Inr s'" "ok s'" "files s' = files s"
      "\<And>g. g \<in> files s \<Longrightarrow> refs s' g = (if g = f then refs s f + 1 else refs s g)"
    by blast
  have "balanced (refs s') (files s) (fds[i := f]) others"
    by (rule balanced_update [OF assms(2,5)]) (use f null [OF assms(1)] assms(6) s'(4) in auto)
  with s' show ?thesis
    by auto
qed

lemma close_balanced:
  assumes "ok s" "balanced (refs s) (files s) fds others" "i < NOFILE" "fds ! i \<noteq> NULL" "close (fds ! i) s = Inr s'"
  shows "ok s' \<and> balanced (refs s') (files s') (fds[i := NULL]) others"
proof -
  have "fds ! i \<in> set fds"
    using assms by (simp add: balanced_def)
  note f = balanced_mem [OF assms(2) this assms(4)]
  note c = close_some [OF assms(1) f assms(5)]
  have "balanced (refs s') (files s) (fds[i := NULL]) others"
    by (rule balanced_update [OF assms(2,3)]) (use f null [OF assms(1)] c in auto)
  with c show ?thesis
    by simp
qed

end

definition files :: "fsys \<Rightarrow> ptr set" where
  "files s = file_addr (ft_base s) ` {..< NFILE}"

definition refs :: "fsys \<Rightarrow> ptr \<Rightarrow> nat" where
  "refs s f = nat (sint (f_ref (ft_file s f)))"

definition table_ok :: "fsys \<Rightarrow> bool" where
  "table_ok s \<longleftrightarrow> ft_base s \<noteq> 0 \<and> unat (ft_base s) + sizeof_File * NFILE < 2 ^ 64 \<and> (\<forall>f \<in> files s. 0 \<le> sint (f_ref (ft_file s f)))"

lemma file_addr_unat:
  assumes "table_ok s" "i < NFILE"
  shows "unat (file_addr (ft_base s) i) = unat (ft_base s) + sizeof_File * i"
proof -
  have "sizeof_File * i < 2 ^ 64" "unat (ft_base s) + sizeof_File * i < 2 ^ 64"
    using assms by (auto simp: table_ok_def sizeof_File_def NFILE_def)
  then show ?thesis
    by (simp add: file_addr_def unat_plus_ptr unat_of_nat_ptr del: of_nat_mult)
qed

lemma null_not_file: "table_ok s \<Longrightarrow> NULL \<notin> files s"
proof
  assume ok: "table_ok s" and "NULL \<in> files s"
  then obtain i where "i < NFILE" "file_addr (ft_base s) i = 0"
    by (auto simp: files_def)
  then show False
    using file_addr_unat [OF ok, of i] ok by (simp add: table_ok_def unat_eq_zero)
qed

lemma upd_file_simps [simp]:
  "ft_base (upd_file f g s) = ft_base s" "files (upd_file f g s) = files s" "fs_tree (upd_file f g s) = fs_tree s"
  "ft_file (upd_file f g s) h = (if h = f then g (ft_file s f) else ft_file s h)"
  by (simp_all add: upd_file_def files_def)

lemma with_tree_simps [simp]:
  "refs (s\<lparr>fs_tree := t\<rparr>) = refs s" "files (s\<lparr>fs_tree := t\<rparr>) = files s" "table_ok (s\<lparr>fs_tree := t\<rparr>) = table_ok s"
  by (simp_all add: refs_def files_def table_ok_def fun_eq_iff)

lemma sint_u32: "sint (u :: u32) = (if uint u < 2 ^ 31 then uint u else uint u - 2 ^ 32)"
proof -
  have "sint u = (uint u + 2 ^ 31) mod 2 ^ 32 - 2 ^ 31"
    using int_word_sint [of "uint u", where 'a = 32] by simp
  moreover have "0 \<le> uint u" "uint u < 2 ^ 32"
    using uint_lt2p [of u] by simp_all
  ultimately show ?thesis
    using mod_add_self2 [of "uint u - 2 ^ 31" "2 ^ 32 :: int"] by (auto simp: algebra_simps)
qed

lemma sint_u32_zero: "sint (u :: u32) = 0 \<longleftrightarrow> u = 0"
  using uint_lt2p [of u] by (auto simp: sint_u32 word_uint_eq_iff)

lemma sint_u32_succ: "0 \<le> sint r \<Longrightarrow> sint r + 1 < 2 ^ 31 \<Longrightarrow> sint (r + 1) = sint r + 1" for r :: u32
  using uint_lt2p [of r] uint_add_lem [of r 1] by (auto simp: sint_u32 split: if_splits)

lemma sint_u32_pred: "0 < sint r \<Longrightarrow> sint (r - 1) = sint r - 1" for r :: u32
  using uint_lt2p [of r] uint_sub_lem [of 1 r] by (auto simp: sint_u32 split: if_splits)

lemma upd_refs:
  "table_ok s \<Longrightarrow> 0 \<le> sint (f_ref (g (ft_file s f))) \<Longrightarrow>
   table_ok (upd_file f g s) \<and> (\<forall>h. refs (upd_file f g s) h = (if h = f then nat (sint (f_ref (g (ft_file s f)))) else refs s h))"
  by (auto simp: table_ok_def refs_def)

lemma refs_zero: "table_ok s \<Longrightarrow> f \<in> files s \<Longrightarrow> refs s f = 0 \<longleftrightarrow> f_ref (ft_file s f) = 0"
  unfolding sint_u32_zero [symmetric] table_ok_def refs_def by auto

lemma filedup_eq: "0 < refs s f \<Longrightarrow> filedup f s = Inr (upd_file f (\<lambda>x. x\<lparr>f_ref := f_ref x + 1\<rparr>) s)"
  by (simp add: filedup_def assertE_def refs_def)

lemma on_tree_frame: "on_tree m s = Inr (r, s') \<Longrightarrow> \<exists>t. s' = s\<lparr>fs_tree := t\<rparr>"
  by (auto simp: on_tree_def bindE_eq_Inr)

lemma upd_file_twice: "upd_file f g (upd_file f h s) = upd_file f (\<lambda>x. g (h x)) s"
  by (simp add: upd_file_def)

lemma tree_self: "\<exists>t. s = s\<lparr>fs_tree := t\<rparr>" for s :: fsys
  by (rule exI [of _ "fs_tree s"]) simp

lemma fileclose_frame:
  assumes "fileclose f s = Inr s'"
  obtains t where "s' = (upd_file f (\<lambda>x. x\<lparr>f_ref := f_ref x - 1\<rparr>) s)\<lparr>fs_tree := t\<rparr>" "0 < sint (f_ref (ft_file s f) - 1)"
  | t where "s' = (upd_file f (\<lambda>x. x\<lparr>f_ref := 0, f_type := FD_NONE\<rparr>) s)\<lparr>fs_tree := t\<rparr>" "sint (f_ref (ft_file s f) - 1) \<le> 0"
proof (cases "0 < sint (f_ref (ft_file s f) - 1)")
  case True
  then have "s' = upd_file f (\<lambda>x. x\<lparr>f_ref := f_ref x - 1\<rparr>) s"
    using assms by (simp add: fileclose_def bindE_eq_Inr)
  then show ?thesis
    using that(1) [OF _ True] tree_self [of s'] by metis
next
  case False
  then have "\<exists>t. s' = (upd_file f (\<lambda>x. x\<lparr>f_ref := 0, f_type := FD_NONE\<rparr>) s)\<lparr>fs_tree := t\<rparr>"
    using assms by (auto simp: fileclose_def bindE_eq_Inr Let_def upd_file_twice intro: tree_self dest: on_tree_frame split: if_splits)
  then show ?thesis
    using that(2) False by auto
qed

interpretation ft: ref_table filealloc filedup fileclose table_ok files refs
proof
  show "NULL \<notin> files s" if "table_ok s" for s
    by (rule null_not_file [OF that])
next
  fix s f s'
  assume ok: "table_ok s" and a: "filealloc s = (f, s')" "f \<noteq> NULL"
  then obtain i where i: "i < NFILE" "f_ref (ft_file s (file_addr (ft_base s) i)) = 0" "f = file_addr (ft_base s) i"
      "s' = upd_file f (\<lambda>x. x\<lparr>f_ref := 1\<rparr>) s"
    by (auto simp: filealloc_def Let_def dest: find_from_Some [THEN iffD1] split: option.splits)
  then show "f \<in> files s \<and> refs s f = 0 \<and> table_ok s' \<and> files s' = files s \<and> (\<forall>g \<in> files s. refs s' g = (if g = f then 1 else refs s g))"
    using upd_refs [OF ok, of "\<lambda>x. x\<lparr>f_ref := 1\<rparr>" f] by (auto simp: files_def refs_def)
next
  fix s s'
  assume "table_ok s" "filealloc s = (NULL, s')"
  moreover have "file_addr (ft_base s) i \<noteq> NULL" if "i < NFILE" for i
    using null_not_file [OF \<open>table_ok s\<close>] that by (force simp: files_def)
  ultimately have "s' = s" "\<forall>i < NFILE. f_ref (ft_file s (file_addr (ft_base s) i)) \<noteq> 0"
    by (auto simp: filealloc_def Let_def find_from_None dest: find_from_Some [THEN iffD1] split: option.splits)
  with \<open>table_ok s\<close> show "s' = s \<and> (\<forall>g \<in> files s. refs s g \<noteq> 0)"
    using refs_zero [OF \<open>table_ok s\<close>] by (auto simp: files_def)
next
  fix s f
  assume ok: "table_ok s" and f: "f \<in> files s" "0 < refs s f" "refs s f + 1 < 2 ^ 31"
  then have next_ref: "sint (f_ref (ft_file s f) + 1) = sint (f_ref (ft_file s f)) + 1"
    by (intro sint_u32_succ) (auto simp: refs_def)
  let ?t = "upd_file f (\<lambda>x. x\<lparr>f_ref := f_ref x + 1\<rparr>) s"
  have "table_ok ?t" "refs ?t f = refs s f + 1" "g \<noteq> f \<Longrightarrow> refs ?t g = refs s g" for g
    using upd_refs [OF ok, of "\<lambda>x. x\<lparr>f_ref := f_ref x + 1\<rparr>" f] next_ref f(2) by (auto simp: refs_def)
  then show "\<exists>s'. filedup f s = Inr s' \<and> table_ok s' \<and> files s' = files s \<and> (\<forall>g \<in> files s. refs s' g = (if g = f then refs s f + 1 else refs s g))"
    by (simp add: filedup_eq [OF f(2)])
next
  fix s f s'
  assume ok: "table_ok s" and f: "f \<in> files s" "0 < refs s f" "fileclose f s = Inr s'"
  have pred: "sint (f_ref (ft_file s f) - 1) = sint (f_ref (ft_file s f)) - 1" "0 < sint (f_ref (ft_file s f))"
    using f(2) by (auto simp: refs_def sint_u32_pred)
  from f(3) show "table_ok s' \<and> files s' = files s \<and> (\<forall>g \<in> files s. refs s' g = (if g = f then refs s f - 1 else refs s g))"
  proof (cases rule: fileclose_frame)
    case (1 t)
    then show ?thesis
      using upd_refs [OF ok, of "\<lambda>x. x\<lparr>f_ref := f_ref x - 1\<rparr>" f] pred by (simp add: refs_def nat_diff_distrib)
  next
    case (2 t)
    then show ?thesis
      using upd_refs [OF ok, of "\<lambda>x. x\<lparr>f_ref := 0, f_type := FD_NONE\<rparr>" f] pred by (simp add: refs_def)
  qed
qed

end
