(* ===== verification/Locks.thy ===== *)
theory Locks
  imports Prelude
begin

text \<open>
  The spinlock of \<^verbatim>\<open>common/spinlock.c\<close> and the sleeplock of \<^verbatim>\<open>core/sleeplock.c\<close>.  The operations are
  defined on one CPU's view of the lock; a step relation then interleaves the memory accesses of any number of
  CPUs, one access at a time (plain load of \<^verbatim>\<open>locked\<close>, test-and-set, store of \<^verbatim>\<open>cpu\<close>, clear), which gives
  mutual exclusion and the meaning of \<^verbatim>\<open>holding_spinlock\<close>.  For the sleeplock
  the steps are the critical sections, which gives mutual exclusion and the absence of lost wakeups.
\<close>

section \<open>Spinlock operations\<close>

text \<open>CPUs are numbered; \<open>None\<close> is the null pointer in the field \<^verbatim>\<open>cpu\<close>.\<close>

record SpinLock =
  locked :: bool
  lk_cpu :: "nat option"

definition init_spinlock :: SpinLock where
  "init_spinlock = \<lparr>locked = False, lk_cpu = None\<rparr>"

definition holding_spinlock :: "nat \<Rightarrow> SpinLock \<Rightarrow> bool" where
  "holding_spinlock cpu l \<longleftrightarrow> locked l \<and> lk_cpu l = Some cpu"

definition try_acquire_spinlock :: "nat \<Rightarrow> SpinLock \<Rightarrow> bool \<times> SpinLock" where
  "try_acquire_spinlock cpu l =
     (if \<not> locked l then (True, l\<lparr>locked := True, lk_cpu := Some cpu\<rparr>) else (False, l))"

text \<open>A lock that another CPU holds lets \<^verbatim>\<open>acquire_spinlock\<close> spin, which only that CPU can end.\<close>

definition acquire_spinlock :: "nat \<Rightarrow> SpinLock \<Rightarrow> SpinLock res" where
  "acquire_spinlock cpu l =
     (if holding_spinlock cpu l then Inl (Panic ''acquire: lock already held'')
      else case try_acquire_spinlock cpu l of (True, l') \<Rightarrow> Inr l' | (False, _) \<Rightarrow> Inl Blocked)"

definition release_spinlock :: "nat \<Rightarrow> SpinLock \<Rightarrow> SpinLock res" where
  "release_spinlock cpu l =
     (if \<not> holding_spinlock cpu l then Inl (Panic ''release: lock not held'')
      else Inr (l\<lparr>lk_cpu := None, locked := False\<rparr>))"

definition wait_spinlock :: "nat \<Rightarrow> SpinLock \<Rightarrow> SpinLock res" where
  "wait_spinlock cpu l = bindE (acquire_spinlock cpu l) (release_spinlock cpu)"

section \<open>Interleaved memory accesses\<close>

text \<open>
  Where a CPU is: outside, about to load \<^verbatim>\<open>locked\<close>, about to test-and-set, about to store
  \<^verbatim>\<open>cpu\<close>, in the critical section, about to clear \<^verbatim>\<open>locked\<close> (after storing the null pointer),
  or stopped by the assertion in \<^verbatim>\<open>acquire_spinlock\<close> or \<^verbatim>\<open>release_spinlock\<close>.
\<close>

datatype pc = Outside | Load | TestSet | StoreCpu | Critical | Clear | Stopped

record system =
  lock :: SpinLock
  pcs :: "nat \<Rightarrow> pc"

definition goto :: "nat \<Rightarrow> pc \<Rightarrow> system \<Rightarrow> system" where
  "goto i p s = s\<lparr>pcs := (pcs s)(i := p)\<rparr>"

inductive spin_step :: "system \<Rightarrow> system \<Rightarrow> bool" where
  acquire: "pcs s i = Outside \<Longrightarrow> spin_step s (goto i (if holding_spinlock i (lock s) then Stopped else Load) s)"
| load: "pcs s i = Load \<Longrightarrow> spin_step s (goto i (if locked (lock s) then Load else TestSet) s)"
| testset: "pcs s i = TestSet \<Longrightarrow>
    spin_step s (goto i (if locked (lock s) then Load else StoreCpu) (s\<lparr>lock := (lock s)\<lparr>locked := True\<rparr>\<rparr>))"
| store: "pcs s i = StoreCpu \<Longrightarrow> spin_step s (goto i Critical (s\<lparr>lock := (lock s)\<lparr>lk_cpu := Some i\<rparr>\<rparr>))"
| release: "pcs s i = Critical \<Longrightarrow>
    spin_step s (if holding_spinlock i (lock s) then goto i Clear (s\<lparr>lock := (lock s)\<lparr>lk_cpu := None\<rparr>\<rparr>) else goto i Stopped s)"
| clear: "pcs s i = Clear \<Longrightarrow> spin_step s (goto i Outside (s\<lparr>lock := (lock s)\<lparr>locked := False\<rparr>\<rparr>))"

definition spin_init :: system where
  "spin_init = \<lparr>lock = init_spinlock, pcs = \<lambda>_. Outside\<rparr>"

inductive spin_reach :: "system \<Rightarrow> bool" where
  spin_start: "spin_reach spin_init"
| spin_next: "spin_reach s \<Longrightarrow> spin_step s t \<Longrightarrow> spin_reach t"

definition owns :: "pc \<Rightarrow> bool" where
  "owns p \<longleftrightarrow> p \<in> {StoreCpu, Critical, Clear}"

definition owners :: "system \<Rightarrow> nat set" where
  "owners s = {i. owns (pcs s i)}"

definition spin_inv :: "system \<Rightarrow> bool" where
  "spin_inv s \<longleftrightarrow> (if locked (lock s) then \<exists>i. owners s = {i} else owners s = {})
     \<and> (\<forall>i. lk_cpu (lock s) = Some i \<longleftrightarrow> pcs s i = Critical) \<and> (\<forall>i. pcs s i \<noteq> Stopped)"

lemma owns_simps [simp]: "owns StoreCpu" "owns Critical" "owns Clear" "\<not> owns Outside" "\<not> owns Load" "\<not> owns TestSet"
  by (simp_all add: owns_def)

lemma goto_simps [simp]:
  "lock (goto i p s) = lock s" "pcs (goto i p s) = (pcs s)(i := p)" "owners (s\<lparr>lock := l\<rparr>) = owners s"
  "owners (goto i p s) = (if owns p then insert i (owners s) else owners s - {i})"
  by (auto simp: goto_def owners_def)

lemma spin_inv_init: "spin_inv spin_init"
  by (simp add: spin_inv_def spin_init_def init_spinlock_def owners_def)

lemma owner_unique: "spin_inv s \<Longrightarrow> owns (pcs s i) \<Longrightarrow> locked (lock s) \<and> owners s = {i}"
proof -
  assume "owns (pcs s i)"
  then have "i \<in> owners s" by (simp add: owners_def)
  then show "spin_inv s \<Longrightarrow> locked (lock s) \<and> owners s = {i}" by (auto simp: spin_inv_def split: if_splits)
qed

lemma spin_inv_step: "spin_step s t \<Longrightarrow> spin_inv s \<Longrightarrow> spin_inv t"
proof (induction rule: spin_step.induct)
  case (acquire s i)
  then have "\<not> holding_spinlock i (lock s)" "i \<notin> owners s" by (auto simp: spin_inv_def holding_spinlock_def owners_def)
  with acquire show ?case by (auto simp: spin_inv_def split: if_splits)
next
  case (load s i)
  then have "i \<notin> owners s" by (simp add: owners_def)
  with load show ?case by (auto simp: spin_inv_def split: if_splits)
next
  case (testset s i)
  then have "i \<notin> owners s" by (simp add: owners_def)
  with testset show ?case by (auto simp: spin_inv_def split: if_splits)
next
  case (store s i)
  have only: "locked (lock s)" "owners s = {i}" using owner_unique [OF store(2), of i] store(1) by auto
  have "pcs s j \<noteq> Critical" for j using owner_unique [OF store(2), of j] only(2) store(1) by auto
  with store only show ?case by (auto simp: spin_inv_def)
next
  case (release s i)
  have only: "locked (lock s)" "owners s = {i}" using owner_unique [OF release(2), of i] release(1) by auto
  moreover have "lk_cpu (lock s) = Some i" using release by (simp add: spin_inv_def)
  ultimately show ?case using release by (auto simp: spin_inv_def holding_spinlock_def)
next
  case (clear s i)
  have only: "owners s = {i}" using owner_unique [OF clear(2), of i] clear(1) by auto
  with clear show ?case by (auto simp: spin_inv_def)
qed

lemma spin_reach_inv: "spin_reach s \<Longrightarrow> spin_inv s"
  by (induction rule: spin_reach.induct) (auto intro: spin_inv_init spin_inv_step)

section \<open>Sleeplocks\<close>

text \<open>
  Where a process is: outside, about to test \<^verbatim>\<open>locked\<close> with the inner spinlock held, asleep on
  the lock, owner, or between giving the lock up and its call of \<^verbatim>\<open>wakeup\<close>.
\<close>

datatype spc = Away | Trying | Asleep | Owner | Waking

record sleepsys =
  sl_locked :: bool
  spcs :: "nat \<Rightarrow> spc"

text \<open>
  One iteration of the loop of \<^verbatim>\<open>acquire_sleeplock\<close>.  \<^verbatim>\<open>sleep\<close> takes the lock of the process table before it
  gives up the inner spinlock, so testing and falling asleep is one step for everyone else.
\<close>

definition try_sleeplock :: "nat \<Rightarrow> sleepsys \<Rightarrow> sleepsys" where
  "try_sleeplock i s =
     (if sl_locked s then s\<lparr>spcs := (spcs s)(i := Asleep)\<rparr>
      else s\<lparr>sl_locked := True, spcs := (spcs s)(i := Owner)\<rparr>)"

definition release_sleep :: "nat \<Rightarrow> sleepsys \<Rightarrow> sleepsys" where
  "release_sleep i s = s\<lparr>sl_locked := False, spcs := (spcs s)(i := Waking)\<rparr>"

text \<open>
  \<^verbatim>\<open>wakeup\<close> makes every process runnable that sleeps on the lock in the process table of the calling CPU's scheduler.  The processes here are
  those of one such table: a process of another container that sleeps on the same lock is not found by this scan.
\<close>

definition wakeup_sleepers :: "nat \<Rightarrow> sleepsys \<Rightarrow> sleepsys" where
  "wakeup_sleepers i s = s\<lparr>spcs := \<lambda>j. if j = i then Away else if spcs s j = Asleep then Trying else spcs s j\<rparr>"

inductive sleep_step :: "sleepsys \<Rightarrow> sleepsys \<Rightarrow> bool" where
  enter: "spcs s i = Away \<Longrightarrow> sleep_step s (s\<lparr>spcs := (spcs s)(i := Trying)\<rparr>)"
| attempt: "spcs s i = Trying \<Longrightarrow> sleep_step s (try_sleeplock i s)"
| giveup: "spcs s i = Owner \<Longrightarrow> sleep_step s (release_sleep i s)"
| wake: "spcs s i = Waking \<Longrightarrow> sleep_step s (wakeup_sleepers i s)"

inductive sleep_reach :: "sleepsys \<Rightarrow> bool" where
  sleep_start: "sleep_reach \<lparr>sl_locked = False, spcs = \<lambda>_. Away\<rparr>"
| sleep_next: "sleep_reach s \<Longrightarrow> sleep_step s t \<Longrightarrow> sleep_reach t"

definition at :: "spc \<Rightarrow> sleepsys \<Rightarrow> nat set" where
  "at p s = {i. spcs s i = p}"

definition sleep_inv :: "sleepsys \<Rightarrow> bool" where
  "sleep_inv s \<longleftrightarrow> (if sl_locked s then \<exists>i. at Owner s = {i} else at Owner s = {} \<and> (at Asleep s \<noteq> {} \<longrightarrow> at Waking s \<noteq> {}))"

lemma at_update [simp]:
  "at p (s\<lparr>spcs := (spcs s)(i := q)\<rparr>) = (if p = q then insert i (at p s) else at p s - {i})"
  "at p (s\<lparr>sl_locked := b, spcs := f\<rparr>) = at p (s\<lparr>spcs := f\<rparr>)"
  by (auto simp: at_def)

lemma sleep_inv_step: "sleep_step s t \<Longrightarrow> sleep_inv s \<Longrightarrow> sleep_inv t"
proof (induction rule: sleep_step.induct)
  case (enter s i)
  then have "i \<notin> at Owner s" "i \<notin> at Waking s" by (auto simp: at_def)
  with enter(2) show ?case by (auto simp: sleep_inv_def split: if_splits)
next
  case (attempt s i)
  then have "i \<notin> at Owner s" by (auto simp: at_def)
  with attempt(2) show ?case by (auto simp: sleep_inv_def try_sleeplock_def split: if_splits)
next
  case (giveup s i)
  then have "i \<in> at Owner s" by (simp add: at_def)
  with giveup(2) have "at Owner s = {i}" by (auto simp: sleep_inv_def split: if_splits)
  then show ?case by (simp add: sleep_inv_def release_sleep_def)
next
  case (wake s i)
  have "at Owner (wakeup_sleepers i s) = at Owner s" "at Asleep (wakeup_sleepers i s) = {}"
    using wake(1) by (auto simp: wakeup_sleepers_def at_def)
  moreover have "sl_locked (wakeup_sleepers i s) = sl_locked s" by (simp add: wakeup_sleepers_def)
  ultimately show ?case using wake(2) by (simp add: sleep_inv_def)
qed

lemma sleep_reach_inv: "sleep_reach s \<Longrightarrow> sleep_inv s"
proof (induction rule: sleep_reach.induct)
  case sleep_start
  show ?case by (simp add: sleep_inv_def at_def)
next
  case (sleep_next s t)
  then show ?case by (blast intro: sleep_inv_step)
qed

section \<open>Properties\<close>

text \<open>
  C29: a spinlock excludes: in every interleaving of the memory accesses of any number of CPUs, at most
  one CPU is in its critical section, no assertion of the lock fails, and \<^verbatim>\<open>holding_spinlock\<close> is true on
  exactly the CPU in its critical section.
\<close>

theorem spinlock_exclusion:
  assumes "spin_reach s"
  shows "(pcs s i = Critical \<and> pcs s j = Critical \<longrightarrow> i = j) \<and> pcs s i \<noteq> Stopped
    \<and> (holding_spinlock i (lock s) \<longleftrightarrow> pcs s i = Critical)"
proof -
  note inv = spin_reach_inv [OF assms]
  have "i = j" if "pcs s i = Critical" "pcs s j = Critical"
    using owner_unique [OF inv, of i] owner_unique [OF inv, of j] that by auto
  moreover have "locked (lock s)" if "pcs s i = Critical" using owner_unique [OF inv, of i] that by auto
  ultimately show ?thesis using inv by (auto simp: spin_inv_def holding_spinlock_def)
qed

theorem spinlock_exclusion_witness:
  "\<exists>s. spin_reach s \<and> pcs s 0 = Critical \<and> pcs s 1 = TestSet \<and> holding_spinlock 0 (lock s) \<and> \<not> holding_spinlock 1 (lock s)"
proof -
  let ?s1 = "goto 1 Load (goto 0 Load spin_init)"
  let ?s2 = "goto 1 TestSet (goto 0 TestSet ?s1)"
  let ?s3 = "goto 0 StoreCpu (?s2\<lparr>lock := (lock ?s2)\<lparr>locked := True\<rparr>\<rparr>)"
  let ?s4 = "goto 0 Critical (?s3\<lparr>lock := (lock ?s3)\<lparr>lk_cpu := Some 0\<rparr>\<rparr>)"
  have n: "\<not> locked (lock spin_init)" "pcs spin_init i = Outside" for i
    by (simp_all add: spin_init_def init_spinlock_def)
  have "spin_reach (goto 0 Load spin_init)"
    using spin_next [OF spin_start spin_step.acquire [of spin_init 0]] n by (simp add: holding_spinlock_def)
  then have "spin_reach ?s1"
    using spin_next [OF _ spin_step.acquire [of "goto 0 Load spin_init" 1]] n by (simp add: holding_spinlock_def)
  then have "spin_reach (goto 0 TestSet ?s1)"
    using spin_next [OF _ spin_step.load [of ?s1 0]] n by simp
  then have "spin_reach ?s2"
    using spin_next [OF _ spin_step.load [of "goto 0 TestSet ?s1" 1]] n by simp
  then have "spin_reach ?s3"
    using spin_next [OF _ spin_step.testset [of ?s2 0]] n by simp
  then have r: "spin_reach ?s4"
    using spin_next [OF _ spin_step.store [of ?s3 0]] by simp
  have "pcs ?s4 0 = Critical" "pcs ?s4 1 = TestSet" by simp_all
  with r spinlock_exclusion [OF r, of 0 0] spinlock_exclusion [OF r, of 1 0] show ?thesis by (intro exI [of _ ?s4]) simp
qed

text \<open>
  C30: among the processes of one process table, a sleeplock has at most one owner, and no wakeup is lost: whenever a process is asleep on
  the lock, some process owns it or is about to call \<^verbatim>\<open>wakeup\<close>, and that call makes every sleeper try again.
\<close>

theorem sleeplock_no_lost_wakeup:
  assumes "sleep_reach s"
  shows "(spcs s i = Owner \<and> spcs s j = Owner \<longrightarrow> i = j)
    \<and> (spcs s i = Asleep \<longrightarrow> (\<exists>k. spcs s k = Owner \<or> spcs s k = Waking))
    \<and> spcs (wakeup_sleepers k s) i \<noteq> Asleep"
proof -
  note inv = sleep_reach_inv [OF assms]
  have "i = j" if "spcs s i = Owner" "spcs s j = Owner"
  proof -
    have "i \<in> at Owner s" "j \<in> at Owner s" using that by (simp_all add: at_def)
    then show ?thesis using inv by (auto simp: sleep_inv_def split: if_splits)
  qed
  moreover have "\<exists>k. spcs s k = Owner \<or> spcs s k = Waking" if "spcs s i = Asleep"
  proof -
    have "i \<in> at Asleep s" using that by (simp add: at_def)
    then obtain k where "k \<in> at Owner s \<or> k \<in> at Waking s" using inv by (auto simp: sleep_inv_def split: if_splits)
    then show ?thesis by (auto simp: at_def)
  qed
  ultimately show ?thesis by (auto simp: wakeup_sleepers_def)
qed

theorem sleeplock_no_lost_wakeup_witness:
  "\<exists>s. sleep_reach s \<and> spcs s 1 = Asleep \<and> (\<exists>k. spcs s k = Owner \<or> spcs s k = Waking)"
proof -
  let ?s0 = "\<lparr>sl_locked = False, spcs = \<lambda>_. Away\<rparr>"
  let ?s1 = "\<lparr>sl_locked = False, spcs = (\<lambda>_. Away)(0 := Trying)\<rparr>"
  let ?s2 = "\<lparr>sl_locked = True, spcs = (\<lambda>_. Away)(0 := Owner)\<rparr>"
  let ?s3 = "\<lparr>sl_locked = True, spcs = (\<lambda>_. Away)(0 := Owner, 1 := Trying)\<rparr>"
  let ?s4 = "\<lparr>sl_locked = True, spcs = (\<lambda>_. Away)(0 := Owner, 1 := Asleep)\<rparr>"
  have "sleep_reach ?s1" using sleep_next [OF sleep_start enter [of ?s0 0]] by simp
  then have "sleep_reach ?s2" using sleep_next [OF _ attempt [of ?s1 0]] by (simp add: try_sleeplock_def)
  then have "sleep_reach ?s3" using sleep_next [OF _ enter [of ?s2 1]] by simp
  then have r: "sleep_reach ?s4" using sleep_next [OF _ attempt [of ?s3 1]] by (simp add: try_sleeplock_def)
  with sleeplock_no_lost_wakeup [OF r, of 1 1] show ?thesis by (intro exI [of _ ?s4]) simp
qed

end
