(* ===== verification/Scheduler.thy ===== *)
theory Scheduler
  imports Locks
begin

text \<open>
  Processes, schedulers and containers: \<^verbatim>\<open>core/sched.c\<close>, \<^verbatim>\<open>core/container.c\<close> and the process-table part
  of \<^verbatim>\<open>core/proc.c\<close>.  A scheduler is a member of its container, so a container address names both; a process is a container
  and a slot of its table.  Everything done under the lock of the process table is one step.  Shown: a process
  runs on at most one CPU, \<^verbatim>\<open>wait\<close> and \<^verbatim>\<open>exit\<close> lose no wakeup, and how process identifiers
  are handed out along the chain of containers, up to the point where the table of identifiers overflows.
\<close>

section \<open>State\<close>

definition NPROC :: nat where
  "NPROC = 14"

definition NPID :: int where
  "NPID = 64"

datatype procstate = UNUSED | EMBRYO | SLEEPING | RUNNABLE | RUNNING | ZOMBIE

type_synonym pref = "ptr \<times> nat"

text \<open>A sleep channel is the address of some kernel object or of a process.\<close>

datatype channel = NoChan | ObjChan ptr | ProcChan pref

record Trapframe =
  tf_spsr :: u64
  tf_elr :: u64
  tf_sp :: u64
  tf_tpidr :: u64
  tf_x :: "u64 list"
  tf_q0 :: "u64 list"

record proc =
  p_sz :: u64
  p_pgdir :: ptr
  p_kstack :: ptr
  p_state :: procstate
  p_pid :: int
  p_parent :: "pref option"
  p_tf :: Trapframe
  p_chan :: channel
  p_killed :: bool
  p_name :: "u8 list"
  p_cont :: ptr
  p_is_scheduler :: bool
  p_ofile :: "ptr list"
  p_cwd :: ptr
  p_stksz :: u64
  p_base :: u64

record pid_mapping =
  pm_valid :: bool
  pid_local :: int
  pm_proc :: "pref option"

record container =
  c_proc :: "pref option"
  c_ptable :: "proc list"
  c_pid :: int
  c_lock :: SpinLock
  c_parent :: ptr
  c_pmap :: "pid_mapping list"

type_synonym conts = "ptr \<Rightarrow> container"

datatype resource_t = MEMORY | PID | INODE

section \<open>Process identifiers\<close>

text \<open>
  \<^verbatim>\<open>alloc_resource\<close> on the container \<open>this\<close>, then on its ancestors up to the root.  The early
  return leaves the lock of the container taken.  \<open>pmap[pid]\<close> outside the array is an error.  \<open>fuel\<close>
  bounds the depth of the chain.
\<close>

definition take_pid :: "nat \<Rightarrow> ptr \<Rightarrow> pref \<Rightarrow> conts \<Rightarrow> (bool \<times> conts) res" where
  "take_pid cpu this p cs =
     bindE (acquire_spinlock cpu (c_lock (cs this))) (\<lambda>l.
     let c = (cs this)\<lparr>c_lock := l\<rparr>
     in if c_pid c = NPID then Inr (False, cs(this := c))
        else let pid = c_pid c + 1; c = c\<lparr>c_pid := pid\<rparr>
             in if pid < 0 \<or> nat pid \<ge> length (c_pmap c) then Inl OutOfBounds
                else let c = c\<lparr>c_pmap := (c_pmap c)[nat pid := \<lparr>pm_valid = True, pid_local = pid, pm_proc = Some p\<rparr>]\<rparr>
                     in bindE (release_spinlock cpu (c_lock c)) (\<lambda>l. Inr (True, cs(this := c\<lparr>c_lock := l\<rparr>))))"

definition pass_lock :: "nat \<Rightarrow> ptr \<Rightarrow> conts \<Rightarrow> (bool \<times> conts) res" where
  "pass_lock cpu this cs = bindE (wait_spinlock cpu (c_lock (cs this))) (\<lambda>l. Inr (True, cs(this := (cs this)\<lparr>c_lock := l\<rparr>)))"

fun alloc_resource :: "nat \<Rightarrow> nat \<Rightarrow> ptr \<Rightarrow> ptr \<Rightarrow> pref \<Rightarrow> resource_t \<Rightarrow> conts \<Rightarrow> (bool \<times> conts) res" where
  "alloc_resource 0 cpu root this p r cs = Inl OutOfFuel"
| "alloc_resource (Suc fuel) cpu root this p r cs =
     bindE (case r of PID \<Rightarrow> take_pid cpu this p cs | _ \<Rightarrow> pass_lock cpu this cs) (\<lambda>(ok, cs).
     if \<not> ok then Inr (False, cs)
     else if this \<noteq> root
     then bindE (alloc_resource fuel cpu root (c_parent (cs this)) p r cs) (\<lambda>(_, cs). Inr (True, cs))
     else Inr (True, cs))"

definition upd_proc :: "pref \<Rightarrow> (proc \<Rightarrow> proc) \<Rightarrow> conts \<Rightarrow> conts" where
  "upd_proc p f cs = (case p of (a, i) \<Rightarrow> cs(a := (cs a)\<lparr>c_ptable := (c_ptable (cs a))[i := f (c_ptable (cs a) ! i)]\<rparr>))"

definition proc_at :: "conts \<Rightarrow> pref \<Rightarrow> proc" where
  "proc_at cs p = c_ptable (cs (fst p)) ! snd p"

text \<open>The result of \<^verbatim>\<open>alloc_resource\<close> is not looked at.\<close>

definition alloc_pcb_simple :: "nat \<Rightarrow> nat \<Rightarrow> ptr \<Rightarrow> ptr \<Rightarrow> conts \<Rightarrow> (pref option \<times> conts) res" where
  "alloc_pcb_simple fuel cpu root this cs =
     (case find_from (\<lambda>i. p_state (c_ptable (cs this) ! i) = UNUSED) 0 NPROC of
        None \<Rightarrow> Inr (None, cs)
      | Some i \<Rightarrow>
          bindE (alloc_resource fuel cpu root this (this, i) PID cs) (\<lambda>(_, cs).
          Inr (Some (this, i), upd_proc (this, i) (\<lambda>p. p\<lparr>p_pid := c_pid (cs this), p_state := EMBRYO\<rparr>) cs)))"

section \<open>The process table of one scheduler\<close>

text \<open>\<open>cpu_proc\<close> is the slot each CPU runs; \<open>None\<close> while it is in the scheduler loop.\<close>

record sched =
  ptable :: "proc list"
  cpu_proc :: "nat \<Rightarrow> nat option"

definition set_state :: "nat \<Rightarrow> procstate \<Rightarrow> sched \<Rightarrow> sched" where
  "set_state i st s = s\<lparr>ptable := (ptable s)[i := (ptable s ! i)\<lparr>p_state := st\<rparr>]\<rparr>"

definition wakeup_table :: "channel \<Rightarrow> proc list \<Rightarrow> proc list" where
  "wakeup_table ch = map (\<lambda>p. if p_state p = SLEEPING \<and> p_chan p = ch then p\<lparr>p_state := RUNNABLE\<rparr> else p)"

definition wakeup :: "channel \<Rightarrow> sched \<Rightarrow> sched" where
  "wakeup ch s = s\<lparr>ptable := wakeup_table ch (ptable s)\<rparr>"

text \<open>\<^verbatim>\<open>scheduler_simple\<close> finds slot \<open>i\<close> runnable and switches to it.\<close>

definition run_proc :: "nat \<Rightarrow> nat \<Rightarrow> sched \<Rightarrow> sched" where
  "run_proc cpu i s = (set_state i RUNNING s)\<lparr>cpu_proc := (cpu_proc s)(cpu := Some i)\<rparr>"

text \<open>
  \<^verbatim>\<open>sched_simple\<close> checks that the caller holds the lock of the process table and that its process no longer runs, and
  switches to the scheduler of this CPU, which continues behind its own \<^verbatim>\<open>swtch\<close> and gives up its current process.
\<close>

definition sched_simple :: "bool \<Rightarrow> nat \<Rightarrow> sched \<Rightarrow> sched res" where
  "sched_simple held cpu s =
     (if \<not> held then Inl (Panic ''sched: not holding ptable lock'')
      else case cpu_proc s cpu of
        None \<Rightarrow> Inl NullDeref
      | Some i \<Rightarrow> if p_state (ptable s ! i) = RUNNING then Inl (Panic ''sched: process running'') else Inr s)"

definition switch_back :: "nat \<Rightarrow> sched \<Rightarrow> sched" where
  "switch_back cpu s = s\<lparr>cpu_proc := (cpu_proc s)(cpu := None)\<rparr>"

definition enter_sched :: "bool \<Rightarrow> nat \<Rightarrow> sched \<Rightarrow> sched res" where
  "enter_sched held cpu s = bindE (sched_simple held cpu s) (\<lambda>s. Inr (switch_back cpu s))"

text \<open>\<^verbatim>\<open>yield\<close>, \<^verbatim>\<open>sleep\<close> and \<^verbatim>\<open>exit\<close> take the lock of the process table first and enter the scheduler with it.\<close>

definition yield :: "nat \<Rightarrow> sched \<Rightarrow> sched res" where
  "yield cpu s = (case cpu_proc s cpu of None \<Rightarrow> Inl NullDeref | Some i \<Rightarrow> enter_sched True cpu (set_state i RUNNABLE s))"

definition sleep_proc :: "nat \<Rightarrow> channel \<Rightarrow> sched \<Rightarrow> sched res" where
  "sleep_proc cpu ch s =
     (case cpu_proc s cpu of
        None \<Rightarrow> Inl NullDeref
      | Some i \<Rightarrow> enter_sched True cpu
          (set_state i SLEEPING (s\<lparr>ptable := (ptable s)[i := (ptable s ! i)\<lparr>p_chan := ch\<rparr>]\<rparr>)))"

text \<open>What \<^verbatim>\<open>sleep\<close> does first when it is switched back to.\<close>

definition sleep_return :: "nat \<Rightarrow> sched \<Rightarrow> sched" where
  "sleep_return i s = s\<lparr>ptable := (ptable s)[i := (ptable s ! i)\<lparr>p_chan := NoChan\<rparr>]\<rparr>"

text \<open>
  The end of \<^verbatim>\<open>exit\<close>, from \<^verbatim>\<open>acquire_sched_lock\<close> on: wake up the parent, wake up this process for
  each of its zombie children, become a zombie.  \<open>self\<close> gives the address of a slot.
\<close>

definition exit_table :: "(nat \<Rightarrow> pref) \<Rightarrow> nat \<Rightarrow> proc list \<Rightarrow> proc list" where
  "exit_table self me t =
     (let t = (case p_parent (t ! me) of None \<Rightarrow> wakeup_table NoChan t | Some q \<Rightarrow> wakeup_table (ProcChan q) t);
          t = fold (\<lambda>j t. if p_parent (t ! j) = Some (self me) \<and> p_state (t ! j) = ZOMBIE
                          then wakeup_table (ProcChan (self me)) t else t) [0 ..< length t] t
      in t[me := (t ! me)\<lparr>p_state := ZOMBIE\<rparr>])"

definition exit_proc :: "(nat \<Rightarrow> pref) \<Rightarrow> nat \<Rightarrow> sched \<Rightarrow> sched res" where
  "exit_proc self cpu s =
     (case cpu_proc s cpu of
        None \<Rightarrow> Inl NullDeref
      | Some me \<Rightarrow> enter_sched True cpu (s\<lparr>ptable := exit_table self me (ptable s)\<rparr>))"

text \<open>
  One round of the loop of \<^verbatim>\<open>wait\<close>: reap the first zombie child (its slot, identifier), fail without
  children or when killed, or fall asleep on the own address.
\<close>

datatype wait_result = Reaped nat int | NoChild | Waits

definition reap :: "proc \<Rightarrow> proc" where
  "reap p = p\<lparr>p_killed := False, p_state := UNUSED, p_pid := 0, p_parent := None\<rparr>"

definition wait_round :: "(nat \<Rightarrow> pref) \<Rightarrow> nat \<Rightarrow> sched \<Rightarrow> (wait_result \<times> sched) res" where
  "wait_round self cpu s =
     (case cpu_proc s cpu of
        None \<Rightarrow> Inl NullDeref
      | Some me \<Rightarrow>
          (case find_from (\<lambda>j. p_parent (ptable s ! j) = Some (self me) \<and> p_state (ptable s ! j) = ZOMBIE) 0 (length (ptable s)) of
             Some j \<Rightarrow> Inr (Reaped j (p_pid (ptable s ! j)), s\<lparr>ptable := (ptable s)[j := reap (ptable s ! j)]\<rparr>)
           | None \<Rightarrow>
               if (\<forall>j < length (ptable s). p_parent (ptable s ! j) \<noteq> Some (self me)) \<or> p_killed (ptable s ! me)
               then Inr (NoChild, s)
               else bindE (sleep_proc cpu (ProcChan (self me)) s) (\<lambda>s. Inr (Waits, s))))"

text \<open>
  The table part of \<^verbatim>\<open>fork\<close>: an unused slot becomes an embryo under the lock; then, without the lock and in two separate
  writes, it gets its parent and becomes runnable.
\<close>

definition embryo :: "nat \<Rightarrow> int \<Rightarrow> sched \<Rightarrow> sched" where
  "embryo i pid s = s\<lparr>ptable := (ptable s)[i := (ptable s ! i)\<lparr>p_pid := pid, p_state := EMBRYO\<rparr>]\<rparr>"

definition set_parent :: "nat \<Rightarrow> pref \<Rightarrow> sched \<Rightarrow> sched" where
  "set_parent i par s = s\<lparr>ptable := (ptable s)[i := (ptable s ! i)\<lparr>p_parent := Some par\<rparr>]\<rparr>"

definition start_child :: "nat \<Rightarrow> sched \<Rightarrow> sched" where
  "start_child i s = set_state i RUNNABLE s"

section \<open>The scheduler as a transition system\<close>

text \<open>
  Each CPU runs a process or is in the scheduler loop.  A running process may yield, sleep on a kernel object
  (only \<^verbatim>\<open>wait\<close> sleeps on a process), wake up others, exit, wait and fork.
\<close>

inductive sched_step :: "(nat \<Rightarrow> pref) \<Rightarrow> sched \<Rightarrow> sched \<Rightarrow> bool" for self where
  run: "cpu_proc s cpu = None \<Longrightarrow> i < length (ptable s) \<Longrightarrow> p_state (ptable s ! i) = RUNNABLE \<Longrightarrow> sched_step self s (run_proc cpu i s)"
| yields: "yield cpu s = Inr t \<Longrightarrow> sched_step self s t"
| sleeps: "sleep_proc cpu (ObjChan a) s = Inr t \<Longrightarrow> sched_step self s t"
| resumes: "cpu_proc s cpu = Some i \<Longrightarrow> sched_step self s (sleep_return i s)"
| wakes: "sched_step self s (wakeup ch s)"
| exits: "exit_proc self cpu s = Inr t \<Longrightarrow> sched_step self s t"
| waits: "wait_round self cpu s = Inr (r, t) \<Longrightarrow> sched_step self s t"
| forks: "i < length (ptable s) \<Longrightarrow> p_state (ptable s ! i) = UNUSED \<Longrightarrow> sched_step self s (embryo i pid s)"
| adopts: "cpu_proc s cpu = Some me \<Longrightarrow> i < length (ptable s) \<Longrightarrow> p_state (ptable s ! i) = EMBRYO \<Longrightarrow>
    sched_step self s (set_parent i (self me) s)"
| starts: "i < length (ptable s) \<Longrightarrow> p_state (ptable s ! i) = EMBRYO \<Longrightarrow> sched_step self s (start_child i s)"

definition at_state :: "procstate \<Rightarrow> sched \<Rightarrow> nat set" where
  "at_state st s = {i. i < length (ptable s) \<and> p_state (ptable s ! i) = st}"

text \<open>The running processes are exactly the current ones of the CPUs, each of one CPU.\<close>

definition cpu_inv :: "sched \<Rightarrow> bool" where
  "cpu_inv s \<longleftrightarrow> (\<forall>cpu i. cpu_proc s cpu = Some i \<longrightarrow> i \<in> at_state RUNNING s)
     \<and> (\<forall>i \<in> at_state RUNNING s. \<exists>cpu. cpu_proc s cpu = Some i)
     \<and> (\<forall>c d i. cpu_proc s c = Some i \<and> cpu_proc s d = Some i \<longrightarrow> c = d)"

text \<open>No process sleeps in \<^verbatim>\<open>wait\<close> while it has a zombie child.\<close>

definition wait_inv :: "(nat \<Rightarrow> pref) \<Rightarrow> proc list \<Rightarrow> bool" where
  "wait_inv self t \<longleftrightarrow> (\<forall>i < length t. \<forall>j < length t.
     p_state (t ! i) = SLEEPING \<and> p_chan (t ! i) = ProcChan (self i) \<and> p_parent (t ! j) = Some (self i) \<longrightarrow> p_state (t ! j) \<noteq> ZOMBIE)"

text \<open>A table that differs from another one by sleepers having been woken.\<close>

definition woken :: "proc list \<Rightarrow> proc list \<Rightarrow> bool" where
  "woken t t' \<longleftrightarrow> length t' = length t
     \<and> (\<forall>i < length t. t' ! i = t ! i \<or> p_state (t ! i) = SLEEPING \<and> t' ! i = (t ! i)\<lparr>p_state := RUNNABLE\<rparr>)"

lemma woken_refl: "woken t t"
  by (simp add: woken_def)

lemma woken_trans: "woken t u \<Longrightarrow> woken u v \<Longrightarrow> woken t v"
  unfolding woken_def by (metis (no_types, lifting) proc.select_convs(4) proc.surjective proc.update_convs(4) procstate.distinct(23))

lemma woken_wakeup: "woken t (wakeup_table ch t)"
  by (simp add: woken_def wakeup_table_def)

lemma woken_cases:
  assumes "woken t t'" and "i < length t"
  shows "p_parent (t' ! i) = p_parent (t ! i)" "p_chan (t' ! i) = p_chan (t ! i)" "p_pid (t' ! i) = p_pid (t ! i)"
    "p_killed (t' ! i) = p_killed (t ! i)"
    "st \<noteq> SLEEPING \<Longrightarrow> st \<noteq> RUNNABLE \<Longrightarrow> p_state (t' ! i) = st \<longleftrightarrow> p_state (t ! i) = st"
    "p_state (t' ! i) = SLEEPING \<Longrightarrow> p_state (t ! i) = SLEEPING"
  using assms by (auto simp: woken_def dest!: spec [of _ i])

lemma wait_inv_woken: "wait_inv self t \<Longrightarrow> woken t t' \<Longrightarrow> wait_inv self t'"
proof -
  assume inv: "wait_inv self t" and w: "woken t t'"
  then have len: "length t' = length t" by (simp add: woken_def)
  show ?thesis
    unfolding wait_inv_def len
  proof (intro allI impI)
    fix i j assume ij: "i < length t" "j < length t"
      and a: "p_state (t' ! i) = SLEEPING \<and> p_chan (t' ! i) = ProcChan (self i) \<and> p_parent (t' ! j) = Some (self i)"
    then have "p_state (t ! j) \<noteq> ZOMBIE"
      using inv woken_cases(1) [OF w ij(2)] woken_cases(2,6) [OF w ij(1)] by (auto simp: wait_inv_def)
    then show "p_state (t' ! j) \<noteq> ZOMBIE" using woken_cases(5) [OF w ij(2), of ZOMBIE] by simp
  qed
qed

lemma woken_fold:
  "woken t (fold (\<lambda>j t. if P j t then wakeup_table ch t else t) js t)"
proof (induction js arbitrary: t)
  case (Cons j js)
  then show ?case using woken_trans [OF woken_wakeup [of t ch]] by (auto simp: woken_refl)
qed (simp add: woken_refl)

text \<open>The table after \<^verbatim>\<open>exit\<close>: some sleepers woken, among them a parent asleep in \<^verbatim>\<open>wait\<close>, and this process a zombie.\<close>

lemma exit_table_woken:
  obtains t' where "woken t t'" "exit_table self me t = t'[me := (t' ! me)\<lparr>p_state := ZOMBIE\<rparr>]"
    "\<And>q i. p_parent (t ! me) = Some q \<Longrightarrow> i < length t \<Longrightarrow> p_state (t' ! i) = SLEEPING \<Longrightarrow> p_chan (t' ! i) \<noteq> ProcChan q"
proof -
  define t1 where "t1 = (case p_parent (t ! me) of None \<Rightarrow> wakeup_table NoChan t | Some q \<Rightarrow> wakeup_table (ProcChan q) t)"
  define t2 where "t2 = fold (\<lambda>j t. if p_parent (t ! j) = Some (self me) \<and> p_state (t ! j) = ZOMBIE
                          then wakeup_table (ProcChan (self me)) t else t) [0 ..< length t1] t1"
  have w1: "woken t t1" by (auto simp: t1_def woken_wakeup split: option.split)
  have w2: "woken t1 t2" unfolding t2_def by (rule woken_fold)
  have "p_chan (t2 ! i) \<noteq> ProcChan q" if "p_parent (t ! me) = Some q" "i < length t" "p_state (t2 ! i) = SLEEPING" for q i
  proof -
    have i1: "i < length t1" using that(2) w1 by (simp add: woken_def)
    have "p_state (t1 ! i) = SLEEPING" "p_chan (t2 ! i) = p_chan (t1 ! i)"
      using woken_cases(2,6) [OF w2 i1] that(3) by auto
    then show ?thesis using that(1,2) by (auto simp: t1_def wakeup_table_def)
  qed
  moreover have "exit_table self me t = t2[me := (t2 ! me)\<lparr>p_state := ZOMBIE\<rparr>]"
    by (simp add: exit_table_def t1_def t2_def Let_def)
  ultimately show thesis using that woken_trans [OF w1 w2] by blast
qed

section \<open>Invariants\<close>

lemma at_state_woken: "woken t t' \<Longrightarrow> at_state RUNNING (s\<lparr>ptable := t'\<rparr>) = at_state RUNNING (s\<lparr>ptable := t\<rparr>)"
proof -
  assume w: "woken t t'"
  then have len: "length t' = length t" by (simp add: woken_def)
  show ?thesis using woken_cases(5) [OF w, of _ RUNNING] by (auto simp: at_state_def len)
qed

lemma cpu_inv_frame:
  "cpu_inv s \<Longrightarrow> at_state RUNNING s' = at_state RUNNING s \<Longrightarrow> cpu_proc s' = cpu_proc s \<Longrightarrow> cpu_inv s'"
  by (simp add: cpu_inv_def)

lemma cpu_invI:
  assumes "\<And>cpu i. cpu_proc s cpu = Some i \<Longrightarrow> i \<in> at_state RUNNING s"
    and "\<And>i. i \<in> at_state RUNNING s \<Longrightarrow> \<exists>cpu. cpu_proc s cpu = Some i"
    and "\<And>c d i. cpu_proc s c = Some i \<Longrightarrow> cpu_proc s d = Some i \<Longrightarrow> c = d"
  shows "cpu_inv s"
  unfolding cpu_inv_def using assms by blast

lemma cpu_invD:
  assumes "cpu_inv s"
  shows "cpu_proc s cpu = Some i \<Longrightarrow> i \<in> at_state RUNNING s"
    and "i \<in> at_state RUNNING s \<Longrightarrow> \<exists>cpu. cpu_proc s cpu = Some i"
    and "cpu_proc s c = Some i \<Longrightarrow> cpu_proc s d = Some i \<Longrightarrow> c = d"
  using assms unfolding cpu_inv_def by blast+

lemma cpu_inv_leave:
  assumes inv: "cpu_inv s" and i: "cpu_proc s cpu = Some i" and R: "at_state RUNNING s' = at_state RUNNING s - {i}"
    and c: "cpu_proc s' = (cpu_proc s)(cpu := None)"
  shows "cpu_inv s'"
proof (rule cpu_invI)
  fix d j assume "cpu_proc s' d = Some j"
  then have "d \<noteq> cpu" "cpu_proc s d = Some j" by (auto simp: c split: if_splits)
  then show "j \<in> at_state RUNNING s'" using cpu_invD(1,3) [OF inv] i R by blast
next
  fix j assume "j \<in> at_state RUNNING s'"
  then have "j \<noteq> i" "j \<in> at_state RUNNING s" by (auto simp: R)
  then obtain d where "cpu_proc s d = Some j" using cpu_invD(2) [OF inv] by blast
  with \<open>j \<noteq> i\<close> i have "cpu_proc s' d = Some j" by (auto simp: c)
  then show "\<exists>d. cpu_proc s' d = Some j" ..
next
  fix d e j assume "cpu_proc s' d = Some j" "cpu_proc s' e = Some j"
  then have "cpu_proc s d = Some j" "cpu_proc s e = Some j" by (auto simp: c split: if_splits)
  then show "d = e" by (rule cpu_invD(3) [OF inv])
qed

lemma cpu_inv_run:
  assumes inv: "cpu_inv s" and cpu: "cpu_proc s cpu = None" and i: "i \<notin> at_state RUNNING s"
    and R: "at_state RUNNING s' = insert i (at_state RUNNING s)" and c: "cpu_proc s' = (cpu_proc s)(cpu := Some i)"
  shows "cpu_inv s'"
proof (rule cpu_invI)
  fix d j assume "cpu_proc s' d = Some j"
  then show "j \<in> at_state RUNNING s'" using cpu_invD(1) [OF inv, of d j] by (auto simp: c R split: if_splits)
next
  fix j assume "j \<in> at_state RUNNING s'"
  then consider "j = i" | "j \<in> at_state RUNNING s" by (auto simp: R)
  then show "\<exists>d. cpu_proc s' d = Some j"
  proof cases
    case 2
    then obtain d where "cpu_proc s d = Some j" using cpu_invD(2) [OF inv] by blast
    with cpu have "cpu_proc s' d = Some j" by (auto simp: c)
    then show ?thesis ..
  qed (auto simp: c)
next
  fix d e j assume a: "cpu_proc s' d = Some j" "cpu_proc s' e = Some j"
  have none: "cpu_proc s k \<noteq> Some i" for k using cpu_invD(1) [OF inv, of k i] i by auto
  from a show "d = e" using cpu_invD(3) [OF inv, of d j e] none [of d] none [of e] by (auto simp: c split: if_splits)
qed

lemma at_state_ptable: "at_state st (s\<lparr>ptable := t, cpu_proc := f\<rparr>) = at_state st (s\<lparr>ptable := t\<rparr>)"
  by (simp add: at_state_def)

lemma at_state_update:
  assumes "i < length t"
  shows "at_state st (s\<lparr>ptable := t[i := p]\<rparr>) =
     (if p_state p = st then insert i (at_state st (s\<lparr>ptable := t\<rparr>)) else at_state st (s\<lparr>ptable := t\<rparr>) - {i})"
proof (rule set_eqI)
  fix x
  show "x \<in> at_state st (s\<lparr>ptable := t[i := p]\<rparr>) \<longleftrightarrow> x \<in>
     (if p_state p = st then insert i (at_state st (s\<lparr>ptable := t\<rparr>)) else at_state st (s\<lparr>ptable := t\<rparr>) - {i})"
    using assms by (cases "x = i") (auto simp: at_state_def)
qed

lemma ptable_self: "at_state st (s\<lparr>ptable := ptable s\<rparr>) = at_state st s"
  by (simp add: at_state_def)

lemma at_state_cpu [simp]: "at_state st (s\<lparr>cpu_proc := f\<rparr>) = at_state st s"
  by (simp add: at_state_def)

text \<open>A current process leaves its CPU in some state other than running, while sleepers may be woken.\<close>

lemma leave_step:
  assumes inv: "cpu_inv s" and i: "cpu_proc s cpu = Some i" and w: "woken (ptable s) t" and p: "p_state p \<noteq> RUNNING"
  shows "enter_sched True cpu (s\<lparr>ptable := t[i := p]\<rparr>) = Inr (s\<lparr>ptable := t[i := p], cpu_proc := (cpu_proc s)(cpu := None)\<rparr>)"
    "cpu_inv (s\<lparr>ptable := t[i := p], cpu_proc := (cpu_proc s)(cpu := None)\<rparr>)"
proof -
  have len: "i < length t" using cpu_invD(1) [OF inv i] w by (simp add: at_state_def woken_def)
  then show "enter_sched True cpu (s\<lparr>ptable := t[i := p]\<rparr>) = Inr (s\<lparr>ptable := t[i := p], cpu_proc := (cpu_proc s)(cpu := None)\<rparr>)"
    using i p by (simp add: enter_sched_def sched_simple_def switch_back_def)
  have "at_state RUNNING (s\<lparr>ptable := t[i := p], cpu_proc := (cpu_proc s)(cpu := None)\<rparr>) = at_state RUNNING s - {i}"
    using p at_state_update [OF len, where s = s and p = p and st = RUNNING] at_state_woken [OF w, where s = s] by (simp add: at_state_ptable ptable_self)
  from cpu_inv_leave [OF inv i this] show "cpu_inv (s\<lparr>ptable := t[i := p], cpu_proc := (cpu_proc s)(cpu := None)\<rparr>)" by simp
qed

lemma sleep_proc_eq:
  assumes inv: "cpu_inv s" and i: "cpu_proc s cpu = Some i"
  shows "sleep_proc cpu ch s = Inr (s\<lparr>ptable := (ptable s)[i := (ptable s ! i)\<lparr>p_chan := ch, p_state := SLEEPING\<rparr>],
    cpu_proc := (cpu_proc s)(cpu := None)\<rparr>)"
proof -
  have "i < length (ptable s)" using cpu_invD(1) [OF inv i] by (simp add: at_state_def)
  then show ?thesis
    using leave_step(1) [OF inv i woken_refl] i by (simp add: sleep_proc_def set_state_def)
qed

text \<open>A slot that is not running changes to another state that is not running, or keeps its state.\<close>

lemma still_step:
  assumes inv: "cpu_inv s" and i: "i < length (ptable s)" and p: "p_state p = RUNNING \<longleftrightarrow> p_state (ptable s ! i) = RUNNING"
  shows "cpu_inv (s\<lparr>ptable := (ptable s)[i := p]\<rparr>)"
proof (rule cpu_inv_frame [OF inv])
  show "at_state RUNNING (s\<lparr>ptable := (ptable s)[i := p]\<rparr>) = at_state RUNNING s"
    using at_state_update [OF i, where s = s and p = p and st = RUNNING] p i by (auto simp: ptable_self) (auto simp: at_state_def)
qed simp

lemma wait_cases:
  assumes "wait_round self cpu s = Inr (r, t)" and "cpu_proc s cpu = Some me"
  obtains j where "j < length (ptable s)" "p_parent (ptable s ! j) = Some (self me)" "p_state (ptable s ! j) = ZOMBIE"
      "r = Reaped j (p_pid (ptable s ! j))" "t = s\<lparr>ptable := (ptable s)[j := reap (ptable s ! j)]\<rparr>"
    | "r = NoChild" "t = s"
    | "r = Waits" "sleep_proc cpu (ProcChan (self me)) s = Inr t"
      "\<And>j. j < length (ptable s) \<Longrightarrow> p_parent (ptable s ! j) = Some (self me) \<Longrightarrow> p_state (ptable s ! j) \<noteq> ZOMBIE"
  using assms
  by (auto simp: wait_round_def bindE_eq_Inr find_from_Some find_from_None split: option.splits if_splits)

lemma cpu_inv_step: "sched_step self s t \<Longrightarrow> cpu_inv s \<Longrightarrow> cpu_inv t"
proof (induction rule: sched_step.induct)
  case (run s cpu i)
  have "i \<notin> at_state RUNNING s" using run(3) by (simp add: at_state_def)
  moreover have "at_state RUNNING (run_proc cpu i s) = insert i (at_state RUNNING s)"
    using at_state_update [OF run(2), where s = s and st = RUNNING] by (simp add: run_proc_def set_state_def at_state_ptable ptable_self)
  ultimately show ?case by (rule cpu_inv_run [OF run(4,1)]) (simp add: run_proc_def set_state_def)
next
  case (yields cpu s t)
  then show ?case
    using leave_step [OF yields(2) _ woken_refl] by (auto simp: yield_def set_state_def split: option.splits)
next
  case (sleeps cpu a s t)
  then show ?case
    using leave_step(2) [OF sleeps(2) _ woken_refl] sleep_proc_eq [OF sleeps(2)]
    by (cases "cpu_proc s cpu") (auto simp: sleep_proc_def)
next
  case (resumes s cpu i)
  then show ?case
    using cpu_invD(1) [OF resumes(2,1)] still_step [OF resumes(2), of i] by (simp add: sleep_return_def at_state_def)
next
  case (wakes s ch)
  show ?case
    using at_state_woken [OF woken_wakeup [of "ptable s" ch], where s = s]
    by (intro cpu_inv_frame [OF wakes]) (simp_all add: wakeup_def ptable_self)
next
  case (exits cpu s t)
  then obtain me where me: "cpu_proc s cpu = Some me" by (auto simp: exit_proc_def split: option.splits)
  obtain t' where "woken (ptable s) t'" "exit_table self me (ptable s) = t'[me := (t' ! me)\<lparr>p_state := ZOMBIE\<rparr>]"
    by (rule exit_table_woken) blast
  then show ?case using exits(1) leave_step [OF exits(2) me, of t'] by (auto simp: exit_proc_def me)
next
  case (waits cpu s r t)
  then obtain me where me: "cpu_proc s cpu = Some me" by (auto simp: wait_round_def split: option.splits)
  from waits(1) me consider j where "j < length (ptable s)" "p_state (ptable s ! j) = ZOMBIE"
      "t = s\<lparr>ptable := (ptable s)[j := reap (ptable s ! j)]\<rparr>"
    | "t = s" | "sleep_proc cpu (ProcChan (self me)) s = Inr t"
    by (rule wait_cases) auto
  then show ?case
  proof cases
    case 1
    then show ?thesis using still_step [OF waits(2) 1(1)] by (simp add: reap_def)
  next
    case 3
    then show ?thesis
      using leave_step(2) [OF waits(2) me woken_refl] sleep_proc_eq [OF waits(2) me] by auto
  qed (use waits in simp)
next
  case (forks i s pid)
  then show ?case using still_step [OF forks(3,1)] by (simp add: embryo_def)
next
  case (adopts s cpu me i)
  then show ?case using still_step [OF adopts(4,2)] by (simp add: set_parent_def)
next
  case (starts i s)
  then show ?case using still_step [OF starts(3,1)] by (simp add: start_child_def set_state_def)
qed

text \<open>Changing one slot keeps the waiting invariant if the slot does not become a waiting parent or a zombie.\<close>

lemma wait_inv_update:
  assumes inv: "wait_inv self t" and p: "p_state p \<noteq> ZOMBIE"
    and s: "p_state p = SLEEPING \<and> p_chan p = ProcChan (self i) \<Longrightarrow>
      (\<forall>j < length t. p_parent (t ! j) = Some (self i) \<longrightarrow> p_state (t ! j) \<noteq> ZOMBIE)"
  shows "wait_inv self (t[i := p])"
  unfolding wait_inv_def length_list_update
proof (intro allI impI)
  fix k j assume kj: "k < length t" "j < length t"
    and a: "p_state (t[i := p] ! k) = SLEEPING \<and> p_chan (t[i := p] ! k) = ProcChan (self k) \<and> p_parent (t[i := p] ! j) = Some (self k)"
  show "p_state (t[i := p] ! j) \<noteq> ZOMBIE"
  proof (cases "j = i")
    case False
    then have j: "p_parent (t ! j) = Some (self k)" "t[i := p] ! j = t ! j" using a by auto
    show ?thesis
    proof (cases "k = i")
      case True
      with a kj s j show ?thesis by auto
    next
      case False
      with a kj inv j show ?thesis by (auto simp: wait_inv_def)
    qed
  qed (use p kj in simp)
qed

lemma wait_inv_zombie:
  assumes inv: "wait_inv self t" and p: "p_state p = ZOMBIE"
    and s: "\<And>k. k < length t \<Longrightarrow> p_parent p = Some (self k) \<Longrightarrow> p_state (t ! k) = SLEEPING \<Longrightarrow> p_chan (t ! k) \<noteq> ProcChan (self k)"
  shows "wait_inv self (t[i := p])"
  unfolding wait_inv_def length_list_update
proof (intro allI impI)
  fix k j assume kj: "k < length t" "j < length t"
    and a: "p_state (t[i := p] ! k) = SLEEPING \<and> p_chan (t[i := p] ! k) = ProcChan (self k) \<and> p_parent (t[i := p] ! j) = Some (self k)"
  have k: "k \<noteq> i" using a p kj by auto
  show "p_state (t[i := p] ! j) \<noteq> ZOMBIE"
  proof (cases "j = i")
    case True
    with a kj k s [of k] show ?thesis by auto
  next
    case False
    with a kj inv k show ?thesis by (auto simp: wait_inv_def)
  qed
qed

lemma wait_inv_step: "sched_step self s t \<Longrightarrow> wait_inv self (ptable s) \<Longrightarrow> cpu_inv s \<Longrightarrow> wait_inv self (ptable t)"
proof (induction rule: sched_step.induct)
  case (run s cpu i)
  then show ?case by (auto simp: run_proc_def set_state_def intro!: wait_inv_update)
next
  case (yields cpu s t)
  then show ?case by (auto simp: yield_def enter_sched_def switch_back_def sched_simple_def set_state_def split: option.splits if_splits intro!: wait_inv_update)
next
  case (sleeps cpu a s t)
  then show ?case
    using sleep_proc_eq [OF sleeps(3)] by (cases "cpu_proc s cpu") (auto simp: sleep_proc_def intro!: wait_inv_update)
next
  case (resumes s cpu i)
  then have "p_state (ptable s ! i) = RUNNING" using cpu_invD(1) [of s cpu i] by (auto simp: at_state_def)
  then show ?case using resumes(2) by (auto simp: sleep_return_def intro!: wait_inv_update)
next
  case (wakes s ch)
  then show ?case using wait_inv_woken [OF _ woken_wakeup] by (simp add: wakeup_def)
next
  case (exits cpu s t)
  then obtain me where me: "cpu_proc s cpu = Some me" by (auto simp: exit_proc_def split: option.splits)
  obtain t' where t': "woken (ptable s) t'" "exit_table self me (ptable s) = t'[me := (t' ! me)\<lparr>p_state := ZOMBIE\<rparr>]"
    "\<And>q i. p_parent (ptable s ! me) = Some q \<Longrightarrow> i < length (ptable s) \<Longrightarrow> p_state (t' ! i) = SLEEPING \<Longrightarrow> p_chan (t' ! i) \<noteq> ProcChan q"
    by (rule exit_table_woken) blast
  have me': "me < length (ptable s)" "length t' = length (ptable s)"
    using cpu_invD(1) [OF exits(3) me] t'(1) by (auto simp: at_state_def woken_def)
  have "wait_inv self t'" by (rule wait_inv_woken [OF exits(2) t'(1)])
  then have "wait_inv self (t'[me := (t' ! me)\<lparr>p_state := ZOMBIE\<rparr>])"
    using t'(3) woken_cases(1) [OF t'(1) me'(1)] me'(2) by (intro wait_inv_zombie) auto
  then show ?case using exits(1) by (auto simp: exit_proc_def me enter_sched_def switch_back_def sched_simple_def t'(2) split: if_splits)
next
  case (waits cpu s r t)
  then obtain me where me: "cpu_proc s cpu = Some me" by (auto simp: wait_round_def split: option.splits)
  from waits(1) me show ?case
  proof (cases rule: wait_cases)
    case (1 j)
    then show ?thesis using waits(2) by (auto simp: reap_def intro!: wait_inv_update)
  next
    case 2
    then show ?thesis using waits(2) by simp
  next
    case 3
    then show ?thesis
      using waits(2) sleep_proc_eq [OF waits(3) me] by (auto intro!: wait_inv_update)
  qed
next
  case (forks i s pid)
  then show ?case by (auto simp: embryo_def intro!: wait_inv_update)
next
  case (adopts s cpu me i)
  then show ?case by (auto simp: set_parent_def intro!: wait_inv_update)
next
  case (starts i s)
  then show ?case by (auto simp: start_child_def set_state_def intro!: wait_inv_update)
qed

text \<open>All CPUs in the scheduler loop and no process yet but one that can run.\<close>

inductive sched_reach :: "(nat \<Rightarrow> pref) \<Rightarrow> sched \<Rightarrow> bool" for self where
  boot: "(\<And>cpu. cpu_proc s cpu = None) \<Longrightarrow> (\<And>p. p \<in> set (ptable s) \<Longrightarrow> p_state p \<in> {UNUSED, RUNNABLE}) \<Longrightarrow> sched_reach self s"
| step: "sched_reach self s \<Longrightarrow> sched_step self s t \<Longrightarrow> sched_reach self t"

lemma sched_reach_inv: "sched_reach self s \<Longrightarrow> cpu_inv s \<and> wait_inv self (ptable s)"
proof (induction rule: sched_reach.induct)
  case (boot s)
  then have n: "p_state (ptable s ! i) \<noteq> RUNNING \<and> p_state (ptable s ! i) \<noteq> SLEEPING" if "i < length (ptable s)" for i
    using nth_mem [OF that] by fastforce
  have "cpu_inv s" by (rule cpu_invI) (use boot(1) n in \<open>auto simp: at_state_def\<close>)
  then show ?case using n by (simp add: wait_inv_def)
next
  case (step s t)
  then show ?case using cpu_inv_step wait_inv_step by blast
qed

section \<open>The chain of containers\<close>

fun chain :: "conts \<Rightarrow> ptr \<Rightarrow> ptr list \<Rightarrow> bool" where
  "chain cs root [] \<longleftrightarrow> False"
| "chain cs root [a] \<longleftrightarrow> a = root"
| "chain cs root (a # b # as) \<longleftrightarrow> a \<noteq> root \<and> c_parent (cs a) = b \<and> chain cs root (b # as)"

text \<open>A container with an identifier left for one more process.\<close>

definition pid_ready :: "container \<Rightarrow> bool" where
  "pid_ready c \<longleftrightarrow> \<not> locked (c_lock c) \<and> 0 \<le> c_pid c \<and> c_pid c < 63 \<and> length (c_pmap c) = 64"

definition with_pid :: "pref \<Rightarrow> container \<Rightarrow> container" where
  "with_pid p c = c\<lparr>c_pid := c_pid c + 1,
     c_pmap := (c_pmap c)[nat (c_pid c + 1) := \<lparr>pm_valid = True, pid_local = c_pid c + 1, pm_proc = Some p\<rparr>],
     c_lock := (c_lock c)\<lparr>lk_cpu := None, locked := False\<rparr>\<rparr>"

lemma chain_unique: "chain cs root (a # as) \<Longrightarrow> chain cs root (a # bs) \<Longrightarrow> as = bs"
proof (induction as arbitrary: a bs)
  case Nil
  then show ?case by (cases bs) auto
next
  case (Cons b as)
  then show ?case by (cases bs) auto
qed

lemma chain_suffix: "chain cs root (xs @ a # ys) \<Longrightarrow> chain cs root (a # ys)"
proof (induction xs)
  case (Cons x xs)
  then show ?case by (cases xs) auto
qed simp

lemma chain_distinct: "chain cs root as \<Longrightarrow> distinct as"
proof (induction as)
  case (Cons a as)
  have "a \<notin> set as"
  proof
    assume "a \<in> set as"
    then obtain xs ys where as: "as = xs @ a # ys" by (meson split_list)
    have "chain cs root (a # ys)" using Cons.prems chain_suffix [of cs root "a # xs" a ys] by (simp add: as)
    then have "as = ys" by (rule chain_unique [OF Cons.prems])
    then show False using as by simp
  qed
  moreover have "distinct as" using Cons by (cases as) auto
  ultimately show ?case by simp
qed simp

lemma take_pid_ok:
  assumes "pid_ready (cs a)"
  shows "take_pid cpu a p cs = Inr (True, cs(a := with_pid p (cs a)))"
proof -
  have "\<not> 64 \<le> nat (c_pid (cs a) + 1)" using assms by (auto simp: pid_ready_def le_nat_iff)
  then show ?thesis
    using assms
    by (simp add: take_pid_def pid_ready_def acquire_spinlock_def holding_spinlock_def try_acquire_spinlock_def
        release_spinlock_def with_pid_def NPID_def Let_def)
qed

lemma chain_other: "x \<notin> set (butlast as) \<Longrightarrow> chain (cs(x := c)) root as = chain cs root as"
  by (induction cs root as rule: chain.induct) auto

lemma alloc_resource_chain:
  "chain cs root as \<Longrightarrow> (\<And>a. a \<in> set as \<Longrightarrow> pid_ready (cs a)) \<Longrightarrow> length as \<le> fuel \<Longrightarrow>
     \<exists>cs'. alloc_resource fuel cpu root (hd as) p PID cs = Inr (True, cs')
       \<and> (\<forall>a. cs' a = (if a \<in> set as then with_pid p (cs a) else cs a))"
proof (induction as arbitrary: fuel cs)
  case (Cons a as)
  then obtain f where f: "fuel = Suc f" by (cases fuel) auto
  let ?cs = "cs(a := with_pid p (cs a))"
  have t: "take_pid cpu a p cs = Inr (True, ?cs)" by (rule take_pid_ok) (simp add: Cons.prems)
  show ?case
  proof (cases as)
    case Nil
    then show ?thesis using Cons.prems t by (auto simp: f)
  next
    case (Cons b bs)
    have d: "a \<notin> set as" using chain_distinct [OF Cons.prems(1)] by simp
    have c: "chain cs root as" "a \<noteq> root" "c_parent (cs a) = b" using Cons.prems(1) Cons by auto
    have "a \<notin> set (butlast as)" using d in_set_butlastD [of a as] by blast
    then have "chain ?cs root as" using c(1) by (simp add: chain_other)
    then have "\<exists>cs'. alloc_resource f cpu root (hd as) p PID ?cs = Inr (True, cs')
       \<and> (\<forall>x. cs' x = (if x \<in> set as then with_pid p (?cs x) else ?cs x))"
      by (rule Cons.IH) (use Cons.prems d f in auto)
    then obtain cs' where cs': "alloc_resource f cpu root b p PID ?cs = Inr (True, cs')"
       "\<And>x. cs' x = (if x \<in> set as then with_pid p (?cs x) else ?cs x)"
      by (auto simp: Cons)
    have "alloc_resource fuel cpu root a p PID cs = Inr (True, cs')"
      using t c(2,3) cs'(1) by (simp add: f) (simp add: with_pid_def)
    then show ?thesis using cs'(2) d by (intro exI [of _ cs']) auto
  qed
qed simp

section \<open>Properties\<close>

text \<open>
  C31: in every reachable state of a scheduler, each CPU that has a current process runs a process in state
  \<^verbatim>\<open>RUNNING\<close>, every running process is current on exactly one CPU, and the switch back to the scheduler by
  \<^verbatim>\<open>yield\<close>, \<^verbatim>\<open>sleep\<close> and \<^verbatim>\<open>exit\<close> never hits an assertion.
\<close>

theorem one_cpu_per_process:
  assumes "sched_reach self s"
  shows "(\<forall>i \<in> at_state RUNNING s. \<exists>!cpu. cpu_proc s cpu = Some i)
    \<and> (\<forall>cpu i. cpu_proc s cpu = Some i \<longrightarrow> i \<in> at_state RUNNING s
        \<and> (\<exists>t. yield cpu s = Inr t) \<and> (\<exists>t. sleep_proc cpu ch s = Inr t) \<and> (\<exists>t. exit_proc self cpu s = Inr t))"
proof -
  have inv: "cpu_inv s" using sched_reach_inv [OF assms] by simp
  have "\<exists>!cpu. cpu_proc s cpu = Some i" if "i \<in> at_state RUNNING s" for i
    using cpu_invD(2) [OF inv that] cpu_invD(3) [OF inv] by blast
  moreover have "i \<in> at_state RUNNING s \<and> (\<exists>t. yield cpu s = Inr t) \<and> (\<exists>t. sleep_proc cpu ch s = Inr t) \<and> (\<exists>t. exit_proc self cpu s = Inr t)"
    if i: "cpu_proc s cpu = Some i" for cpu i
  proof -
    obtain t' where "woken (ptable s) t'" "exit_table self i (ptable s) = t'[i := (t' ! i)\<lparr>p_state := ZOMBIE\<rparr>]"
      by (rule exit_table_woken) blast
    then have "\<exists>t. exit_proc self cpu s = Inr t" using leave_step(1) [OF inv i, of t'] by (simp add: exit_proc_def i)
    moreover have "\<exists>t. yield cpu s = Inr t" using leave_step(1) [OF inv i woken_refl] by (simp add: yield_def i set_state_def)
    ultimately show ?thesis using sleep_proc_eq [OF inv i] cpu_invD(1) [OF inv i] by simp
  qed
  ultimately show ?thesis by blast
qed

text \<open>Slot 0 can run; the other slots are free.\<close>

definition idle_proc :: "procstate \<Rightarrow> proc" where
  "idle_proc st = \<lparr>p_sz = 4096, p_pgdir = 0, p_kstack = 0, p_state = st, p_pid = 1, p_parent = None,
     p_tf = \<lparr>tf_spsr = 0, tf_elr = 0, tf_sp = 0, tf_tpidr = 0, tf_x = replicate 31 0, tf_q0 = [0, 0]\<rparr>, p_chan = NoChan,
     p_killed = False, p_name = replicate 16 0, p_cont = 0, p_is_scheduler = False, p_ofile = replicate 8 0, p_cwd = 0, p_stksz = 0, p_base = 0\<rparr>"

definition sample_sched :: sched where
  "sample_sched = \<lparr>ptable = idle_proc RUNNABLE # replicate 13 (idle_proc UNUSED), cpu_proc = \<lambda>_. None\<rparr>"

definition sample_self :: "nat \<Rightarrow> pref" where
  "sample_self i = (0x1000, i)"

lemma sample_sched_reach: "sched_reach sample_self sample_sched" "sched_reach sample_self (run_proc 2 0 sample_sched)"
proof -
  show r: "sched_reach sample_self sample_sched" by (rule boot) (auto simp: sample_sched_def idle_proc_def)
  have "sched_step sample_self sample_sched (run_proc 2 0 sample_sched)"
    by (rule run) (simp_all add: sample_sched_def idle_proc_def)
  with r show "sched_reach sample_self (run_proc 2 0 sample_sched)" by (rule step)
qed

theorem one_cpu_per_process_witness:
  "at_state RUNNING (run_proc 2 0 sample_sched) = {0} \<and> (\<exists>!cpu. cpu_proc (run_proc 2 0 sample_sched) cpu = Some 0)
     \<and> (\<exists>t. yield 2 (run_proc 2 0 sample_sched) = Inr t)"
proof -
  have c: "cpu_proc (run_proc 2 0 sample_sched) 2 = Some 0" by (simp add: run_proc_def set_state_def)
  have "p_state (ptable (run_proc 2 0 sample_sched) ! i) = RUNNING \<longleftrightarrow> i = 0" if "i < 14" for i
    using that by (cases i) (simp_all add: run_proc_def set_state_def sample_sched_def, simp_all add: idle_proc_def)
  moreover have "length (ptable (run_proc 2 0 sample_sched)) = 14"
    by (simp add: run_proc_def set_state_def sample_sched_def)
  ultimately have "at_state RUNNING (run_proc 2 0 sample_sched) = {0}" by (auto simp: at_state_def)
  then show ?thesis using one_cpu_per_process [OF sample_sched_reach(2)] c by auto
qed

text \<open>
  C32: \<^verbatim>\<open>exit\<close> and \<^verbatim>\<open>wait\<close> lose no wakeup.  When a process exits whose parent is asleep in \<^verbatim>\<open>wait\<close>,
  the parent becomes runnable, and when it runs again its next look at the table reaps a zombie child and returns the
  identifier that child had.  No process is ever asleep in \<^verbatim>\<open>wait\<close> while it has a zombie child.
\<close>

theorem exit_wakes_waiter:
  assumes "sched_reach self s" and "cpu_proc s cpu = Some c" and "p_parent (ptable s ! c) = Some (self i)" and "i < length (ptable s)"
    and "p_state (ptable s ! i) = SLEEPING" and "p_chan (ptable s ! i) = ProcChan (self i)"
  shows "(\<forall>j < length (ptable s). p_parent (ptable s ! j) = Some (self i) \<longrightarrow> p_state (ptable s ! j) \<noteq> ZOMBIE)
    \<and> (\<exists>t j u. exit_proc self cpu s = Inr t \<and> p_state (ptable t ! i) = RUNNABLE
        \<and> wait_round self cpu (run_proc cpu i t) = Inr (Reaped j (p_pid (ptable t ! j)), u)
        \<and> p_parent (ptable t ! j) = Some (self i) \<and> p_state (ptable t ! j) = ZOMBIE)"
proof -
  have inv: "cpu_inv s" "wait_inv self (ptable s)" using sched_reach_inv [OF assms(1)] by simp_all
  have c: "c < length (ptable s)" "p_state (ptable s ! c) = RUNNING" using cpu_invD(1) [OF inv(1) assms(2)] by (simp_all add: at_state_def)
  then have ci: "c \<noteq> i" using assms(5) by auto
  obtain t' where t': "woken (ptable s) t'" "exit_table self c (ptable s) = t'[c := (t' ! c)\<lparr>p_state := ZOMBIE\<rparr>]"
    "\<And>q k. p_parent (ptable s ! c) = Some q \<Longrightarrow> k < length (ptable s) \<Longrightarrow> p_state (t' ! k) = SLEEPING \<Longrightarrow> p_chan (t' ! k) \<noteq> ProcChan q"
    by (rule exit_table_woken) blast
  define t where "t = s\<lparr>ptable := t'[c := (t' ! c)\<lparr>p_state := ZOMBIE\<rparr>], cpu_proc := (cpu_proc s)(cpu := None)\<rparr>"
  have len: "length t' = length (ptable s)" using t'(1) by (simp add: woken_def)
  have e: "exit_proc self cpu s = Inr t"
    using leave_step(1) [OF inv(1) assms(2) t'(1)] by (simp add: exit_proc_def assms(2) t'(2) t_def)
  have run: "p_state (t' ! i) = RUNNABLE"
  proof -
    have "p_state (t' ! i) \<noteq> SLEEPING" using t'(3) [OF assms(3,4)] woken_cases(2) [OF t'(1) assms(4)] assms(6) by auto
    then show ?thesis using t'(1) assms(4,5) unfolding woken_def by fastforce
  qed
  let ?r = "run_proc cpu i t"
  have r: "cpu_proc ?r cpu = Some i" "length (ptable ?r) = length (ptable s)"
    "\<And>j. j < length (ptable s) \<Longrightarrow> j \<noteq> i \<Longrightarrow> ptable ?r ! j = ptable t ! j"
    by (simp_all add: run_proc_def set_state_def t_def len)
  have child: "p_parent (ptable t ! c) = Some (self i)" "p_state (ptable t ! c) = ZOMBIE"
    using c(1) len assms(3) woken_cases(1) [OF t'(1) c(1)] by (simp_all add: t_def)
  let ?P = "\<lambda>j. p_parent (ptable ?r ! j) = Some (self i) \<and> p_state (ptable ?r ! j) = ZOMBIE"
  have "?P c" using child r(3) [OF c(1) ci] by simp
  then have "find_from ?P 0 (length (ptable ?r)) \<noteq> None" using c(1) by (auto simp: find_from_None r(2))
  then obtain j where j: "find_from ?P 0 (length (ptable ?r)) = Some j" by blast
  then have jj: "j < length (ptable s)" "?P j" by (simp_all add: find_from_Some r(2))
  have "j \<noteq> i" using jj(2) assms(4) len by (auto simp: run_proc_def set_state_def t_def)
  then have "ptable ?r ! j = ptable t ! j" using r(3) jj(1) by simp
  moreover from this have "wait_round self cpu ?r = Inr (Reaped j (p_pid (ptable t ! j)), ?r\<lparr>ptable := (ptable ?r)[j := reap (ptable ?r ! j)]\<rparr>)"
    using j r(1) by (simp add: wait_round_def)
  moreover have "p_state (ptable t ! i) = RUNNABLE" using run ci by (simp add: t_def)
  ultimately show ?thesis using e jj(2) inv(2) assms(4-6) by (auto simp: wait_inv_def)
qed

text \<open>Slot 0 has forked slot 1 and waits for it; slot 1 runs on CPU 3.\<close>

definition parent_asleep :: proc where
  "parent_asleep = (idle_proc SLEEPING)\<lparr>p_chan := ProcChan (sample_self 0)\<rparr>"

definition child_proc :: "procstate \<Rightarrow> proc" where
  "child_proc st = (idle_proc st)\<lparr>p_pid := 2, p_parent := Some (sample_self 0)\<rparr>"

definition sample_family :: sched where
  "sample_family = \<lparr>ptable = parent_asleep # child_proc RUNNING # replicate 12 (idle_proc UNUSED), cpu_proc = (\<lambda>_. None)(3 := Some 1)\<rparr>"

lemma sample_family_reach: "sched_reach sample_self sample_family"
proof -
  let ?U = "replicate 12 (idle_proc UNUSED)"
  let ?s1 = "\<lparr>ptable = idle_proc RUNNING # idle_proc UNUSED # ?U, cpu_proc = (\<lambda>_. None)(2 := Some 0)\<rparr>"
  let ?s2 = "\<lparr>ptable = idle_proc RUNNING # (idle_proc EMBRYO)\<lparr>p_pid := 2\<rparr> # ?U, cpu_proc = (\<lambda>_. None)(2 := Some 0)\<rparr>"
  let ?s3 = "\<lparr>ptable = idle_proc RUNNING # child_proc RUNNABLE # ?U, cpu_proc = (\<lambda>_. None)(2 := Some 0)\<rparr>"
  let ?s4 = "\<lparr>ptable = parent_asleep # child_proc RUNNABLE # ?U, cpu_proc = \<lambda>_. None\<rparr>"
  have ss: "sample_sched = \<lparr>ptable = idle_proc RUNNABLE # idle_proc UNUSED # ?U, cpu_proc = \<lambda>_. None\<rparr>"
    by (simp add: sample_sched_def numeral_eq_Suc)
  have "run_proc 2 0 sample_sched = ?s1" unfolding ss by (simp add: run_proc_def set_state_def idle_proc_def)
  with sample_sched_reach(2) have r1: "sched_reach sample_self ?s1" by simp
  have "embryo 1 2 ?s1 = ?s2" by (simp add: embryo_def idle_proc_def)
  then have r2: "sched_reach sample_self ?s2" using step [OF r1 forks [of 1 ?s1 _ 2]] by (simp add: idle_proc_def)
  have "set_parent 1 (sample_self 0) ?s2 = \<lparr>ptable = idle_proc RUNNING # child_proc EMBRYO # ?U, cpu_proc = (\<lambda>_. None)(2 := Some 0)\<rparr>"
    by (simp add: set_parent_def child_proc_def idle_proc_def)
  then have r2': "sched_reach sample_self \<lparr>ptable = idle_proc RUNNING # child_proc EMBRYO # ?U, cpu_proc = (\<lambda>_. None)(2 := Some 0)\<rparr>"
    using step [OF r2 adopts [of ?s2 2 0 1]] by (simp add: idle_proc_def)
  have "start_child 1 \<lparr>ptable = idle_proc RUNNING # child_proc EMBRYO # ?U, cpu_proc = (\<lambda>_. None)(2 := Some 0)\<rparr> = ?s3"
    by (simp add: start_child_def set_state_def child_proc_def idle_proc_def)
  then have r3: "sched_reach sample_self ?s3"
    using step [OF r2' starts [of 1]] by (simp add: child_proc_def idle_proc_def)
  have inv: "cpu_inv ?s3" using sched_reach_inv [OF r3] by simp
  have "p_state p \<noteq> ZOMBIE" if "p \<in> set (ptable ?s3)" for p using that by (auto simp: idle_proc_def child_proc_def)
  then have nz: "find_from (\<lambda>j. p_parent (ptable ?s3 ! j) = Some (sample_self 0) \<and> p_state (ptable ?s3 ! j) = ZOMBIE) 0 (length (ptable ?s3)) = None"
    unfolding find_from_None using nth_mem by blast
  have kid: "\<not> (\<forall>j < length (ptable ?s3). p_parent (ptable ?s3 ! j) \<noteq> Some (sample_self 0))"
    by (auto simp: child_proc_def intro!: exI [of _ 1])
  have "sleep_proc 2 (ProcChan (sample_self 0)) ?s3 = Inr ?s4"
    using sleep_proc_eq [OF inv, of 2 0 "ProcChan (sample_self 0)"] by (simp add: parent_asleep_def idle_proc_def fun_eq_iff)
  then have "wait_round sample_self 2 ?s3 = Inr (Waits, ?s4)"
    using nz kid by (simp add: wait_round_def) (simp add: idle_proc_def)
  then have r4: "sched_reach sample_self ?s4" by (rule step [OF r3 waits])
  have "run_proc 3 1 ?s4 = sample_family"
    by (simp add: run_proc_def set_state_def sample_family_def child_proc_def idle_proc_def)
  then show ?thesis using step [OF r4 run [of ?s4 3 1]] by (simp add: child_proc_def idle_proc_def)
qed

theorem exit_wakes_waiter_witness:
  "\<exists>t j u. exit_proc sample_self 3 sample_family = Inr t \<and> p_state (ptable t ! 0) = RUNNABLE
     \<and> wait_round sample_self 3 (run_proc 3 0 t) = Inr (Reaped j (p_pid (ptable t ! j)), u)"
  using exit_wakes_waiter [OF sample_family_reach, of 3 1 0]
  by (auto simp: sample_family_def parent_asleep_def child_proc_def idle_proc_def)

text \<open>
  C33: creating a process takes one identifier in its container and in every ancestor up to the root, and
  records the process there under that identifier; the new process gets the identifier of its own
  container, no other container changes, and a free slot of the table is turned into an embryo.
\<close>

theorem alloc_pcb_chain:
  assumes "chain cs root as" and "\<forall>a \<in> set as. pid_ready (cs a)" and "length as \<le> fuel"
    and "i < NPROC" and "p_state (c_ptable (cs (hd as)) ! i) = UNUSED" and "length (c_ptable (cs (hd as))) = NPROC"
  shows "\<exists>k cs'. alloc_pcb_simple fuel cpu root (hd as) cs = Inr (Some (hd as, k), cs') \<and> k \<le> i
    \<and> p_state (c_ptable (cs (hd as)) ! k) = UNUSED \<and> p_state (proc_at cs' (hd as, k)) = EMBRYO
    \<and> p_pid (proc_at cs' (hd as, k)) = c_pid (cs (hd as)) + 1
    \<and> (\<forall>a. (a \<in> set as \<longrightarrow> c_pid (cs' a) = c_pid (cs a) + 1 \<and> \<not> locked (c_lock (cs' a))
              \<and> c_pmap (cs' a) ! nat (c_pid (cs' a)) = \<lparr>pm_valid = True, pid_local = c_pid (cs' a), pm_proc = Some (hd as, k)\<rparr>)
         \<and> (a \<notin> set as \<longrightarrow> cs' a = cs a))"
proof -
  let ?t = "c_ptable (cs (hd as))"
  have "find_from (\<lambda>k. p_state (?t ! k) = UNUSED) 0 NPROC \<noteq> None" using assms(4,5) by (auto simp: find_from_None)
  then obtain k where k: "find_from (\<lambda>k. p_state (?t ! k) = UNUSED) 0 NPROC = Some k" by blast
  then have kk: "k < NPROC" "p_state (?t ! k) = UNUSED" "k \<le> i" using assms(4,5) by (auto simp: find_from_Some not_le [symmetric])
  obtain cs1 where cs1: "alloc_resource fuel cpu root (hd as) (hd as, k) PID cs = Inr (True, cs1)"
    "\<And>a. cs1 a = (if a \<in> set as then with_pid (hd as, k) (cs a) else cs a)"
    using alloc_resource_chain [OF assms(1) _ assms(3), of cpu "(hd as, k)"] assms(2) by blast
  have ne: "as \<noteq> []" using assms(1) by auto
  then have h: "cs1 (hd as) = with_pid (hd as, k) (cs (hd as))" by (simp add: cs1(2))
  have "nat (c_pid (cs a) + 1) < length (c_pmap (cs a))" if "a \<in> set as" for a
    using assms(2) that by (auto simp: pid_ready_def nat_less_iff)
  then show ?thesis
    using k kk cs1(1) ne assms(6)
    by (intro exI [of _ k] exI [of _ "upd_proc (hd as, k) (\<lambda>p. p\<lparr>p_pid := c_pid (cs1 (hd as)), p_state := EMBRYO\<rparr>) cs1"])
      (auto simp: alloc_pcb_simple_def upd_proc_def proc_at_def cs1(2) with_pid_def)
qed

definition sample_container :: container where
  "sample_container = \<lparr>c_proc = None, c_ptable = replicate 14 (idle_proc UNUSED), c_pid = 5, c_lock = init_spinlock, c_parent = 0x1000,
     c_pmap = replicate 64 \<lparr>pm_valid = False, pid_local = 0, pm_proc = None\<rparr>\<rparr>"

theorem alloc_pcb_chain_witness:
  "\<exists>k cs'. alloc_pcb_simple 2 0 0x1000 0x2000 (\<lambda>_. sample_container) = Inr (Some (0x2000, k), cs')
     \<and> p_pid (proc_at cs' (0x2000, k)) = 6 \<and> c_pid (cs' 0x1000) = 6"
  using alloc_pcb_chain [of "\<lambda>_. sample_container" "0x1000" "[0x2000, 0x1000]" 2 3 0]
  by (auto simp: sample_container_def pid_ready_def init_spinlock_def NPROC_def idle_proc_def)

text \<open>
  C34: identifiers are never given back, and the table \<^verbatim>\<open>pmap\<close> has no entry for the last one: the 64th process
  ever created in a container writes outside the table.  At the limit itself the function returns with the lock of the container
  taken, so the next creation never gets it.
\<close>

theorem pid_table_overflow:
  assumes "\<not> locked (c_lock (cs a))" and "length (c_pmap (cs a)) = 64"
  shows "(c_pid (cs a) = 63 \<longrightarrow> take_pid cpu a p cs = Inl OutOfBounds)
    \<and> (c_pid (cs a) = 64 \<longrightarrow> (\<exists>cs'. take_pid cpu a p cs = Inr (False, cs') \<and> locked (c_lock (cs' a))
        \<and> take_pid cpu a q cs' = Inl (Panic ''acquire: lock already held'')
        \<and> (cpu' \<noteq> cpu \<longrightarrow> take_pid cpu' a q cs' = Inl Blocked)))"
  using assms by (simp add: take_pid_def acquire_spinlock_def holding_spinlock_def try_acquire_spinlock_def NPID_def Let_def)

theorem pid_table_overflow_witness:
  "take_pid 0 0x1000 (0x1000, 3) (\<lambda>_. sample_container\<lparr>c_pid := 63\<rparr>) = Inl OutOfBounds"
  using pid_table_overflow [of "\<lambda>_. sample_container\<lparr>c_pid := 63\<rparr>" "0x1000" 0 "(0x1000, 3)"]
  by (simp add: sample_container_def init_spinlock_def)

end
