(* ===== verification/Syscall.thy ===== *)
theory Syscall
  imports File_Table Scheduler Virtual_Memory
begin

text \<open>
  System call arguments, \<^verbatim>\<open>core/syscall.c\<close>, and the file system calls, \<^verbatim>\<open>core/sysfile.c\<close>, for the running process: its
  registers, descriptors and memory, and the file system below.  The current directory of the process is
  that of the inode tree.  What the calls take from the C library (flags, the layout of \<^verbatim>\<open>struct stat\<close>) is an argument.
\<close>

section \<open>State\<close>

record usys =
  u_fs :: fsys
  u_proc :: proc
  u_mem :: "u64 \<Rightarrow> u8"

record libc =
  S_IFREG :: u32
  S_IFDIR :: u32
  O_CREAT :: u32
  O_WRONLY :: u32
  O_RDWR :: u32
  AT_FDCWD :: u32
  sizeof_stat :: u64
  put_stat :: "stat \<Rightarrow> u64 \<Rightarrow> (u64 \<Rightarrow> u8) \<Rightarrow> (u64 \<Rightarrow> u8)"

section \<open>Arguments\<close>

text \<open>The sums wrap around.\<close>

definition in_user :: "proc \<Rightarrow> u64 \<Rightarrow> u64 \<Rightarrow> bool" where
  "in_user p s n \<longleftrightarrow> (p_base p \<le> s \<and> s + n \<le> p_sz p) \<or> (USPACE_TOP - p_stksz p \<le> s \<and> s + n \<le> USPACE_TOP)"

definition find_nul :: "(u64 \<Rightarrow> u8) \<Rightarrow> u64 \<Rightarrow> u64 \<Rightarrow> nat option" where
  "find_nul m addr stop = map_option (\<lambda>k. k - unat addr) (find_from (\<lambda>k. m (of_nat k) = 0) (unat addr) (unat stop))"

text \<open>The distance to the terminator, if there is one before the end of the region.\<close>

definition user_str :: "u64 \<Rightarrow> usys \<Rightarrow> nat option" where
  "user_str addr u =
     (let p = u_proc u
      in if p_base p \<le> addr \<and> addr < p_sz p then find_nul (u_mem u) addr (p_sz p)
         else if USPACE_TOP - p_stksz p \<le> addr \<and> addr < USPACE_TOP then find_nul (u_mem u) addr USPACE_TOP
         else None)"

text \<open>The length as an \<^verbatim>\<open>int\<close>, or -1.\<close>

definition fetchstr :: "u64 \<Rightarrow> usys \<Rightarrow> u32" where
  "fetchstr addr u = (case user_str addr u of Some n \<Rightarrow> of_nat n | None \<Rightarrow> - 1)"

definition argu64 :: "nat \<Rightarrow> usys \<Rightarrow> u64 option" where
  "argu64 n u = (if n > 5 then None else Some (tf_x (p_tf (u_proc u)) ! n))"

definition argint :: "nat \<Rightarrow> usys \<Rightarrow> u32 option" where
  "argint n u = (if n > 5 then None else Some (ucast (tf_x (p_tf (u_proc u)) ! n)))"

definition argptr :: "nat \<Rightarrow> u64 \<Rightarrow> usys \<Rightarrow> u64 option" where
  "argptr n sz u =
     (case argu64 n u of
        None \<Rightarrow> None
      | Some i \<Rightarrow> if in_user (u_proc u) i sz then Some i else None)"

definition bytes_at :: "(u64 \<Rightarrow> u8) \<Rightarrow> u64 \<Rightarrow> nat \<Rightarrow> u8 list" where
  "bytes_at m a n = map (\<lambda>i. m (a + of_nat i)) [0 ..< n]"

text \<open>The characters of the string before its terminator.\<close>

definition argstr :: "nat \<Rightarrow> usys \<Rightarrow> u8 list option" where
  "argstr n u =
     (case argu64 n u of
        None \<Rightarrow> None
      | Some addr \<Rightarrow> if sint (fetchstr addr u) < 0 then None
                      else Some (bytes_at (u_mem u) addr (the (user_str addr u))))"

section \<open>Descriptors\<close>

definition argfd :: "nat \<Rightarrow> usys \<Rightarrow> (nat \<times> ptr) option" where
  "argfd n u =
     (case argint n u of
        None \<Rightarrow> None
      | Some fd \<Rightarrow> if sint fd < 0 \<or> sint fd \<ge> int NOFILE \<or> p_ofile (u_proc u) ! unat fd = NULL then None
                   else Some (unat fd, p_ofile (u_proc u) ! unat fd))"

definition set_ofile :: "nat \<Rightarrow> ptr \<Rightarrow> usys \<Rightarrow> usys" where
  "set_ofile i f u = u\<lparr>u_proc := (u_proc u)\<lparr>p_ofile := (p_ofile (u_proc u))[i := f]\<rparr>\<rparr>"

definition fdalloc :: "ptr \<Rightarrow> usys \<Rightarrow> nat option \<times> usys" where
  "fdalloc f u =
     (case find_from (\<lambda>i. p_ofile (u_proc u) ! i = NULL) 0 NOFILE of
        Some i \<Rightarrow> (Some i, set_ofile i f u)
      | None \<Rightarrow> (None, u))"

definition on_fs :: "(fsys \<Rightarrow> ('a \<times> fsys) res) \<Rightarrow> usys \<Rightarrow> ('a \<times> usys) res" where
  "on_fs m u = bindE (m (u_fs u)) (\<lambda>(r, s). Inr (r, u\<lparr>u_fs := s\<rparr>))"

definition on_fs' :: "(fsys \<Rightarrow> fsys res) \<Rightarrow> usys \<Rightarrow> usys res" where
  "on_fs' m u = bindE (m (u_fs u)) (\<lambda>s. Inr (u\<lparr>u_fs := s\<rparr>))"

definition kprintf :: "string \<Rightarrow> va list \<Rightarrow> usys \<Rightarrow> usys res" where
  "kprintf fmt args =
     on_fs' (\<lambda>s. bindE (vprintf fmt args (it_console (fs_tree s))) (\<lambda>c. Inr (s\<lparr>fs_tree := (fs_tree s)\<lparr>it_console := c\<rparr>\<rparr>)))"

definition store_mem :: "u64 \<Rightarrow> u8 list \<Rightarrow> usys \<Rightarrow> usys" where
  "store_mem a xs u = u\<lparr>u_mem := (\<lambda>b. let i = unat (b - a) in if i < length xs then xs ! i else u_mem u b)\<rparr>"

section \<open>Calls on descriptors\<close>

definition sys_dup :: "usys \<Rightarrow> (u32 \<times> usys) res" where
  "sys_dup u =
     (case argfd 0 u of
        None \<Rightarrow> Inr (- 1, u)
      | Some (_, f) \<Rightarrow>
          let (fd, u) = fdalloc f u
          in case fd of
               None \<Rightarrow> Inr (- 1, u)
             | Some fd \<Rightarrow> bindE (on_fs' (filedup f) u) (\<lambda>u. Inr (of_nat fd, u)))"

definition sys_read :: "usys \<Rightarrow> (u64 \<times> usys) res" where
  "sys_read u =
     (case argfd 0 u of None \<Rightarrow> Inr (- 1, u) | Some (_, f) \<Rightarrow>
      case argint 2 u of None \<Rightarrow> Inr (- 1, u) | Some n \<Rightarrow>
      case argptr 1 (scast n) u of None \<Rightarrow> Inr (- 1, u) | Some addr \<Rightarrow>
      bindE (on_fs (fileread f (scast n)) u) (\<lambda>((r, bytes), u). Inr (r, store_mem addr bytes u)))"

definition sys_write :: "usys \<Rightarrow> (u64 \<times> usys) res" where
  "sys_write u =
     (case argfd 0 u of None \<Rightarrow> Inr (- 1, u) | Some (_, f) \<Rightarrow>
      case argint 2 u of None \<Rightarrow> Inr (- 1, u) | Some n \<Rightarrow>
      case argptr 1 (scast n) u of None \<Rightarrow> Inr (- 1, u) | Some addr \<Rightarrow>
      on_fs (filewrite f (scast n) (bytes_at (u_mem u) addr (nat (sint n)))) u)"

definition load_u64 :: "(u64 \<Rightarrow> u8) \<Rightarrow> u64 \<Rightarrow> u64" where
  "load_u64 m a = le_word (bytes_at m a 8)"

fun writev_loop :: "ptr \<Rightarrow> u64 \<Rightarrow> nat \<Rightarrow> u64 \<Rightarrow> usys \<Rightarrow> (u64 \<times> usys) res" where
  "writev_loop f iov 0 tot u = Inr (tot, u)"
| "writev_loop f iov (Suc n) tot u =
     (let base = load_u64 (u_mem u) iov; len = load_u64 (u_mem u) (iov + 8)
      in bindE (on_fs (filewrite f len (bytes_at (u_mem u) base (nat (sint len)))) u) (\<lambda>(r, u).
         writev_loop f (iov + 16) n (tot + r) u))"

definition sys_writev :: "usys \<Rightarrow> (u64 \<times> usys) res" where
  "sys_writev u =
     (case argfd 0 u of None \<Rightarrow> Inr (- 1, u) | Some (_, f) \<Rightarrow>
      case argint 2 u of None \<Rightarrow> Inr (- 1, u) | Some iovcnt \<Rightarrow>
      case argptr 1 (scast iovcnt * 16) u of None \<Rightarrow> Inr (- 1, u) | Some iov \<Rightarrow>
      writev_loop f iov (nat (sint iovcnt)) 0 u)"

definition sys_close :: "usys \<Rightarrow> (u32 \<times> usys) res" where
  "sys_close u =
     (case argfd 0 u of
        None \<Rightarrow> Inr (- 1, u)
      | Some (fd, f) \<Rightarrow> bindE (on_fs' (fileclose f) (set_ofile fd NULL u)) (\<lambda>u. Inr (0, u)))"

definition sys_fstat :: "libc \<Rightarrow> usys \<Rightarrow> (u32 \<times> usys) res" where
  "sys_fstat c u =
     (case argfd 0 u of None \<Rightarrow> Inr (- 1, u) | Some (_, f) \<Rightarrow>
      case argptr 1 (sizeof_stat c) u of None \<Rightarrow> Inr (- 1, u) | Some st \<Rightarrow>
      bindE (on_fs (filestat (S_IFREG c) (S_IFDIR c) f) u) (\<lambda>(r, u).
      case r of
        None \<Rightarrow> Inr (- 1, u)
      | Some x \<Rightarrow> Inr (0, u\<lparr>u_mem := put_stat c x st (u_mem u)\<rparr>)))"

section \<open>Calls on paths\<close>

text \<open>
  The calls below begin an atomic operation, end it on every way out and return; \<open>in_op\<close> runs what lies between on the inode tree.
\<close>

definition in_op :: "(itree \<Rightarrow> ('a \<times> itree) res) \<Rightarrow> usys \<Rightarrow> ('a \<times> usys) res" where
  "in_op body = on_fs (on_tree (with_op body))"

definition sys_fstatat :: "libc \<Rightarrow> usys \<Rightarrow> (u32 \<times> usys) res" where
  "sys_fstatat c u =
     (case argint 0 u of None \<Rightarrow> Inr (- 1, u) | Some dirfd \<Rightarrow>
      case argstr 1 u of None \<Rightarrow> Inr (- 1, u) | Some path \<Rightarrow>
      case argptr 2 (sizeof_stat c) u of None \<Rightarrow> Inr (- 1, u) | Some st \<Rightarrow>
      case argint 3 u of None \<Rightarrow> Inr (- 1, u) | Some flags \<Rightarrow>
      if dirfd \<noteq> AT_FDCWD c
      then bindE (kprintf (''sys_fstatat: dirfd unimplemented'' @ [CHR 0x0A]) [] u) (\<lambda>u. Inr (- 1, u))
      else if flags \<noteq> 0
      then bindE (kprintf (''sys_fstatat: flags unimplemented'' @ [CHR 0x0A]) [] u) (\<lambda>u. Inr (- 1, u))
      else bindE (in_op (\<lambda>t.
             bindE (namei path t) (\<lambda>(ip, t).
             if ip = NULL then Inr (None, t)
             else bindE (inode_lock ip t) (\<lambda>t.
                  bindE (stati (S_IFREG c) (S_IFDIR c) (it_inode t ip)) (\<lambda>x.
                  bindE (inode_unlock ip t) (\<lambda>t.
                  bindE (inode_put ip t) (\<lambda>t. Inr (Some x, t))))))) u) (\<lambda>(r, u).
           case r of
             None \<Rightarrow> Inr (- 1, u)
           | Some x \<Rightarrow> Inr (0, u\<lparr>u_mem := put_stat c x st (u_mem u)\<rparr>)))"

text \<open>
  \<^verbatim>\<open>create\<close> inside an operation.  The inode it returns is locked.  \<open>DOT\<close> and \<open>DOTDOT\<close> are the names of the entries of a new directory.
\<close>

definition DOT :: "u8 list" where
  "DOT = [46]"

definition DOTDOT :: "u8 list" where
  "DOTDOT = [46, 46]"

definition create_existing :: "u16 \<Rightarrow> ptr \<Rightarrow> u8 list \<Rightarrow> itree \<Rightarrow> (ptr \<times> itree) res" where
  "create_existing type dp name t =
     bindE (inode_lookup dp name t) (\<lambda>((no, _), t).
     bindE (inode_get no t) (\<lambda>(ip, t).
     bindE (inode_unlock dp t) (\<lambda>t.
     bindE (inode_put dp t) (\<lambda>t.
     bindE (inode_lock ip t) (\<lambda>t.
     if type = INODE_REGULAR \<and> e_type (entry t ip) = INODE_REGULAR then Inr (ip, t)
     else bindE (inode_unlock ip t) (\<lambda>t.
          bindE (inode_put ip t) (\<lambda>t. Inr (NULL, t))))))))"

definition create_new :: "u16 \<Rightarrow> u16 \<Rightarrow> u16 \<Rightarrow> ptr \<Rightarrow> u8 list \<Rightarrow> itree \<Rightarrow> (ptr \<times> itree) res" where
  "create_new type maj mnr dp name t =
     bindE (inode_alloc type t) (\<lambda>(no, t).
     bindE (inode_get no t) (\<lambda>(ip, t).
     if ip = NULL then Inl (Panic ''create: inodes.alloc'')
     else bindE (inode_lock ip t) (\<lambda>t.
          bindE (inode_sync ip True (set_entry ip (\<lambda>e. e\<lparr>major := maj, minor := mnr, num_links := 1\<rparr>) t)) (\<lambda>t.
          bindE (if type = INODE_DIRECTORY
                 then bindE (inode_sync dp False (set_entry dp (\<lambda>e. e\<lparr>num_links := num_links e + 1\<rparr>) t)) (\<lambda>t.
                      bindE (inode_insert ip DOT (i_no (it_inode t ip)) t) (\<lambda>(_, t).
                      bindE (inode_insert ip DOTDOT (i_no (it_inode t dp)) t) (\<lambda>(_, t). Inr t)))
                 else Inr t) (\<lambda>t.
          bindE (inode_insert dp name (i_no (it_inode t ip)) t) (\<lambda>(_, t).
          bindE (inode_unlock dp t) (\<lambda>t.
          bindE (inode_put dp t) (\<lambda>t. Inr (ip, t)))))))))"

definition create :: "u8 list \<Rightarrow> u16 \<Rightarrow> u16 \<Rightarrow> u16 \<Rightarrow> itree \<Rightarrow> (ptr \<times> itree) res" where
  "create path type maj mnr t =
     bindE (nameiparent path t) (\<lambda>((dp, name), t).
     if dp = NULL then Inr (NULL, t)
     else bindE (inode_lock dp t) (\<lambda>t.
          bindE (inode_lookup dp name t) (\<lambda>((no, _), t).
          if no \<noteq> 0 then create_existing type dp name t else create_new type maj mnr dp name t)))"

text \<open>\<^verbatim>\<open>sys_openat\<close>: the file structure is filled in after the operation has ended.\<close>

definition open_inode :: "libc \<Rightarrow> u32 \<Rightarrow> u8 list \<Rightarrow> itree \<Rightarrow> (ptr \<times> itree) res" where
  "open_inode c omode path t =
     (if and omode (O_CREAT c) \<noteq> 0 then create path INODE_REGULAR 0 0 t
      else bindE (namei path t) (\<lambda>(ip, t).
           if ip = NULL then Inr (NULL, t)
           else bindE (inode_lock ip t) (\<lambda>t. Inr (ip, t))))"

definition open_fd :: "usys \<Rightarrow> ((nat \<times> ptr) option \<times> usys) res" where
  "open_fd u =
     (let (f, s) = filealloc (u_fs u); u = u\<lparr>u_fs := s\<rparr>
      in if f = NULL then Inr (None, u)
         else let (fd, u) = fdalloc f u
              in case fd of
                   Some fd \<Rightarrow> Inr (Some (fd, f), u)
                 | None \<Rightarrow> bindE (on_fs' (fileclose f) u) (\<lambda>u. Inr (None, u)))"

definition lift_tree :: "(itree \<Rightarrow> itree res) \<Rightarrow> usys \<Rightarrow> usys res" where
  "lift_tree m = on_fs' (\<lambda>s. bindE (m (fs_tree s)) (\<lambda>t. Inr (s\<lparr>fs_tree := t\<rparr>)))"

definition sys_openat :: "libc \<Rightarrow> usys \<Rightarrow> (u32 \<times> usys) res" where
  "sys_openat c u =
     (case argint 0 u of None \<Rightarrow> Inr (- 1, u) | Some dirfd \<Rightarrow>
      case argstr 1 u of None \<Rightarrow> Inr (- 1, u) | Some path \<Rightarrow>
      case argint 2 u of None \<Rightarrow> Inr (- 1, u) | Some omode \<Rightarrow>
      if dirfd \<noteq> AT_FDCWD c
      then bindE (kprintf (''sys_openat: dirfd unimplemented'' @ [CHR 0x0A]) [] u) (\<lambda>u. Inr (- 1, u))
      else bindE (lift_tree tree_begin_op u) (\<lambda>u.
           bindE (on_fs (on_tree (open_inode c omode path)) u) (\<lambda>(ip, u).
           if ip = NULL then bindE (lift_tree tree_end_op u) (\<lambda>u. Inr (- 1, u))
           else bindE (open_fd u) (\<lambda>(r, u).
                case r of
                  None \<Rightarrow>
                    bindE (lift_tree (inode_unlock ip) u) (\<lambda>u.
                    bindE (lift_tree (inode_put ip) u) (\<lambda>u.
                    bindE (lift_tree tree_end_op u) (\<lambda>u. Inr (- 1, u))))
                | Some (fd, f) \<Rightarrow>
                    bindE (lift_tree (inode_unlock ip) u) (\<lambda>u.
                    bindE (lift_tree tree_end_op u) (\<lambda>u.
                    Inr (of_nat fd, u\<lparr>u_fs := upd_file f (\<lambda>x. x\<lparr>f_type := FD_INODE, f_ip := ip, f_off := 0,
                        f_readable := (if and omode (O_WRONLY c) = 0 then 1 else 0),
                        f_writable := (if and omode (O_WRONLY c) \<noteq> 0 \<or> and omode (O_RDWR c) \<noteq> 0 then 1 else 0)\<rparr>) (u_fs u)\<rparr>)))))))"

definition create_and_put :: "u8 list \<Rightarrow> u16 \<Rightarrow> u16 \<Rightarrow> u16 \<Rightarrow> itree \<Rightarrow> (bool \<times> itree) res" where
  "create_and_put path type maj mnr t =
     bindE (create path type maj mnr t) (\<lambda>(ip, t).
     if ip = NULL then Inr (False, t)
     else bindE (inode_unlock ip t) (\<lambda>t.
          bindE (inode_put ip t) (\<lambda>t. Inr (True, t))))"

definition sys_mkdirat :: "libc \<Rightarrow> usys \<Rightarrow> (u32 \<times> usys) res" where
  "sys_mkdirat c u =
     (case argint 0 u of None \<Rightarrow> Inr (- 1, u) | Some dirfd \<Rightarrow>
      case argstr 1 u of None \<Rightarrow> Inr (- 1, u) | Some path \<Rightarrow>
      case argint 2 u of None \<Rightarrow> Inr (- 1, u) | Some mode \<Rightarrow>
      if dirfd \<noteq> AT_FDCWD c
      then bindE (kprintf (''sys_mkdirat: dirfd unimplemented'' @ [CHR 0x0A]) [] u) (\<lambda>u. Inr (- 1, u))
      else if mode \<noteq> 0
      then bindE (kprintf (''sys_mkdirat: mode unimplemented'' @ [CHR 0x0A]) [] u) (\<lambda>u. Inr (- 1, u))
      else bindE (in_op (create_and_put path INODE_DIRECTORY 0 0) u) (\<lambda>(ok, u). Inr (if ok then 0 else - 1, u)))"

definition text_of :: "u8 list \<Rightarrow> string" where
  "text_of path = map (\<lambda>b. char_of (unat b)) path"

definition sys_mknodat :: "libc \<Rightarrow> usys \<Rightarrow> (u32 \<times> usys) res" where
  "sys_mknodat c u =
     (case argint 0 u of None \<Rightarrow> Inr (- 1, u) | Some dirfd \<Rightarrow>
      case argstr 1 u of None \<Rightarrow> Inr (- 1, u) | Some path \<Rightarrow>
      case argint 2 u of None \<Rightarrow> Inr (- 1, u) | Some maj \<Rightarrow>
      case argint 3 u of None \<Rightarrow> Inr (- 1, u) | Some mnr \<Rightarrow>
      if dirfd \<noteq> AT_FDCWD c
      then bindE (kprintf (''sys_mknodat: dirfd unimplemented'' @ [CHR 0x0A]) [] u) (\<lambda>u. Inr (- 1, u))
      else bindE (kprintf (''mknodat: path '' @ [CHR 0x27] @ ''%s'' @ [CHR 0x27] @ '', major:minor %d:%d'' @ [CHR 0x0A])
             [VStr (Some (text_of path)), VInt (scast maj), VInt (scast mnr)] u) (\<lambda>u.
           bindE (in_op (create_and_put path INODE_DEVICE (ucast maj) (ucast mnr)) u) (\<lambda>(ok, u). Inr (if ok then 0 else - 1, u))))"

definition sys_chdir :: "usys \<Rightarrow> (u32 \<times> usys) res" where
  "sys_chdir u =
     bindE (in_op (\<lambda>t.
       case argstr 0 u of
         None \<Rightarrow> Inr (None, t)
       | Some path \<Rightarrow>
           bindE (namei path t) (\<lambda>(ip, t).
           if ip = NULL then Inr (None, t)
           else bindE (inode_lock ip t) (\<lambda>t.
                if e_type (entry t ip) \<noteq> INODE_DIRECTORY
                then bindE (inode_unlock ip t) (\<lambda>t. bindE (inode_put ip t) (\<lambda>t. Inr (None, t)))
                else bindE (inode_unlock ip t) (\<lambda>t. bindE (inode_put (it_cwd t) t) (\<lambda>t. Inr (Some ip, t)))))) u) (\<lambda>(r, u).
     case r of
       None \<Rightarrow> Inr (- 1, u)
     | Some ip \<Rightarrow> bindE (lift_tree (\<lambda>t. Inr (t\<lparr>it_cwd := ip\<rparr>)) u) (\<lambda>u. Inr (0, u)))"

section \<open>The table of system calls\<close>

text \<open>
  \<^verbatim>\<open>syscall_table\<close> names a function for each number; the numbers come from the C library, in the
  order of \<open>sys_numbers\<close>.  An initialiser further down the table overrides an earlier one.  \<open>Local\<close> calls need the running
  process and the file system only.
\<close>

datatype local_call = Default | Gettid | Ioctl | Sigprocmask | Dup | Chdir | Fstat | Fstatat | Mkdirat | Mknodat | Openat
  | Writev | Read | Write | Close

datatype syscall = Local local_call | Brk | Execve | Yield | Clone | Wait4 | Exit

definition NR_SYSCALL :: nat where
  "NR_SYSCALL = 512"

record sys_numbers =
  SYS_set_tid_address :: nat
  SYS_ioctl :: nat
  SYS_gettid :: nat
  SYS_rt_sigprocmask :: nat
  SYS_brk :: nat
  SYS_execve :: nat
  SYS_sched_yield :: nat
  SYS_clone :: nat
  SYS_wait4 :: nat
  SYS_exit_group :: nat
  SYS_exit :: nat
  SYS_dup :: nat
  SYS_chdir :: nat
  SYS_fstat :: nat
  SYS_newfstatat :: nat
  SYS_mkdirat :: nat
  SYS_mknodat :: nat
  SYS_openat :: nat
  SYS_writev :: nat
  SYS_read :: nat
  SYS_write :: nat
  SYS_close :: nat

definition SYS_myyield :: nat where
  "SYS_myyield = 459"

definition table_entries :: "sys_numbers \<Rightarrow> (nat \<times> syscall) list" where
  "table_entries n =
     [(SYS_set_tid_address n, Local Gettid), (SYS_ioctl n, Local Ioctl), (SYS_gettid n, Local Gettid),
      (SYS_rt_sigprocmask n, Local Sigprocmask), (SYS_brk n, Brk), (SYS_execve n, Execve), (SYS_sched_yield n, Yield),
      (SYS_clone n, Clone), (SYS_wait4 n, Wait4), (SYS_exit_group n, Exit), (SYS_exit n, Exit), (SYS_dup n, Local Dup),
      (SYS_chdir n, Local Chdir), (SYS_fstat n, Local Fstat), (SYS_newfstatat n, Local Fstatat), (SYS_mkdirat n, Local Mkdirat),
      (SYS_mknodat n, Local Mknodat), (SYS_openat n, Local Openat), (SYS_writev n, Local Writev), (SYS_read n, Local Read),
      (SYS_write n, Local Write), (SYS_close n, Local Close), (SYS_myyield, Yield)]"

definition syscall_table :: "sys_numbers \<Rightarrow> syscall list" where
  "syscall_table n = fold (\<lambda>(i, f) t. t[i := f]) (table_entries n) (replicate NR_SYSCALL (Local Default))"

definition sys_gettid :: "usys \<Rightarrow> (u32 \<times> usys) res" where
  "sys_gettid u = Inr (of_int (p_pid (u_proc u)), u)"

definition sys_ioctl :: "usys \<Rightarrow> (u32 \<times> usys) res" where
  "sys_ioctl u = (if tf_x (p_tf (u_proc u)) ! 1 = 0x5413 then Inr (0, u) else Inl (Panic (''toctl unimplemented'' @ [CHR 0x0A])))"

definition sys_sigprocmask :: "usys \<Rightarrow> (u32 \<times> usys) res" where
  "sys_sigprocmask u = Inr (0, u)"

definition sys_default :: "usys \<Rightarrow> (u32 \<times> usys) res" where
  "sys_default u =
     bindE (kprintf (''Unexpected syscall #%d'' @ [CHR 0x0A]) [VInt (tf_x (p_tf (u_proc u)) ! 8)] u) (\<lambda>u. Inr (0, u))"

text \<open>The functions of type \<^verbatim>\<open>isize\<close> are called through a pointer to a function of type \<^verbatim>\<open>int\<close>.\<close>

definition as_int :: "(u64 \<times> usys) res \<Rightarrow> (u32 \<times> usys) res" where
  "as_int m = bindE m (\<lambda>(r, u). Inr (ucast r, u))"

fun do_local :: "libc \<Rightarrow> local_call \<Rightarrow> usys \<Rightarrow> (u32 \<times> usys) res" where
  "do_local c Default u = sys_default u"
| "do_local c Gettid u = sys_gettid u"
| "do_local c Ioctl u = sys_ioctl u"
| "do_local c Sigprocmask u = sys_sigprocmask u"
| "do_local c Dup u = sys_dup u"
| "do_local c Chdir u = sys_chdir u"
| "do_local c Fstat u = sys_fstat c u"
| "do_local c Fstatat u = sys_fstatat c u"
| "do_local c Mkdirat u = sys_mkdirat c u"
| "do_local c Mknodat u = sys_mknodat c u"
| "do_local c Openat u = sys_openat c u"
| "do_local c Writev u = as_int (sys_writev u)"
| "do_local c Read u = as_int (sys_read u)"
| "do_local c Write u = as_int (sys_write u)"
| "do_local c Close u = sys_close u"

text \<open>
  \<^verbatim>\<open>syscall_dispatch\<close>.  The number is not compared with the size of the table, so a number outside of it is an error.  The calls that
  need more than the running process and its files are those of the theory of processes; here they are the argument \<open>other\<close>.
\<close>

definition set_x0 :: "u64 \<Rightarrow> usys \<Rightarrow> usys" where
  "set_x0 v u = u\<lparr>u_proc := (u_proc u)\<lparr>p_tf := (p_tf (u_proc u))\<lparr>tf_x := (tf_x (p_tf (u_proc u)))[0 := v]\<rparr>\<rparr>\<rparr>"

definition syscall_dispatch :: "libc \<Rightarrow> sys_numbers \<Rightarrow> (syscall \<Rightarrow> usys \<Rightarrow> (u32 \<times> usys) res) \<Rightarrow> usys \<Rightarrow> (u64 \<times> usys) res" where
  "syscall_dispatch c n other u =
     (let sysno = sint (ucast (tf_x (p_tf (u_proc u)) ! 8) :: u32)
      in if sysno < 0 \<or> int NR_SYSCALL \<le> sysno then Inl OutOfBounds
         else bindE (case syscall_table n ! nat sysno of Local call \<Rightarrow> do_local c call u | call \<Rightarrow> other call u) (\<lambda>(r, u).
              let v = scast r in Inr (v, set_x0 v u)))"

section \<open>Descriptors and reference counts\<close>

definition fd_ok :: "(ptr \<Rightarrow> nat) \<Rightarrow> usys \<Rightarrow> bool" where
  "fd_ok others u \<longleftrightarrow> table_ok (u_fs u) \<and> balanced (refs (u_fs u)) (files (u_fs u)) (p_ofile (u_proc u)) others"

definition set_arg :: "nat \<Rightarrow> u64 \<Rightarrow> usys \<Rightarrow> usys" where
  "set_arg n v u = u\<lparr>u_proc := (u_proc u)\<lparr>p_tf := (p_tf (u_proc u))\<lparr>tf_x := (tf_x (p_tf (u_proc u)))[n := v]\<rparr>\<rparr>\<rparr>"

text \<open>What most calls keep: the descriptors and the reference counts.\<close>

definition same_refs :: "fsys \<Rightarrow> fsys \<Rightarrow> bool" where
  "same_refs s s' \<longleftrightarrow> ft_base s' = ft_base s \<and> (\<forall>f. f_ref (ft_file s' f) = f_ref (ft_file s f))"

definition same_fds :: "usys \<Rightarrow> usys \<Rightarrow> bool" where
  "same_fds u u' \<longleftrightarrow> p_ofile (u_proc u') = p_ofile (u_proc u) \<and> same_refs (u_fs u) (u_fs u')"

named_theorems same_intros

lemma same_refs_refl [same_intros]: "same_refs s s"
  by (simp add: same_refs_def)

lemma same_refs_trans: "same_refs s t \<Longrightarrow> same_refs t v \<Longrightarrow> same_refs s v"
  by (simp add: same_refs_def)

lemma same_fds_refl [simp, same_intros]: "same_fds u u"
  by (simp add: same_fds_def same_refs_refl)

lemma same_fds_trans: "same_fds u v \<Longrightarrow> same_fds v w \<Longrightarrow> same_fds u w"
  by (auto simp: same_fds_def intro: same_refs_trans)

lemma same_refs_tree: "same_refs s (s\<lparr>fs_tree := t\<rparr>)"
  by (simp add: same_refs_def)

lemma fd_ok_same: "same_fds u u' \<Longrightarrow> fd_ok others u \<Longrightarrow> fd_ok others u'"
  by (auto simp: fd_ok_def same_fds_def same_refs_def table_ok_def files_def refs_def balanced_def)

lemma same_on_fs: "on_fs m u = Inr (r, u') \<Longrightarrow> (\<And>s r s'. m s = Inr (r, s') \<Longrightarrow> same_refs s s') \<Longrightarrow> same_fds u u'"
  by (auto simp: on_fs_def bindE_eq_Inr same_fds_def)

lemma same_on_fs': "on_fs' m u = Inr u' \<Longrightarrow> (\<And>s s'. m s = Inr s' \<Longrightarrow> same_refs s s') \<Longrightarrow> same_fds u u'"
  by (auto simp: on_fs'_def bindE_eq_Inr same_fds_def)

lemma same_on_tree: "on_tree m s = Inr (r, s') \<Longrightarrow> same_refs s s'"
  by (auto simp: on_tree_def bindE_eq_Inr same_refs_tree)

lemma same_kprintf: "kprintf fmt args u = Inr u' \<Longrightarrow> same_fds u u'"
  unfolding kprintf_def by (erule same_on_fs') (auto simp: bindE_eq_Inr same_refs_tree)

lemma same_lift_tree: "lift_tree m u = Inr u' \<Longrightarrow> same_fds u u'"
  unfolding lift_tree_def by (erule same_on_fs') (auto simp: bindE_eq_Inr same_refs_tree)

lemma same_in_op: "in_op m u = Inr (r, u') \<Longrightarrow> same_fds u u'"
  unfolding in_op_def by (erule same_on_fs) (rule same_on_tree)

lemma same_mem [simp]: "same_fds u (v\<lparr>u_mem := m\<rparr>) = same_fds u v" "same_fds u (store_mem a xs v) = same_fds u v"
  by (simp_all add: same_fds_def store_mem_def same_refs_refl)

lemma same_fileread: "fileread f n s = Inr (r, s') \<Longrightarrow> same_refs s s'"
  by (auto simp: fileread_def Let_def bindE_eq_Inr same_refs_def [of s s'] dest!: same_on_tree [unfolded same_refs_def] split: if_splits)

lemma same_write_chunk: "write_chunk f src s = Inr (r, s') \<Longrightarrow> same_refs s s'"
  by (auto simp: write_chunk_def Let_def bindE_eq_Inr same_refs_def [of s s'] dest!: same_on_tree [unfolded same_refs_def])

lemma same_write_loop: "write_loop f src s = Inr (r, s') \<Longrightarrow> same_refs s s'"
proof (induction f src s rule: write_loop.induct)
  case (1 f src s)
  from "1.prems" show ?case
    by (subst (asm) write_loop.simps)
      (auto simp: Let_def bindE_eq_Inr intro: same_intros same_write_chunk same_refs_trans [OF same_write_chunk "1.IH"] split: if_splits)
qed

lemma same_filewrite: "filewrite f n src s = Inr (r, s') \<Longrightarrow> same_refs s s'"
  by (auto simp: filewrite_def Let_def bindE_eq_Inr intro: same_intros same_write_loop split: if_splits)

lemma same_writev_loop: "writev_loop f iov n tot u = Inr (r, u') \<Longrightarrow> same_fds u u'"
proof (induction f iov n tot u rule: writev_loop.induct)
  case (2 f iov n tot u)
  then show ?case
    by (auto simp: Let_def bindE_eq_Inr intro: same_fds_trans [OF same_on_fs [OF _ same_filewrite]])
qed (simp add: same_intros)

lemma same_filestat: "filestat a b f s = Inr (r, s') \<Longrightarrow> same_refs s s'"
  by (auto simp: filestat_def Let_def intro: same_intros same_on_tree split: if_splits)

lemma same_file_calls:
  "on_fs (fileread f n) u = Inr (r, u') \<Longrightarrow> same_fds u u'"
  "on_fs (filewrite f n src) u = Inr (q, u') \<Longrightarrow> same_fds u u'"
  "on_fs (filestat a b f) u = Inr (st, u') \<Longrightarrow> same_fds u u'"
  "on_fs (on_tree m) u = Inr (x, u') \<Longrightarrow> same_fds u u'"
  by (erule same_on_fs, erule same_fileread same_filewrite same_filestat same_on_tree)+

lemmas same_steps = same_intros same_kprintf same_lift_tree same_in_op same_writev_loop same_file_calls

lemma same_calls:
  "sys_default u = Inr (r, u') \<Longrightarrow> same_fds u u'"
  "sys_gettid u = Inr (r, u') \<Longrightarrow> same_fds u u'"
  "sys_ioctl u = Inr (r, u') \<Longrightarrow> same_fds u u'"
  "sys_sigprocmask u = Inr (r, u') \<Longrightarrow> same_fds u u'"
  "as_int (sys_read u) = Inr (r, u') \<Longrightarrow> same_fds u u'"
  "as_int (sys_write u) = Inr (r, u') \<Longrightarrow> same_fds u u'"
  "as_int (sys_writev u) = Inr (r, u') \<Longrightarrow> same_fds u u'"
  "sys_fstat c u = Inr (r, u') \<Longrightarrow> same_fds u u'"
  "sys_mkdirat c u = Inr (r, u') \<Longrightarrow> same_fds u u'"
  by (auto simp: sys_default_def sys_gettid_def sys_ioctl_def sys_sigprocmask_def as_int_def sys_read_def sys_write_def sys_writev_def
      sys_fstat_def sys_mkdirat_def bindE_eq_Inr split: option.splits if_splits
      dest!: same_file_calls(1-3) intro: same_steps)

lemma same_chdir: "sys_chdir u = Inr (r, u') \<Longrightarrow> same_fds u u'"
  unfolding sys_chdir_def bindE_eq_Inr
  by (fastforce split: option.splits simp: bindE_eq_Inr intro: same_in_op same_fds_trans [OF same_in_op same_lift_tree])

lemma same_fstatat: "sys_fstatat c u = Inr (r, u') \<Longrightarrow> same_fds u u'"
  by (fastforce simp: sys_fstatat_def bindE_eq_Inr split: option.splits if_splits
      intro: same_steps)

lemma same_mknodat: "sys_mknodat c u = Inr (r, u') \<Longrightarrow> same_fds u u'"
  by (fastforce simp: sys_mknodat_def bindE_eq_Inr split: option.splits if_splits
      intro: same_steps same_fds_trans [OF same_kprintf same_in_op])

lemma argfd_Some:
  assumes "argfd n u = Some (fd, f)"
  shows "fd < NOFILE \<and> f = p_ofile (u_proc u) ! fd \<and> f \<noteq> NULL"
proof -
  obtain w :: u32 where w: "0 \<le> sint w" "sint w < int NOFILE" "fd = unat w" "f = p_ofile (u_proc u) ! fd" "f \<noteq> NULL"
    using assms that by (auto simp: argfd_def not_less split: option.splits if_splits)
  then have "uint w < int NOFILE"
    using uint_lt2p [of w] by (auto simp: sint_u32 split: if_splits)
  with w show ?thesis
    by (metis of_nat_less_iff uint_nat)
qed

lemma fdalloc_Some: "fdalloc f u = (Some fd, u') \<Longrightarrow> fd < NOFILE \<and> p_ofile (u_proc u) ! fd = NULL \<and> u' = set_ofile fd f u"
  by (auto simp: fdalloc_def dest: find_from_Some [THEN iffD1] split: option.splits)

lemma fdalloc_None: "fdalloc f u = (None, u') \<Longrightarrow> u' = u"
  by (auto simp: fdalloc_def split: option.splits)

lemma set_ofile_simps [simp]:
  "p_ofile (u_proc (set_ofile i f u)) = (p_ofile (u_proc u))[i := f]" "u_fs (set_ofile i f u) = u_fs u"
  by (simp_all add: set_ofile_def)

lemma fd_ok_ofile: "fd_ok others u \<Longrightarrow> fd < NOFILE \<Longrightarrow> p_ofile (u_proc u) ! fd \<in> set (p_ofile (u_proc u))"
  by (simp add: fd_ok_def balanced_def)

lemma fd_ok_dup:
  assumes ok: "fd_ok others u" and "sys_dup u = Inr (r, u')"
  shows "fd_ok others u'"
proof (cases "argfd 0 u")
  case None
  with assms show ?thesis
    by (simp add: sys_dup_def)
next
  case (Some x)
  then obtain fd where f: "fd < NOFILE" "snd x = p_ofile (u_proc u) ! fd" "snd x \<noteq> NULL"
    using argfd_Some [of 0 u "fst x" "snd x"] by auto
  show ?thesis
  proof (cases "fdalloc (snd x) u")
    case (Pair k v)
    then show ?thesis
    proof (cases k)
      case None
      with Pair Some assms show ?thesis
        by (auto simp: sys_dup_def split_beta dest: fdalloc_None)
    next
      case (Some j)
      then have j: "j < NOFILE" "p_ofile (u_proc u) ! j = NULL" "v = set_ofile j (snd x) u"
        using Pair fdalloc_Some by auto
      have "snd x \<in> set (p_ofile (u_proc u))"
        using fd_ok_ofile [OF ok] f by simp
      from ft.dup_balanced [OF _ _ this f(3) j(1,2)] ok obtain s' where s': "filedup (snd x) (u_fs u) = Inr s'" "table_ok s'"
          "balanced (refs s') (files s') ((p_ofile (u_proc u))[j := snd x]) others"
        by (auto simp: fd_ok_def)
      then have "u' = v\<lparr>u_fs := s'\<rparr>"
        using assms(2) \<open>argfd 0 u = Some x\<close> Pair Some j(3) by (simp add: sys_dup_def split_beta on_fs'_def)
      with s' j(3) show ?thesis
        by (simp add: fd_ok_def)
    qed
  qed
qed

lemma fd_ok_close:
  assumes ok: "fd_ok others u" and "sys_close u = Inr (r, u')"
  shows "fd_ok others u'"
proof (cases "argfd 0 u")
  case (Some x)
  then have f: "fst x < NOFILE" "snd x = p_ofile (u_proc u) ! fst x" "snd x \<noteq> NULL"
    using argfd_Some [of 0 u "fst x" "snd x"] by auto
  obtain s' where s': "fileclose (snd x) (u_fs u) = Inr s'" "u' = (set_ofile (fst x) NULL u)\<lparr>u_fs := s'\<rparr>"
    using assms(2) Some by (auto simp: sys_close_def on_fs'_def bindE_eq_Inr split_beta)
  with ft.close_balanced [of "u_fs u" "p_ofile (u_proc u)" others "fst x" s'] ok f show ?thesis
    by (simp add: fd_ok_def)
qed (use assms in \<open>simp add: sys_close_def\<close>)

text \<open>A file structure is allocated for a descriptor or, when there is none, given back.\<close>

lemma fd_ok_open_fd:
  assumes ok: "fd_ok others u" and o: "open_fd u = Inr (r, u')"
  shows "fd_ok others u'"
proof -
  obtain f s where a: "filealloc (u_fs u) = (f, s)"
    by fastforce
  obtain k v where k: "fdalloc f (u\<lparr>u_fs := s\<rparr>) = (k, v)"
    by fastforce
  show ?thesis
  proof (cases "f = NULL")
    case True
    then show ?thesis
      using o a ft.alloc_none [of "u_fs u" s] ok by (simp add: open_fd_def fd_ok_def)
  next
    case f: False
    show ?thesis
    proof (cases k)
      case (Some j)
      then have "j < NOFILE" "p_ofile (u_proc u) ! j = NULL" "v = set_ofile j f (u\<lparr>u_fs := s\<rparr>)"
        using k fdalloc_Some [of f "u\<lparr>u_fs := s\<rparr>" j v] by auto
      moreover have "u' = v"
        using o a k f Some by (simp add: open_fd_def)
      ultimately show ?thesis
        using ft.open_balanced [OF _ _ a f, where fds = "p_ofile (u_proc u)" and others = others and i = j] ok by (simp add: fd_ok_def)
    next
      case None
      then obtain s' where s': "fileclose f s = Inr s'" "u' = u\<lparr>u_fs := s'\<rparr>"
        using o a k f fdalloc_None [of f "u\<lparr>u_fs := s\<rparr>" v] by (auto simp: open_fd_def on_fs'_def bindE_eq_Inr)
      with ft.alloc_close [of "u_fs u" "p_ofile (u_proc u)" others f s s'] a f ok show ?thesis
        by (simp add: fd_ok_def)
    qed
  qed
qed

lemma fd_ok_fill:
  "fd_ok others u \<Longrightarrow> (\<And>x. f_ref (g x) = f_ref x) \<Longrightarrow> fd_ok others (u\<lparr>u_fs := upd_file f g (u_fs u)\<rparr>)"
  by (erule fd_ok_same [rotated]) (simp add: same_fds_def same_refs_def)

lemma fd_ok_ensures:
  "fd_ok others u \<Longrightarrow> ensures (lift_tree m u) (fd_ok others)"
  "fd_ok others u \<Longrightarrow> ensures (kprintf fmt args u) (fd_ok others)"
  "fd_ok others u \<Longrightarrow> ensures (on_fs (on_tree k) u) (\<lambda>(_, u'). fd_ok others u')"
  "fd_ok others u \<Longrightarrow> ensures (open_fd u) (\<lambda>(_, u'). fd_ok others u')"
  by (auto intro!: ensuresI intro: same_lift_tree [THEN fd_ok_same] same_kprintf [THEN fd_ok_same]
      same_file_calls(4) [THEN fd_ok_same] fd_ok_open_fd)

lemma fd_ok_openat:
  assumes "fd_ok others u" "sys_openat c u = Inr (r, u')"
  shows "fd_ok others u'"
proof -
  have "ensures (sys_openat c u) (\<lambda>(_, u'). fd_ok others u')"
    unfolding sys_openat_def
    by (auto simp del: if_split split: option.split if_split
        intro!: assms(1) fd_ok_ensures [THEN ensures_bindI] fd_ok_fill split: prod.splits)
  from ensuresD [OF this assms(2)] show ?thesis
    by simp
qed

lemma of_nat_fd: "j < NOFILE \<Longrightarrow> sint (of_nat j :: u32) = int j \<and> unat (of_nat j :: u32) = j"
  by (simp add: NOFILE_def sint_u32 unsigned_of_nat take_bit_nat_eq_self)

lemma ucast_fd: "j < NOFILE \<Longrightarrow> ucast (of_nat j :: u64) = (of_nat j :: u32)"
  by (simp add: NOFILE_def unsigned_of_nat take_bit_nat_eq_self)

text \<open>
  C11: every system call on descriptors and paths keeps the descriptor table well formed: each open descriptor names a file of the
  table, and the reference count of each file is the number of descriptors that name it, in the calling process and elsewhere.
\<close>

theorem local_call_counts:
  assumes "fd_ok others u" "do_local c call u = Inr (r, u')"
  shows "fd_ok others u'"
  using assms
  by (cases call) (auto intro: fd_ok_dup fd_ok_close fd_ok_openat same_calls [THEN fd_ok_same] same_chdir [THEN fd_ok_same]
      same_fstatat [THEN fd_ok_same] same_mknodat [THEN fd_ok_same])

text \<open>
  C12: \<^verbatim>\<open>sys_dup\<close> gives the lowest free descriptor, which then names the same file with one more reference, and closing
  it puts the file table and the descriptors back as they were.
\<close>

theorem dup_close:
  assumes ok: "fd_ok others u" and fd: "argfd 0 u = Some (fd, f)"
    and free: "find_from (\<lambda>i. p_ofile (u_proc u) ! i = NULL) 0 NOFILE = Some j" and args: "0 < length (tf_x (p_tf (u_proc u)))"
  shows "\<exists>u1. sys_dup u = Inr (of_nat j, u1) \<and> p_ofile (u_proc u1) = (p_ofile (u_proc u))[j := f] \<and>
     refs (u_fs u1) f = refs (u_fs u) f + 1 \<and>
     (\<exists>u2. sys_close (set_arg 0 (of_nat j) u1) = Inr (0, u2) \<and> u_fs u2 = u_fs u \<and> p_ofile (u_proc u2) = p_ofile (u_proc u))"
proof -
  have f: "fd < NOFILE" "f = p_ofile (u_proc u) ! fd" "f \<noteq> NULL" and j: "j < NOFILE" "p_ofile (u_proc u) ! j = NULL"
    using argfd_Some [OF fd] find_from_Some [THEN iffD1, OF free] by auto
  have mem: "f \<in> set (p_ofile (u_proc u))"
    using fd_ok_ofile [OF ok f(1)] f by simp
  have len: "length (p_ofile (u_proc u)) = NOFILE" and ok': "table_ok (u_fs u)"
      "balanced (refs (u_fs u)) (files (u_fs u)) (p_ofile (u_proc u)) others"
    using ok by (auto simp: fd_ok_def balanced_def)
  note pos = balanced_mem [OF ok'(2) mem f(3)]
  let ?s = "upd_file f (\<lambda>x. x\<lparr>f_ref := f_ref x + 1\<rparr>) (u_fs u)"
  let ?u1 = "(set_ofile j f u)\<lparr>u_fs := ?s\<rparr>"
  have dup: "sys_dup u = Inr (of_nat j, ?u1)"
    using fd free pos by (simp add: sys_dup_def fdalloc_def on_fs'_def filedup_eq set_ofile_def)
  from ft.dup_balanced [OF ok' mem f(3) j] have b: "table_ok ?s" "balanced (refs ?s) (files ?s) ((p_ofile (u_proc u))[j := f]) others"
    using pos by (auto simp: filedup_eq)
  then have r: "refs ?s f = refs (u_fs u) f + 1"
    using ok'(2) pos(1) count_list_update [of j "p_ofile (u_proc u)" f f] j len f(3) by (simp add: balanced_def)
  have "argfd 0 (set_arg 0 (of_nat j) ?u1) = Some (j, f)"
    using args j f len of_nat_fd [OF j(1)] ucast_fd [OF j(1)] by (simp add: argfd_def argint_def set_arg_def set_ofile_def)
  moreover have "fileclose f ?s = Inr (u_fs u)"
  proof -
    have "0 < sint (f_ref (ft_file (u_fs u) f))" "0 < sint (f_ref (ft_file (u_fs u) f) + 1)"
      using pos(2) r by (auto simp: refs_def)
    then show ?thesis
      by (simp add: fileclose_def upd_file_twice upd_file_def)
  qed
  ultimately have "\<exists>u2. sys_close (set_arg 0 (of_nat j) ?u1) = Inr (0, u2) \<and> u_fs u2 = u_fs u \<and> p_ofile (u_proc u2) = p_ofile (u_proc u)"
    using j len by (auto simp: sys_close_def on_fs'_def set_arg_def set_ofile_def list_update_same_conv)
  with dup r show ?thesis
    by (intro exI [of _ ?u1]) simp
qed

text \<open>The addresses of the user space of a process, its image and its stack, and the addresses of a block of memory.\<close>

definition user_space :: "proc \<Rightarrow> u64 set" where
  "user_space p = {p_base p ..< p_sz p} \<union> {USPACE_TOP - p_stksz p ..< USPACE_TOP}"

definition memory_block :: "u64 \<Rightarrow> u64 \<Rightarrow> u64 set" where
  "memory_block s n = (\<lambda>i. s + of_nat i) ` {..< unat n}"

lemma mem_memory_block:
  assumes "unat s + unat n < 2 ^ 64"
  shows "a \<in> memory_block s n \<longleftrightarrow> unat s \<le> unat a \<and> unat a < unat s + unat n"
proof
  assume "a \<in> memory_block s n"
  then obtain i where i: "a = s + of_nat i" "i < unat n" by (auto simp: memory_block_def)
  moreover have "unat (s + of_nat i) = unat s + i"
    using i(2) assms by (simp add: unat_plus_ptr unat_of_nat_ptr)
  ultimately show "unat s \<le> unat a \<and> unat a < unat s + unat n" by simp
next
  assume "unat s \<le> unat a \<and> unat a < unat s + unat n"
  then have "a = s + of_nat (unat a - unat s)" "unat a - unat s < unat n" by (simp add: of_nat_diff, linarith)
  then show "a \<in> memory_block s n" by (auto simp: memory_block_def)
qed

lemma unat_less_64: "unat (w :: u64) < 2 ^ 64"
  by (rule order_less_le_trans [OF unsigned_less]) simp

lemma memory_block_wraps:
  assumes "2 ^ 64 \<le> unat s + unat n"
  shows "0xFFFFFFFFFFFFFFFF \<in> memory_block s n"
proof -
  have "unat s \<le> unat (0xFFFFFFFFFFFFFFFF :: u64)" using unat_less_64 [of s] by simp
  then have "(0xFFFFFFFFFFFFFFFF :: u64) = s + of_nat (unat (0xFFFFFFFFFFFFFFFF :: u64) - unat s)"
    by (simp add: of_nat_diff del: unat_numeral)
  moreover have "unat (0xFFFFFFFFFFFFFFFF :: u64) = 2 ^ 64 - 1" by simp
  then have "unat (0xFFFFFFFFFFFFFFFF :: u64) - unat s \<in> {..< unat n}" using assms unat_less_64 [of s] by (simp del: unat_numeral)
  ultimately show ?thesis unfolding memory_block_def by (rule image_eqI)
qed

lemma block_in_range:
  assumes "unat s + unat n < 2 ^ 64" and "n \<noteq> 0" and "s \<in> {l ..< h}" and "h \<notin> memory_block s n"
  shows "unat s + unat n \<le> unat h"
  using assms(3,4) unfolding mem_memory_block [OF assms(1)] by (simp add: word_le_nat_alt word_less_nat_alt)



definition sample_libc :: libc where
  "sample_libc = \<lparr>S_IFREG = 0x8000, S_IFDIR = 0x4000, O_CREAT = 0x40, O_WRONLY = 1, O_RDWR = 2, AT_FDCWD = - 100, sizeof_stat = 128,
     put_stat = \<lambda>_ _ m. m\<rparr>"

definition sample_user :: usys where
  "sample_user = \<lparr>u_fs = \<lparr>fs_tree = sample_dir, ft_base = 0x1000,
        ft_file = \<lambda>f. \<lparr>f_type = FD_INODE, f_ref = (if f = 0x1000 then 1 else 0), f_readable = 1, f_writable = 1, f_pipe = 0,
          f_ip = 0x9000, f_off = 0\<rparr>\<rparr>,
      u_proc = (idle_proc RUNNING)\<lparr>p_ofile := [0x1000, 0, 0, 0, 0, 0, 0, 0]\<rparr>, u_mem = \<lambda>_. 0\<rparr>"

lemma sample_files: "f \<in> files (u_fs sample_user) \<Longrightarrow> f \<noteq> 0"
  using null_not_file [of "u_fs sample_user"] by (auto simp: sample_user_def table_ok_def sizeof_File_def NFILE_def)

lemma sample_user_ok: "fd_ok (\<lambda>_. 0) sample_user"
proof -
  have "0x1000 \<in> files (u_fs sample_user)"
    by (auto simp: sample_user_def files_def file_addr_def NFILE_def intro!: image_eqI [of _ _ 0])
  then show ?thesis
    using sample_files
    by (auto simp: sample_user_def fd_ok_def table_ok_def balanced_def refs_def sizeof_File_def NFILE_def NOFILE_def)
qed

lemma sample_user_dup: "argfd 0 sample_user = Some (0, 0x1000)"
  "find_from (\<lambda>i. p_ofile (u_proc sample_user) ! i = NULL) 0 NOFILE = Some 1"
  by (simp_all add: sample_user_def argfd_def argint_def idle_proc_def NOFILE_def find_from.simps)

lemma sample_user_pos: "0 < refs (u_fs sample_user) 0x1000"
  by (simp add: sample_user_def refs_def)

theorem local_call_counts_witness:
  "\<exists>u'. do_local sample_libc Dup sample_user = Inr (1, u') \<and> fd_ok (\<lambda>_. 0) u'"
proof -
  obtain u' where "sys_dup sample_user = Inr (1, u')"
    using sample_user_dup sample_user_pos by (auto simp: sys_dup_def fdalloc_def on_fs'_def filedup_eq set_ofile_def)
  then show ?thesis
    using local_call_counts [OF sample_user_ok, of sample_libc Dup 1 u'] by simp
qed

theorem dup_close_witness:
  "\<exists>u1. sys_dup sample_user = Inr (1, u1) \<and>
     (\<exists>u2. sys_close (set_arg 0 1 u1) = Inr (0, u2) \<and> u_fs u2 = u_fs sample_user \<and> p_ofile (u_proc u2) = p_ofile (u_proc sample_user))"
  using dup_close [OF sample_user_ok sample_user_dup] by (auto simp: sample_user_def idle_proc_def)

end
