(* ===== verification/Process.thy ===== *)
theory Process
  imports Address_Space Syscall
begin

text \<open>
  The life of a process, \<^verbatim>\<open>core/proc.c\<close> and \<^verbatim>\<open>core/sysproc.c\<close>, over all the parts it uses: the process tables of the
  containers, the page allocator with the page tables in its pages, and the file system.  Shown: a forked child has the memory, the registers and
  the files of its parent, reference counts follow the descriptors of both, \<^verbatim>\<open>wait\<close> gives the pages of a child back, and one page
  is lost in each round of \<^verbatim>\<open>fork\<close> and \<^verbatim>\<open>wait\<close>.
\<close>

section \<open>State\<close>

text \<open>
  The trap frame of a process is a component of its record and not a part of its kernel stack, whose words are never read otherwise.  The
  current directory of the running process is \<open>it_cwd\<close> of the inode tree, that of the others is in their records.  The kernel has one list of
  free pages.  The model has it split in two: \<open>k_mem\<close>, out of which page tables, user pages and kernel stacks are made, and the list inside
  the heap of the block cache in \<open>k_fs\<close>, out of which the arenas of blocks and inodes grow.  So statements about the pages of processes
  hold while the file system does not ask for pages from the same list.
\<close>

record kernel =
  k_conts :: conts
  k_fs :: fsys
  k_mem :: FreeList

text \<open>The CPU, the root container, the container of its scheduler, the slot of its process, and the depth of the containers.\<close>

record kenv =
  e_cpu :: nat
  e_root :: ptr
  e_this :: ptr
  e_slot :: nat
  e_depth :: nat

definition me :: "kenv \<Rightarrow> pref" where
  "me e = (e_this e, e_slot e)"

definition curproc :: "kenv \<Rightarrow> kernel \<Rightarrow> proc" where
  "curproc e k = proc_at (k_conts k) (me e)"

definition set_proc :: "pref \<Rightarrow> (proc \<Rightarrow> proc) \<Rightarrow> kernel \<Rightarrow> kernel" where
  "set_proc p g k = k\<lparr>k_conts := upd_proc p g (k_conts k)\<rparr>"

definition zero_tf :: Trapframe where
  "zero_tf = \<lparr>tf_spsr = 0, tf_elr = 0, tf_sp = 0, tf_tpidr = 0, tf_x = replicate 31 0, tf_q0 = [0, 0]\<rparr>"

section \<open>New processes\<close>

definition alloc_proc :: "kenv \<Rightarrow> kernel \<Rightarrow> (pref \<times> kernel) res" where
  "alloc_proc e k =
     bindE (alloc_pcb_simple (e_depth e) (e_cpu e) (e_root e) (e_this e) (k_conts k)) (\<lambda>(p, cs).
     case p of
       None \<Rightarrow> Inl (Panic (''no free pcbs'' @ [CHR 0x0A]))
     | Some p \<Rightarrow>
         let (pgdir, f) = pgdir_init (k_mem k);
             cs = upd_proc p (\<lambda>x. x\<lparr>p_pgdir := pgdir\<rparr>) cs;
             (sp, f) = kalloc f
         in if sp = NULL then Inl (Panic ''proc_alloc: cannot alloc kstack'')
            else Inr (p, k\<lparr>k_conts := upd_proc p (\<lambda>x. x\<lparr>p_kstack := sp, p_tf := zero_tf\<rparr>) cs, k_mem := f\<rparr>))"

text \<open>A process that runs \<open>code\<close> from address 0 of its only page.\<close>

definition code_process :: "kenv \<Rightarrow> u8 list \<Rightarrow> kernel \<Rightarrow> (pref \<times> kernel) res" where
  "code_process e code k =
     bindE (alloc_proc e k) (\<lambda>(p, k).
     let (r, f) = kalloc (k_mem k)
     in if r = NULL then Inl (Panic ''uvm_init: cannot alloc a page'')
        else bindE (uvm_map (p_pgdir (proc_at (k_conts k) p)) 0 PAGE_SIZE (K2P r) (zero_page r f)) (\<lambda>f.
             Inr (p, set_proc p (\<lambda>x. x\<lparr>p_tf := zero_tf\<lparr>tf_sp := PAGE_SIZE\<rparr>\<rparr>) (k\<lparr>k_mem := store_bytes r code f\<rparr>))))"

definition spawn_init_process :: "kenv \<Rightarrow> u8 list \<Rightarrow> kernel \<Rightarrow> kernel res" where
  "spawn_init_process e icode k =
     bindE (code_process e icode k) (\<lambda>(p, k). Inr (set_proc p (\<lambda>x. x\<lparr>p_sz := PAGE_SIZE, p_state := RUNNABLE\<rparr>) k))"

definition idle_init :: "kenv \<Rightarrow> u8 list \<Rightarrow> kernel \<Rightarrow> kernel res" where
  "idle_init e ispin k =
     bindE (code_process e ispin k) (\<lambda>(p, k). Inr (set_proc p (\<lambda>x. x\<lparr>p_sz := PAGE_SIZE, p_state := RUNNABLE\<rparr>) k))"

primrec add_loop_test :: "nat \<Rightarrow> kenv \<Rightarrow> u8 list \<Rightarrow> kernel \<Rightarrow> kernel res" where
  "add_loop_test 0 e loop_code k = Inr k"
| "add_loop_test (Suc n) e loop_code k =
     bindE (code_process e loop_code k) (\<lambda>(p, k). add_loop_test n e loop_code (set_proc p (\<lambda>x. x\<lparr>p_state := RUNNABLE\<rparr>) k))"

text \<open>The sums of sizes have 32 bits.\<close>

definition growproc :: "kenv \<Rightarrow> u32 \<Rightarrow> kernel \<Rightarrow> (u32 \<times> kernel) res" where
  "growproc e n k =
     (let p = curproc e k; sz = (ucast (p_sz p) :: u32)
      in bindE (if sint n > 0 then uvm_alloc (p_pgdir p) 0 0 (ucast sz) (ucast (sz + n)) (k_mem k)
                else if sint n < 0 then uvm_dealloc (p_pgdir p) 0 (ucast sz) (ucast (sz + n)) (k_mem k)
                else Inr (sz, k_mem k)) (\<lambda>(sz, f).
         if n \<noteq> 0 \<and> sz = 0 then Inr (- 1, k\<lparr>k_mem := f\<rparr>)
         else Inr (0, set_proc (me e) (\<lambda>x. x\<lparr>p_sz := ucast sz\<rparr>) (k\<lparr>k_mem := f\<rparr>))))"

section \<open>Fork\<close>

fun dup_files :: "kenv \<Rightarrow> pref \<Rightarrow> nat list \<Rightarrow> kernel \<Rightarrow> kernel res" where
  "dup_files e p [] k = Inr k"
| "dup_files e p (i # is) k =
     (let f = p_ofile (curproc e k) ! i
      in bindE (if f \<noteq> NULL
                then bindE (filedup f (k_fs k)) (\<lambda>s. Inr (set_proc p (\<lambda>x. x\<lparr>p_ofile := (p_ofile x)[i := f]\<rparr>) (k\<lparr>k_fs := s\<rparr>)))
                else Inr k) (dup_files e p is))"

definition fork :: "kenv \<Rightarrow> kernel \<Rightarrow> (u32 \<times> kernel) res" where
  "fork e k =
     bindE (alloc_proc e k) (\<lambda>(p, k).
     bindE (uvm_copy (p_pgdir (curproc e k)) (k_mem k)) (\<lambda>(pgdir, f).
     let k = set_proc p (\<lambda>x. x\<lparr>p_pgdir := pgdir\<rparr>) (k\<lparr>k_mem := f\<rparr>)
     in if pgdir = NULL
        then bindE (kfree (p_kstack (proc_at (k_conts k) p)) (k_mem k)) (\<lambda>f.
             Inr (- 1, set_proc p (\<lambda>x. x\<lparr>p_kstack := NULL, p_state := UNUSED\<rparr>) (k\<lparr>k_mem := f\<rparr>)))
        else let c = curproc e k;
                 k = set_proc p (\<lambda>x. x\<lparr>p_sz := p_sz c, p_tf := (p_tf c)\<lparr>tf_x := (tf_x (p_tf c))[0 := 0]\<rparr>, p_parent := Some (me e)\<rparr>) k
             in bindE (dup_files e p [0 ..< NOFILE] k) (\<lambda>k.
                let t = fs_tree (k_fs k); cwd = it_cwd t
                in if cwd = NULL then Inl NullDeref
                   else let k = set_proc p (\<lambda>x. x\<lparr>p_cwd := cwd, p_state := RUNNABLE\<rparr>) (k\<lparr>k_fs := (k_fs k)\<lparr>fs_tree := inode_share cwd t\<rparr>\<rparr>)
                        in Inr (of_int (p_pid (proc_at (k_conts k) p)), k))))"

section \<open>Exit and wait\<close>

fun close_files :: "kenv \<Rightarrow> nat list \<Rightarrow> kernel \<Rightarrow> kernel res" where
  "close_files e [] k = Inr k"
| "close_files e (i # is) k =
     (let f = p_ofile (curproc e k) ! i
      in bindE (if f \<noteq> NULL
                then bindE (fileclose f (k_fs k)) (\<lambda>s. Inr (set_proc (me e) (\<lambda>x. x\<lparr>p_ofile := (p_ofile x)[i := NULL]\<rparr>) (k\<lparr>k_fs := s\<rparr>)))
                else Inr k) (close_files e is))"

text \<open>The process table of the scheduler of this CPU.\<close>

definition table_of :: "kenv \<Rightarrow> kernel \<Rightarrow> sched" where
  "table_of e k = \<lparr>ptable = c_ptable (k_conts k (e_this e)), cpu_proc = (\<lambda>_. None)(e_cpu e := Some (e_slot e))\<rparr>"

definition set_table :: "kenv \<Rightarrow> sched \<Rightarrow> kernel \<Rightarrow> kernel" where
  "set_table e s k = k\<lparr>k_conts := (k_conts k)(e_this e := (k_conts k (e_this e))\<lparr>c_ptable := ptable s\<rparr>)\<rparr>"

definition exit :: "kenv \<Rightarrow> kernel \<Rightarrow> kernel res" where
  "exit e k =
     bindE (close_files e [0 ..< NOFILE] k) (\<lambda>k.
     bindE (on_tree (with_op (\<lambda>t. bindE (inode_put (it_cwd t) t) (\<lambda>t. Inr ((), t)))) (k_fs k)) (\<lambda>(_, s).
     let k = k\<lparr>k_fs := s\<lparr>fs_tree := (fs_tree s)\<lparr>it_cwd := NULL\<rparr>\<rparr>\<rparr>
     in bindE (exit_proc (Pair (e_this e)) (e_cpu e) (table_of e k)) (\<lambda>s. Inr (set_table e s k))))"

text \<open>One round of \<^verbatim>\<open>wait\<close>; the result is the identifier of the child, -1, or nothing when the process falls asleep.\<close>

definition wait_kernel :: "kenv \<Rightarrow> kernel \<Rightarrow> (u32 option \<times> kernel) res" where
  "wait_kernel e k =
     bindE (wait_round (Pair (e_this e)) (e_cpu e) (table_of e k)) (\<lambda>(r, s).
     let k = set_table e s k
     in case r of
          Reaped j pid \<Rightarrow>
            let c = proc_at (k_conts k) (e_this e, j)
            in bindE (vm_free (p_pgdir c) (k_mem k)) (\<lambda>f.
               bindE (kfree (p_kstack c) f) (\<lambda>f. Inr (Some (of_int pid), k\<lparr>k_mem := f\<rparr>)))
        | NoChild \<Rightarrow> Inr (Some (- 1), k)
        | Waits \<Rightarrow> Inr (None, k))"

text \<open>The next round of \<^verbatim>\<open>wait\<close>, when \<^verbatim>\<open>sleep\<close> has returned.\<close>

definition wait_again :: "kenv \<Rightarrow> kernel \<Rightarrow> (u32 option \<times> kernel) res" where
  "wait_again e k = wait_kernel e (set_proc (me e) (\<lambda>x. x\<lparr>p_chan := NoChan\<rparr>) k)"

text \<open>
  The scheduler of the process \<open>me e\<close>, which has left the CPU, runs slot \<open>j\<close> of its table.  The current directory goes back into
  the record of the old process and comes from that of the new one.
\<close>

definition run_slot :: "kenv \<Rightarrow> nat \<Rightarrow> kernel \<Rightarrow> kernel" where
  "run_slot e j k =
     (let t = fs_tree (k_fs k);
          k = set_proc (me e) (\<lambda>x. x\<lparr>p_cwd := it_cwd t\<rparr>) k;
          k = k\<lparr>k_fs := (k_fs k)\<lparr>fs_tree := t\<lparr>it_cwd := p_cwd (proc_at (k_conts k) (e_this e, j))\<rparr>\<rparr>\<rparr>
      in set_proc (e_this e, j) (\<lambda>x. x\<lparr>p_state := RUNNING\<rparr>) k)"

section \<open>System calls\<close>

definition arg_int :: "kenv \<Rightarrow> nat \<Rightarrow> kernel \<Rightarrow> u32 option" where
  "arg_int e n k = (if n > 5 then None else Some (ucast (tf_x (p_tf (curproc e k)) ! n)))"

definition sys_yield :: "kenv \<Rightarrow> kernel \<Rightarrow> (u32 \<times> kernel) res" where
  "sys_yield e k = bindE (yield (e_cpu e) (table_of e k)) (\<lambda>s. Inr (0, set_table e s k))"

definition sys_brk :: "kenv \<Rightarrow> kernel \<Rightarrow> (u64 \<times> kernel) res" where
  "sys_brk e k =
     (case arg_int e 0 k of
        None \<Rightarrow> Inr (- 1, k)
      | Some n \<Rightarrow>
          let sz = p_sz (curproc e k)
          in bindE (growproc e n k) (\<lambda>(r, k). Inr (if sint r < 0 then - 1 else sz, k)))"

definition sys_clone :: "kenv \<Rightarrow> kernel \<Rightarrow> (u32 \<times> kernel) res" where
  "sys_clone e k =
     (case (arg_int e 0 k, arg_int e 1 k) of
        (Some flag, Some _) \<Rightarrow>
          if flag \<noteq> 17
          then let t = fs_tree (k_fs k)
               in bindE (vprintf (''sys_clone: flags other than SIGCHLD are not supported.'' @ [CHR 0x0A]) [] (it_console t)) (\<lambda>c.
                  Inr (- 1, k\<lparr>k_fs := (k_fs k)\<lparr>fs_tree := t\<lparr>it_console := c\<rparr>\<rparr>\<rparr>))
          else fork e k
      | _ \<Rightarrow> Inr (- 1, k))"

definition sys_wait4 :: "kenv \<Rightarrow> kernel \<Rightarrow> (u32 option \<times> kernel) res" where
  "sys_wait4 e k =
     (if arg_int e 0 k = None \<or> arg_int e 1 k = None \<or> arg_int e 2 k = None \<or> arg_int e 3 k = None then Inr (Some (- 1), k)
      else wait_kernel e k)"

definition sys_exit :: "kenv \<Rightarrow> kernel \<Rightarrow> kernel res" where
  "sys_exit e k = exit e k"

section \<open>Tables and pages\<close>

definition in_table :: "pref \<Rightarrow> kernel \<Rightarrow> bool" where
  "in_table p k \<longleftrightarrow> snd p < length (c_ptable (k_conts k (fst p)))"

lemma proc_at_upd: "snd p < length (c_ptable (cs (fst p))) \<Longrightarrow> proc_at (upd_proc p g cs) q = (if q = p then g (proc_at cs p) else proc_at cs q)"
  by (cases p; cases q) (auto simp: proc_at_def upd_proc_def)

lemma length_upd_proc [simp]: "length (c_ptable (upd_proc p g cs a)) = length (c_ptable (cs a))"
  by (cases p) (simp add: upd_proc_def)

lemma set_proc_simps [simp]:
  "k_fs (set_proc p g k) = k_fs k" "k_mem (set_proc p g k) = k_mem k" "in_table q (set_proc p g k) = in_table q k"
  "in_table q (k\<lparr>k_fs := s\<rparr>) = in_table q k" "in_table q (k\<lparr>k_mem := f\<rparr>) = in_table q k"
  by (simp_all add: set_proc_def in_table_def)

lemma proc_at_set_proc: "in_table p k \<Longrightarrow> proc_at (k_conts (set_proc p g k)) q = (if q = p then g (proc_at (k_conts k) p) else proc_at (k_conts k) q)"
  by (simp add: in_table_def set_proc_def proc_at_upd)

lemma curproc_simps [simp]: "curproc e (k\<lparr>k_fs := s\<rparr>) = curproc e k" "curproc e (k\<lparr>k_mem := f\<rparr>) = curproc e k"
  by (simp_all add: curproc_def)

lemma curproc_set_proc: "in_table p k \<Longrightarrow> me e \<noteq> p \<Longrightarrow> curproc e (set_proc p g k) = curproc e k"
  by (simp add: curproc_def proc_at_set_proc)

text \<open>Taking a page and clearing it leave a tree alone.\<close>

lemma take_page:
  assumes "vm_inv n p f (q # qs)"
  obtains f1 where "kalloc f = (q, f1)" "vm_inv n p f1 qs" "agree UNIV f f1" "Virtual_Memory.page_ok q" "q \<notin> set (pages_of n p f)" "q \<notin> set qs"
proof -
  have i: "free_pages f (q # qs)" "distinct (pages_of n p f @ q # qs)" "\<forall>r \<in> set (pages_of n p f @ q # qs). Virtual_Memory.page_ok r"
    using assms by (simp_all add: vm_inv_def)
  obtain f1 where k: "kalloc f = (q, f1)" "free_pages f1 qs"
    using pm.alloc_Cons [OF i(1)] by blast
  have a: "agree UNIV f f1"
    using kalloc_words [OF k(1)] by (simp add: agree_def)
  then have "pages_of n p f1 = pages_of n p f"
    using tree_frame(1) [OF agree_mono [OF a]] by simp
  then have "vm_inv n p f1 qs"
    using i k(2) by (auto simp: vm_inv_def)
  then show thesis
    using that k(1) a i by auto
qed

lemma clear_page:
  assumes "vm_inv n p f ps" and "Virtual_Memory.page_ok q" and "q \<notin> set (pages_of n p f)" and "q \<notin> set ps"
  shows "vm_inv n p (zero_page q f) ps" "agree (set (pages_of n p f)) f (zero_page q f)"
proof -
  have ok: "\<forall>r \<in> set (pages_of n p f). Virtual_Memory.page_ok r" "free_pages f ps" "\<forall>r \<in> set ps. Virtual_Memory.page_ok r"
    using assms(1) by (auto simp: vm_inv_def)
  then show a: "agree (set (pages_of n p f)) f (zero_page q f)"
    using assms(2,3) by (auto simp: agree_def)
  show "vm_inv n p (zero_page q f) ps"
    using assms(1) tree_frame(1) [OF a] free_pages_zero [OF ok(2) assms(2,4) ok(3)] by (simp add: vm_inv_def)
qed

lemma agree_trans: "agree S f f1 \<Longrightarrow> agree S f1 f2 \<Longrightarrow> agree S f f2"
  by (simp add: agree_def)

section \<open>Allocation\<close>

text \<open>Slot \<open>j\<close> is the first free one, and every container up to the root has an identifier left.\<close>

definition slot_ready :: "kenv \<Rightarrow> kernel \<Rightarrow> nat \<Rightarrow> bool" where
  "slot_ready e k j \<longleftrightarrow> find_from (\<lambda>i. p_state (c_ptable (k_conts k (e_this e)) ! i) = UNUSED) 0 NPROC = Some j
     \<and> length (c_ptable (k_conts k (e_this e))) = NPROC \<and> e_slot e < NPROC \<and> p_state (curproc e k) \<noteq> UNUSED
     \<and> (\<exists>as. chain (k_conts k) (e_root e) (e_this e # as) \<and> (\<forall>a \<in> set (e_this e # as). pid_ready (k_conts k a)) \<and> length as < e_depth e)"

definition new_pid :: "kenv \<Rightarrow> kernel \<Rightarrow> int" where
  "new_pid e k = c_pid (k_conts k (e_this e)) + 1"

lemma slot_ready_slot:
  assumes "slot_ready e k j"
  shows "in_table (e_this e, j) k" "me e \<noteq> (e_this e, j)"
proof -
  have "j < NPROC" "p_state (c_ptable (k_conts k (e_this e)) ! j) = UNUSED"
    using assms by (auto simp: slot_ready_def dest: find_from_Some [THEN iffD1])
  then show "in_table (e_this e, j) k" "me e \<noteq> (e_this e, j)"
    using assms by (auto simp: slot_ready_def in_table_def me_def curproc_def proc_at_def)
qed

lemma alloc_pcb_ok:
  assumes "slot_ready e k j"
  obtains cs where "alloc_pcb_simple (e_depth e) (e_cpu e) (e_root e) (e_this e) (k_conts k) = Inr (Some (e_this e, j), cs)"
    "\<And>q. proc_at cs q = (if q = (e_this e, j) then (proc_at (k_conts k) q)\<lparr>p_pid := new_pid e k, p_state := EMBRYO\<rparr> else proc_at (k_conts k) q)"
    "\<And>a. length (c_ptable (cs a)) = length (c_ptable (k_conts k a))"
proof -
  let ?t = "e_this e" and ?cs = "k_conts k"
  obtain as where c: "chain ?cs (e_root e) (?t # as)" "\<And>a. a \<in> set (?t # as) \<Longrightarrow> pid_ready (?cs a)" "length (?t # as) \<le> e_depth e"
    using assms by (auto simp: slot_ready_def Suc_le_eq)
  from alloc_resource_chain [OF c, of "e_cpu e" "(?t, j)"] obtain cs where
    a: "alloc_resource (e_depth e) (e_cpu e) (e_root e) ?t (?t, j) PID ?cs = Inr (True, cs)" "\<And>a. cs a = (if a \<in> set (?t # as) then with_pid (?t, j) (?cs a) else ?cs a)"
    by auto
  have t: "c_ptable (cs a) = c_ptable (?cs a)" "c_pid (cs ?t) = new_pid e k" for a
    using a(2) by (simp_all add: with_pid_def new_pid_def)
  have j: "j < length (c_ptable (cs ?t))"
    using slot_ready_slot(1) [OF assms] t(1) by (simp add: in_table_def)
  show thesis
  proof (rule that)
    show "alloc_pcb_simple (e_depth e) (e_cpu e) (e_root e) ?t ?cs = Inr (Some (?t, j), upd_proc (?t, j) (\<lambda>p. p\<lparr>p_pid := new_pid e k, p_state := EMBRYO\<rparr>) cs)"
      using assms a(1) t(2) by (simp add: alloc_pcb_simple_def slot_ready_def)
  qed (use proc_at_upd [of "(?t, j)" cs] j t(1) in \<open>auto simp: proc_at_def\<close>)
qed

lemma alloc_proc_ok:
  assumes slot: "slot_ready e k j" and inv: "vm_inv n p (k_mem k) (d # s # ps)"
  obtains k1 where "alloc_proc e k = Inr ((e_this e, j), k1)" "k_fs k1 = k_fs k" "vm_inv n p (k_mem k1) ps"
    "agree (set (pages_of n p (k_mem k))) (k_mem k) (k_mem k1)" "\<And>q. in_table q k1 = in_table q k"
    "\<And>q. proc_at (k_conts k1) q = (if q = (e_this e, j)
       then (proc_at (k_conts k) q)\<lparr>p_pid := new_pid e k, p_state := EMBRYO, p_pgdir := d, p_kstack := s, p_tf := zero_tf\<rparr> else proc_at (k_conts k) q)"
    "agree {r. Virtual_Memory.page_ok r \<and> r \<noteq> d} (k_mem k) (k_mem k1)"
proof -
  let ?p = "(e_this e, j)"
  from slot obtain cs where cs: "alloc_pcb_simple (e_depth e) (e_cpu e) (e_root e) (e_this e) (k_conts k) = Inr (Some ?p, cs)"
    "\<And>q. proc_at cs q = (if q = ?p then (proc_at (k_conts k) q)\<lparr>p_pid := new_pid e k, p_state := EMBRYO\<rparr> else proc_at (k_conts k) q)"
    "\<And>a. length (c_ptable (cs a)) = length (c_ptable (k_conts k a))"
    using alloc_pcb_ok by blast
  from inv obtain f1 where f1: "kalloc (k_mem k) = (d, f1)" "vm_inv n p f1 (s # ps)" "agree UNIV (k_mem k) f1"
      "Virtual_Memory.page_ok d" "d \<notin> set (pages_of n p (k_mem k))" "d \<notin> set (s # ps)"
    by (rule take_page)
  have pages: "pages_of n p f1 = pages_of n p (k_mem k)"
    by (rule tree_frame(1) [OF agree_mono [OF f1(3)]]) simp
  let ?f2 = "zero_page d f1"
  have f2: "vm_inv n p ?f2 (s # ps)" "agree (set (pages_of n p (k_mem k))) f1 ?f2"
    using clear_page [OF f1(2,4) _ f1(6)] f1(5) pages by auto
  from f2(1) obtain f3 where f3: "kalloc ?f2 = (s, f3)" "vm_inv n p f3 ps" "agree UNIV ?f2 f3" "Virtual_Memory.page_ok s"
    by (rule take_page)
  have nn: "d \<noteq> NULL" "s \<noteq> NULL"
    using page_ok_not_null f1(4) f3(4) by auto
  have j: "j < length (c_ptable (cs (e_this e)))"
    using slot_ready_slot(1) [OF slot] cs(3) by (simp add: in_table_def)
  show thesis
  proof (rule that)
    show "alloc_proc e k = Inr (?p, k\<lparr>k_conts := upd_proc ?p (\<lambda>x. x\<lparr>p_kstack := s, p_tf := zero_tf\<rparr>) (upd_proc ?p (\<lambda>x. x\<lparr>p_pgdir := d\<rparr>) cs), k_mem := f3\<rparr>)"
      using cs(1) f1(1) f3(1) nn by (simp add: alloc_proc_def pgdir_init_def)
    show "agree (set (pages_of n p (k_mem k))) (k_mem k) (k_mem (k\<lparr>k_conts := upd_proc ?p (\<lambda>x. x\<lparr>p_kstack := s, p_tf := zero_tf\<rparr>) (upd_proc ?p (\<lambda>x. x\<lparr>p_pgdir := d\<rparr>) cs), k_mem := f3\<rparr>))"
      using f1(3) f2(2) f3(3) by (simp add: agree_def)
    have "agree {r. Virtual_Memory.page_ok r \<and> r \<noteq> d} f1 ?f2"
      using f1(4) by (auto simp: agree_def)
    then show "agree {r. Virtual_Memory.page_ok r \<and> r \<noteq> d} (k_mem k)
        (k_mem (k\<lparr>k_conts := upd_proc ?p (\<lambda>x. x\<lparr>p_kstack := s, p_tf := zero_tf\<rparr>) (upd_proc ?p (\<lambda>x. x\<lparr>p_pgdir := d\<rparr>) cs), k_mem := f3\<rparr>))"
      using f1(3) f3(3) by (simp add: agree_def)
  qed (use f3(2) cs(2,3) j in \<open>simp_all add: in_table_def proc_at_upd\<close>)
qed

section \<open>Files of a child\<close>

lemma filedup_tree: "filedup f s = Inr s' \<Longrightarrow> fs_tree s' = fs_tree s"
  by (auto simp: filedup_def bindE_eq_Inr)

definition given :: "ptr list \<Rightarrow> nat list \<Rightarrow> ptr list \<Rightarrow> ptr list" where
  "given fs is os = map (\<lambda>i. if i \<in> set is \<and> fs ! i \<noteq> NULL then fs ! i else os ! i) [0 ..< NOFILE]"

definition dup_ready :: "kenv \<Rightarrow> pref \<Rightarrow> nat list \<Rightarrow> kernel \<Rightarrow> bool" where
  "dup_ready e p is k \<longleftrightarrow> in_table p k \<and> me e \<noteq> p \<and> table_ok (k_fs k) \<and> distinct is \<and> (\<forall>i \<in> set is. i < NOFILE)
     \<and> length (p_ofile (curproc e k)) = NOFILE \<and> length (p_ofile (proc_at (k_conts k) p)) = NOFILE
     \<and> (\<forall>f \<in> set (p_ofile (curproc e k)) - {NULL}. f \<in> files (k_fs k) \<and> 0 < refs (k_fs k) f \<and> refs (k_fs k) f + length is < 2 ^ 31)"

definition dup_done :: "kenv \<Rightarrow> pref \<Rightarrow> nat list \<Rightarrow> kernel \<Rightarrow> kernel \<Rightarrow> bool" where
  "dup_done e p is k k' \<longleftrightarrow> k_mem k' = k_mem k \<and> fs_tree (k_fs k') = fs_tree (k_fs k) \<and> table_ok (k_fs k') \<and> files (k_fs k') = files (k_fs k)
    \<and> (\<forall>f \<in> files (k_fs k). refs (k_fs k') f = refs (k_fs k) f + count_list (map ((!) (p_ofile (curproc e k))) is) f)
    \<and> (\<forall>q. in_table q k' = in_table q k)
    \<and> (\<forall>q. proc_at (k_conts k') q = (if q = p then (proc_at (k_conts k) p)\<lparr>p_ofile := given (p_ofile (curproc e k)) is (p_ofile (proc_at (k_conts k) p))\<rparr>
         else proc_at (k_conts k) q))"

lemma dup_one:
  assumes ready: "dup_ready e p (i # is) k" and f: "p_ofile (curproc e k) ! i \<noteq> NULL"
  obtains k1 where "dup_files e p (i # is) k = dup_files e p is k1" "dup_ready e p is k1" "\<forall>k'. dup_done e p is k1 k' \<longrightarrow> dup_done e p (i # is) k k'"
proof -
  let ?fs = "p_ofile (curproc e k)" and ?os = "p_ofile (proc_at (k_conts k) p)"
  let ?f = "?fs ! i"
  have r: "in_table p k" "me e \<noteq> p" "table_ok (k_fs k)" "i \<notin> set is" "i < NOFILE" "length ?fs = NOFILE" "length ?os = NOFILE"
      "\<forall>f \<in> set ?fs - {NULL}. f \<in> files (k_fs k) \<and> 0 < refs (k_fs k) f \<and> refs (k_fs k) f + length (i # is) < 2 ^ 31"
    using ready by (auto simp: dup_ready_def)
  then have "?f \<in> set ?fs - {NULL}"
    using f by simp
  then have f: "?f \<in> files (k_fs k)" "0 < refs (k_fs k) ?f" "refs (k_fs k) ?f + length (i # is) < 2 ^ 31"
    using r(8) by blast+
  then have "refs (k_fs k) ?f + 1 < 2 ^ 31"
    by simp
  note f = f(1,2) this
  from ft.dup_some [OF r(3) f] obtain s where s: "filedup ?f (k_fs k) = Inr s" "table_ok s" "files s = files (k_fs k)"
      "\<And>g. g \<in> files (k_fs k) \<Longrightarrow> refs s g = (if g = ?f then refs (k_fs k) ?f + 1 else refs (k_fs k) g)"
    by blast
  define k1 where "k1 = set_proc p (\<lambda>x. x\<lparr>p_ofile := (p_ofile x)[i := ?f]\<rparr>) (k\<lparr>k_fs := s\<rparr>)"
  have k1: "k_mem k1 = k_mem k" "k_fs k1 = s" "\<And>q. in_table q k1 = in_table q k" "curproc e k1 = curproc e k"
      "\<And>q. proc_at (k_conts k1) q = (if q = p then (proc_at (k_conts k) p)\<lparr>p_ofile := ?os[i := ?f]\<rparr> else proc_at (k_conts k) q)"
    using r(1,2) by (simp_all add: k1_def curproc_set_proc proc_at_set_proc)
  have "given ?fs is (?os[i := ?f]) = given ?fs (i # is) ?os"
    using assms(2) r(4,7) unfolding given_def by (auto simp: nth_list_update intro: nth_list_update_neq)
  then have "dup_done e p (i # is) k k'" if "dup_done e p is k1 k'" for k'
    using that k1 s(3,4) filedup_tree [OF s(1)] by (auto simp: dup_done_def)
  moreover have "g \<in> files s \<and> 0 < refs s g \<and> refs s g + length is < 2 ^ 31" if "g \<in> set ?fs - {NULL}" for g
    using r(8) [rule_format, OF that] s(3,4) by auto
  then have "dup_ready e p is k1"
    using ready k1 s(2) by (auto simp: dup_ready_def)
  moreover have "dup_files e p (i # is) k = dup_files e p is k1"
    using assms(2) s(1) by (simp add: k1_def)
  ultimately show thesis
    using that by blast
qed

lemma dup_files_ok: "dup_ready e p is k \<Longrightarrow> \<exists>k'. dup_files e p is k = Inr k' \<and> dup_done e p is k k'"
proof (induction "is" arbitrary: k)
  case Nil
  then have "given (p_ofile (curproc e k)) [] (p_ofile (proc_at (k_conts k) p)) = p_ofile (proc_at (k_conts k) p)"
    using map_nth [of "p_ofile (proc_at (k_conts k) p)"] by (simp add: given_def dup_ready_def)
  then show ?case
    using Nil by (intro exI [of _ k]) (simp add: dup_done_def dup_ready_def)
next
  case (Cons i "is")
  show ?case
  proof (cases "p_ofile (curproc e k) ! i = NULL")
    case True
    have "given (p_ofile (curproc e k)) (i # is) os = given (p_ofile (curproc e k)) is os" for os
      using True unfolding given_def by auto
    moreover have "NULL \<notin> files (k_fs k)"
      using ft.null [of "k_fs k"] Cons.prems by (simp add: dup_ready_def)
    ultimately have "dup_done e p (i # is) k k'" if "dup_done e p is k k'" for k'
      using that True by (auto simp: dup_done_def)
    moreover have "refs (k_fs k) f + length (i # is) < 2 ^ 31 \<Longrightarrow> refs (k_fs k) f + length is < 2 ^ 31" for f
      by simp
    then have "dup_ready e p is k"
      using Cons.prems unfolding dup_ready_def by (metis distinct.simps(2) list.set_intros(2))
    ultimately show ?thesis
      using Cons.IH [of k] True by fastforce
  next
    case False
    with Cons.prems obtain k1 where "dup_files e p (i # is) k = dup_files e p is k1" "dup_ready e p is k1"
        "\<forall>k'. dup_done e p is k1 k' \<longrightarrow> dup_done e p (i # is) k k'"
      by (rule dup_one)
    then show ?thesis
      using Cons.IH [of k1] by metis
  qed
qed

section \<open>Fork as a whole\<close>

definition fork_ready :: "kenv \<Rightarrow> kernel \<Rightarrow> nat \<Rightarrow> ptr list \<Rightarrow> bool" where
  "fork_ready e k j ps \<longleftrightarrow> slot_ready e k j \<and> vm_inv 4 (p_pgdir (curproc e k)) (k_mem k) ps
     \<and> length (pages_of 4 (p_pgdir (curproc e k)) (k_mem k)) + 2 \<le> length ps
     \<and> table_ok (k_fs k) \<and> length (p_ofile (curproc e k)) = NOFILE \<and> p_ofile (proc_at (k_conts k) (e_this e, j)) = replicate NOFILE NULL
     \<and> (\<forall>f \<in> set (p_ofile (curproc e k)) - {NULL}. f \<in> files (k_fs k) \<and> 0 < refs (k_fs k) f \<and> refs (k_fs k) f + NOFILE < 2 ^ 31)
     \<and> it_cwd (fs_tree (k_fs k)) \<noteq> NULL"

text \<open>The record of the child, with its page table and kernel stack.\<close>

definition child_of :: "kenv \<Rightarrow> kernel \<Rightarrow> nat \<Rightarrow> ptr \<Rightarrow> ptr \<Rightarrow> proc" where
  "child_of e k j q s = (proc_at (k_conts k) (e_this e, j))\<lparr>p_pid := new_pid e k, p_state := RUNNABLE, p_pgdir := q, p_kstack := s,
     p_tf := (p_tf (curproc e k))\<lparr>tf_x := (tf_x (p_tf (curproc e k)))[0 := 0]\<rparr>, p_sz := p_sz (curproc e k), p_parent := Some (me e),
     p_ofile := p_ofile (curproc e k), p_cwd := it_cwd (fs_tree (k_fs k))\<rparr>"

definition forked :: "kenv \<Rightarrow> kernel \<Rightarrow> nat \<Rightarrow> ptr list \<Rightarrow> ptr \<Rightarrow> ptr \<Rightarrow> ptr list \<Rightarrow> ptr list \<Rightarrow> kernel \<Rightarrow> bool" where
  "forked e k j ps q s us ps' k' \<longleftrightarrow> (\<exists>d. ps = d # s # us @ ps')
     \<and> (\<forall>p. proc_at (k_conts k') p = (if p = (e_this e, j) then child_of e k j q s else proc_at (k_conts k) p))
     \<and> (\<forall>p. in_table p k' = in_table p k)
     \<and> vm_inv 4 q (k_mem k') ps' \<and> vm_inv 4 (p_pgdir (curproc e k)) (k_mem k') ps' \<and> set (pages_of 4 q (k_mem k')) = set us
     \<and> agree (set (pages_of 4 (p_pgdir (curproc e k)) (k_mem k))) (k_mem k) (k_mem k')
     \<and> agree {r. Virtual_Memory.page_ok r \<and> r \<notin> set ps} (k_mem k) (k_mem k')
     \<and> same_tree 4 (p_pgdir (curproc e k)) q (k_mem k) (k_mem k')
     \<and> table_ok (k_fs k') \<and> files (k_fs k') = files (k_fs k)
     \<and> fs_tree (k_fs k') = inode_share (it_cwd (fs_tree (k_fs k))) (fs_tree (k_fs k))
     \<and> (\<forall>f \<in> files (k_fs k). refs (k_fs k') f = refs (k_fs k) f + count_list (p_ofile (curproc e k)) f)"

lemma given_all: "length fs = NOFILE \<Longrightarrow> given fs [0 ..< NOFILE] (replicate NOFILE NULL) = fs"
  unfolding given_def by (rule nth_equalityI) auto

lemma fork_ok:
  assumes "fork_ready e k j ps"
  shows "\<exists>k' q s us ps'. fork e k = Inr (of_int (new_pid e k), k') \<and> forked e k j ps q s us ps' k'"
proof -
  let ?p = "(e_this e, j)" and ?c = "curproc e k"
  let ?pg = "p_pgdir ?c"
  have r: "slot_ready e k j" "vm_inv 4 ?pg (k_mem k) ps" "length (pages_of 4 ?pg (k_mem k)) + 2 \<le> length ps" "table_ok (k_fs k)"
      "length (p_ofile ?c) = NOFILE" "p_ofile (proc_at (k_conts k) ?p) = replicate NOFILE NULL" "it_cwd (fs_tree (k_fs k)) \<noteq> NULL"
      "\<forall>f \<in> set (p_ofile ?c) - {NULL}. f \<in> files (k_fs k) \<and> 0 < refs (k_fs k) f \<and> refs (k_fs k) f + NOFILE < 2 ^ 31"
    using assms unfolding fork_ready_def by blast+
  note slot = slot_ready_slot [OF r(1)]
  obtain d s ps1 where ps: "ps = d # s # ps1" "length (pages_of 4 ?pg (k_mem k)) \<le> length ps1"
    using r(3) by (cases ps; cases "tl ps") auto
  from r(1) r(2) [unfolded ps(1)] obtain k1 where k1: "alloc_proc e k = Inr (?p, k1)" "k_fs k1 = k_fs k" "vm_inv 4 ?pg (k_mem k1) ps1"
      "agree (set (pages_of 4 ?pg (k_mem k))) (k_mem k) (k_mem k1)" "\<And>q. in_table q k1 = in_table q k"
      "\<And>q. proc_at (k_conts k1) q = (if q = ?p then (proc_at (k_conts k) q)\<lparr>p_pid := new_pid e k, p_state := EMBRYO, p_pgdir := d, p_kstack := s, p_tf := zero_tf\<rparr>
         else proc_at (k_conts k) q)"
      "agree {r. Virtual_Memory.page_ok r \<and> r \<noteq> d} (k_mem k) (k_mem k1)"
    using alloc_proc_ok by blast
  have c1: "curproc e k1 = ?c"
    using k1(6) slot(2) by (simp add: curproc_def)
  have pages: "pages_of 4 ?pg (k_mem k1) = pages_of 4 ?pg (k_mem k)"
    by (rule tree_frame(1) [OF k1(4)])
  have "length (pages_of 4 ?pg (k_mem k1)) \<le> length ps1"
    using ps(2) pages by simp
  with k1(3) obtain q f' us ps' where c: "uvm_copy ?pg (k_mem k1) = Inr (q, f')" "copied_tree 4 ?pg (k_mem k1) ps1 q f' us ps'" "vm_inv 4 q f' ps'"
      "vm_inv 4 ?pg f' ps'" "agree (set (pages_of 4 ?pg (k_mem k1))) (k_mem k1) f'"
    by (rule uvm_copy_copies)
  have q: "q \<noteq> NULL"
    using c(3) root_page [of q 4 f'] page_ok_not_null [of q] by (auto simp: vm_inv_def)
  let ?g = "\<lambda>x. x\<lparr>p_sz := p_sz ?c, p_tf := (p_tf ?c)\<lparr>tf_x := (tf_x (p_tf ?c))[0 := 0]\<rparr>, p_parent := Some (me e)\<rparr>"
  define k2 where "k2 = set_proc ?p ?g (set_proc ?p (\<lambda>x. x\<lparr>p_pgdir := q\<rparr>) (k1\<lparr>k_mem := f'\<rparr>))"
  have k2: "k_mem k2 = f'" "k_fs k2 = k_fs k" "\<And>p. in_table p k2 = in_table p k" "curproc e k2 = ?c"
      "\<And>p. proc_at (k_conts k2) p = (if p = ?p then ?g ((proc_at (k_conts k) ?p)\<lparr>p_pid := new_pid e k, p_state := EMBRYO, p_pgdir := q, p_kstack := s\<rparr>)
         else proc_at (k_conts k) p)"
    using slot k1(2,5,6) c1 by (simp_all add: k2_def curproc_set_proc proc_at_set_proc)
  have "dup_ready e ?p [0 ..< NOFILE] k2"
    using slot r(4,5,6,8) k2 by (auto simp: dup_ready_def)
  from dup_files_ok [OF this] obtain k3 where k3: "dup_files e ?p [0 ..< NOFILE] k2 = Inr k3" "dup_done e ?p [0 ..< NOFILE] k2 k3"
    by blast
  have d3: "k_mem k3 = f'" "fs_tree (k_fs k3) = fs_tree (k_fs k)" "\<And>p. in_table p k3 = in_table p k" "table_ok (k_fs k3)" "files (k_fs k3) = files (k_fs k)"
      "\<And>f. f \<in> files (k_fs k) \<Longrightarrow> refs (k_fs k3) f = refs (k_fs k) f + count_list (p_ofile ?c) f"
      "\<And>p. proc_at (k_conts k3) p = (if p = ?p then (proc_at (k_conts k2) ?p)\<lparr>p_ofile := p_ofile ?c\<rparr> else proc_at (k_conts k) p)"
    using k3(2) k2 r(5,6) map_nth [of "p_ofile ?c"] by (simp_all add: dup_done_def given_all del: split_paired_All)
  let ?cwd = "it_cwd (fs_tree (k_fs k))"
  define k4 where "k4 = set_proc ?p (\<lambda>x. x\<lparr>p_cwd := ?cwd, p_state := RUNNABLE\<rparr>) (k3\<lparr>k_fs := (k_fs k3)\<lparr>fs_tree := inode_share ?cwd (fs_tree (k_fs k))\<rparr>\<rparr>)"
  have k4: "proc_at (k_conts k4) p = (if p = ?p then child_of e k j q s else proc_at (k_conts k) p)" for p
    using slot(1) d3(3,7) k2(5) by (simp add: k4_def proc_at_set_proc child_of_def)
  have "fork e k = Inr (of_int (p_pid (proc_at (k_conts k4) ?p)), k4)"
    using k1(1) c1 c(1) q r(7) k3(1) d3(2) slot k1(5) unfolding fork_def by (simp add: k2_def k4_def curproc_set_proc Let_def)
  then have "fork e k = Inr (of_int (new_pid e k), k4)"
    unfolding k4 by (simp add: child_of_def)
  moreover have "agree {r. Virtual_Memory.page_ok r \<and> r \<notin> set us} (k_mem k1) f'" "set us \<subseteq> set ps"
    using c(2) ps(1) by (auto simp: copied_tree_def)
  then have "agree {r. Virtual_Memory.page_ok r \<and> r \<notin> set ps} (k_mem k) f'"
    using k1(7) ps(1) by (auto simp: agree_def)
  then have "forked e k j ps q s us ps' k4"
    using ps(1) c k4 d3 k1(4) pages same_tree_source [OF k1(4)] copied_pages [OF c(2)]
    by (simp add: forked_def k4_def copied_tree_def agree_def del: split_paired_All)
  ultimately show ?thesis
    by blast
qed

section \<open>Exit and wait as a whole\<close>

text \<open>What the end of a process and the switches between processes keep of the process records and of memory.\<close>

definition same_kin :: "proc \<Rightarrow> proc \<Rightarrow> bool" where
  "same_kin p p' \<longleftrightarrow> p_pgdir p' = p_pgdir p \<and> p_kstack p' = p_kstack p \<and> p_parent p' = p_parent p \<and> p_pid p' = p_pid p"

definition kin :: "kernel \<Rightarrow> kernel \<Rightarrow> bool" where
  "kin k k' \<longleftrightarrow> k_mem k' = k_mem k \<and> (\<forall>q. in_table q k' = in_table q k)
     \<and> (\<forall>q. in_table q k \<longrightarrow> same_kin (proc_at (k_conts k) q) (proc_at (k_conts k') q)
          \<and> (p_state (proc_at (k_conts k') q) = UNUSED \<longleftrightarrow> p_state (proc_at (k_conts k) q) = UNUSED))"

lemma kin_refl: "kin k k"
  by (simp add: kin_def same_kin_def)

lemma kin_trans: "kin k1 k2 \<Longrightarrow> kin k2 k3 \<Longrightarrow> kin k1 k3"
  by (simp add: kin_def same_kin_def del: split_paired_All)

lemma kinD:
  assumes "kin k k'"
  shows "k_mem k' = k_mem k" "in_table q k' = in_table q k"
    "in_table q k \<Longrightarrow> same_kin (proc_at (k_conts k) q) (proc_at (k_conts k') q)"
    "in_table q k \<Longrightarrow> p_state (proc_at (k_conts k') q) = UNUSED \<longleftrightarrow> p_state (proc_at (k_conts k) q) = UNUSED"
  using assms by (simp_all add: kin_def del: split_paired_All)

lemma kin_set_proc:
  assumes "\<And>x. same_kin x (g x)" and "in_table p k \<Longrightarrow> p_state (g (proc_at (k_conts k) p)) = UNUSED \<longleftrightarrow> p_state (proc_at (k_conts k) p) = UNUSED"
    and "in_table p k"
  shows "kin k (set_proc p g k)"
  using assms by (auto simp: kin_def proc_at_set_proc same_kin_def)

lemma kin_fs [simp]: "kin k (k'\<lparr>k_fs := s\<rparr>) = kin k k'"
  by (simp add: kin_def)

lemma close_files_kin:
  "close_files e is k = Inr k' \<Longrightarrow> in_table (me e) k \<Longrightarrow>
     kin k k' \<and> (\<forall>q. p_state (proc_at (k_conts k') q) = p_state (proc_at (k_conts k) q) \<and> p_chan (proc_at (k_conts k') q) = p_chan (proc_at (k_conts k) q))"
proof (induction "is" arbitrary: k)
  case Nil
  then show ?case by (simp add: kin_refl)
next
  case (Cons i "is")
  let ?f = "p_ofile (curproc e k) ! i"
  show ?case
  proof (cases "?f = NULL")
    case True
    then show ?thesis using Cons by simp
  next
    case False
    then obtain s where s: "close_files e is (set_proc (me e) (\<lambda>x. x\<lparr>p_ofile := (p_ofile x)[i := NULL]\<rparr>) (k\<lparr>k_fs := s\<rparr>)) = Inr k'"
      using Cons.prems(1) by (auto simp: bindE_eq_Inr)
    let ?k = "set_proc (me e) (\<lambda>x. x\<lparr>p_ofile := (p_ofile x)[i := NULL]\<rparr>) (k\<lparr>k_fs := s\<rparr>)"
    have "kin (k\<lparr>k_fs := s\<rparr>) ?k"
      by (rule kin_set_proc) (use Cons.prems(2) in \<open>simp_all add: same_kin_def\<close>)
    then have "kin k ?k" using kin_trans [of k "k\<lparr>k_fs := s\<rparr>"] by (simp add: kin_refl)
    moreover have "p_state (proc_at (k_conts ?k) q) = p_state (proc_at (k_conts k) q) \<and> p_chan (proc_at (k_conts ?k) q) = p_chan (proc_at (k_conts k) q)" for q
      using Cons.prems(2) by (simp add: proc_at_set_proc)
    ultimately show ?thesis
      using Cons.IH [OF s] Cons.prems(2) kin_trans [of k ?k k'] by (simp del: split_paired_All)
  qed
qed

lemma proc_at_set_table:
  "proc_at (k_conts (set_table e s k)) q = (if fst q = e_this e then ptable s ! snd q else proc_at (k_conts k) q)"
  by (simp add: set_table_def proc_at_def)

lemma in_table_set_table:
  "length (ptable s) = length (c_ptable (k_conts k (e_this e))) \<Longrightarrow> in_table q (set_table e s k) = in_table q k"
  by (simp add: set_table_def in_table_def)

lemma kin_set_table:
  assumes "length (ptable s) = length (c_ptable (k_conts k (e_this e)))"
    and "\<And>i. i < length (ptable s) \<Longrightarrow> same_kin (proc_at (k_conts k) (e_this e, i)) (ptable s ! i)
      \<and> (p_state (ptable s ! i) = UNUSED \<longleftrightarrow> p_state (proc_at (k_conts k) (e_this e, i)) = UNUSED)"
  shows "kin k (set_table e s k)"
proof -
  have "same_kin (proc_at (k_conts k) q) (proc_at (k_conts (set_table e s k)) q)
      \<and> (p_state (proc_at (k_conts (set_table e s k)) q) = UNUSED \<longleftrightarrow> p_state (proc_at (k_conts k) q) = UNUSED)" if "in_table q k" for q
    using that assms(2) [of "snd q"] assms(1) by (cases q) (auto simp: proc_at_set_table in_table_def same_kin_def)
  then show ?thesis
    using in_table_set_table [OF assms(1)] by (simp add: kin_def set_table_def del: split_paired_All)
qed

lemma exit_effect:
  assumes "exit e k = Inr k'" and "in_table (me e) k" and "p_state (curproc e k) = RUNNING"
  shows "kin k k'" "p_state (proc_at (k_conts k') (me e)) = ZOMBIE"
    "p_parent (curproc e k) = Some (e_this e, i) \<Longrightarrow> in_table (e_this e, i) k \<Longrightarrow> p_state (proc_at (k_conts k) (e_this e, i)) = SLEEPING \<Longrightarrow>
       p_chan (proc_at (k_conts k) (e_this e, i)) = ProcChan (e_this e, i) \<Longrightarrow> p_state (proc_at (k_conts k') (e_this e, i)) = RUNNABLE"
    "in_table (e_this e, i) k \<Longrightarrow> p_state (proc_at (k_conts k) (e_this e, i)) \<noteq> ZOMBIE \<Longrightarrow> i \<noteq> e_slot e \<Longrightarrow>
       p_state (proc_at (k_conts k') (e_this e, i)) \<noteq> ZOMBIE"
proof -
  obtain k1 fs t where k1: "close_files e [0 ..< NOFILE] k = Inr k1"
    and x: "exit_proc (Pair (e_this e)) (e_cpu e) (table_of e (k1\<lparr>k_fs := fs\<rparr>)) = Inr t" "k' = set_table e t (k1\<lparr>k_fs := fs\<rparr>)"
    using assms(1) by (auto simp: exit_def bindE_eq_Inr Let_def)
  define k2 where "k2 = k1\<lparr>k_fs := fs\<rparr>"
  have t: "exit_proc (Pair (e_this e)) (e_cpu e) (table_of e k2) = Inr t" "k' = set_table e t k2"
    using x by (simp_all add: k2_def)
  have c: "kin k k2" "\<And>q. p_state (proc_at (k_conts k2) q) = p_state (proc_at (k_conts k) q)" "\<And>q. p_chan (proc_at (k_conts k2) q) = p_chan (proc_at (k_conts k) q)"
    using close_files_kin [OF k1 assms(2)] by (simp_all add: k2_def del: split_paired_All)
  let ?t = "c_ptable (k_conts k2 (e_this e))"
  obtain t' where w: "woken ?t t'" "exit_table (Pair (e_this e)) (e_slot e) ?t = t'[e_slot e := (t' ! e_slot e)\<lparr>p_state := ZOMBIE\<rparr>]"
      "\<And>q i. p_parent (?t ! e_slot e) = Some q \<Longrightarrow> i < length ?t \<Longrightarrow> p_state (t' ! i) = SLEEPING \<Longrightarrow> p_chan (t' ! i) \<noteq> ProcChan q"
    by (rule exit_table_woken) blast
  have pt: "ptable t = t'[e_slot e := (t' ! e_slot e)\<lparr>p_state := ZOMBIE\<rparr>]"
    using t(1) w(2) by (auto simp: exit_proc_def table_of_def enter_sched_def switch_back_def sched_simple_def split: if_splits)
  have len: "length t' = length ?t" "length (ptable t) = length ?t"
    using w(1) pt by (simp_all add: woken_def)
  have nth: "?t ! i = proc_at (k_conts k2) (e_this e, i)" for i by (simp add: proc_at_def)
  have tab: "i < length ?t \<longleftrightarrow> in_table (e_this e, i) k" for i
    using kinD(2) [OF c(1), of "(e_this e, i)"] by (simp add: in_table_def)
  have woke: "t' ! i = ?t ! i \<or> p_state (?t ! i) = SLEEPING \<and> t' ! i = (?t ! i)\<lparr>p_state := RUNNABLE\<rparr>" if "i < length ?t" for i
    using w(1) that by (simp add: woken_def)
  have run: "p_state (?t ! e_slot e) = RUNNING" using assms(3) c(2) by (simp add: nth curproc_def me_def)
  have "kin k2 k'" unfolding t(2)
  proof (rule kin_set_table)
    show "length (ptable t) = length ?t" by (rule len(2))
    show "same_kin (proc_at (k_conts k2) (e_this e, i)) (ptable t ! i)
        \<and> (p_state (ptable t ! i) = UNUSED \<longleftrightarrow> p_state (proc_at (k_conts k2) (e_this e, i)) = UNUSED)" if "i < length (ptable t)" for i
      using woke [of i] that len run by (cases "i = e_slot e") (auto simp: pt same_kin_def nth)
  qed
  then show "kin k k'" by (rule kin_trans [OF c(1)])
  have at: "proc_at (k_conts k') (e_this e, i) = (if i = e_slot e then (t' ! i)\<lparr>p_state := ZOMBIE\<rparr> else t' ! i)" if "in_table (e_this e, i) k" for i
    using that len tab [of i] by (simp add: t(2) proc_at_set_table pt)
  show "p_state (proc_at (k_conts k') (me e)) = ZOMBIE"
    using at [of "e_slot e"] assms(2) by (simp add: me_def)
  show "p_state (proc_at (k_conts k') (e_this e, i)) \<noteq> ZOMBIE"
    if "in_table (e_this e, i) k" "p_state (proc_at (k_conts k) (e_this e, i)) \<noteq> ZOMBIE" "i \<noteq> e_slot e"
    using at [OF that(1)] woke [of i] tab [of i] that c(2) by (auto simp: nth)
  assume p: "p_parent (curproc e k) = Some (e_this e, i)" "in_table (e_this e, i) k" "p_state (proc_at (k_conts k) (e_this e, i)) = SLEEPING"
    "p_chan (proc_at (k_conts k) (e_this e, i)) = ProcChan (e_this e, i)"
  have i: "i < length ?t" "p_state (?t ! i) = SLEEPING" "p_chan (?t ! i) = ProcChan (e_this e, i)"
    using p(2-4) tab c(2,3) by (simp_all add: nth)
  have "p_parent (?t ! e_slot e) = Some (e_this e, i)"
    using p(1) kinD(3) [OF c(1) assms(2)] by (simp add: nth curproc_def me_def same_kin_def)
  then have "p_state (t' ! i) = RUNNABLE"
    using w(3) [OF _ i(1)] woke [OF i(1)] i(2,3) by auto
  moreover have "i \<noteq> e_slot e" using i(2) run by auto
  ultimately show "p_state (proc_at (k_conts k') (e_this e, i)) = RUNNABLE" using at [OF p(2)] by simp
qed

text \<open>A process that falls asleep in \<^verbatim>\<open>wait\<close>.\<close>

lemma wait_sleeps_effect:
  assumes "wait_kernel e k = Inr (None, k')" and "in_table (me e) k" and "p_state (curproc e k) \<noteq> UNUSED"
  shows "kin k k'" "k_fs k' = k_fs k" "\<And>q. q \<noteq> me e \<Longrightarrow> proc_at (k_conts k') q = proc_at (k_conts k) q"
    "p_state (proc_at (k_conts k') (me e)) = SLEEPING" "p_chan (proc_at (k_conts k') (me e)) = ProcChan (me e)"
    "in_table (e_this e, i) k \<Longrightarrow> p_parent (proc_at (k_conts k) (e_this e, i)) = Some (me e) \<Longrightarrow> p_state (proc_at (k_conts k) (e_this e, i)) \<noteq> ZOMBIE"
proof -
  let ?s = "table_of e k"
  obtain s where s: "wait_round (Pair (e_this e)) (e_cpu e) ?s = Inr (Waits, s)" "k' = set_table e s k"
    using assms(1) by (auto simp: wait_kernel_def bindE_eq_Inr Let_def split: wait_result.splits) (metis wait_result.exhaust)
  have cur: "cpu_proc ?s (e_cpu e) = Some (e_slot e)" and pt: "ptable ?s = c_ptable (k_conts k (e_this e))" by (simp_all add: table_of_def)
  have r: "sleep_proc (e_cpu e) (ProcChan (me e)) ?s = Inr s"
      "\<And>j. j < length (ptable ?s) \<Longrightarrow> p_parent (ptable ?s ! j) = Some (me e) \<Longrightarrow> p_state (ptable ?s ! j) \<noteq> ZOMBIE"
    using wait_cases [OF s(1) cur] unfolding me_def by (metis wait_result.distinct(3,5))+
  have p: "ptable s = (ptable ?s)[e_slot e := (ptable ?s ! e_slot e)\<lparr>p_chan := ProcChan (me e), p_state := SLEEPING\<rparr>]"
    using r(1) assms(2) cur pt
    by (auto simp: sleep_proc_def enter_sched_def sched_simple_def switch_back_def set_state_def in_table_def me_def split: if_splits)
  have slot: "e_slot e < length (ptable ?s)" using assms(2) by (simp add: pt in_table_def me_def)
  have nth: "ptable ?s ! i = proc_at (k_conts k) (e_this e, i)" for i by (simp add: pt proc_at_def)
  show "kin k k'" unfolding s(2)
    by (rule kin_set_table) (use assms(3) slot in \<open>auto simp: p pt [symmetric] nth nth_list_update same_kin_def curproc_def me_def\<close>)
  show "k_fs k' = k_fs k" by (simp add: s(2) set_table_def)
  show "proc_at (k_conts k') q = proc_at (k_conts k) q" if "q \<noteq> me e" for q
    using that by (cases q) (auto simp: s(2) proc_at_set_table p nth me_def)
  show "p_state (proc_at (k_conts k') (me e)) = SLEEPING" "p_chan (proc_at (k_conts k') (me e)) = ProcChan (me e)"
    using slot by (simp_all add: s(2) proc_at_set_table p me_def)
  show "p_state (proc_at (k_conts k) (e_this e, i)) \<noteq> ZOMBIE"
    if "in_table (e_this e, i) k" "p_parent (proc_at (k_conts k) (e_this e, i)) = Some (me e)"
    using r(2) [of i] that unfolding nth by (simp add: pt in_table_def)
qed

lemma run_slot_effect:
  assumes "in_table (me e) k" and "in_table (e_this e, j) k" and "p_state (proc_at (k_conts k) (e_this e, j)) \<noteq> UNUSED"
  shows "kin k (run_slot e j k)" "p_state (proc_at (k_conts (run_slot e j k)) (e_this e, j)) = RUNNING"
    "\<And>q. q \<noteq> (e_this e, j) \<Longrightarrow> p_state (proc_at (k_conts (run_slot e j k)) q) = p_state (proc_at (k_conts k) q)"
    "\<And>q. p_chan (proc_at (k_conts (run_slot e j k)) q) = p_chan (proc_at (k_conts k) q)"
proof -
  let ?k = "set_proc (me e) (\<lambda>x. x\<lparr>p_cwd := it_cwd (fs_tree (k_fs k))\<rparr>) k"
  have "kin k ?k" using assms(1) by (intro kin_set_proc) (simp_all add: same_kin_def)
  moreover have "kin (?k\<lparr>k_fs := s\<rparr>) (set_proc (e_this e, j) (\<lambda>x. x\<lparr>p_state := RUNNING\<rparr>) (?k\<lparr>k_fs := s\<rparr>))" for s
    using assms by (intro kin_set_proc) (auto simp: same_kin_def proc_at_set_proc)
  ultimately show "kin k (run_slot e j k)"
    unfolding run_slot_def Let_def using kin_trans kin_fs by blast
  show "p_state (proc_at (k_conts (run_slot e j k)) (e_this e, j)) = RUNNING"
    "\<And>q. q \<noteq> (e_this e, j) \<Longrightarrow> p_state (proc_at (k_conts (run_slot e j k)) q) = p_state (proc_at (k_conts k) q)"
    "\<And>q. p_chan (proc_at (k_conts (run_slot e j k)) q) = p_chan (proc_at (k_conts k) q)"
    using assms by (simp_all add: run_slot_def Let_def proc_at_set_proc)
qed

lemma wait_reaps:
  assumes slots: "j < length (c_ptable (k_conts k (e_this e)))" "p_state (proc_at (k_conts k) (e_this e, j)) = ZOMBIE"
      "p_parent (proc_at (k_conts k) (e_this e, j)) = Some (me e)"
    and first: "\<And>i. i < j \<Longrightarrow> p_parent (proc_at (k_conts k) (e_this e, i)) = Some (me e) \<Longrightarrow> p_state (proc_at (k_conts k) (e_this e, i)) \<noteq> ZOMBIE"
    and c: "c = proc_at (k_conts k) (e_this e, j)" and inv: "vm_inv 4 (p_pgdir c) (k_mem k) ps"
    and stack: "Virtual_Memory.page_ok (p_kstack c)" "p_kstack c \<notin> set ps" "p_kstack c \<notin> set (pages_of 4 (p_pgdir c) (k_mem k))"
  shows "\<exists>k' qs. wait_kernel e k = Inr (Some (of_int (p_pid c)), k') \<and> free_pages (k_mem k') (p_kstack c # qs @ ps)
    \<and> set qs = set (pages_of 4 (p_pgdir c) (k_mem k)) \<and> p_state (proc_at (k_conts k') (e_this e, j)) = UNUSED
    \<and> agree {r. Virtual_Memory.page_ok r \<and> r \<notin> insert (p_kstack c) (set qs)} (k_mem k) (k_mem k')
    \<and> (\<forall>q. in_table q k' = in_table q k) \<and> (\<forall>q. q \<noteq> (e_this e, j) \<longrightarrow> proc_at (k_conts k') q = proc_at (k_conts k) q)"
proof -
  let ?t = "c_ptable (k_conts k (e_this e))"
  have "find_from (\<lambda>i. p_parent (?t ! i) = Some (me e) \<and> p_state (?t ! i) = ZOMBIE) 0 (length ?t) = Some j"
    unfolding find_from_Some using slots first by (auto simp: proc_at_def)
  then have w: "wait_round (Pair (e_this e)) (e_cpu e) (table_of e k)
      = Inr (Reaped j (p_pid c), (table_of e k)\<lparr>ptable := ?t[j := reap c]\<rparr>)"
    by (simp add: wait_round_def table_of_def me_def c proc_at_def)
  let ?k = "set_table e ((table_of e k)\<lparr>ptable := ?t[j := reap c]\<rparr>) k"
  have r: "proc_at (k_conts ?k) (e_this e, j) = reap c" "\<And>q. q \<noteq> (e_this e, j) \<Longrightarrow> proc_at (k_conts ?k) q = proc_at (k_conts k) q"
      "\<And>q. in_table q ?k = in_table q k"
    using slots(1) by (simp_all add: proc_at_set_table in_table_set_table) (auto simp: proc_at_def, metis nth_list_update_neq)
  have "releases 4 (recur_vm_free 3)"
    using recur_vm_free_releases [of 3] by simp
  then obtain f1 qs where f1: "vm_free (p_pgdir c) (k_mem k) = Inr f1" "free_pages f1 (qs @ ps)" "set qs = set (pages_of 4 (p_pgdir c) (k_mem k))"
      "agree {r. Virtual_Memory.page_ok r \<and> r \<notin> set (pages_of 4 (p_pgdir c) (k_mem k))} (k_mem k) f1"
    using inv unfolding releases_def vm_free_def by blast
  have "p_kstack c \<notin> set (qs @ ps)"
    using f1(3) stack by simp
  with f1(2) stack(1) obtain f2 where f2: "kfree (p_kstack c) f1 = Inr f2" "free_pages f2 (p_kstack c # qs @ ps)"
      "agree {r. Virtual_Memory.page_ok r \<and> r \<noteq> p_kstack c} f1 f2"
    by (rule kfree_page)
  have a: "agree {r. Virtual_Memory.page_ok r \<and> r \<notin> insert (p_kstack c) (set qs)} (k_mem k) f2"
    using f1(3,4) f2(3) by (auto simp: agree_def)
  have "k_mem (set_table e x k) = k_mem k" for x
    by (simp add: set_table_def)
  then have "wait_kernel e k = Inr (Some (of_int (p_pid c)), ?k\<lparr>k_mem := f2\<rparr>)"
    using w r(1) f1(1) f2(1) by (simp add: wait_kernel_def reap_def Let_def)
  then show ?thesis
    using f1(3) f2(2) r a by (intro exI [of _ "?k\<lparr>k_mem := f2\<rparr>"] exI [of _ qs]) (simp add: reap_def del: split_paired_All)
qed

section \<open>Properties\<close>

text \<open>A process with one page and one open file, and room for a child.\<close>

definition sample_env :: kenv where
  "sample_env = \<lparr>e_cpu = 0, e_root = 0x1000, e_this = 0x1000, e_slot = 0, e_depth = 1\<rparr>"

definition sample_kernel :: kernel where
  "sample_kernel = \<lparr>k_conts = \<lambda>_. sample_container\<lparr>c_ptable := (u_proc sample_user)\<lparr>p_pgdir := pg 0\<rparr> # replicate 13 (idle_proc UNUSED)\<rparr>,
     k_fs = (u_fs sample_user)\<lparr>fs_tree := sample_dir\<lparr>it_cwd := 0x9000\<rparr>\<rparr>, k_mem = sample_space\<rparr>"

lemma sample_kernel_simps:
  "curproc sample_env sample_kernel = (u_proc sample_user)\<lparr>p_pgdir := pg 0\<rparr>" "k_mem sample_kernel = sample_space"
  "files (k_fs sample_kernel) = files (u_fs sample_user)" "refs (k_fs sample_kernel) = refs (u_fs sample_user)" "e_this sample_env = 0x1000"
  "table_ok (k_fs sample_kernel) = table_ok (u_fs sample_user)" "it_cwd (fs_tree (k_fs sample_kernel)) = 0x9000"
  "p_ofile (u_proc sample_user) = [0x1000, 0, 0, 0, 0, 0, 0, 0]" "refs (u_fs sample_user) 0x1000 = 1" "new_pid sample_env sample_kernel = 6"
  by (simp_all add: curproc_def me_def sample_env_def sample_kernel_def proc_at_def new_pid_def sample_container_def)
    (simp_all add: sample_user_def refs_def)

lemma sample_slot: "i < 14 \<Longrightarrow> 0 < i \<Longrightarrow> proc_at (k_conts sample_kernel) (0x1000, i) = idle_proc UNUSED"
  by (simp add: proc_at_def sample_kernel_def nth_Cons split: nat.split)

lemma sample_slot_0: "proc_at (k_conts sample_kernel) (0x1000, 0) = (u_proc sample_user)\<lparr>p_pgdir := pg 0\<rparr>"
  by (simp add: proc_at_def sample_kernel_def)

lemma sample_fork_ready: "fork_ready sample_env sample_kernel 1 [pg 5, pg 6, pg 7, pg 8, pg 9, pg 10, pg 11]"
proof -
  have "slot_ready sample_env sample_kernel 1"
    by (auto simp: slot_ready_def curproc_def me_def proc_at_def sample_env_def sample_kernel_def find_from.simps NPROC_def sample_user_def
        idle_proc_def sample_container_def pid_ready_def init_spinlock_def intro!: exI [of _ "[]"])
  moreover have "table_ok (u_fs sample_user)" "0x1000 \<in> files (u_fs sample_user)"
    using sample_user_ok sample_kernel_simps(8) null_not_file [of "u_fs sample_user"] by (auto simp: fd_ok_def balanced_def)
  moreover have "p_ofile (proc_at (k_conts sample_kernel) (0x1000, 1)) = replicate NOFILE NULL"
    using sample_slot [of 1] by (simp add: idle_proc_def NOFILE_def)
  ultimately show ?thesis
    using sample_space_inv sample_space_pages unfolding fork_ready_def sample_kernel_simps
    by (auto simp: sample_kernel_simps NOFILE_def)
qed

text \<open>
  C16: a fork with a free slot, a free identifier in every container, enough pages and well-counted files succeeds.  The child is runnable with a new
  identifier, the registers of its parent except for a result of 0, and its open files.  At every address it has a page
  exactly when its parent has one, with the same flags and the same words, and the two share no page.  No other process, the parent included, and
  no page of the parent is changed, and every open file counts one more reference for each descriptor of the child.
\<close>

theorem fork_correct:
  assumes "fork_ready e k j ps"
  shows "\<exists>k'. fork e k = Inr (of_int (new_pid e k), k')
    \<and> (let c = proc_at (k_conts k') (e_this e, j); p = curproc e k; f = k_mem k; f' = k_mem k'
       in p_state c = RUNNABLE \<and> p_pid c = new_pid e k \<and> p_parent c = Some (me e) \<and> p_sz c = p_sz p
        \<and> p_tf c = (p_tf p)\<lparr>tf_x := (tf_x (p_tf p))[0 := 0]\<rparr> \<and> p_ofile c = p_ofile p \<and> p_cwd c = it_cwd (fs_tree (k_fs k))
        \<and> (\<forall>q. q \<noteq> (e_this e, j) \<longrightarrow> proc_at (k_conts k') q = proc_at (k_conts k) q)
        \<and> (\<forall>va. entry_valid (pte (p_pgdir c) va f') = entry_valid (pte (p_pgdir p) va f) \<and> (entry_valid (pte (p_pgdir p) va f) \<longrightarrow>
             PTE_FLAGS (pte (p_pgdir c) va f') = PTE_FLAGS (pte (p_pgdir p) va f)
             \<and> (\<forall>i < 512. load_word (next_table (pte (p_pgdir c) va f')) i f' = load_word (next_table (pte (p_pgdir p) va f)) i f)))
        \<and> set (pages_of 4 (p_pgdir c) f') \<inter> set (pages_of 4 (p_pgdir p) f') = {}
        \<and> agree (set (pages_of 4 (p_pgdir p) f)) f f'
        \<and> (\<forall>x \<in> files (k_fs k). refs (k_fs k') x = refs (k_fs k) x + count_list (p_ofile p) x))"
proof -
  let ?p = "p_pgdir (curproc e k)"
  from fork_ok [OF assms] obtain k' q s us ps' where run: "fork e k = Inr (of_int (new_pid e k), k')" and f: "forked e k j ps q s us ps' k'"
    by blast
  have c: "proc_at (k_conts k') p = (if p = (e_this e, j) then child_of e k j q s else proc_at (k_conts k) p)" for p
    using f by (simp add: forked_def del: split_paired_All)
  have m: "same_tree 4 ?p q (k_mem k) (k_mem k')" "agree (set (pages_of 4 ?p (k_mem k))) (k_mem k) (k_mem k')" "set (pages_of 4 q (k_mem k')) = set us"
      "\<exists>d. ps = d # s # us @ ps'"
    using f by (simp_all add: forked_def)
  have path: "length (va_path va) = 3" "\<forall>i \<in> set (va_path va). i < 512" for va
    using va_path_indices(1) [of va] by (simp_all add: indices_def)
  then have "same_tree (Suc (length (va_path va))) ?p q (k_mem k) (k_mem k')" for va
    using m(1) by simp
  note e = same_tree_lookup [OF this path(2) va_path_indices(2)]
  have "set (pages_of 4 ?p (k_mem k)) \<inter> set ps = {}"
    using assms by (auto simp: fork_ready_def vm_inv_def)
  then have "set us \<inter> set (pages_of 4 ?p (k_mem k')) = {}"
    unfolding tree_frame(1) [OF m(2)] using m(4) by auto
  then show ?thesis
    using run c [of "(e_this e, j)"] c e m(2,3) f
    by (intro exI [of _ k']) (simp add: child_of_def pte_def Let_def forked_def del: split_paired_All pages_of.simps)
qed

theorem fork_correct_witness:
  "\<exists>k'. fork sample_env sample_kernel = Inr (6, k') \<and> p_ofile (proc_at (k_conts k') (0x1000, 1)) = [0x1000, 0, 0, 0, 0, 0, 0, 0]
     \<and> refs (k_fs k') 0x1000 = 2"
proof -
  have "0x1000 \<in> files (k_fs sample_kernel)"
    using sample_user_ok sample_kernel_simps(3,8) by (auto simp: fd_ok_def balanced_def)
  then show ?thesis
    using fork_correct [OF sample_fork_ready] by (auto simp: Let_def sample_kernel_simps)
qed

text \<open>The processes there are, and the pages each of them has: its kernel stack and the pages of its address space.\<close>

definition live :: "pref \<Rightarrow> kernel \<Rightarrow> bool" where
  "live q k \<longleftrightarrow> in_table q k \<and> p_state (proc_at (k_conts k) q) \<noteq> UNUSED"

definition owns :: "pref \<Rightarrow> kernel \<Rightarrow> ptr set" where
  "owns q k = insert (p_kstack (proc_at (k_conts k) q)) (set (pages_of 4 (p_pgdir (proc_at (k_conts k) q)) (k_mem k)))"

text \<open>No process has a free page.\<close>

definition apart :: "kernel \<Rightarrow> ptr list \<Rightarrow> bool" where
  "apart k ps \<longleftrightarrow> (\<forall>q. live q k \<longrightarrow> owns q k \<inter> set ps = {}
     \<and> (\<forall>r \<in> set (pages_of 4 (p_pgdir (proc_at (k_conts k) q)) (k_mem k)). Virtual_Memory.page_ok r))"

text \<open>The parent waits, the child runs and exits, the parent runs: what has changed when it looks at the table again.\<close>

lemma child_has_exited:
  assumes slot: "in_table (me e) k1" "in_table (e_this e, j) k1" "me e \<noteq> (e_this e, j)" "p_state (curproc e k1) \<noteq> UNUSED"
    and child: "p_state (proc_at (k_conts k1) (e_this e, j)) = RUNNABLE" "p_parent (proc_at (k_conts k1) (e_this e, j)) = Some (me e)"
    and w: "wait_kernel e k1 = Inr (None, k2)" and x: "exit (e\<lparr>e_slot := j\<rparr>) (run_slot e j k2) = Inr k3"
    and k5: "k5 = set_proc (me e) (\<lambda>x. x\<lparr>p_chan := NoChan\<rparr>) (run_slot (e\<lparr>e_slot := j\<rparr>) (e_slot e) k3)"
  shows "kin k1 k5" "p_state (proc_at (k_conts k2) (e_this e, j)) = RUNNABLE" "p_state (proc_at (k_conts k3) (me e)) = RUNNABLE"
    "p_state (proc_at (k_conts k5) (e_this e, j)) = ZOMBIE"
    "in_table (e_this e, i) k1 \<Longrightarrow> i \<noteq> j \<Longrightarrow> p_parent (proc_at (k_conts k5) (e_this e, i)) = Some (me e) \<Longrightarrow> p_state (proc_at (k_conts k5) (e_this e, i)) \<noteq> ZOMBIE"
proof -
  let ?e = "e\<lparr>e_slot := j\<rparr>" and ?p = "(e_this e, j)"
  let ?r = "run_slot e j k2" and ?s = "run_slot ?e (e_slot e) k3"
  note k2 = wait_sleeps_effect [OF w slot(1,4)]
  have c2: "proc_at (k_conts k2) ?p = proc_at (k_conts k1) ?p" using k2(3) slot(3) by metis
  then show s2: "p_state (proc_at (k_conts k2) ?p) = RUNNABLE" using child(1) by simp
  have t2: "in_table (me e) k2" "in_table ?p k2" using slot(1,2) kinD(2) [OF k2(1)] by simp_all
  have "p_state (proc_at (k_conts k2) ?p) \<noteq> UNUSED" using s2 by simp
  note r = run_slot_effect [OF t2 this]
  have me: "me ?e = ?p" "e_this ?e = e_this e" "e_slot ?e = j" by (simp_all add: me_def)
  have tr: "in_table q ?r = in_table q k1" for q using kinD(2) [OF k2(1)] kinD(2) [OF r(1)] by simp
  have "in_table (me ?e) ?r" "p_state (curproc ?e ?r) = RUNNING" using slot(2) tr r(2) by (simp_all add: me curproc_def)
  note k3 = exit_effect [OF x this]
  have par: "p_parent (curproc ?e ?r) = Some (e_this e, e_slot e)"
    using kinD(3) [OF r(1) t2(2)] c2 child(2) by (simp add: curproc_def me same_kin_def) (simp add: me_def)
  show s3: "p_state (proc_at (k_conts k3) (me e)) = RUNNABLE"
    using k3(3) [of "e_slot e"] par slot(1) tr [of "me e"] r(3) [OF slot(3)] r(4) [of "me e"] k2(4,5) by (simp add: me_def)
  have t3: "in_table q k3 = in_table q k1" for q using kinD(2) [OF k3(1)] tr by simp
  have "p_state (proc_at (k_conts k3) (e_this ?e, e_slot e)) \<noteq> UNUSED" using s3 by (simp add: me_def)
  moreover have "in_table (me ?e) k3" "in_table (e_this ?e, e_slot e) k3" using slot(1,2) t3 unfolding me by (simp_all add: me_def)
  ultimately have s: "kin k3 ?s" "p_state (proc_at (k_conts ?s) (me e)) = RUNNING"
      "\<And>q. q \<noteq> me e \<Longrightarrow> p_state (proc_at (k_conts ?s) q) = p_state (proc_at (k_conts k3) q)"
    using run_slot_effect [of ?e k3 "e_slot e"] by (simp_all add: me_def)
  have ts: "in_table q ?s = in_table q k1" for q using kinD(2) [OF s(1)] t3 by simp
  have "kin ?s k5" unfolding k5 using slot(1) ts by (intro kin_set_proc) (simp_all add: same_kin_def)
  then have "kin ?r k5" using kin_trans [OF k3(1)] kin_trans [OF s(1)] by blast
  then show kin: "kin k1 k5" using kin_trans [OF k2(1)] kin_trans [OF r(1)] by blast
  have st5: "p_state (proc_at (k_conts k5) q) = (if q = me e then RUNNING else p_state (proc_at (k_conts k3) q))" for q
    using slot(1) ts s(2,3) by (auto simp: k5 proc_at_set_proc)
  then show "p_state (proc_at (k_conts k5) ?p) = ZOMBIE" using k3(2) slot(3) by (simp add: me)
  assume i: "in_table (e_this e, i) k1" "i \<noteq> j" "p_parent (proc_at (k_conts k5) (e_this e, i)) = Some (me e)"
  show "p_state (proc_at (k_conts k5) (e_this e, i)) \<noteq> ZOMBIE"
  proof (cases "(e_this e, i) = me e")
    case False
    have "p_parent (proc_at (k_conts k1) (e_this e, i)) = Some (me e)"
      using i(3) kinD(3) [OF kin i(1)] by (simp add: same_kin_def)
    then have "p_state (proc_at (k_conts k1) (e_this e, i)) \<noteq> ZOMBIE" using k2(6) i(1) by simp
    then have "p_state (proc_at (k_conts ?r) (e_this e, i)) \<noteq> ZOMBIE" using r(3) [of "(e_this e, i)"] k2(3) [OF False] i(2) by simp
    then show ?thesis using k3(4) [of i] i(1,2) tr st5 False by (simp add: me)
  qed (simp add: st5)
qed

lemma fork_wait_pages:
  assumes ready: "fork_ready e k j ps" and apart: "apart k ps" and fork: "fork e k = Inr (pid, k1)" and w: "wait_kernel e k1 = Inr (None, k2)"
    and x: "exit (e\<lparr>e_slot := j\<rparr>) (run_slot e j k2) = Inr k3"
  shows "p_state (proc_at (k_conts k2) (e_this e, j)) = RUNNABLE \<and> p_state (proc_at (k_conts k3) (me e)) = RUNNABLE
    \<and> (\<exists>k4 d qs. wait_again e (run_slot (e\<lparr>e_slot := j\<rparr>) (e_slot e) k3) = Inr (Some pid, k4) \<and> free_pages (k_mem k4) qs
        \<and> d \<in> set ps \<and> set qs = set ps - {d} \<and> (\<forall>q. live q k4 \<longrightarrow> d \<notin> owns q k4))"
proof -
  let ?p = "(e_this e, j)"
  from fork_ok [OF ready] fork obtain q s us ps' where pid: "pid = of_int (new_pid e k)" and f: "forked e k j ps q s us ps' k1"
    by auto
  obtain d where d: "ps = d # s # us @ ps'"
    using f by (auto simp: forked_def)
  have k1: "\<And>p. proc_at (k_conts k1) p = (if p = ?p then child_of e k j q s else proc_at (k_conts k) p)"
      "\<And>p. in_table p k1 = in_table p k" "vm_inv 4 q (k_mem k1) ps'" "set (pages_of 4 q (k_mem k1)) = set us"
      "agree {r. Virtual_Memory.page_ok r \<and> r \<notin> set ps} (k_mem k) (k_mem k1)"
    using f by (simp_all add: forked_def del: split_paired_All)
  have slot: "slot_ready e k j"
    using ready by (simp add: fork_ready_def)
  note tab = slot_ready_slot [OF slot]
  have run: "in_table (me e) k" "p_state (curproc e k) \<noteq> UNUSED"
    using slot by (simp_all add: slot_ready_def in_table_def me_def)
  define k5 where "k5 = set_proc (me e) (\<lambda>x. x\<lparr>p_chan := NoChan\<rparr>) (run_slot (e\<lparr>e_slot := j\<rparr>) (e_slot e) k3)"
  have "in_table (me e) k1" "in_table ?p k1" "me e \<noteq> ?p" "p_state (curproc e k1) \<noteq> UNUSED"
      "p_state (proc_at (k_conts k1) ?p) = RUNNABLE" "p_parent (proc_at (k_conts k1) ?p) = Some (me e)"
    using tab run k1(1) [of ?p] k1(1) [of "me e"] k1(2) by (simp_all add: curproc_def child_of_def)
  note k5 = child_has_exited [OF this w x k5_def]
  define c where "c = proc_at (k_conts k5) ?p"
  have c: "p_pgdir c = q" "p_kstack c = s" "p_parent c = Some (me e)" "p_pid c = new_pid e k" "p_state c = ZOMBIE"
    using kinD(3) [OF k5(1), of ?p] tab(1) k1(1) [of ?p] k1(2) k5(4) by (simp_all add: c_def same_kin_def child_of_def)
  have fresh: "Virtual_Memory.page_ok s" "distinct ps"
    using ready unfolding fork_ready_def vm_inv_def d by auto
  have t5: "in_table p k5 = in_table p k" for p using kinD(2) [OF k5(1)] k1(2) by simp
  have "\<exists>k' qs. wait_kernel e k5 = Inr (Some (of_int (p_pid c)), k') \<and> free_pages (k_mem k') (p_kstack c # qs @ ps')
    \<and> set qs = set (pages_of 4 (p_pgdir c) (k_mem k5)) \<and> p_state (proc_at (k_conts k') ?p) = UNUSED
    \<and> agree {r. Virtual_Memory.page_ok r \<and> r \<notin> insert (p_kstack c) (set qs)} (k_mem k5) (k_mem k')
    \<and> (\<forall>q. in_table q k' = in_table q k5) \<and> (\<forall>q. q \<noteq> ?p \<longrightarrow> proc_at (k_conts k') q = proc_at (k_conts k5) q)"
  proof (rule wait_reaps)
    show "j < length (c_ptable (k_conts k5 (e_this e)))" using tab(1) t5 [of ?p] by (simp add: in_table_def)
    show "p_state (proc_at (k_conts k5) (e_this e, i)) \<noteq> ZOMBIE" if "i < j" "p_parent (proc_at (k_conts k5) (e_this e, i)) = Some (me e)" for i
      using k5(5) [of i] that tab(1) k1(2) [of "(e_this e, i)"] by (simp add: in_table_def)
  qed (use c kinD(1) [OF k5(1)] k1(3,4) fresh d c_def in auto)
  then obtain k4 qs where k4: "wait_kernel e k5 = Inr (Some pid, k4)" "free_pages (k_mem k4) (s # qs @ ps')" "set qs = set us"
      "p_state (proc_at (k_conts k4) ?p) = UNUSED" "agree {r. Virtual_Memory.page_ok r \<and> r \<notin> insert s (set us)} (k_mem k5) (k_mem k4)"
      "\<And>q. in_table q k4 = in_table q k5" "\<And>q. q \<noteq> ?p \<Longrightarrow> proc_at (k_conts k4) q = proc_at (k_conts k5) q"
    using c(1,2,4) k1(4) kinD(1) [OF k5(1)] pid by auto
  have m: "agree {r. Virtual_Memory.page_ok r \<and> r \<notin> set ps} (k_mem k) (k_mem k4)"
    using k1(5) k4(5) kinD(1) [OF k5(1)] unfolding d by (auto simp: agree_def)
  have "d \<notin> owns p k4" if p: "live p k4" for p
  proof -
    have ne: "p \<noteq> ?p" "in_table p k" using p k4(4,6) t5 by (auto simp: live_def)
    have k: "proc_at (k_conts k1) p = proc_at (k_conts k) p" "in_table p k1" using k1(1,2) ne by simp_all
    then have "p_state (proc_at (k_conts k) p) \<noteq> UNUSED" "same_kin (proc_at (k_conts k) p) (proc_at (k_conts k4) p)"
      using kinD(3,4) [OF k5(1) k(2)] k4(7) [OF ne(1)] p by (simp_all add: live_def)
    then have o: "owns p k \<inter> set ps = {}" "\<forall>r \<in> set (pages_of 4 (p_pgdir (proc_at (k_conts k) p)) (k_mem k)). Virtual_Memory.page_ok r"
      and eq: "p_pgdir (proc_at (k_conts k4) p) = p_pgdir (proc_at (k_conts k) p)" "p_kstack (proc_at (k_conts k4) p) = p_kstack (proc_at (k_conts k) p)"
      using apart ne(2) by (simp_all add: apart_def live_def same_kin_def del: split_paired_All)
    have "agree (set (pages_of 4 (p_pgdir (proc_at (k_conts k) p)) (k_mem k))) (k_mem k) (k_mem k4)"
      using o by (intro agree_mono [OF m]) (auto simp: owns_def)
    then have "owns p k4 = owns p k" using tree_frame(1) by (simp add: owns_def eq)
    then show ?thesis using o(1) d by auto
  qed
  moreover have "wait_again e (run_slot (e\<lparr>e_slot := j\<rparr>) (e_slot e) k3) = Inr (Some pid, k4)"
    using k4(1) by (simp add: wait_again_def k5_def)
  moreover have "set (s # qs @ ps') = set ps - {d}" "d \<in> set ps"
    using d fresh(2) k4(3) by auto
  ultimately show ?thesis
    using k4(2) k5(2,3) by blast
qed

text \<open>
  C19: \<^verbatim>\<open>fork\<close> loses a page.  Let a process fork, wait, and let its child run to the end of \<^verbatim>\<open>exit\<close>; then the parent is
  runnable again, its next look at the table reaps the child and returns its identifier, and of the pages that were free before the
  fork exactly one is not free any more.  That page, the page directory that \<^verbatim>\<open>alloc_proc\<close> made and the copy of the parent's
  replaced, belongs to no process either: it is no kernel stack and in no address space.
\<close>

theorem fork_loses_page:
  assumes "fork_ready e k j ps" and "apart k ps" and "fork e k = Inr (pid, k1)" and "wait_kernel e k1 = Inr (None, k2)"
    and "exit (e\<lparr>e_slot := j\<rparr>) (run_slot e j k2) = Inr k3"
  shows "p_state (proc_at (k_conts k2) (e_this e, j)) = RUNNABLE \<and> p_state (proc_at (k_conts k3) (me e)) = RUNNABLE
    \<and> (\<exists>k4 d qs. wait_again e (run_slot (e\<lparr>e_slot := j\<rparr>) (e_slot e) k3) = Inr (Some pid, k4) \<and> free_pages (k_mem k4) qs
        \<and> d \<in> set ps \<and> set qs = set ps - {d} \<and> (\<forall>q. live q k4 \<longrightarrow> d \<notin> owns q k4))"
  using assms by (rule fork_wait_pages)

text \<open>A process without open files, in a file system with no operation going on.\<close>

definition quiet_kernel :: kernel where
  "quiet_kernel = sample_kernel\<lparr>
     k_conts := \<lambda>_. sample_container\<lparr>c_ptable := (u_proc sample_user)\<lparr>p_pgdir := pg 0, p_ofile := replicate 8 0\<rparr> # replicate 13 (idle_proc UNUSED)\<rparr>\<rparr>"

lemma quiet_slots:
  "i < 14 \<Longrightarrow> proc_at (k_conts quiet_kernel) (a, i)
     = (if i = 0 then (u_proc sample_user)\<lparr>p_pgdir := pg 0, p_ofile := replicate 8 0\<rparr> else idle_proc UNUSED)"
  by (simp add: proc_at_def quiet_kernel_def nth_Cons split: nat.split)

lemma quiet_simps:
  "curproc sample_env quiet_kernel = (u_proc sample_user)\<lparr>p_pgdir := pg 0, p_ofile := replicate 8 0\<rparr>" "k_mem quiet_kernel = sample_space"
  "k_fs quiet_kernel = k_fs sample_kernel" "new_pid sample_env quiet_kernel = 6" "in_table (a, i) quiet_kernel \<longleftrightarrow> i < 14"
  by (simp_all add: curproc_def me_def sample_env_def quiet_slots new_pid_def in_table_def)
    (simp_all add: quiet_kernel_def sample_kernel_def sample_container_def)

lemma quiet_fork_ready: "fork_ready sample_env quiet_kernel 1 [pg 5, pg 6, pg 7, pg 8, pg 9, pg 10, pg 11]"
proof -
  have "slot_ready sample_env quiet_kernel 1"
    by (auto simp: slot_ready_def curproc_def me_def proc_at_def sample_env_def quiet_kernel_def find_from.simps NPROC_def sample_user_def
        idle_proc_def sample_container_def pid_ready_def init_spinlock_def intro!: exI [of _ "[]"])
  moreover have "table_ok (u_fs sample_user)"
    using sample_user_ok by (auto simp: fd_ok_def balanced_def)
  moreover have "p_ofile (proc_at (k_conts quiet_kernel) (0x1000, 1)) = replicate NOFILE NULL"
    by (simp add: quiet_slots idle_proc_def NOFILE_def)
  ultimately show ?thesis
    using sample_space_inv sample_space_pages unfolding fork_ready_def quiet_simps
    by (auto simp: sample_kernel_simps NOFILE_def)
qed

lemma quiet_apart: "apart quiet_kernel [pg 5, pg 6, pg 7, pg 8, pg 9, pg 10, pg 11]"
proof -
  have "owns q quiet_kernel \<inter> set [pg 5, pg 6, pg 7, pg 8, pg 9, pg 10, pg 11] = {}
      \<and> (\<forall>r \<in> set (pages_of 4 (p_pgdir (proc_at (k_conts quiet_kernel) q)) (k_mem quiet_kernel)). Virtual_Memory.page_ok r)" if "live q quiet_kernel" for q
  proof -
    obtain a i where q: "q = (a, i)" by (cases q)
    have "i = 0" using that by (auto simp: q live_def quiet_simps quiet_slots idle_proc_def split: if_splits)
    then have p: "p_pgdir (proc_at (k_conts quiet_kernel) q) = pg 0" "p_kstack (proc_at (k_conts quiet_kernel) q) = 0"
      by (simp_all add: q quiet_slots) (simp add: sample_user_def idle_proc_def)
    have "Virtual_Memory.page_ok r \<Longrightarrow> r \<noteq> 0" for r using page_ok_not_null by blast
    then show ?thesis
      using sample_space_inv unfolding owns_def p quiet_simps vm_inv_def by auto
  qed
  then show ?thesis by (simp add: apart_def del: split_paired_All)
qed

text \<open>Waiting with a child that has not ended, and ending without open files.\<close>

lemma wait_sleeps:
  assumes "in_table (me e) k" and "\<not> p_killed (curproc e k)" and "in_table (e_this e, j) k" "p_parent (proc_at (k_conts k) (e_this e, j)) = Some (me e)"
    and "\<And>i. in_table (e_this e, i) k \<Longrightarrow> p_parent (proc_at (k_conts k) (e_this e, i)) = Some (me e) \<Longrightarrow> p_state (proc_at (k_conts k) (e_this e, i)) \<noteq> ZOMBIE"
  obtains k' where "wait_kernel e k = Inr (None, k')"
proof -
  let ?t = "c_ptable (k_conts k (e_this e))"
  have nth: "?t ! i = proc_at (k_conts k) (e_this e, i)" for i by (simp add: proc_at_def)
  have z: "find_from (\<lambda>i. p_parent (?t ! i) = Some (me e) \<and> p_state (?t ! i) = ZOMBIE) 0 (length ?t) = None"
    using assms(5) by (auto simp: find_from_None nth in_table_def)
  have c: "\<not> (\<forall>i < length ?t. p_parent (?t ! i) \<noteq> Some (me e))" "\<not> p_killed (?t ! e_slot e)" "e_slot e < length ?t"
    using assms(1-4) by (auto simp: nth in_table_def curproc_def me_def)
  then have "\<exists>s. wait_round (Pair (e_this e)) (e_cpu e) (table_of e k) = Inr (Waits, s)"
    using z by (simp add: wait_round_def table_of_def me_def sleep_proc_def enter_sched_def sched_simple_def set_state_def)
  then show thesis using that by (auto simp: wait_kernel_def Let_def)
qed

lemma empty_op:
  assumes "hdr_num_blocks (hdr c) = 0" and "op_count c = 0" and "\<not> begin_waits c"
  obtains x c1 c' where "cache_begin_op c = Inr (x, c1)" "cache_end_op x c1 = Inr c'"
  using assms by (simp add: cache_begin_op_def cache_end_op_def commit_def checkpoint_def replay_def write_header_def wake_def dev_write_def Let_def)

lemma exit_quiet:
  assumes "p_ofile (curproc e k) = replicate NOFILE NULL" and "in_table (me e) k"
    and t: "t = fs_tree (k_fs k)" "RefCount.count (i_rc (it_inode t (it_cwd t))) = 2"
    and c: "c = snd (it_txn t)" "hdr_num_blocks (hdr c) = 0" "op_count c = 0" "\<not> begin_waits c"
  obtains k' where "exit e k = Inr k'"
proof -
  have "close_files e is k = Inr k" if "set is \<subseteq> {..< NOFILE}" for "is"
    using that by (induction "is") (simp_all add: assms(1))
  from this [of "[0 ..< NOFILE]"] have close: "close_files e [0 ..< NOFILE] k = Inr k" by (simp add: atLeast0LessThan)
  from c(2-4) obtain x c1 c' where op: "cache_begin_op c = Inr (x, c1)" "cache_end_op x c1 = Inr c'" by (rule empty_op)
  let ?t = "t\<lparr>it_txn := (Some x, c1)\<rparr>"
  obtain t1 where t1: "inode_put (it_cwd t) ?t = Inr t1" "it_txn t1 = (Some x, c1)"
    using t(2) by (simp add: inode_put_def decrement_rc_def upd_inode_def)
  then have "with_op (\<lambda>t. bindE (inode_put (it_cwd t) t) (\<lambda>t. Inr ((), t))) t = Inr ((), t1\<lparr>it_txn := (fst (it_txn t), c')\<rparr>)"
    using op by (simp add: with_op_def tree_begin_op_def tree_end_op_def c(1) [symmetric])
  then obtain fs where fs: "on_tree (with_op (\<lambda>t. bindE (inode_put (it_cwd t) t) (\<lambda>t. Inr ((), t)))) (k_fs k) = Inr ((), fs)"
    using t(1) by (simp add: on_tree_def)
  have "\<exists>s. exit_proc (Pair (e_this e)) (e_cpu e) (table_of e k') = Inr s" if "in_table (me e) k'" for k'
  proof -
    let ?s = "c_ptable (k_conts k' (e_this e))"
    obtain t' where "woken ?s t'" "exit_table (Pair (e_this e)) (e_slot e) ?s = t'[e_slot e := (t' ! e_slot e)\<lparr>p_state := ZOMBIE\<rparr>]"
      by (rule exit_table_woken) blast
    then show ?thesis
      using that by (simp add: exit_proc_def table_of_def enter_sched_def sched_simple_def in_table_def me_def woken_def)
  qed
  then have "\<exists>s. exit_proc (Pair (e_this e)) (e_cpu e) (table_of e (k\<lparr>k_fs := fs'\<rparr>)) = Inr s" for fs' using assms(2) by simp
  from this [of "fs\<lparr>fs_tree := (fs_tree fs)\<lparr>it_cwd := 0\<rparr>\<rparr>"] show thesis using that close fs by (auto simp: exit_def Let_def)
qed

theorem fork_loses_page_witness:
  "\<exists>k1 k2 k3 k4 d qs. fork sample_env quiet_kernel = Inr (6, k1) \<and> wait_kernel sample_env k1 = Inr (None, k2)
     \<and> exit (sample_env\<lparr>e_slot := 1\<rparr>) (run_slot sample_env 1 k2) = Inr k3
     \<and> wait_again sample_env (run_slot (sample_env\<lparr>e_slot := 1\<rparr>) 0 k3) = Inr (Some 6, k4)
     \<and> free_pages (k_mem k4) qs \<and> d \<in> {pg 5, pg 6, pg 7, pg 8, pg 9, pg 10, pg 11} \<and> d \<notin> set qs \<and> (\<forall>q. live q k4 \<longrightarrow> d \<notin> owns q k4)"
proof -
  let ?p = "(0x1000, 1) :: pref" and ?ps = "[pg 5, pg 6, pg 7, pg 8, pg 9, pg 10, pg 11]"
  have e: "e_this sample_env = 0x1000" "e_slot sample_env = 0" "me sample_env = (0x1000, 0)" by (simp_all add: sample_env_def me_def)
  obtain k1 q s us ps' where k1: "fork sample_env quiet_kernel = Inr (6, k1)" "forked sample_env quiet_kernel 1 ?ps q s us ps' k1"
    using fork_ok [OF quiet_fork_ready] by (auto simp: quiet_simps)
  have p1: "proc_at (k_conts k1) p = (if p = ?p then child_of sample_env quiet_kernel 1 q s else proc_at (k_conts quiet_kernel) p)"
      "in_table p k1 = in_table p quiet_kernel" for p
    using k1(2) by (simp_all add: forked_def e del: split_paired_All)
  have tree: "fs_tree (k_fs k1) = inode_share 0x9000 (fs_tree (k_fs sample_kernel))"
    using k1(2) by (simp add: forked_def quiet_simps sample_kernel_simps)
  have child: "p_parent (proc_at (k_conts k1) ?p) = Some (0x1000, 0)" "p_ofile (proc_at (k_conts k1) ?p) = replicate 8 0" "p_cwd (proc_at (k_conts k1) ?p) = 0x9000"
    by (simp_all add: p1 child_of_def quiet_simps sample_kernel_simps e)
  have z: "p_state (proc_at (k_conts k1) (0x1000, i)) \<noteq> ZOMBIE" if "i < 14" for i
    using that by (auto simp: p1 quiet_slots child_of_def idle_proc_def) (simp add: sample_user_def idle_proc_def)
  have cur: "p_killed (curproc sample_env k1) = False" "p_state (curproc sample_env k1) = RUNNING"
    by (simp_all add: curproc_def e p1 quiet_slots) (simp_all add: sample_user_def idle_proc_def)
  from wait_sleeps [of sample_env k1 1] child(1) cur(1) z obtain k2 where k2: "wait_kernel sample_env k1 = Inr (None, k2)"
    by (auto simp: e p1(2) quiet_simps)
  have "in_table (me sample_env) k1" "p_state (curproc sample_env k1) \<noteq> UNUSED" using cur(2) by (simp_all add: e p1(2) quiet_simps)
  note w = wait_sleeps_effect [OF k2 this]
  have c2: "proc_at (k_conts k2) ?p = proc_at (k_conts k1) ?p" using w(3) [of ?p] by (simp add: e)
  have t2: "in_table p k2 = in_table p quiet_kernel" for p using kinD(2) [OF w(1)] p1(2) by simp
  let ?r = "run_slot sample_env 1 k2" and ?e = "sample_env\<lparr>e_slot := 1\<rparr>"
  have r: "p_ofile (curproc ?e ?r) = replicate NOFILE NULL" "in_table (me ?e) ?r" "fs_tree (k_fs ?r) = inode_share 0x9000 (fs_tree (k_fs sample_kernel))"
    using c2 child t2 tree w(2)
    by (simp_all add: run_slot_def Let_def curproc_def me_def e proc_at_set_proc quiet_simps NOFILE_def)
      (simp add: inode_share_def upd_inode_def sample_kernel_def)
  have "RefCount.count (i_rc (it_inode (fs_tree (k_fs ?r)) (it_cwd (fs_tree (k_fs ?r))))) = 2"
      "hdr_num_blocks (hdr (snd (it_txn (fs_tree (k_fs ?r))))) = 0" "op_count (snd (it_txn (fs_tree (k_fs ?r)))) = 0"
      "\<not> begin_waits (snd (it_txn (fs_tree (k_fs ?r))))"
    unfolding r(3) by (simp_all add: inode_share_def upd_inode_def share_inode_def increment_rc_def sample_kernel_def sample_dir_def set_entry_def
        sample_tree_def sample_fs_def begin_waits_def) (simp_all add: sample_cache_def OP_MAX_NUM_BLOCKS_def)
  then obtain k3 where k3: "exit ?e ?r = Inr k3" by (rule exit_quiet [OF r(1,2) refl _ refl])
  have ex: "exit (sample_env\<lparr>e_slot := 1\<rparr>) (run_slot sample_env 1 k2) = Inr k3" using k3 by simp
  from fork_loses_page [OF quiet_fork_ready quiet_apart k1(1) k2 ex] obtain k4 d qs where
    "wait_again sample_env (run_slot ?e 0 k3) = Inr (Some 6, k4)" "free_pages (k_mem k4) qs" "d \<in> set ?ps" "set qs = set ?ps - {d}"
      "\<forall>q. live q k4 \<longrightarrow> d \<notin> owns q k4"
    unfolding e(2) by blast
  then show ?thesis using k1(1) k2 ex by (metis (no_types, lifting) DiffD2 insertI1 list.simps(15) set_empty2)
qed

end
