(* ===== verification/Shell.thy ===== *)
theory Shell
  imports Prelude "HOL-Library.Sublist"
begin

text \<open>
  The shell, \<^verbatim>\<open>user/sh/main.c\<close>: its parser and the way a parsed command is run.  A pointer into the line is
  the rest of the line from it, up to the end \<^verbatim>\<open>es\<close>; behind the rest lies the terminator, and a line
  has no other.  Shown: parsing ends, a command that is printed and parsed comes back, terminating the words in place gives each word
  its text, and the two sides of a pipe are connected to each other.
\<close>

section \<open>Commands\<close>

text \<open>
  A word is the pair of the pointers \<^verbatim>\<open>q\<close> and \<^verbatim>\<open>eq\<close>.  The two modes of a redirection are \<open>ReadOnly\<close>
  for \<^verbatim>\<open>O_RDONLY\<close> and \<open>WriteCreate\<close> for \<^verbatim>\<open>O_WRONLY | O_CREAT\<close>.
\<close>

datatype mode = ReadOnly | WriteCreate

datatype 'a cmd =
    EXEC "'a list"
  | REDIR "'a cmd" 'a mode nat
  | PIPE "'a cmd" "'a cmd"
  | LIST "'a cmd" "'a cmd"
  | BACK "'a cmd"

type_synonym cursor = string
type_synonym word_ref = "cursor \<times> cursor"

definition MAXARGS :: nat where
  "MAXARGS = 10"

definition MAXN :: nat where
  "MAXN = 10000"

text \<open>Allocation only counts the bytes; when they are used up the shell exits.\<close>

definition malloc1 :: "nat \<Rightarrow> nat \<Rightarrow> nat res" where
  "malloc1 sz i = (if i + sz > MAXN then Inl (Panic ''malloc1: memory used out'') else Inr (i + sz))"

definition execcmd :: "nat \<Rightarrow> (word_ref cmd \<times> nat) res" where
  "execcmd i = bindE (malloc1 168 i) (\<lambda>i. Inr (EXEC [], i))"

definition redircmd :: "word_ref cmd \<Rightarrow> word_ref \<Rightarrow> mode \<Rightarrow> nat \<Rightarrow> nat \<Rightarrow> (word_ref cmd \<times> nat) res" where
  "redircmd subcmd fname m fd i = bindE (malloc1 40 i) (\<lambda>i. Inr (REDIR subcmd fname m fd, i))"

definition pipecmd :: "word_ref cmd \<Rightarrow> word_ref cmd \<Rightarrow> nat \<Rightarrow> (word_ref cmd \<times> nat) res" where
  "pipecmd left right i = bindE (malloc1 24 i) (\<lambda>i. Inr (PIPE left right, i))"

definition listcmd :: "word_ref cmd \<Rightarrow> word_ref cmd \<Rightarrow> nat \<Rightarrow> (word_ref cmd \<times> nat) res" where
  "listcmd left right i = bindE (malloc1 24 i) (\<lambda>i. Inr (LIST left right, i))"

definition backcmd :: "word_ref cmd \<Rightarrow> nat \<Rightarrow> (word_ref cmd \<times> nat) res" where
  "backcmd subcmd i = bindE (malloc1 16 i) (\<lambda>i. Inr (BACK subcmd, i))"

section \<open>Tokens\<close>

definition NUL :: char where
  "NUL = CHR 0x00"

definition whitespace :: string where
  "whitespace = [CHR '' '', CHR 0x09, CHR 0x0D, CHR 0x0A, CHR 0x0B]"

definition symbols :: string where
  "symbols = ''<|>&;()''"

definition deref :: "cursor \<Rightarrow> char" where
  "deref s = (case s of [] \<Rightarrow> NUL | c # _ \<Rightarrow> c)"

definition skip_space :: "cursor \<Rightarrow> cursor" where
  "skip_space s = dropWhile (\<lambda>c. c \<in> set whitespace) s"

definition is_word :: "char \<Rightarrow> bool" where
  "is_word c \<longleftrightarrow> c \<notin> set whitespace \<and> c \<notin> set symbols"

definition gettoken :: "cursor \<Rightarrow> char \<times> word_ref \<times> cursor" where
  "gettoken s =
     (let q = skip_space s; c = deref q;
          (ret, e) =
            (if c = NUL then (c, q)
             else if c \<in> set ''|();&<'' then (c, tl q)
             else if c = CHR ''>'' then if deref (tl q) = CHR ''>'' then (CHR ''+'', tl (tl q)) else (c, tl q)
             else (CHR ''a'', dropWhile is_word q))
      in (ret, (q, e), skip_space e))"

definition peek :: "string \<Rightarrow> cursor \<Rightarrow> bool \<times> cursor" where
  "peek toks s = (let s = skip_space s in (deref s \<noteq> NUL \<and> deref s \<in> set toks, s))"

section \<open>The parser\<close>

text \<open>
  \<open>fuel\<close> bounds the depth of calls and the rounds of the loops.  The words of a simple command are entered in the
  command inside the redirections built around it.
\<close>

type_synonym parsed = "(word_ref cmd \<times> cursor \<times> nat) res"

fun add_arg :: "'a \<Rightarrow> 'a cmd \<Rightarrow> 'a cmd" where
  "add_arg w (EXEC ws) = EXEC (ws @ [w])"
| "add_arg w (REDIR c fname m fd) = REDIR (add_arg w c) fname m fd"
| "add_arg w c = c"

fun parseredirs :: "nat \<Rightarrow> word_ref cmd \<Rightarrow> cursor \<Rightarrow> nat \<Rightarrow> parsed" where
  "parseredirs 0 cmd s i = Inl OutOfFuel"
| "parseredirs (Suc fuel) cmd s i =
     (let (more, s) = peek ''<>'' s
      in if \<not> more then Inr (cmd, s, i)
         else let (tok, _, s) = gettoken s; (kind, w, s) = gettoken s
              in if kind \<noteq> CHR ''a'' then Inl (Panic ''missing file for redirection'')
                 else bindE (if tok = CHR ''<'' then redircmd cmd w ReadOnly 0 i
                             else if tok = CHR ''>'' then redircmd cmd w WriteCreate 1 i
                             else if tok = CHR ''+'' then redircmd cmd w WriteCreate 1 i
                             else Inr (cmd, i)) (\<lambda>(cmd, i).
                      parseredirs fuel cmd s i))"

fun parseargs :: "nat \<Rightarrow> nat \<Rightarrow> word_ref cmd \<Rightarrow> cursor \<Rightarrow> nat \<Rightarrow> parsed" where
  "parseargs 0 argc ret s i = Inl OutOfFuel"
| "parseargs (Suc fuel) argc ret s i =
     (let (end_of_exec, s) = peek ''|)&;'' s
      in if end_of_exec then Inr (ret, s, i)
         else let (tok, w, s) = gettoken s
              in if tok = NUL then Inr (ret, s, i)
                 else if tok \<noteq> CHR ''a'' then Inl (Panic ''syntax'')
                 else if argc + 1 \<ge> MAXARGS then Inl (Panic ''too many args'')
                 else bindE (parseredirs fuel (add_arg w ret) s i) (\<lambda>(ret, s, i).
                      parseargs fuel (argc + 1) ret s i))"

fun parseback :: "nat \<Rightarrow> word_ref cmd \<Rightarrow> cursor \<Rightarrow> nat \<Rightarrow> parsed" where
  "parseback 0 cmd s i = Inl OutOfFuel"
| "parseback (Suc fuel) cmd s i =
     (let (more, s) = peek ''&'' s
      in if \<not> more then Inr (cmd, s, i)
         else let (_, _, s) = gettoken s
              in bindE (backcmd cmd i) (\<lambda>(cmd, i). parseback fuel cmd s i))"

fun parseline :: "nat \<Rightarrow> cursor \<Rightarrow> nat \<Rightarrow> parsed"
  and parsepipe :: "nat \<Rightarrow> cursor \<Rightarrow> nat \<Rightarrow> parsed"
  and parseexec :: "nat \<Rightarrow> cursor \<Rightarrow> nat \<Rightarrow> parsed"
  and parseblock :: "nat \<Rightarrow> cursor \<Rightarrow> nat \<Rightarrow> parsed" where
  "parseline 0 s i = Inl OutOfFuel"
| "parseline (Suc fuel) s i =
     bindE (parsepipe fuel s i) (\<lambda>(cmd, s, i).
     bindE (parseback fuel cmd s i) (\<lambda>(cmd, s, i).
     let (more, s) = peek '';'' s
     in if \<not> more then Inr (cmd, s, i)
        else let (_, _, s) = gettoken s
             in bindE (parseline fuel s i) (\<lambda>(right, s, i).
                bindE (listcmd cmd right i) (\<lambda>(cmd, i). Inr (cmd, s, i)))))"
| "parsepipe 0 s i = Inl OutOfFuel"
| "parsepipe (Suc fuel) s i =
     bindE (parseexec fuel s i) (\<lambda>(cmd, s, i).
     let (more, s) = peek ''|'' s
     in if \<not> more then Inr (cmd, s, i)
        else let (_, _, s) = gettoken s
             in bindE (parsepipe fuel s i) (\<lambda>(right, s, i).
                bindE (pipecmd cmd right i) (\<lambda>(cmd, i). Inr (cmd, s, i))))"
| "parseexec 0 s i = Inl OutOfFuel"
| "parseexec (Suc fuel) s i =
     (let (block, s) = peek ''('' s
      in if block then parseblock fuel s i
         else bindE (execcmd i) (\<lambda>(ret, i).
              bindE (parseredirs fuel ret s i) (\<lambda>(ret, s, i).
              parseargs fuel 0 ret s i)))"
| "parseblock 0 s i = Inl OutOfFuel"
| "parseblock (Suc fuel) s i =
     (let (opened, s) = peek ''('' s
      in if \<not> opened then Inl (Panic ''parseblock'')
         else let (_, _, s) = gettoken s
              in bindE (parseline fuel s i) (\<lambda>(cmd, s, i).
                 let (closed, s) = peek '')'' s
                 in if \<not> closed then Inl (Panic ''syntax - missing )'')
                    else let (_, _, s) = gettoken s in parseredirs fuel cmd s i))"

text \<open>Calls and rounds enough for a line.\<close>

definition parse_depth :: "cursor \<Rightarrow> nat" where
  "parse_depth s = 4 * length s + 4"

text \<open>\<^verbatim>\<open>nulterminate\<close> on the buffer that holds a line of \<open>n\<close> characters.\<close>

definition put_nul :: "nat \<Rightarrow> word_ref \<Rightarrow> (nat \<Rightarrow> char) \<Rightarrow> (nat \<Rightarrow> char)" where
  "put_nul n w b = b(n - length (snd w) := NUL)"

fun nulterminate :: "nat \<Rightarrow> word_ref cmd \<Rightarrow> (nat \<Rightarrow> char) \<Rightarrow> (nat \<Rightarrow> char)" where
  "nulterminate n (EXEC ws) b = fold (put_nul n) ws b"
| "nulterminate n (REDIR c fname m fd) b = put_nul n fname (nulterminate n c b)"
| "nulterminate n (PIPE l r) b = nulterminate n r (nulterminate n l b)"
| "nulterminate n (LIST l r) b = nulterminate n r (nulterminate n l b)"
| "nulterminate n (BACK c) b = nulterminate n c b"

definition buffer_of :: "cursor \<Rightarrow> (nat \<Rightarrow> char)" where
  "buffer_of s i = (if i < length s then s ! i else NUL)"

text \<open>The error carries the two lines printed when the line is not used up, the second by \<^verbatim>\<open>PANIC\<close>.\<close>

definition parsecmd :: "cursor \<Rightarrow> (word_ref cmd \<times> (nat \<Rightarrow> char)) res" where
  "parsecmd line =
     bindE (parseline (parse_depth line) line 0) (\<lambda>(cmd, s, _).
     let (_, s) = peek '''' s
     in if s \<noteq> [] then Inl (Panic (''leftovers: '' @ s @ [CHR 0x0A] @ ''syntax''))
        else Inr (cmd, nulterminate (length line) cmd (buffer_of line)))"

section \<open>Running commands\<close>

text \<open>
  What the shell asks of the system, as a tree of calls: what follows when a call fails and when it succeeds, and for
  a fork the child, the parent and the failure.  \<open>Say\<close> prints on the error output.  Calls that replace or end the
  process have no continuation, except \<^verbatim>\<open>execv\<close> when it fails.
\<close>

datatype prog =
    Exit nat
  | Execv "string list" prog
  | Close nat prog
  | Open string mode prog prog
  | MkPipe prog "nat \<Rightarrow> nat \<Rightarrow> prog"
  | Dup nat prog
  | Fork prog prog prog
  | Wait prog
  | Chdir string prog prog
  | Say string prog

definition sh_panic :: "string \<Rightarrow> prog" where
  "sh_panic m = Say (m @ [CHR 0x0A]) (Exit 1)"

definition fork1 :: "prog \<Rightarrow> prog \<Rightarrow> prog" where
  "fork1 child parent = Fork child parent (sh_panic ''fork'')"

fun runcmd :: "string cmd \<Rightarrow> prog" where
  "runcmd (EXEC ws) =
     (if ws = [] then Exit 0
      else Execv ws (Say (''exec '' @ hd ws @ '' failed'' @ [CHR 0x0A]) (Exit 0)))"
| "runcmd (REDIR c fname m fd) =
     Close fd (Open fname m (Say (''open '' @ fname @ '' failed'' @ [CHR 0x0A]) (Exit 1)) (runcmd c))"
| "runcmd (LIST l r) = fork1 (runcmd l) (Wait (runcmd r))"
| "runcmd (PIPE l r) =
     MkPipe (sh_panic ''pipe'') (\<lambda>p0 p1.
       fork1 (Close 1 (Dup p1 (Close p0 (Close p1 (runcmd l)))))
         (fork1 (Close 0 (Dup p0 (Close p0 (Close p1 (runcmd r)))))
           (Close p0 (Close p1 (Wait (Wait (Exit 0)))))))"
| "runcmd (BACK c) = fork1 (runcmd c) (Exit 0)"

text \<open>The loop of \<^verbatim>\<open>main\<close> over the lines that \<^verbatim>\<open>getcmd\<close> reads; the words of a parsed command are their terminated texts.\<close>

definition word_text :: "word_ref \<Rightarrow> string" where
  "word_text w = take (length (fst w) - length (snd w)) (fst w)"

definition run_line :: "string \<Rightarrow> prog" where
  "run_line line =
     (case parsecmd line of
        Inl (Panic m) \<Rightarrow> sh_panic m
      | Inl _ \<Rightarrow> Exit 1
      | Inr (c, _) \<Rightarrow> runcmd (map_cmd word_text c))"

fun sh_loop :: "string list \<Rightarrow> prog" where
  "sh_loop [] = Say ''$ '' (Exit 0)"
| "sh_loop (line # lines) =
     Say ''$ ''
       (if take 3 line = ''cd ''
        then Chdir (drop 3 (butlast line)) (Say (''cannot cd '' @ drop 3 (butlast line) @ [CHR 0x0A]) (sh_loop lines)) (sh_loop lines)
        else fork1 (run_line line) (Wait (sh_loop lines)))"

section \<open>Parsing ends\<close>

lemma length_skip_space: "length (skip_space s) \<le> length s"
  by (simp add: skip_space_def length_dropWhile_le)

lemma peek_cursor [simp]: "snd (peek toks s) = skip_space s"
  by (simp add: peek_def Let_def)

lemma skip_space_idem [simp]: "skip_space (skip_space s) = skip_space s"
  unfolding skip_space_def by (induction s) auto

lemma deref_Nil [simp]: "deref [] = NUL" and deref_Cons [simp]: "deref (c # s) = c"
  by (simp_all add: deref_def)

lemma gettoken_length:
  assumes "gettoken s = (tok, w, t)"
  shows "length t \<le> length s" "tok \<noteq> NUL \<Longrightarrow> length t < length s"
proof -
  let ?q = "skip_space s"
  define e where "e = snd w"
  have t: "t = skip_space e" using assms by (auto simp: gettoken_def Let_def e_def split: if_splits)
  have "length e \<le> length ?q \<and> (tok \<noteq> NUL \<longrightarrow> length e < length ?q)"
  proof (cases ?q)
    case Nil
    then show ?thesis using assms by (auto simp: gettoken_def Let_def e_def)
  next
    case (Cons c q)
    have ws: "c \<notin> set whitespace" using Cons hd_dropWhile [of "\<lambda>c. c \<in> set whitespace" s] by (auto simp: skip_space_def)
    show ?thesis
      using assms ws Cons length_dropWhile_le [of is_word q]
      by (auto simp: gettoken_def Let_def e_def is_word_def symbols_def split: if_splits)
  qed
  then show "length t \<le> length s" "tok \<noteq> NUL \<Longrightarrow> length t < length s"
    unfolding t using length_skip_space [of e] length_skip_space [of s] by auto
qed

definition fine :: "cursor \<Rightarrow> parsed \<Rightarrow> bool" where
  "fine s r \<longleftrightarrow> (case r of Inl e \<Rightarrow> e \<noteq> OutOfFuel | Inr (c, t, j) \<Rightarrow> length t \<le> length s)"

lemma fine_simps [simp]: "fine s (Inr (c, t, j)) \<longleftrightarrow> length t \<le> length s" "fine s (Inl (Panic m))" "\<not> fine s (Inl OutOfFuel)"
  by (simp_all add: fine_def)

lemma fine_mono: "fine t r \<Longrightarrow> length t \<le> length s \<Longrightarrow> fine s r"
  by (auto simp: fine_def split: sum.splits)

lemma fine_bind:
  assumes "fine s r" and "\<And>c t j. r = Inr (c, t, j) \<Longrightarrow> length t \<le> length s \<Longrightarrow> fine s (k (c, t, j))"
  shows "fine s (bindE r k)"
  using assms by (cases r) (auto simp: fine_def)

lemma fine_malloc:
  assumes "\<And>j. fine s (k (c, j))"
  shows "fine s (bindE (bindE (malloc1 sz i) (\<lambda>i. Inr (c, i))) k)"
  using assms by (simp add: malloc1_def)

lemmas constructor_defs = execcmd_def redircmd_def pipecmd_def listcmd_def backcmd_def

lemma peek_cases:
  obtains (no) "peek toks s = (False, skip_space s)"
  | (yes) "peek toks s = (True, skip_space s)" "deref (skip_space s) \<noteq> NUL" "deref (skip_space s) \<in> set toks"
  by (cases "deref (skip_space s) \<noteq> NUL \<and> deref (skip_space s) \<in> set toks") (auto simp: peek_def Let_def)

text \<open>A token that was seen is consumed.\<close>

lemma gettoken_after_peek:
  assumes "deref (skip_space s) \<noteq> NUL" and "gettoken (skip_space s) = (tok, w, t)"
  shows "length t < length s"
proof -
  have "tok \<noteq> NUL" using assms by (auto simp: gettoken_def Let_def NUL_def split: if_splits)
  then show ?thesis using gettoken_length(2) [OF assms(2)] length_skip_space [of s] by simp
qed

lemma parseredirs_fine: "length s < n \<Longrightarrow> fine s (parseredirs n cmd s i)"
proof (induction n arbitrary: cmd s i)
  case (Suc n)
  show ?case
  proof (cases rule: peek_cases [of "''<>''" s])
    case no
    then show ?thesis by (simp add: length_skip_space)
  next
    case yes
    obtain tok w t where g: "gettoken (skip_space s) = (tok, w, t)" by (cases "gettoken (skip_space s)") auto
    obtain kind w' t' where g': "gettoken t = (kind, w', t')" by (cases "gettoken t") auto
    have l: "length t' < length s" using gettoken_after_peek [OF yes(2) g] gettoken_length(1) [OF g'] by simp
    have "fine s (parseredirs n c t' j)" for c j using Suc l by (intro fine_mono [OF Suc.IH]) simp_all
    then show ?thesis using yes(1) g g' by (auto simp: constructor_defs intro!: fine_malloc)
  qed
qed simp

lemma parseback_fine: "length s < n \<Longrightarrow> fine s (parseback n cmd s i)"
proof (induction n arbitrary: cmd s i)
  case (Suc n)
  show ?case
  proof (cases rule: peek_cases [of "''&''" s])
    case no
    then show ?thesis by (simp add: length_skip_space)
  next
    case yes
    obtain tok w t where g: "gettoken (skip_space s) = (tok, w, t)" by (cases "gettoken (skip_space s)") auto
    have l: "length t < length s" by (rule gettoken_after_peek [OF yes(2) g])
    have "fine s (parseback n c t j)" for c j using Suc l by (intro fine_mono [OF Suc.IH]) simp_all
    then show ?thesis using yes(1) g by (auto simp: constructor_defs intro!: fine_malloc)
  qed
qed simp

lemma parseargs_fine: "length s < n \<Longrightarrow> fine s (parseargs n argc ret s i)"
proof (induction n arbitrary: argc ret s i)
  case (Suc n)
  obtain tok w t where g: "gettoken (skip_space s) = (tok, w, t)" by (cases "gettoken (skip_space s)") auto
  have t: "length t \<le> length s" "tok \<noteq> NUL \<Longrightarrow> length t < length s"
    using gettoken_length [OF g] length_skip_space [of s] by auto
  have "fine s (bindE (parseredirs n (add_arg w ret) t i) (\<lambda>(ret, s, i). parseargs n (argc + 1) ret s i))" if "tok \<noteq> NUL"
  proof (rule fine_bind)
    have f: "fine t (parseredirs n (add_arg w ret) t i)" using t(2) [OF that] Suc.prems by (intro parseredirs_fine) auto
    then show "fine s (parseredirs n (add_arg w ret) t i)" using t(1) by (rule fine_mono)
    show "fine s (case (c, u, j) of (ret, s, i) \<Rightarrow> parseargs n (argc + 1) ret s i)"
      if r: "parseredirs n (add_arg w ret) t i = Inr (c, u, j)" for c u j
    proof -
      have "length u < length s" using f r t(2) [OF \<open>tok \<noteq> NUL\<close>] by simp
      then show ?thesis using Suc.prems by (auto intro: fine_mono [OF Suc.IH])
    qed
  qed
  then show ?case
    using g t(1) by (cases rule: peek_cases [of "''|)&;''" s]) (simp_all add: length_skip_space)
qed simp

lemma fine_after:
  assumes "fine s r" and "\<And>c t j. r = Inr (c, t, j) \<Longrightarrow> length t \<le> length s \<Longrightarrow> fine t (k (c, t, j))"
  shows "fine s (bindE r k)"
  using assms by (intro fine_bind) (auto intro: fine_mono)

lemma parseline_fine_step:
  assumes "\<And>s i. 4 * length s + 4 \<le> n \<Longrightarrow> fine s (parseline n s i)" and "\<And>s i. 4 * length s + 3 \<le> n \<Longrightarrow> fine s (parsepipe n s i)"
    and n: "4 * length s + 4 \<le> Suc n"
  shows "fine s (parseline (Suc n) s i)"
proof -
  let ?rest = "\<lambda>(cmd, s, i). let (more, s) = peek '';'' s
      in if \<not> more then Inr (cmd, s, i)
         else let (_, _, s) = gettoken s
              in bindE (parseline n s i) (\<lambda>(right, s, i). bindE (listcmd cmd right i) (\<lambda>(cmd, i). Inr (cmd, s, i)))"
  have rest: "fine u (?rest (c, u, j))" if "length u \<le> length s" for c u j
  proof -
    obtain tok w v where g: "gettoken (skip_space u) = (tok, w, v)" by (cases "gettoken (skip_space u)") auto
    have "fine u (bindE (parseline n v j) (\<lambda>(right, s, i). bindE (listcmd c right i) (\<lambda>(cmd, i). Inr (cmd, s, i))))"
      if "length v < length u"
    proof (rule fine_bind)
      show "fine u (parseline n v j)" using assms(1) [of v j] that n \<open>length u \<le> length s\<close> by (auto intro: fine_mono)
    qed (simp add: constructor_defs malloc1_def)
    then show ?thesis
      using g gettoken_after_peek [OF _ g] by (cases rule: peek_cases [of "'';''" u]) (simp_all add: length_skip_space)
  qed
  have "fine t (bindE (parseback n c t j) ?rest)" if "length t \<le> length s" for c t j
    using that n rest by (intro fine_after parseback_fine) auto
  then show ?thesis unfolding parseline.simps using assms(2) [of s i] n by (intro fine_after) auto
qed

lemma parsepipe_fine_step:
  assumes "\<And>s i. 4 * length s + 3 \<le> n \<Longrightarrow> fine s (parsepipe n s i)" and "\<And>s i. 4 * length s + 2 \<le> n \<Longrightarrow> fine s (parseexec n s i)"
    and n: "4 * length s + 3 \<le> Suc n"
  shows "fine s (parsepipe (Suc n) s i)"
  unfolding parsepipe.simps
proof (rule fine_after)
  show "fine s (parseexec n s i)" using assms by simp
  fix c and u :: cursor and j assume u: "length u \<le> length s"
  obtain tok w v where g: "gettoken (skip_space u) = (tok, w, v)" by (cases "gettoken (skip_space u)") auto
  have "fine u (bindE (parsepipe n v j) (\<lambda>(right, s, i). bindE (pipecmd c right i) (\<lambda>(cmd, i). Inr (cmd, s, i))))"
    if "length v < length u"
  proof (rule fine_bind)
    show "fine u (parsepipe n v j)" using assms(1) [of v j] that u n by (auto intro: fine_mono)
  qed (simp add: constructor_defs malloc1_def)
  then show "fine u (case (c, u, j) of (cmd, s, i) \<Rightarrow>
      let (more, s) = peek ''|'' s
      in if \<not> more then Inr (cmd, s, i)
         else let (_, _, s) = gettoken s
              in bindE (parsepipe n s i) (\<lambda>(right, s, i). bindE (pipecmd cmd right i) (\<lambda>(cmd, i). Inr (cmd, s, i))))"
    using g gettoken_after_peek [OF _ g] by (cases rule: peek_cases [of "''|''" u]) (simp_all add: length_skip_space)
qed

lemma parseexec_fine_step:
  assumes "\<And>s i. 4 * length s + 1 \<le> n \<Longrightarrow> fine s (parseblock n s i)" and n: "4 * length s + 2 \<le> Suc n"
  shows "fine s (parseexec (Suc n) s i)"
proof -
  let ?s = "skip_space s"
  have l: "length ?s < n" "4 * length ?s + 1 \<le> n" using n length_skip_space [of s] by simp_all
  have "fine s (parseblock n ?s i)" using assms(1) [of ?s i] l(2) length_skip_space [of s] by (auto intro: fine_mono)
  moreover have "fine s (bindE (execcmd i) (\<lambda>(ret, i). bindE (parseredirs n ret ?s i) (\<lambda>(ret, s, i). parseargs n 0 ret s i)))"
  proof -
    have "fine ?s (bindE (parseredirs n ret ?s i) (\<lambda>(ret, s, i). parseargs n 0 ret s i))" for ret i
      using l(1) by (intro fine_after parseredirs_fine) (auto intro: parseargs_fine)
    then have "fine s (bindE (parseredirs n ret ?s i) (\<lambda>(ret, s, i). parseargs n 0 ret s i))" for ret i
      using length_skip_space [of s] by (rule fine_mono)
    then show ?thesis unfolding execcmd_def by (intro fine_malloc) simp
  qed
  ultimately show ?thesis by (cases rule: peek_cases [of "''(''" s]) simp_all
qed

lemma parseblock_fine_step:
  assumes "\<And>s i. 4 * length s + 4 \<le> n \<Longrightarrow> fine s (parseline n s i)" and n: "4 * length s + 1 \<le> Suc n"
  shows "fine s (parseblock (Suc n) s i)"
proof -
  obtain tok w v where g: "gettoken (skip_space s) = (tok, w, v)" by (cases "gettoken (skip_space s)") auto
  have "fine v (bindE (parseline n v i) (\<lambda>(cmd, s, i).
      let (closed, s) = peek '')'' s
      in if \<not> closed then Inl (Panic ''syntax - missing )'')
         else let (_, _, s) = gettoken s in parseredirs n cmd s i))" if v: "length v < length s"
  proof (rule fine_after)
    show "fine v (parseline n v i)" using assms(1) [of v i] v n by simp
    fix c and u :: cursor and j assume u: "length u \<le> length v"
    obtain tok w x where g: "gettoken (skip_space u) = (tok, w, x)" by (cases "gettoken (skip_space u)") auto
    have "fine u (parseredirs n c x j)" if "length x < length u"
      using that u v n by (intro fine_mono [OF parseredirs_fine]) simp_all
    then show "fine u (case (c, u, j) of (cmd, s, i) \<Rightarrow>
        let (closed, s) = peek '')'' s
        in if \<not> closed then Inl (Panic ''syntax - missing )'')
           else let (_, _, s) = gettoken s in parseredirs n cmd s i)"
      using g gettoken_after_peek [OF _ g] by (cases rule: peek_cases [of "'')''" u]) simp_all
  qed
  then show ?thesis
    using g gettoken_after_peek [OF _ g] by (cases rule: peek_cases [of "''(''" s]) (auto intro: fine_mono)
qed

lemma parse_fine:
  "(\<forall>s i. 4 * length s + 4 \<le> n \<longrightarrow> fine s (parseline n s i)) \<and> (\<forall>s i. 4 * length s + 3 \<le> n \<longrightarrow> fine s (parsepipe n s i))
   \<and> (\<forall>s i. 4 * length s + 2 \<le> n \<longrightarrow> fine s (parseexec n s i)) \<and> (\<forall>s i. 4 * length s + 1 \<le> n \<longrightarrow> fine s (parseblock n s i))"
proof (induction n)
  case (Suc n)
  then show ?case
    by (intro conjI allI impI parseline_fine_step parsepipe_fine_step parseexec_fine_step parseblock_fine_step) auto
qed simp

text \<open>
  C22: parsing any line ends: the recursion and the loops of the parser never need more than
  \<open>parse_depth\<close> nested calls and rounds, so the parser returns a command or stops with one of its messages.
\<close>

theorem parsecmd_terminates: "parsecmd line \<noteq> Inl OutOfFuel"
proof -
  have "fine line (parseline (parse_depth line) line 0)" using parse_fine [of "parse_depth line"] by (simp add: parse_depth_def)
  then show ?thesis
    by (cases "parseline (parse_depth line) line 0") (auto simp: parsecmd_def fine_def Let_def split: prod.splits)
qed

section \<open>The words of a command\<close>

text \<open>A maximal run of word characters of the line.\<close>

definition word_at :: "cursor \<Rightarrow> word_ref \<Rightarrow> bool" where
  "word_at line w \<longleftrightarrow> suffix (fst w) line \<and> fst w = word_text w @ snd w \<and> word_text w \<noteq> []
     \<and> (\<forall>c \<in> set (word_text w). is_word c) \<and> (snd w = [] \<or> \<not> is_word (hd (snd w)))"

definition words_ok :: "cursor \<Rightarrow> word_ref cmd \<Rightarrow> bool" where
  "words_ok line c \<longleftrightarrow> (\<forall>w \<in> set_cmd c. word_at line w)"

definition sound :: "cursor \<Rightarrow> parsed \<Rightarrow> bool" where
  "sound line r \<longleftrightarrow> (case r of Inl _ \<Rightarrow> True | Inr (c, t, j) \<Rightarrow> suffix t line \<and> words_ok line c)"

lemma sound_simps [simp]: "sound line (Inr (c, t, j)) \<longleftrightarrow> suffix t line \<and> words_ok line c" "sound line (Inl e)"
  by (simp_all add: sound_def)

lemma sound_bind:
  assumes "sound line r" and "\<And>c t j. suffix t line \<Longrightarrow> words_ok line c \<Longrightarrow> sound line (k (c, t, j))"
  shows "sound line (bindE r k)"
  using assms by (cases r) auto

lemma words_ok_simps [simp]:
  "words_ok line (EXEC []) = True" "words_ok line (REDIR c w m fd) \<longleftrightarrow> words_ok line c \<and> word_at line w"
  "words_ok line (PIPE l r) \<longleftrightarrow> words_ok line l \<and> words_ok line r" "words_ok line (LIST l r) \<longleftrightarrow> words_ok line l \<and> words_ok line r"
  "words_ok line (BACK c) \<longleftrightarrow> words_ok line c"
  by (auto simp: words_ok_def)

lemma words_ok_add_arg: "words_ok line c \<Longrightarrow> word_at line w \<Longrightarrow> words_ok line (add_arg w c)"
  by (induction w c rule: add_arg.induct) (auto simp: words_ok_def)

lemma suffix_skip_space [intro]: "suffix s line \<Longrightarrow> suffix (skip_space s) line"
  unfolding skip_space_def by (rule suffix_order.trans [OF suffix_dropWhile])

lemma gettoken_shape:
  assumes "gettoken s = (tok, w, t)"
  shows "t = skip_space (snd w)"
    and "snd w = skip_space s \<or> snd w = tl (skip_space s) \<or> snd w = tl (tl (skip_space s)) \<or> snd w = dropWhile is_word (skip_space s)"
    and "tok = CHR ''a'' \<Longrightarrow> w = (skip_space s, dropWhile is_word (skip_space s)) \<and> deref (skip_space s) \<notin> set ''|();&<>'' \<and> deref (skip_space s) \<noteq> NUL"
proof -
  show "t = skip_space (snd w)" using assms by (auto simp: gettoken_def Let_def split: if_splits)
  show "snd w = skip_space s \<or> snd w = tl (skip_space s) \<or> snd w = tl (tl (skip_space s)) \<or> snd w = dropWhile is_word (skip_space s)"
    using assms by (auto simp: gettoken_def Let_def split: if_splits)
  show "w = (skip_space s, dropWhile is_word (skip_space s)) \<and> deref (skip_space s) \<notin> set ''|();&<>'' \<and> deref (skip_space s) \<noteq> NUL"
    if "tok = CHR ''a''"
    using assms that by (auto simp: gettoken_def Let_def NUL_def split: if_splits)
qed

lemma word_text_span: "word_text (q, dropWhile is_word q) = takeWhile is_word q"
proof -
  have "length q - length (dropWhile is_word q) = length (takeWhile is_word q)"
    by (metis add_diff_cancel_right' length_append takeWhile_dropWhile_id)
  then show ?thesis by (simp add: word_text_def takeWhile_eq_take [symmetric])
qed

lemma gettoken_suffix:
  assumes "gettoken s = (tok, w, t)" and "suffix s line"
  shows "suffix t line" "tok = CHR ''a'' \<Longrightarrow> word_at line w"
proof -
  let ?q = "skip_space s"
  have q: "suffix ?q line" using assms(2) by (rule suffix_skip_space)
  have tl: "suffix (tl x) line" if "suffix x line" for x :: cursor using that by (rule suffix_order.trans [OF suffix_tl])
  have "suffix (snd w) line" using gettoken_shape(2) [OF assms(1)]
  proof (elim disjE)
    assume "snd w = dropWhile is_word ?q"
    then show ?thesis using suffix_order.trans [OF suffix_dropWhile [of is_word ?q] q] by simp
  qed (simp_all add: q tl)
  then show "suffix t line" unfolding gettoken_shape(1) [OF assms(1)] by (rule suffix_skip_space)
  assume "tok = CHR ''a''"
  then have w: "w = (?q, dropWhile is_word ?q)" "deref ?q \<notin> set ''|();&<>''" "deref ?q \<noteq> NUL"
    using gettoken_shape(3) [OF assms(1)] by simp_all
  then obtain c p where p: "?q = c # p" by (cases ?q) auto
  have "c \<notin> set whitespace" using p hd_dropWhile [of "\<lambda>c. c \<in> set whitespace" s] by (auto simp: skip_space_def)
  then have "is_word c" using w(2) p by (simp add: is_word_def symbols_def)
  then have "takeWhile is_word ?q \<noteq> []" using p by simp
  then show "word_at line w"
    unfolding w(1) word_at_def word_text_span fst_conv snd_conv
    using q hd_dropWhile [of is_word ?q] by (auto dest: set_takeWhileD)
qed

lemma sound_malloc:
  assumes "\<And>j. sound line (k (c, j))"
  shows "sound line (bindE (bindE (malloc1 sz i) (\<lambda>i. Inr (c, i))) k)"
  using assms by (simp add: malloc1_def)

lemma parseredirs_sound: "suffix s line \<Longrightarrow> words_ok line cmd \<Longrightarrow> sound line (parseredirs n cmd s i)"
proof (induction n arbitrary: cmd s i)
  case (Suc n)
  obtain tok w t where g: "gettoken (skip_space s) = (tok, w, t)" by (cases "gettoken (skip_space s)") auto
  obtain kind w' t' where g': "gettoken t = (kind, w', t')" by (cases "gettoken t") auto
  have "suffix (skip_space s) line" "suffix t line" "suffix t' line" "kind = CHR ''a'' \<Longrightarrow> word_at line w'"
    using Suc.prems(1) gettoken_suffix(1) [OF g] gettoken_suffix [OF g'] by auto
  then show ?case
    using g g' Suc.prems(2)
    by (cases rule: peek_cases [of "''<>''" s]) (auto simp: constructor_defs intro!: sound_malloc Suc.IH)
qed simp

lemma parseback_sound: "suffix s line \<Longrightarrow> words_ok line cmd \<Longrightarrow> sound line (parseback n cmd s i)"
proof (induction n arbitrary: cmd s i)
  case (Suc n)
  obtain tok w t where g: "gettoken (skip_space s) = (tok, w, t)" by (cases "gettoken (skip_space s)") auto
  have "suffix (skip_space s) line" "suffix t line" using Suc.prems(1) gettoken_suffix(1) [OF g] by auto
  then show ?case
    using g Suc.prems(2) by (cases rule: peek_cases [of "''&''" s]) (auto simp: constructor_defs intro!: sound_malloc Suc.IH)
qed simp

lemma parseargs_sound: "suffix s line \<Longrightarrow> words_ok line ret \<Longrightarrow> sound line (parseargs n argc ret s i)"
proof (induction n arbitrary: argc ret s i)
  case (Suc n)
  obtain tok w t where g: "gettoken (skip_space s) = (tok, w, t)" by (cases "gettoken (skip_space s)") auto
  have "suffix (skip_space s) line" "suffix t line" "tok = CHR ''a'' \<Longrightarrow> word_at line w"
    using Suc.prems(1) gettoken_suffix [OF g] by auto
  then show ?case
    using g Suc.prems(2)
    by (cases rule: peek_cases [of "''|)&;''" s]) (auto intro!: sound_bind parseredirs_sound words_ok_add_arg Suc.IH)
qed simp

lemma gettoken_next: "gettoken (skip_space s) = (tok, w, t) \<Longrightarrow> suffix s line \<Longrightarrow> suffix t line"
  by (erule gettoken_suffix(1)) auto

lemma parse_sound:
  "(\<forall>s i. suffix s line \<longrightarrow> sound line (parseline n s i)) \<and> (\<forall>s i. suffix s line \<longrightarrow> sound line (parsepipe n s i))
   \<and> (\<forall>s i. suffix s line \<longrightarrow> sound line (parseexec n s i)) \<and> (\<forall>s i. suffix s line \<longrightarrow> sound line (parseblock n s i))"
proof (induction n)
  case (Suc n)
  then have IH: "suffix s line \<Longrightarrow> sound line (parseline n s i)" "suffix s line \<Longrightarrow> sound line (parsepipe n s i)"
    "suffix s line \<Longrightarrow> sound line (parseexec n s i)" "suffix s line \<Longrightarrow> sound line (parseblock n s i)" for s i by simp_all
  have "sound line (parseline (Suc n) s i)" if "suffix s line" for s i
    unfolding parseline.simps using that
    by (auto simp: constructor_defs peek_def Let_def suffix_skip_space split: prod.split intro!: sound_bind parseback_sound sound_malloc IH intro: gettoken_next)
  moreover have "sound line (parsepipe (Suc n) s i)" if "suffix s line" for s i
    unfolding parsepipe.simps using that
    by (auto simp: constructor_defs peek_def Let_def suffix_skip_space split: prod.split intro!: sound_bind sound_malloc IH intro: gettoken_next)
  moreover have "sound line (parseexec (Suc n) s i)" if "suffix s line" for s i
    unfolding parseexec.simps using that
    by (auto simp: constructor_defs peek_def Let_def suffix_skip_space split: prod.split intro!: sound_bind sound_malloc parseredirs_sound parseargs_sound IH intro: gettoken_next)
  moreover have "sound line (parseblock (Suc n) s i)" if "suffix s line" for s i
    unfolding parseblock.simps using that
    by (auto simp: peek_def Let_def suffix_skip_space split: prod.split intro!: sound_bind parseredirs_sound IH intro: gettoken_next)
  ultimately show ?case by blast
qed simp

lemma parsecmd_result:
  assumes "parsecmd line = Inr (c, b)"
  shows "words_ok line c" "b = nulterminate (length line) c (buffer_of line)"
proof -
  obtain t j where r: "parseline (parse_depth line) line 0 = Inr (c, t, j)" and "b = nulterminate (length line) c (buffer_of line)"
    using assms by (cases "parseline (parse_depth line) line 0") (auto simp: parsecmd_def Let_def split: prod.splits if_splits)
  then show "b = nulterminate (length line) c (buffer_of line)" by simp
  have "sound line (parseline (parse_depth line) line 0)" using parse_sound [of line "parse_depth line"] by simp
  then show "words_ok line c" unfolding r by simp
qed

text \<open>Termination writes only behind words, so it keeps the text of every word of the line.\<close>

lemma nulterminate_keeps:
  "(\<And>w. w \<in> set_cmd c \<Longrightarrow> n - length (snd w) \<noteq> p) \<Longrightarrow> nulterminate n c b p = b p"
proof (induction n c b rule: nulterminate.induct)
  case (1 n ws b)
  have "(\<And>w. w \<in> set ws \<Longrightarrow> n - length (snd w) \<noteq> p) \<Longrightarrow> fold (put_nul n) ws b p = b p" for b
    by (induction ws arbitrary: b) (auto simp: put_nul_def)
  with 1 show ?case by simp
qed (auto simp: put_nul_def)

lemma fold_put_nul: "b p = NUL \<or> (\<exists>w \<in> set ws. n - length (snd w) = p) \<Longrightarrow> fold (put_nul n) ws b p = NUL"
  by (induction ws arbitrary: b) (auto simp: put_nul_def)

lemma nulterminate_nul: "b p = NUL \<or> (\<exists>w \<in> set_cmd c. n - length (snd w) = p) \<Longrightarrow> nulterminate n c b p = NUL"
  by (induction n c b rule: nulterminate.induct) (auto simp: put_nul_def fold_put_nul)

definition reads :: "(nat \<Rightarrow> char) \<Rightarrow> nat \<Rightarrow> string \<Rightarrow> bool" where
  "reads b p w \<longleftrightarrow> (\<forall>k < length w. b (p + k) = w ! k \<and> b (p + k) \<noteq> NUL) \<and> b (p + length w) = NUL"

text \<open>
  C23: when parsing a line succeeds, every word of the command, an argument or a file name, is a maximal run of word characters of the line, and in
  the terminated buffer the string that starts at the word is exactly its text: terminating one word never cuts another one.
\<close>

theorem parsecmd_words:
  assumes "parsecmd line = Inr (c, b)" and "NUL \<notin> set line" and "w \<in> set_cmd c"
  shows "word_at line w \<and> reads b (length line - length (fst w)) (word_text w)"
proof -
  note b = parsecmd_result(2) [OF assms(1)]
  have at: "word_at line v" if "v \<in> set_cmd c" for v using parsecmd_result(1) [OF assms(1)] that by (simp add: words_ok_def)
  let ?p = "length line - length (fst w)" and ?t = "word_text w"
  from at [OF assms(3)] obtain pre where line: "line = pre @ ?t @ snd w" and word: "\<forall>x \<in> set ?t. is_word x"
    by (auto simp: word_at_def suffix_def)
  have p: "?p = length pre" using at [OF assms(3)] line by (metis add_diff_cancel_right' length_append word_at_def)
  have inside: "line ! (length pre + k) = ?t ! k" "length pre + k < length line" if "k < length ?t" for k
    using that unfolding line by (simp_all add: nth_append)
  have "b (?p + k) = ?t ! k \<and> b (?p + k) \<noteq> NUL" if k: "k < length ?t" for k
  proof -
    have "length line - length (snd v) \<noteq> ?p + k" if v: "v \<in> set_cmd c" for v
    proof
      assume eq: "length line - length (snd v) = ?p + k"
      obtain pre' where l': "line = pre' @ snd v" and stop: "snd v = [] \<or> \<not> is_word (hd (snd v))"
        using at [OF v] by (auto simp: word_at_def suffix_def)
      have "length pre' = length pre + k" using eq p l' by simp
      then have "line ! (length pre + k) = hd (snd v)" "snd v \<noteq> []"
        using l' inside(2) [OF k] by (auto simp: nth_append hd_conv_nth)
      then show False using stop inside(1) [OF k] word k nth_mem [OF k] by auto
    qed
    then have "b (?p + k) = line ! (length pre + k)"
      unfolding b using nulterminate_keeps [of c "length line" "?p + k"] inside(2) [OF k] p by (simp add: buffer_of_def)
    then show ?thesis using inside [OF k] assms(2) by (metis nth_mem)
  qed
  moreover have "b (?p + length ?t) = NUL"
  proof -
    have "length line - length (snd w) = ?p + length ?t" using p line by (metis add_diff_cancel_right' append.assoc length_append)
    then show ?thesis unfolding b using assms(3) by (intro nulterminate_nul) auto
  qed
  ultimately show ?thesis using at [OF assms(3)] unfolding reads_def by blast
qed

section \<open>Printing commands\<close>

text \<open>
  Commands as text.  The level says what may stand without parentheses: 0 a line, 1 a job, 2 a pipe, 3 a simple command.
\<close>

definition paren :: "bool \<Rightarrow> string \<Rightarrow> string" where
  "paren p s = (if p then ''('' @ s @ '')'' else s)"

definition show_words :: "string list \<Rightarrow> string" where
  "show_words ws = concat (map (\<lambda>w. w @ '' '') ws)"

definition show_redir :: "string \<Rightarrow> mode \<Rightarrow> string" where
  "show_redir fname m = (case m of ReadOnly \<Rightarrow> ''<'' | WriteCreate \<Rightarrow> ''>'') @ fname @ '' ''"

fun show_cmd :: "nat \<Rightarrow> string cmd \<Rightarrow> string" where
  "show_cmd k (EXEC ws) = show_words ws"
| "show_cmd k (REDIR c fname m fd) = show_cmd 3 c @ show_redir fname m"
| "show_cmd k (PIPE l r) = paren (k > 2) (show_cmd 3 l @ ''|'' @ show_cmd 2 r)"
| "show_cmd k (BACK c) = paren (k > 1) (show_cmd 1 c @ ''&'')"
| "show_cmd k (LIST l r) = paren (k > 0) (show_cmd 1 l @ '';'' @ show_cmd 0 r)"

text \<open>Commands the parser can build, and the memory they take.\<close>

definition good_word :: "string \<Rightarrow> bool" where
  "good_word w \<longleftrightarrow> w \<noteq> [] \<and> (\<forall>c \<in> set w. is_word c \<and> c \<noteq> NUL)"

definition mode_fd :: "mode \<Rightarrow> nat" where
  "mode_fd m = (case m of ReadOnly \<Rightarrow> 0 | WriteCreate \<Rightarrow> 1)"

fun wf_cmd :: "string cmd \<Rightarrow> bool" where
  "wf_cmd (EXEC ws) \<longleftrightarrow> length ws < MAXARGS \<and> (\<forall>w \<in> set ws. good_word w)"
| "wf_cmd (REDIR c fname m fd) \<longleftrightarrow> wf_cmd c \<and> good_word fname \<and> fd = mode_fd m"
| "wf_cmd (PIPE l r) \<longleftrightarrow> wf_cmd l \<and> wf_cmd r"
| "wf_cmd (LIST l r) \<longleftrightarrow> wf_cmd l \<and> wf_cmd r"
| "wf_cmd (BACK c) \<longleftrightarrow> wf_cmd c"

fun cmd_bytes :: "'a cmd \<Rightarrow> nat" where
  "cmd_bytes (EXEC ws) = 168"
| "cmd_bytes (REDIR c fname m fd) = cmd_bytes c + 40"
| "cmd_bytes (PIPE l r) = cmd_bytes l + cmd_bytes r + 24"
| "cmd_bytes (LIST l r) = cmd_bytes l + cmd_bytes r + 24"
| "cmd_bytes (BACK c) = cmd_bytes c + 16"

section \<open>Parsing what was printed\<close>

definition parses :: "parsed \<Rightarrow> string cmd \<Rightarrow> cursor \<Rightarrow> nat \<Rightarrow> bool" where
  "parses r c t j \<longleftrightarrow> (\<exists>c'. r = Inr (c', t, j) \<and> map_cmd word_text c' = c)"

lemma parses_bind:
  assumes "parses r c t j" and "\<And>c'. map_cmd word_text c' = c \<Longrightarrow> parses (k (c', t, j)) d u l"
  shows "parses (bindE r k) d u l"
  using assms by (auto simp: parses_def)

text \<open>What may follow a command: the end, or a character that ends it.\<close>

definition follow :: "string \<Rightarrow> cursor \<Rightarrow> bool" where
  "follow stops s \<longleftrightarrow> s = [] \<or> (hd s \<in> set stops \<and> set stops \<subseteq> set ''|)&;'')"

lemma not_space: "c \<in> set ''|)&;(<>'' \<Longrightarrow> c \<notin> set whitespace \<and> c \<noteq> NUL"
  by (auto simp: whitespace_def NUL_def)

lemma skip_space_id [simp]: "s = [] \<or> hd s \<notin> set whitespace \<Longrightarrow> skip_space s = s"
  by (cases s) (auto simp: skip_space_def)

lemma skip_space_blank [simp]: "skip_space (CHR '' '' # s) = skip_space s"
  by (simp add: skip_space_def whitespace_def)

lemma follow_skip: "follow stops s \<Longrightarrow> skip_space s = s"
proof -
  assume f: "follow stops s"
  have "hd s \<in> set ''|)&;(<>''" if "s \<noteq> []" using f that unfolding follow_def by auto
  then show ?thesis using not_space [of "hd s"] by (cases "s = []") simp_all
qed

lemma follow_mono: "follow stops s \<Longrightarrow> set stops \<subseteq> set stops' \<Longrightarrow> set stops' \<subseteq> set ''|)&;'' \<Longrightarrow> follow stops' s"
  by (auto simp: follow_def)

lemma peek_clean: "skip_space s = s \<Longrightarrow> peek toks s = (deref s \<noteq> NUL \<and> deref s \<in> set toks, s)"
  by (simp add: peek_def Let_def)

lemma gettoken_symbol: "c \<in> set ''|();&<'' \<Longrightarrow> gettoken (c # s) = (c, (c # s, s), skip_space s)"
proof -
  assume c: "c \<in> set ''|();&<''"
  then have "c \<in> set ''|)&;(<>''" by auto
  from not_space [OF this] have "skip_space (c # s) = c # s" "c \<noteq> NUL" by simp_all
  then show ?thesis unfolding gettoken_def Let_def using c by (simp only: deref_Cons if_True if_False list.sel prod.case refl)
qed

lemma gettoken_out: "deref s \<noteq> CHR ''>'' \<Longrightarrow> gettoken (CHR ''>'' # s) = (CHR ''>'', (CHR ''>'' # s, s), skip_space s)"
proof -
  assume s: "deref s \<noteq> CHR ''>''"
  have "skip_space (CHR ''>'' # s) = CHR ''>'' # s" "CHR ''>'' \<noteq> NUL" using not_space [of "CHR ''>''"] by simp_all
  then show ?thesis unfolding gettoken_def Let_def using s by simp
qed

lemma good_wordD:
  assumes "good_word w"
  shows "skip_space (w @ s) = w @ s" "deref (w @ s) \<noteq> NUL" "is_word (deref (w @ s))" "deref (w @ s) \<notin> set symbols"
proof -
  obtain c v where "w = c # v" using assms by (cases w) (auto simp: good_word_def)
  then show "skip_space (w @ s) = w @ s" "deref (w @ s) \<noteq> NUL" "is_word (deref (w @ s))" "deref (w @ s) \<notin> set symbols"
    using assms by (auto simp: good_word_def is_word_def)
qed

lemma gettoken_word:
  assumes "good_word w" and "s = [] \<or> \<not> is_word (hd s)"
  shows "gettoken (w @ s) = (CHR ''a'', (w @ s, s), skip_space s)" "word_text (w @ s, s) = w"
proof -
  have d: "dropWhile is_word (w @ s) = s" using assms by (cases s) (auto simp: good_word_def)
  show "gettoken (w @ s) = (CHR ''a'', (w @ s, s), skip_space s)"
    using good_wordD [OF assms(1), of s] d unfolding gettoken_def Let_def by (auto simp: symbols_def)
  show "word_text (w @ s, s) = w" by (simp add: word_text_def)
qed

definition show_redirs :: "(string \<times> mode) list \<Rightarrow> string" where
  "show_redirs rs = concat (map (\<lambda>(fname, m). show_redir fname m) rs)"

definition wrap :: "(string \<times> mode) list \<Rightarrow> string cmd \<Rightarrow> string cmd" where
  "wrap rs c = foldl (\<lambda>c (fname, m). REDIR c fname m (mode_fd m)) c rs"

definition redirs_ok :: "(string \<times> mode) list \<Rightarrow> bool" where
  "redirs_ok rs \<longleftrightarrow> (\<forall>(fname, m) \<in> set rs. good_word fname)"

lemma show_redirs_simps [simp]:
  "show_redirs [] = []"
  "show_redirs ((fname, m) # rs) = (case m of ReadOnly \<Rightarrow> CHR ''<'' | WriteCreate \<Rightarrow> CHR ''>'') # fname @ CHR '' '' # show_redirs rs"
  by (cases m; simp add: show_redirs_def show_redir_def)+

lemma wrap_simps [simp]: "wrap [] c = c" "wrap ((fname, m) # rs) c = wrap rs (REDIR c fname m (mode_fd m))"
  by (simp_all add: wrap_def)

lemma redirs_ok_simps [simp]: "redirs_ok []" "redirs_ok ((fname, m) # rs) \<longleftrightarrow> good_word fname \<and> redirs_ok rs"
  by (simp_all add: redirs_ok_def)

lemma redirs_clean: "follow stops rest \<Longrightarrow> skip_space (show_redirs rs @ rest) = show_redirs rs @ rest"
proof (cases rs)
  case (Cons r rs')
  obtain fname m where r: "r = (fname, m)" by fastforce
  show ?thesis using not_space [of "CHR ''<''"] not_space [of "CHR ''>''"] unfolding Cons r by (cases m) simp_all
qed (simp add: follow_skip)

lemma blank_not_word: "\<not> is_word (CHR '' '')"
  by (simp add: is_word_def whitespace_def)

text \<open>A redirection, read as the parser reads it: its sign, then its file.\<close>

lemma gettoken_redir:
  assumes "good_word fname" and "follow stops rest"
  shows "fst (gettoken (show_redirs ((fname, m) # rs) @ rest)) = (case m of ReadOnly \<Rightarrow> CHR ''<'' | WriteCreate \<Rightarrow> CHR ''>'')"
    and "snd (snd (gettoken (show_redirs ((fname, m) # rs) @ rest))) = fname @ CHR '' '' # show_redirs rs @ rest"
    and "gettoken (fname @ CHR '' '' # show_redirs rs @ rest)
      = (CHR ''a'', (fname @ CHR '' '' # show_redirs rs @ rest, CHR '' '' # show_redirs rs @ rest), show_redirs rs @ rest)"
    and "peek ''<>'' (show_redirs ((fname, m) # rs) @ rest) = (True, show_redirs ((fname, m) # rs) @ rest)"
proof -
  let ?more = "CHR '' '' # show_redirs rs @ rest"
  have w: "skip_space (fname @ ?more) = fname @ ?more" "deref (fname @ ?more) \<noteq> CHR ''>''"
    using good_wordD [OF assms(1), of ?more] by (auto simp: symbols_def)
  have g: "gettoken (show_redirs ((fname, m) # rs) @ rest)
      = ((case m of ReadOnly \<Rightarrow> CHR ''<'' | WriteCreate \<Rightarrow> CHR ''>''), (show_redirs ((fname, m) # rs) @ rest, fname @ ?more), fname @ ?more)"
    using gettoken_out [of "fname @ ?more"] gettoken_symbol [of "CHR ''<''" "fname @ ?more"] w by (cases m) simp_all
  show "fst (gettoken (show_redirs ((fname, m) # rs) @ rest)) = (case m of ReadOnly \<Rightarrow> CHR ''<'' | WriteCreate \<Rightarrow> CHR ''>'')"
    and "snd (snd (gettoken (show_redirs ((fname, m) # rs) @ rest))) = fname @ ?more"
    unfolding g by simp_all
  show "gettoken (fname @ ?more) = (CHR ''a'', (fname @ ?more, ?more), show_redirs rs @ rest)"
    using gettoken_word(1) [OF assms(1), of ?more] redirs_clean [OF assms(2)] blank_not_word by simp
  show "peek ''<>'' (show_redirs ((fname, m) # rs) @ rest) = (True, show_redirs ((fname, m) # rs) @ rest)"
    using peek_clean [OF redirs_clean [OF assms(2)], of "''<>''" "(fname, m) # rs"] by (cases m) (simp_all add: NUL_def)
qed

lemma parseredirs_stop:
  assumes "follow stops rest"
  shows "parseredirs (Suc n) cmd rest i = Inr (cmd, rest, i)"
proof -
  have "deref rest = NUL \<or> deref rest \<notin> set ''<>''" using assms unfolding follow_def by (cases rest) auto
  then show ?thesis using peek_clean [OF follow_skip [OF assms], of "''<>''"] by auto
qed

lemma parseredirs_show:
  assumes "redirs_ok rs" and "follow stops rest" and "length (show_redirs rs @ rest) < n" and "i + 40 * length rs \<le> MAXN"
  shows "parses (parseredirs n cmd (show_redirs rs @ rest) i) (wrap rs (map_cmd word_text cmd)) rest (i + 40 * length rs)"
  using assms
proof (induction rs arbitrary: cmd i n)
  case Nil
  then obtain k where "n = Suc k" by (cases n) auto
  then show ?case using parseredirs_stop [OF Nil.prems(2)] by (simp add: parses_def)
next
  case (Cons r rs)
  obtain fname m where r: "r = (fname, m)" by fastforce
  obtain k where n: "n = Suc k" using Cons.prems(3) by (cases n) auto
  have fname: "good_word fname" "redirs_ok rs" using Cons.prems(1) r by simp_all
  note g = gettoken_redir(1,2,4) [OF fname(1) Cons.prems(2), where rs = rs and m = m]
    and g' = gettoken_redir(3) [OF fname(1) Cons.prems(2), where rs = rs]
  let ?w = "(fname @ CHR '' '' # show_redirs rs @ rest, CHR '' '' # show_redirs rs @ rest)"
  have wt: "word_text ?w = fname" by (rule gettoken_word(2) [OF fname(1)]) (simp add: blank_not_word)
  have room: "i + 40 \<le> MAXN" "i + 40 + 40 * length rs \<le> MAXN" "length (show_redirs rs @ rest) < k"
    using Cons.prems(3,4) n r by (cases m; simp)+
  have "parseredirs n cmd (show_redirs (r # rs) @ rest) i = parseredirs k (REDIR cmd ?w m (mode_fd m)) (show_redirs rs @ rest) (i + 40)"
    unfolding n r parseredirs.simps g(3) Let_def using g(1,2) g' room(1)
    by (cases "gettoken (show_redirs ((fname, m) # rs) @ rest)", cases m) (simp_all add: redircmd_def malloc1_def mode_fd_def)
  then show ?case
    using Cons.IH [OF fname(2) Cons.prems(2) room(3), of "i + 40" "REDIR cmd ?w m (mode_fd m)"] room(2) wt r by (simp add: add.assoc)
qed

lemma show_words_simps [simp]: "show_words [] = []" "show_words (w # ws) = w @ CHR '' '' # show_words ws"
  by (simp_all add: show_words_def)

lemma words_clean:
  assumes "\<forall>w \<in> set ws. good_word w" and "follow stops rest"
  shows "skip_space (show_words ws @ show_redirs rs @ rest) = show_words ws @ show_redirs rs @ rest"
  using assms by (cases ws) (simp_all add: redirs_clean good_wordD)

lemma follow_peek: "follow stops s \<Longrightarrow> peek toks s = (s \<noteq> [] \<and> hd s \<in> set toks, s)"
proof -
  assume f: "follow stops s"
  have "hd s \<noteq> NUL" if "s \<noteq> []" using f that unfolding follow_def by (auto simp: NUL_def)
  then show ?thesis using peek_clean [OF follow_skip [OF f], of toks] by (cases s) auto
qed

lemma parseargs_stop:
  assumes "follow ''|)&;'' rest"
  shows "parseargs (Suc n) k ret rest i = Inr (ret, rest, i)"
proof (cases "rest = []")
  case True
  then show ?thesis by (simp add: peek_def gettoken_def Let_def)
next
  case False
  then have "hd rest \<in> set ''|)&;''" using assms unfolding follow_def by blast
  then show ?thesis using False follow_peek [OF assms, of "''|)&;''"] by simp
qed

lemma parseargs_show:
  assumes "\<forall>w \<in> set ws. good_word w" and "ws \<noteq> []" and "k + length ws < MAXARGS" and "redirs_ok rs" and "follow ''|)&;'' rest"
    and "length (show_words ws @ show_redirs rs @ rest) < n" and "i + 40 * length rs \<le> MAXN"
  shows "parses (parseargs n k (EXEC vs) (show_words ws @ show_redirs rs @ rest) i)
    (wrap rs (EXEC (map word_text vs @ ws))) rest (i + 40 * length rs)"
  using assms
proof (induction ws arbitrary: k vs n)
  case (Cons w ws)
  obtain p where n: "n = Suc p" using Cons.prems(6) by (cases n) auto
  let ?more = "show_words ws @ show_redirs rs @ rest"
  let ?w = "(w @ CHR '' '' # ?more, CHR '' '' # ?more)"
  have good: "good_word w" "\<forall>w \<in> set ws. good_word w" using Cons.prems(1) by simp_all
  have clean: "skip_space ?more = ?more" by (rule words_clean [OF good(2) Cons.prems(5)])
  have g: "gettoken (w @ CHR '' '' # ?more) = (CHR ''a'', ?w, ?more)" "word_text ?w = w"
    using gettoken_word [OF good(1), of "CHR '' '' # ?more"] blank_not_word clean by simp_all
  have p: "peek ''|)&;'' (w @ CHR '' '' # ?more) = (False, w @ CHR '' '' # ?more)"
    using good_wordD [OF good(1), of "CHR '' '' # ?more"] by (auto simp: peek_def Let_def symbols_def)
  have room: "length ?more < p" "k + 1 < MAXARGS" using Cons.prems(3,6) n by simp_all
  have step: "parseargs n k (EXEC vs) (show_words (w # ws) @ show_redirs rs @ rest) i
      = bindE (parseredirs p (EXEC (vs @ [?w])) ?more i) (\<lambda>(ret, s, i). parseargs p (k + 1) ret s i)"
    using p g room(2) by (simp add: n NUL_def)
  obtain p' where p': "p = Suc p'" using room(1) by (cases p) auto
  show ?case
  proof (cases "ws = []")
    case True
    have "parses (parseredirs p (EXEC (vs @ [?w])) (show_redirs rs @ rest) i) (wrap rs (EXEC (map word_text vs @ [w]))) rest (i + 40 * length rs)"
      using parseredirs_show [OF Cons.prems(4,5) _ Cons.prems(7), of p "EXEC (vs @ [?w])"] room(1) g(2) True by simp
    then show ?thesis
      unfolding step using True parseargs_stop [OF Cons.prems(5), of p'] by (auto intro!: parses_bind simp: p') (auto simp: parses_def)
  next
    case False
    have "parseredirs p (EXEC (vs @ [?w])) ?more i = Inr (EXEC (vs @ [?w]), ?more, i)"
    proof -
      obtain v us where ws: "ws = v # us" using False by (cases ws) auto
      have "deref ?more \<notin> set ''<>''"
        using good_wordD(4) [of v "CHR '' '' # show_words us @ show_redirs rs @ rest"] good(2) unfolding ws by (auto simp: symbols_def)
      then show ?thesis unfolding p' using peek_clean [OF clean, of "''<>''"] by auto
    qed
    then show ?thesis
      unfolding step
      using Cons.IH [OF good(2) False _ Cons.prems(4,5) room(1) Cons.prems(7), of "k + 1" "vs @ [?w]"] Cons.prems(3) g(2) by simp
  qed
qed simp

lemma parseexec_show:
  assumes "\<forall>w \<in> set ws. good_word w" and "length ws < MAXARGS" and "redirs_ok rs" and "follow ''|)&;'' rest"
    and "length (show_words ws @ show_redirs rs @ rest) < n" and "i + 168 + 40 * length rs \<le> MAXN"
  shows "parses (parseexec (Suc n) (show_words ws @ show_redirs rs @ rest) i) (wrap rs (EXEC ws)) rest (i + 168 + 40 * length rs)"
proof -
  let ?s = "show_words ws @ show_redirs rs @ rest"
  have clean: "skip_space ?s = ?s" by (rule words_clean [OF assms(1,4)])
  have first: "deref ?s \<noteq> CHR ''(''"
  proof (cases ws)
    case Nil
    have "deref rest \<noteq> CHR ''(''" using assms(4) unfolding follow_def by (cases rest) (auto simp: NUL_def)
    then show ?thesis using Nil by (cases rs) (auto split: mode.splits)
  next
    case (Cons w us)
    then show ?thesis using good_wordD(4) [of w "CHR '' '' # show_words us @ show_redirs rs @ rest"] assms(1) by (auto simp: symbols_def)
  qed
  have step: "parseexec (Suc n) ?s i = bindE (parseredirs n (EXEC []) ?s (i + 168)) (\<lambda>(ret, s, i). parseargs n 0 ret s i)"
    using peek_clean [OF clean, of "''(''"] first assms(6) by (simp add: execcmd_def malloc1_def)
  obtain p where p: "n = Suc p" using assms(5) by (cases n) auto
  show ?thesis
  proof (cases "ws = []")
    case True
    then have "parses (parseredirs n (EXEC []) ?s (i + 168)) (wrap rs (EXEC [])) rest (i + 168 + 40 * length rs)"
      using parseredirs_show [OF assms(3,4), of n "i + 168" "EXEC []"] assms(5,6) by simp
    then show ?thesis
      unfolding step using True parseargs_stop [OF assms(4), of p] by (auto intro!: parses_bind simp: p) (auto simp: parses_def)
  next
    case False
    then obtain v us where ws: "ws = v # us" by (cases ws) auto
    have "deref ?s \<notin> set ''<>''"
      using good_wordD(4) [of v "CHR '' '' # show_words us @ show_redirs rs @ rest"] assms(1) unfolding ws by (auto simp: symbols_def)
    then have "parseredirs n (EXEC []) ?s (i + 168) = Inr (EXEC [], ?s, i + 168)"
      unfolding p using peek_clean [OF clean, of "''<>''"] by auto
    then show ?thesis
      unfolding step using parseargs_show [OF assms(1) False _ assms(3-5), of 0 "i + 168" "[]"] assms(2,6) by simp
  qed
qed

lemma follow_cons [simp]: "set stops \<subseteq> set ''|)&;'' \<Longrightarrow> c \<in> set stops \<Longrightarrow> follow stops (c # s)"
  by (simp add: follow_def)

lemma show_clean:
  assumes "wf_cmd c" and "redirs_ok rs" and "follow ''|)&;'' rest"
  shows "skip_space (show_cmd k c @ show_redirs rs @ rest) = show_cmd k c @ show_redirs rs @ rest"
  using assms
proof (induction c arbitrary: k rs rest)
  case (EXEC ws)
  then show ?case by (simp add: words_clean)
next
  case (REDIR c fname m fd)
  then show ?case using REDIR.IH [of "(fname, m) # rs" rest 3] by (cases m) (simp_all add: show_redir_def)
next
  case (PIPE l r)
  have "skip_space (CHR ''('' # x) = CHR ''('' # x" for x using not_space [of "CHR ''(''"] by simp
  then show ?case using PIPE(1) [of "[]" "CHR ''|'' # show_cmd 2 r @ show_redirs rs @ rest" 3] PIPE.prems by (simp add: paren_def)
next
  case (LIST l r)
  have "skip_space (CHR ''('' # x) = CHR ''('' # x" for x using not_space [of "CHR ''(''"] by simp
  then show ?case using LIST(1) [of "[]" "CHR '';'' # show_cmd 0 r @ show_redirs rs @ rest" 1] LIST.prems by (simp add: paren_def)
next
  case (BACK c)
  have "skip_space (CHR ''('' # x) = CHR ''('' # x" for x using not_space [of "CHR ''(''"] by simp
  then show ?case using BACK(1) [of "[]" "CHR ''&'' # show_redirs rs @ rest" 1] BACK.prems by (simp add: paren_def)
qed

definition exec_ok :: "string cmd \<Rightarrow> bool" where
  "exec_ok c \<longleftrightarrow> (\<forall>rs rest i n. redirs_ok rs \<longrightarrow> follow ''|)&;'' rest \<longrightarrow> 4 * length (show_cmd 3 c @ show_redirs rs @ rest) + 2 \<le> n
     \<longrightarrow> i + cmd_bytes c + 40 * length rs \<le> MAXN
     \<longrightarrow> parses (parseexec n (show_cmd 3 c @ show_redirs rs @ rest) i) (wrap rs c) rest (i + cmd_bytes c + 40 * length rs))"

definition pipe_ok :: "string cmd \<Rightarrow> bool" where
  "pipe_ok c \<longleftrightarrow> (\<forall>rest i n. follow '')&;'' rest \<longrightarrow> 4 * length (show_cmd 2 c @ rest) + 3 \<le> n \<longrightarrow> i + cmd_bytes c \<le> MAXN
     \<longrightarrow> parses (parsepipe n (show_cmd 2 c @ rest) i) c rest (i + cmd_bytes c))"

definition job_ok :: "string cmd \<Rightarrow> bool" where
  "job_ok c \<longleftrightarrow> (\<forall>k rest i n. follow '');'' rest \<longrightarrow> 4 * length (show_cmd 1 c @ replicate k (CHR ''&'') @ rest) + 3 \<le> n
     \<longrightarrow> i + cmd_bytes c + 16 * k \<le> MAXN
     \<longrightarrow> parses (bindE (parsepipe n (show_cmd 1 c @ replicate k (CHR ''&'') @ rest) i) (\<lambda>(c, s, i). parseback n c s i))
            ((BACK ^^ k) c) rest (i + cmd_bytes c + 16 * k))"

definition line_ok :: "string cmd \<Rightarrow> bool" where
  "line_ok c \<longleftrightarrow> (\<forall>rest i n. follow '')'' rest \<longrightarrow> 4 * length (show_cmd 0 c @ rest) + 4 \<le> n \<longrightarrow> i + cmd_bytes c \<le> MAXN
     \<longrightarrow> parses (parseline n (show_cmd 0 c @ rest) i) c rest (i + cmd_bytes c))"

lemma pipe_of_exec:
  assumes "exec_ok c" and "show_cmd 2 c = show_cmd 3 c"
  shows "pipe_ok c"
  unfolding pipe_ok_def
proof (intro allI impI)
  fix rest i n
  assume f: "follow '')&;'' rest" and n: "4 * length (show_cmd 2 c @ rest) + 3 \<le> n" and i: "i + cmd_bytes c \<le> MAXN"
  obtain p where p: "n = Suc p" using n by (cases n) auto
  have f': "follow ''|)&;'' rest" by (rule follow_mono [OF f]) auto
  have e: "parses (parseexec p (show_cmd 2 c @ rest) i) c rest (i + cmd_bytes c)"
    using assms(1) [unfolded exec_ok_def, rule_format, of "[]" rest p i] f' n i p assms(2) by simp
  have "rest \<noteq> [] \<Longrightarrow> hd rest \<noteq> CHR ''|''" using f unfolding follow_def by auto
  then have "peek ''|'' rest = (False, rest)" using follow_peek [OF f] by auto
  then show "parses (parsepipe n (show_cmd 2 c @ rest) i) c rest (i + cmd_bytes c)"
    unfolding p parsepipe.simps by (intro parses_bind [OF e]) (simp add: parses_def)
qed

lemma pipe_of_parts:
  assumes "exec_ok l" and "pipe_ok r" and "wf_cmd r"
  shows "pipe_ok (PIPE l r)"
  unfolding pipe_ok_def
proof (intro allI impI)
  fix rest i n
  let ?tail = "show_cmd 2 r @ rest"
  assume f: "follow '')&;'' rest" and n: "4 * length (show_cmd 2 (PIPE l r) @ rest) + 3 \<le> n" and i: "i + cmd_bytes (PIPE l r) \<le> MAXN"
  obtain p where p: "n = Suc p" using n by (cases n) auto
  have f': "follow ''|)&;'' rest" by (rule follow_mono [OF f]) auto
  have e: "parses (parseexec p (show_cmd 3 l @ CHR ''|'' # ?tail) i) l (CHR ''|'' # ?tail) (i + cmd_bytes l)"
    using assms(1) [unfolded exec_ok_def, rule_format, of "[]" "CHR ''|'' # ?tail" p i] n i p by (simp add: paren_def)
  have e': "parses (parsepipe p ?tail (i + cmd_bytes l)) r rest (i + cmd_bytes l + cmd_bytes r)"
    using assms(2) [unfolded pipe_ok_def, rule_format, of rest p "i + cmd_bytes l"] f n i p by (simp add: paren_def)
  have pk: "peek ''|'' (CHR ''|'' # ?tail) = (True, CHR ''|'' # ?tail)"
    using follow_peek [of "''|''" "CHR ''|'' # ?tail"] by simp
  have g: "gettoken (CHR ''|'' # ?tail) = (CHR ''|'', (CHR ''|'' # ?tail, ?tail), ?tail)"
    using gettoken_symbol [of "CHR ''|''" ?tail] show_clean [OF assms(3) redirs_ok_simps(1) f', of 2] by simp
  from e obtain l' where l': "parseexec p (show_cmd 3 l @ CHR ''|'' # ?tail) i = Inr (l', CHR ''|'' # ?tail, i + cmd_bytes l)"
    "map_cmd word_text l' = l" by (auto simp: parses_def)
  from e' obtain r' where r': "parsepipe p ?tail (i + cmd_bytes l) = Inr (r', rest, i + cmd_bytes l + cmd_bytes r)"
    "map_cmd word_text r' = r" by (auto simp: parses_def)
  have "parsepipe n (show_cmd 2 (PIPE l r) @ rest) i = Inr (PIPE l' r', rest, i + cmd_bytes (PIPE l r))"
    using p l'(1) r'(1) pk g i by (simp add: paren_def pipecmd_def malloc1_def add.assoc)
  then show "parses (parsepipe n (show_cmd 2 (PIPE l r) @ rest) i) (PIPE l r) rest (i + cmd_bytes (PIPE l r))"
    using l'(2) r'(2) by (simp add: parses_def)
qed

lemma parseback_show:
  assumes "follow '');'' rest" and "length (replicate k (CHR ''&'') @ rest) < n" and "i + 16 * k \<le> MAXN"
  shows "parseback n cmd (replicate k (CHR ''&'') @ rest) i = Inr ((BACK ^^ k) cmd, rest, i + 16 * k)"
  using assms
proof (induction k arbitrary: cmd i n)
  case 0
  then obtain p where p: "n = Suc p" by (cases n) auto
  have "rest \<noteq> [] \<Longrightarrow> hd rest \<noteq> CHR ''&''" using 0(1) unfolding follow_def by auto
  then have "peek ''&'' rest = (False, rest)" using follow_peek [OF 0(1)] by auto
  then show ?case by (simp add: p)
next
  case (Suc k)
  obtain p where p: "n = Suc p" using Suc.prems(2) by (cases n) auto
  let ?tail = "replicate k (CHR ''&'') @ rest"
  have clean: "skip_space ?tail = ?tail" using follow_skip [OF Suc.prems(1)] not_space [of "CHR ''&''"] by (cases k) simp_all
  have "peek ''&'' (CHR ''&'' # ?tail) = (True, CHR ''&'' # ?tail)" using follow_peek [of "''&''" "CHR ''&'' # ?tail"] by simp
  moreover have "gettoken (CHR ''&'' # ?tail) = (CHR ''&'', (CHR ''&'' # ?tail, ?tail), ?tail)"
    using gettoken_symbol [of "CHR ''&''" ?tail] clean by simp
  ultimately show ?case
    using Suc.IH [OF Suc.prems(1), of p "i + 16" "BACK cmd"] Suc.prems(2,3) p
    by (simp add: backcmd_def malloc1_def funpow_swap1 add.assoc)
qed

lemma map_cmd_backs: "map_cmd f ((BACK ^^ k) c) = (BACK ^^ k) (map_cmd f c)"
  by (induction k) simp_all

lemma job_of_pipe:
  assumes "pipe_ok c" and "show_cmd 1 c = show_cmd 2 c"
  shows "job_ok c"
  unfolding job_ok_def
proof (intro allI impI)
  fix k rest i n
  let ?tail = "replicate k (CHR ''&'') @ rest"
  assume f: "follow '');'' rest" and n: "4 * length (show_cmd 1 c @ ?tail) + 3 \<le> n" and i: "i + cmd_bytes c + 16 * k \<le> MAXN"
  have "follow '')&;'' rest" by (rule follow_mono [OF f]) auto
  then have f': "follow '')&;'' ?tail" by (cases k) auto
  have "parses (parsepipe n (show_cmd 1 c @ ?tail) i) c ?tail (i + cmd_bytes c)"
    using assms(1) [unfolded pipe_ok_def, rule_format, of ?tail n i] f' n i assms(2) by simp
  then obtain c' where c': "parsepipe n (show_cmd 1 c @ ?tail) i = Inr (c', ?tail, i + cmd_bytes c)" "map_cmd word_text c' = c"
    by (auto simp: parses_def)
  show "parses (bindE (parsepipe n (show_cmd 1 c @ ?tail) i) (\<lambda>(c, s, i). parseback n c s i)) ((BACK ^^ k) c) rest (i + cmd_bytes c + 16 * k)"
    using c' parseback_show [OF f, of k n "i + cmd_bytes c" c'] n i by (simp add: parses_def map_cmd_backs)
qed

lemma job_of_back:
  assumes "job_ok c"
  shows "job_ok (BACK c)"
  unfolding job_ok_def
proof (intro allI impI)
  fix k rest i n
  assume a: "follow '');'' rest" "4 * length (show_cmd 1 (BACK c) @ replicate k (CHR ''&'') @ rest) + 3 \<le> n" "i + cmd_bytes (BACK c) + 16 * k \<le> MAXN"
  have s: "show_cmd 1 (BACK c) @ replicate k (CHR ''&'') @ rest = show_cmd 1 c @ replicate (Suc k) (CHR ''&'') @ rest"
    by (simp add: paren_def)
  show "parses (bindE (parsepipe n (show_cmd 1 (BACK c) @ replicate k (CHR ''&'') @ rest) i) (\<lambda>(c, s, i). parseback n c s i))
      ((BACK ^^ k) (BACK c)) rest (i + cmd_bytes (BACK c) + 16 * k)"
    using assms [unfolded job_ok_def, rule_format, of rest "Suc k" n i] a unfolding s by (simp add: funpow_swap1 add.assoc)
qed

lemma line_of_job:
  assumes "job_ok c" and "show_cmd 0 c = show_cmd 1 c"
  shows "line_ok c"
  unfolding line_ok_def
proof (intro allI impI)
  fix rest i n
  assume f: "follow '')'' rest" and n: "4 * length (show_cmd 0 c @ rest) + 4 \<le> n" and i: "i + cmd_bytes c \<le> MAXN"
  obtain p where p: "n = Suc p" using n by (cases n) auto
  have f': "follow '');'' rest" by (rule follow_mono [OF f]) auto
  have e: "parses (bindE (parsepipe p (show_cmd 0 c @ rest) i) (\<lambda>(c, s, i). parseback p c s i)) c rest (i + cmd_bytes c)"
    using assms(1) [unfolded job_ok_def, rule_format, of rest 0 p i] f' n i p assms(2) by simp
  have "rest \<noteq> [] \<Longrightarrow> hd rest \<noteq> CHR '';''" using f unfolding follow_def by auto
  then have "peek '';'' rest = (False, rest)" using follow_peek [OF f] by auto
  then show "parses (parseline n (show_cmd 0 c @ rest) i) c rest (i + cmd_bytes c)"
    using e unfolding p by (cases "parsepipe p (show_cmd 0 c @ rest) i") (auto simp: parses_def)
qed

lemma line_of_parts:
  assumes "job_ok l" and "line_ok r" and "wf_cmd r"
  shows "line_ok (LIST l r)"
  unfolding line_ok_def
proof (intro allI impI)
  fix rest i n
  let ?tail = "show_cmd 0 r @ rest"
  assume f: "follow '')'' rest" and n: "4 * length (show_cmd 0 (LIST l r) @ rest) + 4 \<le> n" and i: "i + cmd_bytes (LIST l r) \<le> MAXN"
  obtain p where p: "n = Suc p" using n by (cases n) auto
  have f': "follow ''|)&;'' rest" by (rule follow_mono [OF f]) auto
  have "parses (bindE (parsepipe p (show_cmd 1 l @ CHR '';'' # ?tail) i) (\<lambda>(c, s, i). parseback p c s i)) l (CHR '';'' # ?tail) (i + cmd_bytes l)"
    using assms(1) [unfolded job_ok_def, rule_format, of "CHR '';'' # ?tail" 0 p i] n i p by (simp add: paren_def)
  then obtain l' where l': "bindE (parsepipe p (show_cmd 1 l @ CHR '';'' # ?tail) i) (\<lambda>(c, s, i). parseback p c s i)
      = Inr (l', CHR '';'' # ?tail, i + cmd_bytes l)" "map_cmd word_text l' = l" by (auto simp: parses_def)
  have "parses (parseline p ?tail (i + cmd_bytes l)) r rest (i + cmd_bytes l + cmd_bytes r)"
    using assms(2) [unfolded line_ok_def, rule_format, of rest p "i + cmd_bytes l"] f n i p by (simp add: paren_def)
  then obtain r' where r': "parseline p ?tail (i + cmd_bytes l) = Inr (r', rest, i + cmd_bytes l + cmd_bytes r)"
    "map_cmd word_text r' = r" by (auto simp: parses_def)
  have pk: "peek '';'' (CHR '';'' # ?tail) = (True, CHR '';'' # ?tail)" using follow_peek [of "'';''" "CHR '';'' # ?tail"] by simp
  have g: "gettoken (CHR '';'' # ?tail) = (CHR '';'', (CHR '';'' # ?tail, ?tail), ?tail)"
    using gettoken_symbol [of "CHR '';''" ?tail] show_clean [OF assms(3) redirs_ok_simps(1) f', of 0] by simp
  have "parseline n (show_cmd 0 (LIST l r) @ rest) i = Inr (LIST l' r', rest, i + cmd_bytes (LIST l r))"
    using l'(1) r'(1) pk g i unfolding p
    by (cases "parsepipe p (show_cmd 1 l @ CHR '';'' # ?tail) i") (auto simp: paren_def listcmd_def malloc1_def add.assoc)
  then show "parses (parseline n (show_cmd 0 (LIST l r) @ rest) i) (LIST l r) rest (i + cmd_bytes (LIST l r))"
    using l'(2) r'(2) by (simp add: parses_def)
qed

lemma exec_of_line:
  assumes "line_ok c" and "wf_cmd c" and block: "show_cmd 3 c = CHR ''('' # show_cmd 0 c @ '')''"
  shows "exec_ok c"
  unfolding exec_ok_def
proof (intro allI impI)
  fix rs rest i n
  let ?redirs = "show_redirs rs @ rest"
  let ?body = "show_cmd 0 c @ CHR '')'' # ?redirs"
  assume rs: "redirs_ok rs" and f: "follow ''|)&;'' rest" and n: "4 * length (show_cmd 3 c @ ?redirs) + 2 \<le> n"
    and i: "i + cmd_bytes c + 40 * length rs \<le> MAXN"
  obtain q where q: "n = Suc (Suc q)" using n block by (cases n; cases "n - 1") auto
  have len: "4 * length ?body + 4 \<le> q" "length ?redirs < q" using n block q by simp_all
  have "parses (parseline q ?body i) c (CHR '')'' # ?redirs) (i + cmd_bytes c)"
    using assms(1) [unfolded line_ok_def, rule_format, of "CHR '')'' # ?redirs" q i] len i by simp
  then obtain c' where c': "parseline q ?body i = Inr (c', CHR '')'' # ?redirs, i + cmd_bytes c)" "map_cmd word_text c' = c"
    by (auto simp: parses_def)
  have pk: "peek ''('' (CHR ''('' # ?body) = (True, CHR ''('' # ?body)" using not_space [of "CHR ''(''"] by (simp add: peek_clean)
  have g: "gettoken (CHR ''('' # ?body) = (CHR ''('', (CHR ''('' # ?body, ?body), ?body)"
    using gettoken_symbol [of "CHR ''(''" ?body] show_clean [OF assms(2) redirs_ok_simps(1), of "CHR '')'' # ?redirs" 0] by simp
  have pk': "peek '')'' (CHR '')'' # ?redirs) = (True, CHR '')'' # ?redirs)" using follow_peek [of "'')''" "CHR '')'' # ?redirs"] by simp
  have g': "gettoken (CHR '')'' # ?redirs) = (CHR '')'', (CHR '')'' # ?redirs, ?redirs), ?redirs)"
    using gettoken_symbol [of "CHR '')''" ?redirs] redirs_clean [OF f] by simp
  have s: "show_cmd 3 c @ ?redirs = CHR ''('' # ?body" unfolding block by simp
  have "parseexec n (show_cmd 3 c @ ?redirs) i = parseredirs q c' ?redirs (i + cmd_bytes c)"
    unfolding q s using pk g pk' g' c'(1) by simp
  then show "parses (parseexec n (show_cmd 3 c @ ?redirs) i) (wrap rs c) rest (i + cmd_bytes c + 40 * length rs)"
    using parseredirs_show [OF rs f len(2) i, of c'] c'(2) by simp
qed

lemma exec_of_redir:
  assumes "exec_ok c" and "good_word fname" and "fd = mode_fd m"
  shows "exec_ok (REDIR c fname m fd)"
  unfolding exec_ok_def
proof (intro allI impI)
  fix rs rest i n
  have s: "show_cmd 3 (REDIR c fname m fd) @ show_redirs rs @ rest = show_cmd 3 c @ show_redirs ((fname, m) # rs) @ rest"
    by (cases m) (simp_all add: show_redir_def)
  assume "redirs_ok rs" "follow ''|)&;'' rest" "4 * length (show_cmd 3 (REDIR c fname m fd) @ show_redirs rs @ rest) + 2 \<le> n"
    "i + cmd_bytes (REDIR c fname m fd) + 40 * length rs \<le> MAXN"
  then show "parses (parseexec n (show_cmd 3 (REDIR c fname m fd) @ show_redirs rs @ rest) i)
      (wrap rs (REDIR c fname m fd)) rest (i + cmd_bytes (REDIR c fname m fd) + 40 * length rs)"
    using assms(1) [unfolded exec_ok_def, rule_format, of "(fname, m) # rs" rest n i] assms(2,3) unfolding s by (simp add: add.assoc)
qed

lemma exec_of_words: "wf_cmd (EXEC ws) \<Longrightarrow> exec_ok (EXEC ws)"
  unfolding exec_ok_def
proof (intro allI impI)
  fix rs rest i n
  assume a: "wf_cmd (EXEC ws)" "redirs_ok rs" "follow ''|)&;'' rest" "4 * length (show_cmd 3 (EXEC ws) @ show_redirs rs @ rest) + 2 \<le> n"
    "i + cmd_bytes (EXEC ws) + 40 * length rs \<le> MAXN"
  obtain p where p: "n = Suc p" using a(4) by (cases n) auto
  show "parses (parseexec n (show_cmd 3 (EXEC ws) @ show_redirs rs @ rest) i) (wrap rs (EXEC ws)) rest (i + cmd_bytes (EXEC ws) + 40 * length rs)"
    using parseexec_show [of ws rs rest p i] a p by simp
qed

lemma parse_show: "wf_cmd c \<Longrightarrow> exec_ok c \<and> pipe_ok c \<and> job_ok c \<and> line_ok c"
proof (induction c)
  case (EXEC ws)
  then have "exec_ok (EXEC ws)" by (rule exec_of_words)
  then show ?case using pipe_of_exec job_of_pipe line_of_job by simp
next
  case (REDIR c fname m fd)
  then have "exec_ok (REDIR c fname m fd)" using exec_of_redir by simp
  then show ?case using pipe_of_exec job_of_pipe line_of_job by simp
next
  case (PIPE l r)
  then have "pipe_ok (PIPE l r)" using pipe_of_parts by simp
  moreover from this have "job_ok (PIPE l r)" by (rule job_of_pipe) (simp add: paren_def)
  moreover from this have "line_ok (PIPE l r)" by (rule line_of_job) (simp add: paren_def)
  ultimately show ?case using exec_of_line [OF _ PIPE.prems] by (simp add: paren_def)
next
  case (LIST l r)
  then have line: "line_ok (LIST l r)" using line_of_parts by simp
  then have exec: "exec_ok (LIST l r)" using exec_of_line [OF _ LIST.prems] by (simp add: paren_def)
  then have pipe: "pipe_ok (LIST l r)" by (rule pipe_of_exec) (simp add: paren_def)
  then have "job_ok (LIST l r)" by (rule job_of_pipe) (simp add: paren_def)
  with line exec pipe show ?case by simp
next
  case (BACK c)
  then have job: "job_ok (BACK c)" using job_of_back by simp
  then have line: "line_ok (BACK c)" by (rule line_of_job) (simp add: paren_def)
  then have exec: "exec_ok (BACK c)" using exec_of_line [OF _ BACK.prems] by (simp add: paren_def)
  then have "pipe_ok (BACK c)" by (rule pipe_of_exec) (simp add: paren_def)
  with job line exec show ?case by simp
qed

text \<open>
  C24: a command of words without special characters, with fewer than 10 words per simple command, and small enough for the memory of the
  parser, comes back when it is printed and the line is parsed: the parser builds the same tree and the same words,
  so it respects the binding of redirections, pipes, background jobs, sequences and parentheses.
\<close>

theorem parsecmd_show:
  assumes "wf_cmd c" and "cmd_bytes c \<le> MAXN"
  shows "\<exists>c' b. parsecmd (show_cmd 0 c) = Inr (c', b) \<and> map_cmd word_text c' = c"
proof -
  have "parses (parseline (parse_depth (show_cmd 0 c)) (show_cmd 0 c @ []) 0) c [] (0 + cmd_bytes c)"
  proof -
    have "line_ok c" using parse_show [OF assms(1)] by simp
    from this [unfolded line_ok_def, rule_format, of "[]" "parse_depth (show_cmd 0 c)" 0] show ?thesis
      using assms(2) by (simp add: follow_def parse_depth_def)
  qed
  then obtain c' where "parseline (parse_depth (show_cmd 0 c)) (show_cmd 0 c) 0 = Inr (c', [], cmd_bytes c)" "map_cmd word_text c' = c"
    by (auto simp: parses_def)
  then show ?thesis by (simp add: parsecmd_def peek_def Let_def)
qed

definition sample_cmd :: "string cmd" where
  "sample_cmd = LIST (BACK (PIPE (REDIR (EXEC [''cat'']) ''in'' ReadOnly 0) (EXEC [''wc'', ''x'']))) (REDIR (LIST (EXEC [''ls'']) (EXEC [''pwd''])) ''out'' WriteCreate 1)"

lemma sample_cmd_text: "show_cmd 0 sample_cmd = ''cat <in |wc x &;(ls ;pwd )>out ''"
  by (simp add: sample_cmd_def paren_def show_redir_def)

lemma sample_cmd_wf: "wf_cmd sample_cmd" "cmd_bytes sample_cmd \<le> MAXN"
  by (simp_all add: sample_cmd_def MAXARGS_def MAXN_def good_word_def is_word_def whitespace_def symbols_def NUL_def mode_fd_def)

theorem parsecmd_show_witness:
  "\<exists>c' b. parsecmd ''cat <in |wc x &;(ls ;pwd )>out '' = Inr (c', b) \<and> map_cmd word_text c' = sample_cmd"
  using parsecmd_show [OF sample_cmd_wf] unfolding sample_cmd_text .

theorem parsecmd_words_witness:
  "\<exists>b. parsecmd ''ls a'' = Inr (EXEC [(''ls a'', '' a''), (''a'', [])], b) \<and> reads b 3 ''a''"
proof -
  have p: "parsecmd ''ls a'' = Inr (EXEC [(''ls a'', '' a''), (''a'', [])], nulterminate (length ''ls a'') (EXEC [(''ls a'', '' a''), (''a'', [])]) (buffer_of ''ls a''))"
  proof -
    have "parseline (parse_depth ''ls a'') ''ls a'' 0 = Inr (EXEC [(''ls a'', '' a''), (''a'', [])], [], 168)" by code_simp
    then show ?thesis by (simp add: parsecmd_def peek_def Let_def)
  qed
  have "NUL \<notin> set ''ls a''" by (simp add: NUL_def)
  from parsecmd_words [OF p this, of "(''a'', [])"] show ?thesis using p by (simp add: word_text_def numeral_3_eq_3)
qed

section \<open>The files of the processes that a command starts\<close>

text \<open>
  The calls go through the C library, which is not part of the repository, so the system is a parameter: what opening, duplicating, closing and
  making a pipe do to the descriptors of a process (\<open>None\<close> when the call fails), whether forking works, which programs can be
  executed and which directories entered.  Given it, a command starts programs with descriptor tables; \<open>started\<close> lists them, those of a forked child
  before those of its parent, with the number of the next pipe.
\<close>

datatype endpoint = Inherited nat | FileEnd string mode | ReadEnd nat | WriteEnd nat

type_synonym fds = "nat \<rightharpoonup> endpoint"

definition lowest :: "fds \<Rightarrow> nat" where
  "lowest t = (LEAST n. t n = None)"

record os =
  os_open :: "string \<Rightarrow> mode \<Rightarrow> fds \<Rightarrow> fds option"
  os_pipe :: "nat \<Rightarrow> fds \<Rightarrow> ((nat \<times> nat) \<times> fds) option"
  os_dup :: "nat \<Rightarrow> fds \<Rightarrow> fds"
  os_close :: "nat \<Rightarrow> fds \<Rightarrow> fds"
  os_fork :: bool
  os_exec :: "string list \<Rightarrow> bool"
  os_chdir :: "string \<Rightarrow> bool"

primrec started :: "prog \<Rightarrow> os \<Rightarrow> fds \<Rightarrow> nat \<Rightarrow> (string list \<times> fds) list \<times> nat" where
  "started (Exit s) os t k = ([], k)"
| "started (Execv ws p) os t k = (if os_exec os ws then ([(ws, t)], k) else started p os t k)"
| "started (Close n p) os t k = started p os (os_close os n t) k"
| "started (Open fname m fl p) os t k = (case os_open os fname m t of None \<Rightarrow> started fl os t k | Some t \<Rightarrow> started p os t k)"
| "started (MkPipe fl p) os t k =
     (case os_pipe os k t of None \<Rightarrow> started fl os t k | Some ((r, w), t) \<Rightarrow> started (p r w) os t (k + 1))"
| "started (Dup n p) os t k = started p os (os_dup os n t) k"
| "started (Fork child parent fl) os t k =
     (if os_fork os then let (xs, k) = started child os t k; (ys, k) = started parent os t k in (xs @ ys, k)
      else started fl os t k)"
| "started (Wait p) os t k = started p os t k"
| "started (Chdir d fl p) os t k = (if os_chdir os d then started p os t k else started fl os t k)"
| "started (Say m p) os t k = started p os t k"

text \<open>
  What POSIX says of the calls when nothing fails: opening and duplicating take the lowest free descriptor, a pipe the two lowest.  And what the
  kernel of this repository does for a pipe: its table has no such call, so the default answers 0, with no descriptor opened and whatever
  was in the array \<^verbatim>\<open>p\<close> left there.
\<close>

definition posix_files :: "os \<Rightarrow> bool" where
  "posix_files os \<longleftrightarrow> (\<forall>f m t. os_open os f m t = Some (t(lowest t \<mapsto> FileEnd f m)))
     \<and> (\<forall>n t. os_dup os n t = (case t n of None \<Rightarrow> t | Some e \<Rightarrow> t(lowest t \<mapsto> e))) \<and> (\<forall>n t. os_close os n t = t(n := None))
     \<and> os_fork os \<and> (\<forall>ws. os_exec os ws)"

definition posix_pipe :: "os \<Rightarrow> bool" where
  "posix_pipe os \<longleftrightarrow> (\<forall>k t. os_pipe os k t =
     (let r = lowest t; t = t(r \<mapsto> ReadEnd k); w = lowest t in Some ((r, w), t(w \<mapsto> WriteEnd k))))"

definition default_pipe :: "os \<Rightarrow> nat \<Rightarrow> nat \<Rightarrow> bool" where
  "default_pipe os g0 g1 \<longleftrightarrow> (\<forall>k t. os_pipe os k t = Some ((g0, g1), t))"

lemma posix_simps:
  assumes "posix_files os"
  shows "os_open os f m t = Some (t(lowest t \<mapsto> FileEnd f m))" "os_dup os n t = (case t n of None \<Rightarrow> t | Some e \<Rightarrow> t(lowest t \<mapsto> e))"
    "os_close os n t = t(n := None)" "os_fork os" "os_exec os ws"
  using assms by (simp_all add: posix_files_def)

text \<open>What a command means: the programs it starts and where their descriptors lead.\<close>

fun wires :: "string cmd \<Rightarrow> fds \<Rightarrow> nat \<Rightarrow> (string list \<times> fds) list \<times> nat" where
  "wires (EXEC ws) t k = (if ws = [] then [] else [(ws, t)], k)"
| "wires (REDIR c fname m fd) t k = wires c (t(fd \<mapsto> FileEnd fname m)) k"
| "wires (LIST l r) t k = (let (xs, k) = wires l t k; (ys, k) = wires r t k in (xs @ ys, k))"
| "wires (PIPE l r) t k =
     (let (xs, k') = wires l (t(1 \<mapsto> WriteEnd k)) (k + 1); (ys, k') = wires r (t(0 \<mapsto> ReadEnd k)) k' in (xs @ ys, k'))"
| "wires (BACK c) t k = wires c t k"

lemma lowest_eqI:
  assumes "t n = None" and "\<And>j. j < n \<Longrightarrow> t j \<noteq> None"
  shows "lowest t = n"
  unfolding lowest_def
proof (rule Least_equality)
  show "t n = None" by (rule assms(1))
  show "n \<le> y" if "t y = None" for y using assms(2) [of y] that by (cases "y < n") simp_all
qed

lemma lowest_free: "finite (dom t) \<Longrightarrow> t (lowest t) = None"
proof -
  assume "finite (dom t)"
  then obtain n where "n \<notin> dom t" using ex_new_if_finite infinite_UNIV_nat by blast
  then have "t n = None" by (simp add: domIff)
  then show ?thesis unfolding lowest_def by (rule LeastI)
qed

definition std_fds :: "fds \<Rightarrow> bool" where
  "std_fds t \<longleftrightarrow> finite (dom t) \<and> t 0 \<noteq> None \<and> t 1 \<noteq> None"

lemma pipe_fds:
  assumes "std_fds t" and "r = lowest t" and "w = lowest (t(r \<mapsto> ReadEnd k))"
  shows "t r = None" "t w = None" "r \<noteq> w" "1 < r" "1 < w"
proof -
  have fin: "finite (dom (t(r \<mapsto> ReadEnd k)))" "t 0 \<noteq> None" "t 1 \<noteq> None" using assms(1) by (simp_all add: std_fds_def)
  show "t r = None" using lowest_free [of t] assms(1,2) by (simp add: std_fds_def)
  have "(t(r \<mapsto> ReadEnd k)) w = None" using lowest_free [OF fin(1)] assms(3) by simp
  then show "t w = None" "r \<noteq> w" by (auto split: if_splits)
  have "r \<noteq> 0" "r \<noteq> 1" "w \<noteq> 0" "w \<noteq> 1" using fin(2,3) \<open>t r = None\<close> \<open>t w = None\<close> by metis+
  then show "1 < r" "1 < w" by linarith+
qed

lemma posix_wires:
  assumes os: "posix_files os" "posix_pipe os"
  shows "wf_cmd c \<Longrightarrow> std_fds t \<Longrightarrow> started (runcmd c) os t k = wires c t k"
proof (induction c arbitrary: t k)
  case (REDIR c fname m fd)
  have fd: "fd = 0 \<or> fd = 1" using REDIR.prems(1) by (cases m) (auto simp: mode_fd_def)
  have "lowest (t(fd := None)) = fd" using fd REDIR.prems(2) by (intro lowest_eqI) (auto simp: std_fds_def less_Suc_eq)
  moreover have "std_fds (t(fd \<mapsto> FileEnd fname m))" using REDIR.prems(2) by (auto simp: std_fds_def)
  ultimately show ?case using REDIR.IH REDIR.prems(1) by (simp add: posix_simps [OF os(1)])
next
  case (PIPE l r)
  define p0 p1 where "p0 = lowest t" and "p1 = lowest (t(p0 \<mapsto> ReadEnd k))"
  note p = pipe_fds [OF PIPE.prems(2) p0_def p1_def]
  let ?t = "t(p0 \<mapsto> ReadEnd k, p1 \<mapsto> WriteEnd k)"
  have low: "lowest (?t(1 := None)) = 1" "lowest (?t(0 := None)) = 0"
    using PIPE.prems(2) p(4,5) by (auto intro!: lowest_eqI simp: std_fds_def less_Suc_eq)
  have dup: "os_dup os p1 (?t(1 := None)) = ?t(1 \<mapsto> WriteEnd k)" "os_dup os p0 (?t(0 := None)) = ?t(0 \<mapsto> ReadEnd k)"
    using p unfolding posix_simps(2) [OF os(1)] low by simp_all
  have eq: "?t(1 \<mapsto> WriteEnd k, p0 := None, p1 := None) = t(1 \<mapsto> WriteEnd k)"
    "?t(0 \<mapsto> ReadEnd k, p0 := None, p1 := None) = t(0 \<mapsto> ReadEnd k)"
    using p by (auto simp: fun_eq_iff)
  have std: "std_fds (t(1 \<mapsto> WriteEnd k))" "std_fds (t(0 \<mapsto> ReadEnd k))" using PIPE.prems(2) by (auto simp: std_fds_def)
  have l: "started (Close 1 (Dup p1 (Close p0 (Close p1 (runcmd l))))) os ?t j = wires l (t(1 \<mapsto> WriteEnd k)) j" for j
    using PIPE.IH(1) [OF _ std(1)] PIPE.prems(1) by (simp only: started.simps posix_simps(3) [OF os(1)] dup eq wf_cmd.simps)
  have r: "started (Close 0 (Dup p0 (Close p0 (Close p1 (runcmd r))))) os ?t j = wires r (t(0 \<mapsto> ReadEnd k)) j" for j
    using PIPE.IH(2) [OF _ std(2)] PIPE.prems(1) by (simp only: started.simps posix_simps(3) [OF os(1)] dup eq wf_cmd.simps)
  have "os_pipe os k t = Some ((p0, p1), ?t)" using os(2) by (simp add: posix_pipe_def p0_def p1_def Let_def)
  then have "started (runcmd (PIPE l r)) os t k = started (fork1 (Close 1 (Dup p1 (Close p0 (Close p1 (runcmd l)))))
         (fork1 (Close 0 (Dup p0 (Close p0 (Close p1 (runcmd r)))))
           (Close p0 (Close p1 (Wait (Wait (Exit 0))))))) os ?t (k + 1)"
    by (simp only: runcmd.simps started.simps option.case prod.case)
  also have "\<dots> = wires (PIPE l r) t k"
    unfolding fork1_def started.simps(7) l r by (simp add: posix_simps [OF os(1)] split: prod.split)
  finally show ?case .
qed (auto simp: fork1_def posix_simps [OF os(1)] split: prod.split)

lemma default_wires:
  assumes os: "posix_files os" "default_pipe os g0 g1" and g: "t g0 = None" "t g1 = None" and std: "std_fds t"
  shows "started (runcmd (PIPE l r)) os t k
    = (let (xs, k') = started (runcmd l) os (t(1 := None)) (k + 1); (ys, k') = started (runcmd r) os (t(0 := None)) k' in (xs @ ys, k'))"
proof -
  have ne: "g0 \<noteq> 0" "g0 \<noteq> 1" "g1 \<noteq> 0" "g1 \<noteq> 1" using g std by (auto simp: std_fds_def intro: ccontr)
  then have "t(1 := None, g0 := None, g1 := None) = t(1 := None)" "t(0 := None, g0 := None, g1 := None) = t(0 := None)"
    using g by (auto simp: fun_eq_iff)
  then show ?thesis
    using os(2) g ne by (simp add: default_pipe_def fork1_def posix_simps [OF os(1)] split: prod.split)
qed

text \<open>
  C25: where a command's descriptors lead, on a system whose other calls succeed and follow POSIX.  If its pipes follow POSIX too, running a
  command that the parser can build, with the standard input and output open, starts
  exactly the programs of the command with the descriptors it describes: a redirection replaces one
  descriptor, the two sides of a pipe share the two ends of a fresh pipe, and no other end of a pipe stays open in them.  If making a pipe
  does what the default call of this kernel does, and the left-over numbers in \<^verbatim>\<open>p\<close> are no open descriptors, the two sides of a pipe are
  not connected: the left one runs with its standard output closed, the right one with its standard input closed.
\<close>

theorem runcmd_wires:
  assumes "posix_files os" and "std_fds t"
  shows "(posix_pipe os \<and> wf_cmd c \<longrightarrow> started (runcmd c) os t k = wires c t k)
    \<and> (default_pipe os g0 g1 \<and> t g0 = None \<and> t g1 = None \<and> ws \<noteq> [] \<and> vs \<noteq> [] \<longrightarrow>
        started (runcmd (PIPE (EXEC ws) (EXEC vs))) os t k = ([(ws, t(1 := None)), (vs, t(0 := None))], k + 1))"
proof (intro conjI impI)
  show "started (runcmd c) os t k = wires c t k" if "posix_pipe os \<and> wf_cmd c"
    using posix_wires [OF assms(1) _ _ assms(2)] that by blast
  assume d: "default_pipe os g0 g1 \<and> t g0 = None \<and> t g1 = None \<and> ws \<noteq> [] \<and> vs \<noteq> []"
  then have "started (runcmd (EXEC ws)) os t' k' = ([(ws, t')], k')" "started (runcmd (EXEC vs)) os t' k' = ([(vs, t')], k')" for t' k'
    by (simp_all add: posix_simps [OF assms(1)])
  then show "started (runcmd (PIPE (EXEC ws) (EXEC vs))) os t k = ([(ws, t(1 := None)), (vs, t(0 := None))], k + 1)"
    using default_wires [OF assms(1) _ _ _ assms(2), of g0 g1 "EXEC ws" "EXEC vs" k] d by (simp del: runcmd.simps)
qed

definition posix_os :: os where
  "posix_os = \<lparr>os_open = \<lambda>f m t. Some (t(lowest t \<mapsto> FileEnd f m)),
     os_pipe = \<lambda>k t. let r = lowest t; t = t(r \<mapsto> ReadEnd k); w = lowest t in Some ((r, w), t(w \<mapsto> WriteEnd k)),
     os_dup = \<lambda>n t. case t n of None \<Rightarrow> t | Some e \<Rightarrow> t(lowest t \<mapsto> e), os_close = \<lambda>n t. t(n := None), os_fork = True, os_exec = \<lambda>_. True, os_chdir = \<lambda>_. True\<rparr>"

theorem runcmd_wires_witness:
  "started (runcmd (PIPE (EXEC [''a'']) (EXEC [''b'']))) posix_os [0 \<mapsto> Inherited 0, 1 \<mapsto> Inherited 1] 7
     = ([([''a''], [0 \<mapsto> Inherited 0, 1 \<mapsto> WriteEnd 7]), ([''b''], [0 \<mapsto> ReadEnd 7, 1 \<mapsto> Inherited 1])], 8)
   \<and> started (runcmd (PIPE (EXEC [''a'']) (EXEC [''b'']))) (posix_os\<lparr>os_pipe := \<lambda>k t. Some ((40, 41), t)\<rparr>) [0 \<mapsto> Inherited 0, 1 \<mapsto> Inherited 1] 7
     = ([([''a''], [0 \<mapsto> Inherited 0]), ([''b''], [1 \<mapsto> Inherited 1])], 8)"
proof -
  let ?t = "[0 \<mapsto> Inherited 0, 1 \<mapsto> Inherited 1] :: fds" and ?os = "posix_os\<lparr>os_pipe := \<lambda>k t. Some ((40, 41), t)\<rparr>"
  let ?c = "PIPE (EXEC [''a'']) (EXEC [''b''])"
  have "wf_cmd ?c"
    by (simp add: MAXARGS_def good_word_def is_word_def whitespace_def symbols_def NUL_def)
  moreover have std: "std_fds ?t" by (simp add: std_fds_def)
  moreover have "posix_files posix_os" "posix_pipe posix_os" "posix_files ?os" "default_pipe ?os 40 41"
    by (simp_all add: posix_files_def posix_pipe_def default_pipe_def posix_os_def)
  ultimately have "started (runcmd ?c) posix_os ?t 7 = wires ?c ?t 7"
    "started (runcmd ?c) ?os ?t 7 = ([([''a''], ?t(1 := None)), ([''b''], ?t(0 := None))], 7 + 1)"
    using runcmd_wires [of posix_os ?t ?c 7] runcmd_wires [of ?os ?t ?c 7 40 41 "[''a'']" "[''b'']"] by simp_all
  moreover have "?t(1 := None) = [0 \<mapsto> Inherited 0]" "?t(0 := None) = [1 \<mapsto> Inherited 1]" by (simp_all add: fun_eq_iff)
  ultimately show ?thesis by (simp add: fun_upd_twist)
qed

end
