(* ===== verification/Spec2Isabelle.thy ===== *)
theory Spec2Isabelle
  imports Kernel_Tables Mkfs Process Shell
begin

text \<open>
  A model of the teaching kernel under \<^verbatim>\<open>src/\<close> and of the programs beside it, with the theorems that make its parts correct.

  \<^bold>\<open>The program.\<close>  The kernel runs on the four cores of an AArch64 board.  Its lower part is a page allocator
  (\<^verbatim>\<open>core/physical_memory.c\<close>), an allocator of small objects on top of it (\<^verbatim>\<open>core/arena.c\<close>), page tables
  (\<^verbatim>\<open>core/virtual_memory.c\<close>), locks, a console and formatted output.  The file system is a block cache with a write-ahead log
  (\<^verbatim>\<open>fs/cache.c\<close>), inodes, directories and paths (\<^verbatim>\<open>fs/inode.c\<close>) and a table of open files (\<^verbatim>\<open>fs/file.c\<close>).
  Processes, schedulers and containers (\<^verbatim>\<open>core/proc.c\<close>, \<^verbatim>\<open>core/sched.c\<close>, \<^verbatim>\<open>core/container.c\<close>) run user programs, which enter
  the kernel through system calls (\<^verbatim>\<open>core/syscall.c\<close>, \<^verbatim>\<open>core/sysfile.c\<close>).  The shell (\<^verbatim>\<open>user/sh/main.c\<close>) is one of these programs.

  \<^bold>\<open>Conventions.\<close>  Integers have the width of the C type; pointers are 64-bit words and \<^verbatim>\<open>NULL\<close> is 0.  A routine that can
  fail returns \<open>error + result\<close>: a panic or failed assertion with its message, a null dereference, an access outside an array, \<open>Blocked\<close> for
  a call that would sleep or spin for ever, and \<open>OutOfFuel\<close> where recursion is bounded by fuel.  State is passed explicitly in a record per
  component.  What a lock protects is one step; the locks themselves and the scheduler are also modelled as interleavings of such steps.
  The machine is little endian.  Whatever the sources take from elsewhere (constants and structures of the C library, addresses of the linker)
  is an argument.

  \<^bold>\<open>Theories.\<close>
  \<^item> \<open>Prelude\<close>: word types, errors and their sequencing, searching loops, byte encodings.
  \<^item> \<open>Common_Defs\<close>, \<open>Mem_String\<close>, \<open>Bitmap\<close>, \<open>Circular_List\<close>, \<open>Format\<close>: the directory \<^verbatim>\<open>common/\<close>.  Rounding,
    reference counts, memory and string routines with overlapping buffers, bit arrays, the intrusive list over a heap of nodes, the formatter.
  \<^item> \<open>Physical_Memory\<close> and \<open>Arena\<close>: the allocators.  Pages and objects handed out are distinct, lie where they should and come back.
  \<^item> \<open>Kernel_Tables\<close>: the static tables of \<^verbatim>\<open>aarch64/kernel_pt.c\<close>, entry by entry, and what they translate.
  \<^item> \<open>Virtual_Memory\<close> and \<open>Address_Space\<close>: page tables of four levels in the memory of the page allocator.  Mapping changes the translation of its range
    and nothing else; freeing returns every page of an address space exactly once;
    copying builds an address space with the same contents out of free pages.
  \<^item> \<open>Block_Cache\<close>, \<open>Cache_Log\<close>, \<open>Transaction\<close>: \<^verbatim>\<open>fs/cache.c\<close>.  Acquiring, releasing and evicting blocks; logging, commit and
    recovery, shown atomic for every prefix of the device writes that reaches the disk; the interface of one operation, and block allocation.
    The place and size of the log are those of the super block.  The processes that sleep on the channels of the cache are in its state (\<open>asleep\<close>), and
    the end of the last operation is shown to wake them and to leave nothing to wait for.
  \<^item> \<open>Inode\<close>, \<open>File_Content\<close>, \<open>Directory\<close>: \<^verbatim>\<open>fs/inode.c\<close>.  The content of a file is a byte list read off the disk blocks; reads return it,
    writes splice into it, and a directory is a list of entries.
  \<^item> \<open>Mkfs\<close>: \<^verbatim>\<open>user/mkfs/main.c\<close>.  The image holds the given files; \<^verbatim>\<open>inode_lookup\<close> and \<^verbatim>\<open>inode_read\<close> of the kernel find them in it.
  \<^item> \<open>Console\<close>: line editing, reading and printing over the characters sent to the UART, with the processes that wait for a line (\<open>readers\<close>).
  \<^item> \<open>Locks\<close> and \<open>Scheduler\<close>: spin locks and sleep locks as interleavings; process states, waking and waiting on several CPUs; process
    identifiers along the chain of containers.
  \<^item> \<open>Process\<close>: creation, \<^verbatim>\<open>fork\<close>, \<^verbatim>\<open>exit\<close> and \<^verbatim>\<open>wait\<close> over the process tables, the memory and the file system together (record \<open>kernel\<close>).  A child
    gets copies of the memory, registers and files of its parent; a round of fork, exit and wait loses the first page directory of the child.
  \<^item> \<open>File_Table\<close> and \<open>Syscall\<close>: open files and descriptors, the arguments of system calls, their dispatch, and every file system call.  Reference counts
    equal the number of descriptors; user ranges are checked up to wrap-around.
  \<^item> \<open>Shell\<close>: lexer, parser and execution of command lines.  The parser ends on every line, its words lie in the line, parsing the text of a
    command gives the command back, and running it starts the programs with the descriptors its pipes prescribe.
    The system under the shell is a parameter (record \<open>os\<close>): the statements are for the pipe of POSIX and for the default call this kernel has in its place.

  \<^bold>\<open>Interfaces.\<close>  Where a component relies on another, the contract is a locale and the provider interprets it on the definitions of the
  model: \<open>bit_array\<close> (bitmaps), \<open>front_list\<close> (lists), \<open>page_allocator\<close> (pages, for arenas and page tables), \<open>object_arena\<close>
  (objects, for the block cache and inodes), \<open>block_store\<close> (blocks inside an operation, for inodes), and \<open>ref_table\<close> (open files, for descriptors).

  \<^bold>\<open>Bounds and fuel.\<close>  Loops over arrays and buffers are structural or have a measure.  Fuel appears in three places: the depth of the chain
  of containers, the rounds of \<^verbatim>\<open>clear_arena\<close>, and the depth of the shell parser, where fuel linear in the length of the line is shown to be enough.

  \<^bold>\<open>Simplifications.\<close>  Waking (\<open>wake\<close>, \<open>wakeup_sleepers\<close>, \<open>readers\<close>) reaches sleepers of one process table, the one \<^verbatim>\<open>wakeup\<close> scans.  The free
  pages of processes (\<open>k_mem\<close>) and those of the arenas of the file system are two lists of the model and one list of the kernel.  Messages that the
  kernel and \<^verbatim>\<open>mkfs\<close> print on the way, outside \<open>Console\<close>, are left out.

  \<^bold>\<open>Not modelled.\<close>  Assembly (\<^verbatim>\<open>start.S\<close>, \<^verbatim>\<open>asm/\<close>), system registers and intrinsics have no counterpart in a model of the C code.  Drivers
  (\<^verbatim>\<open>driver/sd.c\<close>, mailbox, GPIO, timers, interrupt controller) program device registers whose behaviour is not part of the sources; the disk is a map
  from block numbers to sectors and the console a stream of characters.  Boot code and routines named \<^verbatim>\<open>test\<close> are left out.
  So are the loading of programs (\<^verbatim>\<open>core/exec.c\<close>), the split of exceptions (\<^verbatim>\<open>core/trap.c\<close>), the switch between nested schedulers
  (\<^verbatim>\<open>yield_scheduler\<close>, \<^verbatim>\<open>spawn_container\<close>) and the smaller user programs.
\<close>

end
